(* ===== verification/Prelude.thy ===== *)
theory Prelude
  imports Main "HOL-Library.Word"
begin

text \<open>
  Shared vocabulary of the development: the machine integers of the 68000 target
  (\<open>char\<close> 8 bits and signed, \<open>short\<close> 16, \<open>int\<close> and \<open>long\<close> 32 bits, pointers 32 bits,
  big-endian memory), byte buffers as lists, the big-endian loads and stores through which
  the C code reads structs out of byte buffers, and the generic lemmas on words and lists
  that the component theories share. The collection \<open>word_nat\<close> moves the masks and shifts
  of the code to arithmetic on natural numbers.
\<close>

unbundle bit_operations_syntax

section \<open>Machine integers\<close>

type_synonym u8 = "8 word"
type_synonym u16 = "16 word"
type_synonym u32 = "32 word"
type_synonym u64 = "64 word"

type_synonym bytes = "u8 list"

text \<open>A C condition is an integer; the code's comparisons and flags produce 0 or 1.\<close>

abbreviation c_bool :: "bool \<Rightarrow> u32" where
  "c_bool b \<equiv> (if b then 1 else 0)"

section \<open>Big-endian access to byte buffers\<close>

definition be16 :: "bytes \<Rightarrow> nat \<Rightarrow> u16" where
  "be16 b i = word_cat (b ! i) (b ! (i + 1))"

definition be32 :: "bytes \<Rightarrow> nat \<Rightarrow> u32" where
  "be32 b i = word_cat (be16 b i) (be16 b (i + 2))"

text \<open>
  The on-disk structures of FAT are little-endian; \<open>le16\<close> and \<open>le32\<close> are the values the
  format assigns to the bytes, the reference for the code's byte swapping.
\<close>

definition le16 :: "bytes \<Rightarrow> nat \<Rightarrow> u16" where
  "le16 b i = word_cat (b ! (i + 1)) (b ! i)"

definition le32 :: "bytes \<Rightarrow> nat \<Rightarrow> u32" where
  "le32 b i = word_cat (le16 b (i + 2)) (le16 b i)"

definition hi8 :: "u16 \<Rightarrow> u8" where
  "hi8 w = ucast (drop_bit 8 w)"

definition lo8 :: "u16 \<Rightarrow> u8" where
  "lo8 w = ucast w"

definition hi16 :: "u32 \<Rightarrow> u16" where
  "hi16 w = ucast (drop_bit 16 w)"

definition lo16 :: "u32 \<Rightarrow> u16" where
  "lo16 w = ucast w"

definition put_be16 :: "bytes \<Rightarrow> nat \<Rightarrow> u16 \<Rightarrow> bytes" where
  "put_be16 b i w = b[i := hi8 w, i + 1 := lo8 w]"

definition put_be32 :: "bytes \<Rightarrow> nat \<Rightarrow> u32 \<Rightarrow> bytes" where
  "put_be32 b i w = put_be16 (put_be16 b i (hi16 w)) (i + 2) (lo16 w)"

text \<open>A block of bytes stored over the start of a buffer, and at an offset.\<close>

definition overlay :: "bytes \<Rightarrow> bytes \<Rightarrow> bytes" where
  "overlay xs b = xs @ drop (length xs) b"

definition store_at :: "nat \<Rightarrow> bytes \<Rightarrow> bytes \<Rightarrow> bytes" where
  "store_at i xs b = take i b @ xs @ drop (i + length xs) b"

lemma length_put_be16 [simp]: "length (put_be16 b i w) = length b"
  by (simp add: put_be16_def)

lemma length_put_be32 [simp]: "length (put_be32 b i w) = length b"
  by (simp add: put_be32_def)

lemma length_overlay [simp]: "length xs \<le> length b \<Longrightarrow> length (overlay xs b) = length b"
  by (simp add: overlay_def)

lemma nth_overlay_low [simp]: "i < length xs \<Longrightarrow> overlay xs b ! i = xs ! i"
  by (simp add: overlay_def nth_append)

lemma length_store_at [simp]:
  "i + length xs \<le> length b \<Longrightarrow> length (store_at i xs b) = length b"
  by (simp add: store_at_def)

lemma nth_store_at:
  assumes "i + length xs \<le> length b" "j < length b"
  shows "store_at i xs b ! j = (if i \<le> j \<and> j < i + length xs then xs ! (j - i) else b ! j)"
  using assms by (auto simp: store_at_def nth_append min_def)

text \<open>Loads after stores.\<close>

lemma word_cat_hi8_lo8 [simp]: "(word_cat (hi8 w) (lo8 w) :: u16) = w"
  by (rule bit_word_eqI) (auto simp: hi8_def lo8_def bit_simps)

lemma word_cat_hi16_lo16 [simp]: "(word_cat (hi16 w) (lo16 w) :: u32) = w"
  by (rule bit_word_eqI) (auto simp: hi16_def lo16_def bit_simps)

lemma hi8_lo8_word_cat [simp]: "hi8 (word_cat a (b :: u8)) = a" "lo8 (word_cat (a :: u8) b) = b"
  by (rule bit_word_eqI; auto simp: hi8_def lo8_def bit_simps)+

lemma hi16_lo16_word_cat [simp]: "hi16 (word_cat a (b :: u16)) = a" "lo16 (word_cat (a :: u16) b) = b"
  by (rule bit_word_eqI; auto simp: hi16_def lo16_def bit_simps)+

lemma u16_bytes: obtains a b where "w = (word_cat (a :: u8) (b :: u8) :: u16)"
  by (metis word_cat_hi8_lo8)

lemma u32_bytes:
  obtains a b c d :: u8
  where "w = (word_cat (word_cat a b :: u16) (word_cat c d :: u16) :: u32)"
  by (metis word_cat_hi8_lo8 word_cat_hi16_lo16)

lemma be16_put_be16 [simp]: "i + 1 < length b \<Longrightarrow> be16 (put_be16 b i w) i = w"
  by (simp add: be16_def put_be16_def)

lemma be16_put_be16_other:
  "j + 1 < i \<or> i + 1 < j \<Longrightarrow> be16 (put_be16 b i w) j = be16 b j"
  by (auto simp: be16_def put_be16_def)

lemma be32_put_be32 [simp]:
  assumes "i + 3 < length b"
  shows "be32 (put_be32 b i w) i = w"
proof -
  have "be16 (put_be32 b i w) i = hi16 w"
    using assms by (simp add: put_be32_def be16_put_be16_other)
  moreover have "be16 (put_be32 b i w) (i + 2) = lo16 w"
    using assms by (simp add: put_be32_def)
  ultimately show ?thesis by (simp add: be32_def)
qed

section \<open>Masks and shifts as arithmetic\<close>

named_theorems word_nat

lemma unat_take_bit: "unat (take_bit n w) = unat w mod 2 ^ n"
  for w :: "'a::len word"
  unfolding unsigned_take_bit_eq by (simp add: take_bit_eq_mod)

lemma unat_drop_bit [word_nat]: "unat (drop_bit n w) = unat w div 2 ^ n"
  for w :: "'a::len word"
  unfolding unat_drop_bit_eq by (simp add: drop_bit_eq_div)

lemma unat_and_mask: "unat (w AND mask n) = unat w mod 2 ^ n"
  for w :: "'a::len word"
  by (simp flip: take_bit_eq_mask add: unat_take_bit)

lemma mask_numerals:
  "(0x0F :: 'a::len word) = mask 4" "(0x1F :: 'a word) = mask 5" "(0x3F :: 'a word) = mask 6"
  "(0x7F :: 'a word) = mask 7" "(0xFF :: 'a word) = mask 8" "(0x1FF :: 'a word) = mask 9"
  "(0x0FFF :: 'a word) = mask 12" "(0xFFFF :: 'a word) = mask 16"
  "(0x0FFFFFFF :: 'a word) = mask 28"
  by (simp_all add: mask_eq_exp_minus_1)

lemma unat_and_numerals [word_nat]:
  fixes w :: "'a::len word"
  shows "unat (w AND 0x0F) = unat w mod 16" "unat (w AND 0x1F) = unat w mod 32"
    "unat (w AND 0x3F) = unat w mod 64" "unat (w AND 0x7F) = unat w mod 128"
    "unat (w AND 0xFF) = unat w mod 256" "unat (w AND 0x1FF) = unat w mod 512"
    "unat (w AND 0x0FFF) = unat w mod 4096" "unat (w AND 0xFFFF) = unat w mod 65536"
    "unat (w AND 0x0FFFFFFF) = unat w mod 268435456"
  unfolding mask_numerals unat_and_mask by simp_all

lemma unat_mod_upper [simp]: "unat (w :: 'a::len word) mod 2 ^ LENGTH('a) = unat w"
  by (simp add: mod_less)

lemma unat_u8_less [simp]: "unat (w :: u8) < 256"
proof -
  have "unat w < 2 ^ LENGTH(8)" by (rule unsigned_less)
  then show ?thesis by simp
qed

lemma unat_u16_less [simp]: "unat (w :: u16) < 65536"
proof -
  have "unat w < 2 ^ LENGTH(16)" by (rule unsigned_less)
  then show ?thesis by simp
qed

lemma unat_u32_less [simp]: "unat (w :: u32) < 4294967296"
proof -
  have "unat w < 2 ^ LENGTH(32)" by (rule unsigned_less)
  then show ?thesis by simp
qed

lemma unat_ucast_up [word_nat]:
  "LENGTH('a) \<le> LENGTH('b) \<Longrightarrow> unat (ucast (w :: 'a::len word) :: 'b::len word) = unat w"
  unfolding unsigned_ucast_eq by (simp add: take_bit_nat_eq_self_iff order_less_le_trans [OF unsigned_less])

text \<open>
  A mask of the form \<open>~(2^k - 1)\<close> selects the block a number lies in: two numbers agree
  under it exactly when they have the same quotient by \<open>2^k\<close>.
\<close>

lemma and_not_mask_eq_0_iff:
  "w AND NOT (mask k) = 0 \<longleftrightarrow> drop_bit k w = 0" for w :: "'a::len word"
proof
  assume "w AND NOT (mask k) = 0"
  moreover have "drop_bit k (w AND NOT (mask k)) = drop_bit k w"
    by (rule bit_word_eqI) (auto simp: bit_simps dest: bit_imp_le_length)
  ultimately show "drop_bit k w = 0" by simp
next
  assume "drop_bit k w = 0"
  moreover have "w AND NOT (mask k) = push_bit k (drop_bit k w)"
    by (rule bit_word_eqI) (auto simp: bit_simps)
  ultimately show "w AND NOT (mask k) = 0" by simp
qed

lemma word_xor_eq_0_iff: "a XOR b = 0 \<longleftrightarrow> a = b" for a b :: "'a::len word"
  by (auto simp: bit_eq_iff bit_simps)

lemma xor_and_not_mask_eq_0_iff:
  "(a XOR b) AND NOT (mask k) = 0 \<longleftrightarrow> unat a div 2 ^ k = unat b div 2 ^ k"
  for a b :: "'a::len word"
proof -
  have "(a XOR b) AND NOT (mask k) = 0 \<longleftrightarrow> drop_bit k a = drop_bit k b"
    by (simp add: and_not_mask_eq_0_iff word_xor_eq_0_iff)
  also have "\<dots> \<longleftrightarrow> unat a div 2 ^ k = unat b div 2 ^ k"
    by (simp add: word_unat_eq_iff word_nat)
  finally show ?thesis .
qed

text \<open>Taking the bytes of a value with shifts and masks.\<close>

lemma bytes_of_u32:
  "(ucast (w AND 0xFF) :: u8) = lo8 (lo16 w)"
  "(ucast (drop_bit 8 w AND 0xFF) :: u8) = hi8 (lo16 w)"
  "(ucast (drop_bit 16 w AND 0xFF) :: u8) = lo8 (hi16 w)"
  "(ucast (drop_bit 24 w AND 0xFF) :: u8) = hi8 (hi16 w)" for w :: u32
  unfolding mask_numerals hi16_def lo16_def hi8_def lo8_def
  by (rule bit_word_eqI; simp add: bit_simps add.commute)+

lemma unat_of_nat_u32: "n < 4294967296 \<Longrightarrow> unat (of_nat n :: u32) = n"
  by (simp add: unat_of_nat)

lemma unat_of_nat_mod_512 [simp]: "unat (of_nat (n mod 512) :: u32) = n mod 512"
  by (rule unat_of_nat_u32) (rule less_trans [OF mod_less_divisor], simp_all)

lemma ucast_u16_u32 [simp]: "(ucast (ucast w :: u32) :: u16) = w" for w :: u16
  by (rule bit_word_eqI) (auto simp: bit_simps dest: bit_imp_le_length)

lemma ucast_u8_u32 [simp]: "(ucast (ucast w :: u32) :: u8) = w" for w :: u8
  by (rule bit_word_eqI) (auto simp: bit_simps dest: bit_imp_le_length)

text \<open>Signed comparison of numbers below \<open>2^31\<close>.\<close>

lemma sint_u32_small: "unat (w :: u32) < 2147483648 \<Longrightarrow> sint w = int (unat w)"
proof -
  assume "unat w < 2147483648"
  then have "int (unat w) < 2 ^ 31" unfolding of_nat_less_iff [symmetric, where 'a = int] by simp
  moreover have "sint w = signed_take_bit 31 (int (unat w))"
    by (simp add: signed_take_bit_take_bit [symmetric] sint_uint)
  ultimately show ?thesis
    by (simp only: signed_take_bit_int_eq_self)
qed

text \<open>Rounding up to whole sectors.\<close>

lemma ceil_div_512:
  "(x + 511) div 512 = (if x mod 512 = 0 then x div 512 else Suc (x div 512))" for x :: nat
proof (cases "x mod 512 = 0")
  case True
  then have "x + 511 = x div 512 * 512 + 511" using div_mult_mod_eq [of x 512] by linarith
  then show ?thesis using True by simp
next
  case False
  then have "x + 511 = Suc (x div 512) * 512 + (x mod 512 - 1)"
    using div_mult_mod_eq [of x 512] by simp
  then have "(x + 511) div 512 = Suc (x div 512) + (x mod 512 - 1) div 512"
    by (simp only: div_mult_self3)
  then show ?thesis using False by (simp add: less_imp_diff_less)
qed

section \<open>Searching lists\<close>

lemma find_append:
  "find P (xs @ ys) = (case find P xs of None \<Rightarrow> find P ys | Some x \<Rightarrow> Some x)"
  by (induction xs) simp_all

lemma find_upt_step:
  "m < n \<Longrightarrow> find P [m..<n] = (if P m then Some m else find P [Suc m..<n])"
  by (simp add: upt_conv_Cons)

lemma find_SomeD: "find P xs = Some x \<Longrightarrow> x \<in> set xs \<and> P x"
  by (induction xs) (auto split: if_splits)

end
