(* ===== verification/Swap.thy ===== *)
theory Swap
  imports Prelude
begin

text \<open>
  \<^verbatim>\<open>Firmware_Common/swap.c\<close>: byte swapping with the rotate instructions of the 68000, and
  the portable \<open>SwapEndianL\<close> of \<^verbatim>\<open>fat.c\<close>. The lemmas show that both give the
  little-endian reading of bytes that the big-endian processor loaded, that is the value the
  FAT format stores.
\<close>

section \<open>The instructions of the inline assembly\<close>

text \<open>\<open>rol.w #8,Dn\<close> exchanges the two low bytes and keeps the upper half of the register;
  \<open>swap Dn\<close> exchanges the halves.\<close>

definition rol_w8 :: "u32 \<Rightarrow> u32" where
  "rol_w8 d = word_cat (hi16 d) (word_cat (lo8 (lo16 d)) (hi8 (lo16 d)) :: u16)"

definition swap_reg :: "u32 \<Rightarrow> u32" where
  "swap_reg d = word_cat (lo16 d) (hi16 d)"

section \<open>The functions\<close>

definition SwapBBBB :: "u32 \<Rightarrow> u32" where
  "SwapBBBB i = rol_w8 (swap_reg (rol_w8 i))"

definition SwapBB :: "u32 \<Rightarrow> u32" where
  "SwapBB i = rol_w8 i"

definition SwapWW :: "u32 \<Rightarrow> u32" where
  "SwapWW i = swap_reg i"

text \<open>\<open>SwapEndianL\<close> takes the four bytes with masks and adds them up in the other order; the
  sum is an \<open>int\<close> sum that wraps, as the conversion to \<open>unsigned long\<close> makes it.\<close>

definition SwapEndianL :: "u32 \<Rightarrow> u32" where
  "SwapEndianL l =
     (let c0 = ucast (l AND 0xFF) :: u8;
          c1 = ucast (drop_bit 8 l AND 0xFF) :: u8;
          c2 = ucast (drop_bit 16 l AND 0xFF) :: u8;
          c3 = ucast (drop_bit 24 l AND 0xFF) :: u8
      in push_bit 24 (ucast c0) + push_bit 16 (ucast c1) + push_bit 8 (ucast c2) + ucast c3)"

section \<open>Swapping reads little-endian values\<close>

lemma rol_w8_word_cat [simp]:
  "rol_w8 (word_cat (h :: u16) (word_cat (a :: u8) (b :: u8) :: u16)) = word_cat h (word_cat b a :: u16)"
  by (simp add: rol_w8_def)

lemma swap_reg_word_cat [simp]: "swap_reg (word_cat (h :: u16) (l :: u16)) = word_cat l h"
  by (simp add: swap_reg_def)

lemma SwapBBBB_be32 [simp]: "SwapBBBB (be32 b i) = le32 b i"
  by (simp add: SwapBBBB_def be32_def be16_def le32_def le16_def add.assoc)

lemma ucast_u16_word_cat: "(ucast (w :: u16) :: u32) = word_cat (0 :: u16) w"
  by (rule word_cat_0_left [symmetric])

lemma SwapBB_be16 [simp]: "SwapBB (ucast (be16 b i)) = ucast (le16 b i)"
  by (simp add: SwapBB_def ucast_u16_word_cat be16_def le16_def del: word_cat_0_left)

lemma SwapBBBB_SwapBBBB [simp]: "SwapBBBB (SwapBBBB w) = w"
  by (cases w rule: u32_bytes) (simp add: SwapBBBB_def)

lemma SwapBB_SwapBB [simp]: "SwapBB (SwapBB w) = w"
  by (cases w rule: u32_bytes) (simp add: SwapBB_def)

lemma SwapWW_SwapWW [simp]: "SwapWW (SwapWW w) = w"
  by (cases w rule: u32_bytes) (simp add: SwapWW_def)

lemma SwapBB_upper_half: "hi16 (SwapBB w) = hi16 w"
  by (cases w rule: u32_bytes) (simp add: SwapBB_def)

text \<open>A value stored through the swap reads back as itself in little-endian order.\<close>

lemma le32_put_SwapBBBB [simp]: "i + 3 < length b \<Longrightarrow> le32 (put_be32 b i (SwapBBBB w)) i = w"
  by (metis SwapBBBB_SwapBBBB SwapBBBB_be32 be32_put_be32)

text \<open>The sum of the shifted bytes is the concatenation.\<close>

lemma sum_bytes_word_cat:
  "push_bit 24 (ucast a) + push_bit 16 (ucast b) + push_bit 8 (ucast c) + ucast d =
     (word_cat (word_cat (a :: u8) (b :: u8) :: u16) (word_cat (c :: u8) (d :: u8) :: u16) :: u32)"
proof -
  have "(ucast (word_cat x y :: u16) :: u32) = push_bit 8 (ucast x) + ucast y" for x y :: u8
    by (subst disjunctive_add_eq_or; rule bit_word_eqI; auto simp: bit_simps dest: bit_imp_le_length)
  then show ?thesis
    by (simp add: word_cat_eq [where 'c = 32] push_bit_add)
qed

text \<open>
  The portable \<open>SwapEndianL\<close> and the assembly \<open>SwapBBBB\<close> are the same function, and both
  turn the big-endian load of four bytes into the little-endian value they encode.
\<close>

theorem swaps_agree:
  "SwapEndianL l = SwapBBBB l \<and> SwapEndianL (be32 b i) = le32 b i"
proof -
  have eq: "SwapEndianL w = SwapBBBB w" for w
    unfolding SwapEndianL_def Let_def unfolding bytes_of_u32(2-4)
    unfolding bytes_of_u32(1) sum_bytes_word_cat
    by (cases w rule: u32_bytes) (simp add: SwapBBBB_def)
  show ?thesis by (simp add: eq)
qed

end
