(* ===== verification/Cstring.thy ===== *)
theory Cstring
  imports Prelude
begin

text \<open>
  The bounded string functions of \<^verbatim>\<open>Firmware_Common/klibc\<close> on byte readers: a pointer that
  the function only reads through is the function from offsets to the bytes it addresses, so
  \<open>*p++\<close> moves to the reader shifted by one. \<open>strncpy\<close> returns the \<open>n\<close> bytes it stores.
\<close>

type_synonym reader = "nat \<Rightarrow> u8"

definition at :: "bytes \<Rightarrow> nat \<Rightarrow> reader" where
  "at b i = (\<lambda>j. b ! (i + j))"

definition advance :: "reader \<Rightarrow> reader" where
  "advance r = (\<lambda>j. r (Suc j))"

text \<open>A string literal: its characters and the terminating NUL.\<close>

definition c_str :: "char list \<Rightarrow> reader" where
  "c_str s = at (map (\<lambda>c. of_char c) s @ [0]) 0"

section \<open>strncmp, strncpy\<close>

fun strncmp :: "reader \<Rightarrow> reader \<Rightarrow> nat \<Rightarrow> int" where
  "strncmp c1 c2 0 = 0"
| "strncmp c1 c2 (Suc n) =
     (let ch = c1 0; d = uint ch - uint (c2 0)
      in if d \<noteq> 0 \<or> ch = 0 then d else strncmp (advance c1) (advance c2) n)"

fun strncpy :: "reader \<Rightarrow> nat \<Rightarrow> bytes" where
  "strncpy p 0 = []"
| "strncpy p (Suc n) =
     (let ch = p 0 in if ch = 0 then ch # replicate n 0 else ch # strncpy (advance p) n)"

lemma length_strncpy [simp]: "length (strncpy p n) = n"
  by (induction p n rule: strncpy.induct) (auto simp: Let_def)

text \<open>
  \<open>strncmp\<close> returns 0 exactly when the two strings agree up to \<open>n\<close> characters or a common
  NUL.
\<close>

lemma strncmp_0_iff:
  "strncmp p q n = 0 \<longleftrightarrow> (\<forall>i < n. (\<forall>j < i. p j \<noteq> 0) \<longrightarrow> p i = q i)"
proof (induction p q n rule: strncmp.induct)
  case (1 p q)
  then show ?case by simp
next
  case (2 p q n)
  have IH: "p 0 = q 0 \<Longrightarrow> p 0 \<noteq> 0 \<Longrightarrow>
      strncmp (advance p) (advance q) n = 0 \<longleftrightarrow>
        (\<forall>i < n. (\<forall>j < i. p (Suc j) \<noteq> 0) \<longrightarrow> p (Suc i) = q (Suc i))"
    using 2 by (auto simp: advance_def)
  have step: "strncmp p q (Suc n) = 0 \<longleftrightarrow>
      p 0 = q 0 \<and> (p 0 = 0 \<or> strncmp (advance p) (advance q) n = 0)"
    by (auto simp: Let_def word_uint_eq_iff)
  have split: "(\<forall>i < Suc n. (\<forall>j < i. p j \<noteq> 0) \<longrightarrow> p i = q i) \<longleftrightarrow>
      p 0 = q 0 \<and> (\<forall>i < n. (\<forall>j < Suc i. p j \<noteq> 0) \<longrightarrow> p (Suc i) = q (Suc i))"
    by (simp add: All_less_Suc2)
  show ?case
  proof (cases "p 0 = q 0 \<and> p 0 \<noteq> 0")
    case True
    then have p: "p 0 = q 0" "q 0 \<noteq> 0" by auto
    show ?thesis
      unfolding step split using IH p by (simp only: All_less_Suc2) simp
  next
    case False
    then show ?thesis
      unfolding step split by (metis zero_less_Suc)
  qed
qed

lemma strncmp_0_iff_no_nul:
  assumes "\<And>i. i < n \<Longrightarrow> q i \<noteq> 0"
  shows "strncmp p q n = 0 \<longleftrightarrow> (\<forall>i < n. p i = q i)"
proof -
  have "(\<forall>i < n. (\<forall>j < i. p j \<noteq> 0) \<longrightarrow> p i = q i) \<longleftrightarrow> (\<forall>i < n. p i = q i)" (is "?A \<longleftrightarrow> ?B")
  proof
    assume A: ?A
    have "i < n \<Longrightarrow> p i = q i" for i
    proof (induction i rule: less_induct)
      case (less i)
      then have "\<forall>j < i. p j \<noteq> 0" using assms by auto
      with A less.prems show ?case by blast
    qed
    then show ?B by blast
  qed blast
  then show ?thesis by (simp add: strncmp_0_iff)
qed

lemma strncpy_eq_map:
  assumes "\<And>i. i < n \<Longrightarrow> p i \<noteq> 0"
  shows "strncpy p n = map p [0..<n]"
  using assms
proof (induction p n rule: strncpy.induct)
  case (2 p n)
  have "p 0 \<noteq> 0" using "2.prems" by auto
  with 2 have "strncpy (advance p) n = map (advance p) [0..<n]"
    by (auto simp: advance_def)
  moreover have "map p [0..<Suc n] = p 0 # map (advance p) [0..<n]"
    by (simp add: advance_def map_upt_Suc del: upt_Suc)
  ultimately show ?case
    using \<open>p 0 \<noteq> 0\<close> by (simp add: Let_def)
qed simp

end
