(* ===== verification/BlockDev.thy ===== *)
theory BlockDev
  imports Prelude
begin

text \<open>
  The interface between the FAT code and the SD card driver: the two functions of
  \<^verbatim>\<open>Firmware_Common/spi.h\<close> that \<^verbatim>\<open>fat.c\<close> calls. A driver has a state of any type \<open>'d\<close>;
  reading a sector gives the 512 bytes it stored into the caller's buffer, or nothing when it
  returned 0 and left the buffer alone. The locale \<open>block_device\<close> states what the FAT code
  relies on; the driver of \<^verbatim>\<open>spi.c\<close> is shown to provide it in theory \<open>Spi\<close>.
\<close>

record 'd sd_ops =
  sd_read :: "'d \<Rightarrow> u32 \<Rightarrow> bytes option \<times> 'd"
  sd_write :: "'d \<Rightarrow> u32 \<Rightarrow> bytes \<Rightarrow> bool \<times> 'd"

text \<open>The sectors of a card: \<open>None\<close> is a sector that cannot be read.\<close>

type_synonym image = "u32 \<Rightarrow> bytes option"

locale block_device =
  fixes io :: "'d sd_ops"
    and serves :: "image \<Rightarrow> 'd \<Rightarrow> bool"
  assumes sd_read_result: "serves img d \<Longrightarrow> fst (sd_read io d lba) = img lba"
    and sd_read_serves: "serves img d \<Longrightarrow> serves img (snd (sd_read io d lba))"
    and sector_length: "serves img d \<Longrightarrow> img lba = Some b \<Longrightarrow> length b = 512"
    and sd_write_serves: "serves img d \<Longrightarrow> length b = 512 \<Longrightarrow>
      serves (if fst (sd_write io d lba b) then img(lba \<mapsto> b) else img) (snd (sd_write io d lba b))"
begin

lemma sd_read_cases [consumes 1, case_names fail success]:
  assumes "serves img d"
  obtains (fail) d' where "img lba = None" "sd_read io d lba = (None, d')" "serves img d'"
  | (success) b d' where "img lba = Some b" "length b = 512"
      "sd_read io d lba = (Some b, d')" "serves img d'"
proof (cases "sd_read io d lba")
  case (Pair r d')
  then have "r = img lba" "serves img d'"
    using sd_read_result [OF assms, of lba] sd_read_serves [OF assms, of lba] by simp_all
  with Pair assms show thesis
    by (cases r) (auto intro: that sector_length [OF assms] simp: eq_commute [of _ "img lba"])
qed

end

end
