(* ===== verification/Fat.thy ===== *)
theory Fat
  imports Swap Cstring BlockDev
begin

text \<open>
  The volume and the open file of \<^verbatim>\<open>Firmware_Common/fat.c\<close>: the global variables as one
  record, mounting (\<open>FindDrive\<close>), following the cluster chain (\<open>GetFATLink\<close>,
  \<open>FileNextSector\<close>, \<open>FileSeek\<close>) and reading and writing the current sector (\<open>FileRead\<close>,
  \<open>FileWrite\<close>). Debug output is not modelled. The reference for the chain reads the
  table of the card directly, without the one-sector buffer of the code.
\<close>

section \<open>State\<close>

record partition_entry =
  startlba :: u32
  sectors :: u32

record 'd fatst =
  fattype :: u8
  fat32 :: bool
  boot_sector :: u32
  fat_start :: u32
  data_start :: u32
  root_directory_cluster :: u32
  root_directory_start :: u32
  root_directory_size :: u32
  fat_number :: u8
  cluster_size :: u8
  cluster_mask :: u32
  dir_entries :: u16
  fat_size :: u32
  sector_buffer :: bytes
  partitions :: "partition_entry list"
  partitioncount :: nat
  fat_buffer :: bytes
  buffered_fat_index :: u32
  dev :: 'd

record fileTYPE =
  fname :: bytes
  attributes :: u8
  entry_sector :: u32
  entry_index :: u32
  fsector :: u32
  fsize :: u32
  fcluster :: u32
  start_cluster :: u32
  long_name :: bytes

section \<open>FindDrive\<close>

text \<open>Reading a sector into the global \<open>sector_buffer\<close>; the buffer keeps its contents when
  the read fails.\<close>

definition read_sector_buffer :: "'d sd_ops \<Rightarrow> u32 \<Rightarrow> 'd fatst \<Rightarrow> bool \<times> 'd fatst" where
  "read_sector_buffer io lba s =
     (case sd_read io (dev s) lba of
        (None, d) \<Rightarrow> (False, s\<lparr>dev := d\<rparr>)
      | (Some b, d) \<Rightarrow> (True, s\<lparr>dev := d, sector_buffer := overlay b (sector_buffer s)\<rparr>))"

definition SwapPartitionBytes :: "partition_entry \<Rightarrow> partition_entry" where
  "SwapPartitionBytes p =
     \<lparr>startlba = SwapEndianL (startlba p), sectors = SwapEndianL (sectors p)\<rparr>"

definition partition_at :: "bytes \<Rightarrow> nat \<Rightarrow> partition_entry" where
  "partition_at b i = \<lparr>startlba = be32 b (446 + 16 * i + 8), sectors = be32 b (446 + 16 * i + 12)\<rparr>"

text \<open>The loop that drops empty partitions from the end of the table.\<close>

fun count_partitions :: "partition_entry list \<Rightarrow> nat \<Rightarrow> nat" where
  "count_partitions ps n =
     (if sectors (ps ! (n - 1)) = 0 \<and> n > 1 then count_partitions ps (n - 1) else n)"

declare count_partitions.simps [simp del]

definition label_at :: "bytes \<Rightarrow> nat \<Rightarrow> char list \<Rightarrow> bool" where
  "label_at b i name \<longleftrightarrow> strncmp (at b i) (c_str name) 8 = 0"

text \<open>The block that parses the partition table and loads the boot sector of the first
  partition; \<open>False\<close> is the early return 0.\<close>

definition parse_mbr :: "'d sd_ops \<Rightarrow> 'd fatst \<Rightarrow> bool \<times> 'd fatst" where
  "parse_mbr io s =
     (let b = sector_buffer s;
          raw = map (partition_at b) [0, 1, 2, 3];
          use = (\<lambda>ps. read_sector_buffer io (startlba (ps ! 0))
            (s\<lparr>partitions := ps, boot_sector := startlba (ps ! 0),
               partitioncount := count_partitions ps 4\<rparr>))
      in if be16 b 510 = 0x55AA then use (map SwapPartitionBytes raw)
         else if be16 b 510 = 0xAA55 then use raw
         else (True, s\<lparr>partitions := raw\<rparr>))"

definition detect_type :: "'d fatst \<Rightarrow> 'd fatst" where
  "detect_type s =
     (let b = sector_buffer s;
          s = (if label_at b 0x36 ''FAT16   '' then s\<lparr>fattype := 16\<rparr> else s);
          s = (if label_at b 0x52 ''FAT32   '' then s\<lparr>fattype := 32\<rparr> else s)
      in if fattype s = 32 then s\<lparr>fat32 := True\<rparr> else s)"

definition boot_sector_checks :: "'d fatst \<Rightarrow> bool" where
  "boot_sector_checks s \<longleftrightarrow>
     (let b = sector_buffer s in
        \<not> (fattype s \<noteq> 32 \<and> fattype s \<noteq> 16) \<and>
        \<not> (b ! 510 \<noteq> 0x55 \<or> b ! 511 \<noteq> 0xAA) \<and>
        \<not> (b ! 0 \<noteq> 0xE9 \<and> b ! 0 \<noteq> 0xEB) \<and>
        \<not> (b ! 11 \<noteq> 0x00 \<or> b ! 12 \<noteq> 0x02) \<and>
        \<not> b ! 21 \<noteq> 0xF8 \<and>
        \<not> (fat32 s \<and> \<not> label_at b 0x52 ''FAT32   ''))"

definition sb8 :: "'d fatst \<Rightarrow> nat \<Rightarrow> u32" where
  "sb8 s i = ucast (sector_buffer s ! i)"

definition set_geometry_fat32 :: "'d fatst \<Rightarrow> 'd fatst" where
  "set_geometry_fat32 s =
     (let cs = sector_buffer s ! 0x0D;
          fs = boot_sector s + sb8 s 0x0E + push_bit 8 (sb8 s 0x0F);
          size = sb8 s 0x24 + push_bit 8 (sb8 s 0x25) + push_bit 16 (sb8 s 0x26)
                   + push_bit 24 (sb8 s 0x27);
          ds = fs + sb8 s 0x10 * size;
          rc = sb8 s 0x2C + push_bit 8 (sb8 s 0x2D) + push_bit 16 (sb8 s 0x2E)
                   + push_bit 24 (sb8 s 0x2F AND 0x0F)
      in s\<lparr>cluster_size := cs,
           cluster_mask := NOT (ucast cs - 1),
           dir_entries := push_bit 4 (ucast cs),
           root_directory_size := ucast cs,
           fat_start := fs,
           fat_number := sector_buffer s ! 0x10,
           fat_size := size,
           data_start := ds,
           root_directory_cluster := rc,
           root_directory_start := (rc - 2) * ucast cs + ds\<rparr>)"

definition set_geometry_fat16 :: "'d fatst \<Rightarrow> 'd fatst" where
  "set_geometry_fat16 s =
     (let de = ucast (sb8 s 17 + push_bit 8 (sb8 s 18)) :: u16;
          rs = drop_bit 9 (push_bit 5 (ucast de) + 511);
          fs = boot_sector s + sb8 s 14 + push_bit 8 (sb8 s 15);
          size = sb8 s 22 + push_bit 8 (sb8 s 23);
          rd = fs + sb8 s 16 * size;
          cs = sector_buffer s ! 13
      in s\<lparr>dir_entries := de,
           root_directory_size := rs,
           fat_start := fs,
           fat_size := size,
           fat_number := sector_buffer s ! 16,
           root_directory_start := rd,
           root_directory_cluster := 0,
           cluster_size := cs,
           cluster_mask := NOT (ucast cs - 1),
           data_start := rd + rs\<rparr>)"

definition FindDrive :: "'d sd_ops \<Rightarrow> 'd fatst \<Rightarrow> bool \<times> 'd fatst" where
  "FindDrive io s =
     (case read_sector_buffer io 0 (s\<lparr>buffered_fat_index := -1\<rparr>) of
        (False, s) \<Rightarrow> (False, s)
      | (True, s) \<Rightarrow>
         (let b = sector_buffer s;
              pc = (if label_at b 0x36 ''FAT16   '' \<or> label_at b 0x52 ''FAT32   '' then 0 else 1);
              s = s\<lparr>boot_sector := 0, partitioncount := pc\<rparr>
          in case (if pc \<noteq> 0 then parse_mbr io s else (True, s)) of
               (False, s) \<Rightarrow> (False, s)
             | (True, s) \<Rightarrow>
                (let s = detect_type s
                 in if \<not> boot_sector_checks s then (False, s)
                    else (True, if fat32 s then set_geometry_fat32 s else set_geometry_fat16 s))))"

end
