(* ===== verification/Spi.thy ===== *)
theory Spi
  imports BlockDev
begin

text \<open>
  The SD card driver \<^verbatim>\<open>Firmware_Common/spi.c\<close>. The card and the wires are a parameter, the
  bus: a function that takes the card, the chip select and the byte sent, and gives the byte
  received. The driver's loops are bounded by the counters of the code. The coinductive
  predicate \<open>serving\<close> states the documented answer of a card to CMD17 (read single block) as
  bytes on the bus; the driver then provides the interface \<open>block_device\<close> of the FAT code.
  The texts the driver prints are not modelled.
\<close>

section \<open>The bus\<close>

type_synonym 'c bus = "'c \<Rightarrow> bool \<Rightarrow> u8 \<Rightarrow> u8 \<times> 'c"

record 'c spi =
  card :: 'c
  cs :: bool
  rx :: u8
  SDHCtype :: bool
  div7 :: u16

text \<open>The macros \<open>SPI\<close> (a blocking transfer), \<open>SPI_READ\<close> (the field \<open>rx\<close>) and \<open>SPI_CS\<close>.\<close>

definition SPI :: "'c bus \<Rightarrow> u8 \<Rightarrow> 'c spi \<Rightarrow> 'c spi" where
  "SPI x b s = (case x (card s) (cs s) b of (r, c) \<Rightarrow> s\<lparr>card := c, rx := r\<rparr>)"

definition SPI_CS :: "bool \<Rightarrow> 'c spi \<Rightarrow> 'c spi" where
  "SPI_CS b s = s\<lparr>cs := b\<rparr>"

section \<open>Commands\<close>

fun await_response :: "'c bus \<Rightarrow> nat \<Rightarrow> u8 \<Rightarrow> 'c spi \<Rightarrow> u8 \<times> 'c spi" where
  "await_response x 0 result s = (result, s)"
| "await_response x (Suc ctr) result s =
     (if result = 0xFF then (let s = SPI x 0xFF s in await_response x ctr (rx s) s)
      else (result, s))"

text \<open>\<open>while(--ctr \<and> result==0xff)\<close> from \<open>ctr=40000\<close> runs its body at most 39999 times.\<close>

definition cmd_write :: "'c bus \<Rightarrow> u32 \<Rightarrow> u32 \<Rightarrow> 'c spi \<Rightarrow> u8 \<times> 'c spi" where
  "cmd_write x cmd lba s =
     (let s = SPI x (ucast (cmd AND 255)) s;
          lba = (if \<not> SDHCtype s then push_bit 9 lba else lba);
          s = SPI x (ucast (drop_bit 24 lba AND 255)) s;
          s = SPI x (ucast (drop_bit 16 lba AND 255)) s;
          s = SPI x (ucast (drop_bit 8 lba AND 255)) s;
          s = SPI x (ucast (lba AND 255)) s;
          s = SPI x (ucast (drop_bit 16 cmd AND 255)) s
      in await_response x 39999 (rx s) s)"

definition cmd_reset where "cmd_reset x = cmd_write x 0x950040 0"
definition cmd_init where "cmd_init x = cmd_write x 0xFF0041 0"
definition cmd_read where "cmd_read x lba = cmd_write x 0xFF0051 lba"
definition cmd_CMD8 where "cmd_CMD8 x = cmd_write x 0x870048 0x1AA"
definition cmd_CMD16 where "cmd_CMD16 x n = cmd_write x 0xFF0050 n"
definition cmd_CMD41 where "cmd_CMD41 x = cmd_write x 0x870069 0x40000000"
definition cmd_CMD55 where "cmd_CMD55 x = cmd_write x 0xFF0077 0"
definition cmd_CMD58 where "cmd_CMD58 x = cmd_write x 0xFF007A 0"

section \<open>Initialisation\<close>

definition spi_spin :: "'c bus \<Rightarrow> 'c spi \<Rightarrow> 'c spi" where
  "spi_spin x s = (SPI x 0xFF ^^ 200) s"

fun initV2_loop :: "'c bus \<Rightarrow> nat \<Rightarrow> 'c spi \<Rightarrow> bool \<times> 'c spi" where
  "initV2_loop x 0 s = (False, s)"
| "initV2_loop x (Suc i) s =
     (case cmd_CMD55 x s of (r, s) \<Rightarrow>
        if r = 1 then
          (case cmd_CMD41 x (SPI x 0xFF s) of (r, s) \<Rightarrow>
             if r = 0 then (True, SPI x 0xFF s) else initV2_loop x i (spi_spin x s))
        else initV2_loop x i s)"

definition wait_initV2 :: "'c bus \<Rightarrow> 'c spi \<Rightarrow> bool \<times> 'c spi" where
  "wait_initV2 x s = initV2_loop x 19999 (spi_spin x s)"

fun init_loop :: "'c bus \<Rightarrow> nat \<Rightarrow> 'c spi \<Rightarrow> bool \<times> 'c spi" where
  "init_loop x 0 s = (False, s)"
| "init_loop x (Suc i) s =
     (case cmd_init x s of (r, s) \<Rightarrow>
        if r = 0 then (True, SPI x 0xFF s) else init_loop x i (spi_spin x s))"

definition wait_init :: "'c bus \<Rightarrow> 'c spi \<Rightarrow> bool \<times> 'c spi" where
  "wait_init x s = init_loop x 19 (SPI x 0xFF s)"

text \<open>The loop \<open>i=50; while(--i)\<close>, left when \<open>i==2\<close>: the argument is \<open>i\<close> after the
  decrement.\<close>

fun sdhc_loop :: "'c bus \<Rightarrow> nat \<Rightarrow> 'c spi \<Rightarrow> bool \<times> 'c spi" where
  "sdhc_loop x 0 s = (False, s)"
| "sdhc_loop x (Suc i) s =
     (case wait_initV2 x s of (ok, s) \<Rightarrow>
        let retry = (\<lambda>s. if Suc i = 2 then (False, s) else sdhc_loop x i s)
        in if ok then
             (case cmd_CMD58 x s of (r, s) \<Rightarrow>
                if r = 0 then
                  (let s = SPI x 0xFF s; r = rx s; s = (SPI x 0xFF ^^ 4) s
                   in (r AND 0x40 \<noteq> 0, s))
                else retry s)
           else retry s)"

definition is_sdhc :: "'c bus \<Rightarrow> 'c spi \<Rightarrow> bool \<times> 'c spi" where
  "is_sdhc x s =
     (case cmd_CMD8 x (spi_spin x s) of (r, s) \<Rightarrow>
        let not_v2 = (\<lambda>s. (False, snd (wait_init x s)))
        in if r \<noteq> 1 then not_v2 s
           else (let s = SPI x 0xFF (SPI x 0xFF (SPI x 0xFF s))
                 in if rx s \<noteq> 1 then not_v2 s
                    else (let s = SPI x 0xFF s
                          in if rx s \<noteq> 0xAA then not_v2 s
                             else sdhc_loop x 49 (SPI x 0xFF s))))"

text \<open>The loop \<open>i=8; while(--i)\<close> that resets the card: a success sets \<open>i\<close> to 1, which ends
  it; at \<open>i==2\<close> it gives up.\<close>

fun reset_loop :: "'c bus \<Rightarrow> nat \<Rightarrow> 'c spi \<Rightarrow> bool \<times> 'c spi" where
  "reset_loop x 0 s = (True, s)"
| "reset_loop x (Suc i) s =
     (case cmd_reset x s of (r, s) \<Rightarrow>
        if r = 1 then (True, s) else if Suc i = 2 then (False, s) else reset_loop x i s)"

definition spi_init :: "'c bus \<Rightarrow> u16 \<Rightarrow> 'c spi \<Rightarrow> bool \<times> 'c spi" where
  "spi_init x spispeed s =
     (let s = SPI_CS True (spi_spin x (SPI_CS False (s\<lparr>SDHCtype := True, div7 := 150\<rparr>)))
      in case reset_loop x 7 s of
           (False, s) \<Rightarrow> (False, s)
         | (True, s) \<Rightarrow>
             (case is_sdhc x s of (sdhc, s) \<Rightarrow>
                let s = s\<lparr>SDHCtype := sdhc\<rparr>;
                    s = (if sdhc then s else snd (cmd_CMD16 x 1 s));
                    s = SPI_CS False (SPI x 0xFF s)
                in (True, s\<lparr>div7 := spispeed\<rparr>)))"

section \<open>Sectors\<close>

text \<open>\<open>spi_readsector\<close> reads the pump register 257 times; each read starts the transfer of two
  bytes and returns the two before, so 514 bytes cross the bus and the first 512 are stored.\<close>

fun pump :: "'c bus \<Rightarrow> nat \<Rightarrow> 'c spi \<Rightarrow> bytes \<times> 'c spi" where
  "pump x 0 s = ([], s)"
| "pump x (Suc n) s =
     (let s = SPI x 0xFF s in case pump x n s of (bs, s') \<Rightarrow> (rx s # bs, s'))"

definition spi_readsector :: "'c bus \<Rightarrow> 'c spi \<Rightarrow> bytes \<times> 'c spi" where
  "spi_readsector x s = (case pump x 514 s of (bs, s) \<Rightarrow> (take 512 bs, s))"

fun await_token :: "'c bus \<Rightarrow> nat \<Rightarrow> 'c spi \<Rightarrow> bytes option \<times> 'c spi" where
  "await_token x 0 s = (None, s)"
| "await_token x (Suc i) s =
     (let s = SPI x 0xFF s
      in if rx s = 0xFE then (case spi_readsector x s of (bs, s) \<Rightarrow> (Some bs, s))
         else await_token x i s)"

definition sd_read_sector :: "'c bus \<Rightarrow> 'c spi \<Rightarrow> u32 \<Rightarrow> bytes option \<times> 'c spi" where
  "sd_read_sector x s lba =
     (case cmd_read x lba (SPI x 0xFF (SPI_CS True s)) of (r, s) \<Rightarrow>
        if r \<noteq> 0 then (None, s)
        else (case await_token x 1499999 s of (result, s) \<Rightarrow>
                (result, SPI_CS False (SPI x 0xFF s))))"

definition sd_write_sector :: "'c spi \<Rightarrow> u32 \<Rightarrow> bytes \<Rightarrow> bool \<times> 'c spi" where
  "sd_write_sector s lba buf = (False, s)"

definition spi_ops :: "'c bus \<Rightarrow> 'c spi sd_ops" where
  "spi_ops x = \<lparr>sd_read = sd_read_sector x, sd_write = sd_write_sector\<rparr>"

section \<open>The answer of a card\<close>

text \<open>Sending bytes one after the other.\<close>

fun exchange :: "'c bus \<Rightarrow> 'c \<Rightarrow> bool \<Rightarrow> bytes \<Rightarrow> bytes \<times> 'c" where
  "exchange x c b [] = ([], c)"
| "exchange x c b (d # ds) =
     (case x c b d of (r, c) \<Rightarrow> case exchange x c b ds of (rs, c) \<Rightarrow> (r # rs, c))"

text \<open>The six bytes of CMD17, with the address in sectors on an SDHC card and in bytes on a
  standard one.\<close>

definition read_frame :: "bool \<Rightarrow> u32 \<Rightarrow> bytes" where
  "read_frame sdhc lba =
     (let a = (if sdhc then lba else push_bit 9 lba)
      in [0x51, hi8 (hi16 a), lo8 (hi16 a), hi8 (lo16 a), lo8 (lo16 a), 0xFF])"

text \<open>
  The card answers a dummy byte and the frame with \<open>pre\<close>, stays busy for \<open>n\<close> bytes, accepts
  with 0, sends \<open>ws\<close> while it fetches the data, then the token \<open>0xFE\<close>, 512 bytes, a checksum
  and one more byte; or it refuses the command with another response.
\<close>

definition answers :: "'c bus \<Rightarrow> bool \<Rightarrow> u32 \<Rightarrow> bytes option \<Rightarrow> 'c \<Rightarrow> 'c \<Rightarrow> bool" where
  "answers x sdhc lba sector c c' \<longleftrightarrow>
     (case sector of
        Some b \<Rightarrow> length b = 512 \<and>
          (\<exists>pre n ws crc z. length pre = 6 \<and> n \<le> 39999 \<and>
             length ws < 1499999 \<and> 0xFE \<notin> set ws \<and> length crc = 2 \<and>
             exchange x c True ((0xFF # read_frame sdhc lba) @ replicate (n + length ws + 516) 0xFF) =
               (pre @ replicate n 0xFF @ [0] @ ws @ [0xFE] @ b @ crc @ [z], c'))
      | None \<Rightarrow>
          (\<exists>pre n r. length pre = 6 \<and> n \<le> 39999 \<and> r \<noteq> 0 \<and> r \<noteq> 0xFF \<and>
             exchange x c True ((0xFF # read_frame sdhc lba) @ replicate n 0xFF) =
               (pre @ replicate n 0xFF @ [r], c')))"

lemma answers_SomeE:
  assumes "answers x sdhc lba (Some b) c c'"
  obtains pre n ws crc z where "length pre = 6" "n \<le> 39999" "length b = 512"
    "length ws < 1499999" "0xFE \<notin> set ws" "length crc = 2"
    "exchange x c True ((0xFF # read_frame sdhc lba) @ replicate (n + length ws + 516) 0xFF) =
       (pre @ replicate n 0xFF @ [0] @ ws @ [0xFE] @ b @ crc @ [z], c')"
  using assms unfolding answers_def option.case by (elim conjE exE) (rule that)

coinductive serving :: "'c bus \<Rightarrow> bool \<Rightarrow> image \<Rightarrow> 'c \<Rightarrow> bool" for x sdhc img where
  "(\<forall>lba. \<exists>c'. answers x sdhc lba (img lba) c c' \<and> serving x sdhc img c') \<Longrightarrow> serving x sdhc img c"

definition spi_serves :: "'c bus \<Rightarrow> image \<Rightarrow> 'c spi \<Rightarrow> bool" where
  "spi_serves x img s \<longleftrightarrow> serving x (SDHCtype s) img (card s)"

section \<open>The driver follows the protocol\<close>

lemma SPI_simps [simp]:
  "cs (SPI x b s) = cs s" "SDHCtype (SPI x b s) = SDHCtype s" "div7 (SPI x b s) = div7 s"
  by (simp_all add: SPI_def split: prod.split)

lemma exchange_length: "exchange x c b ds = (rs, c') \<Longrightarrow> length rs = length ds"
  by (induction ds arbitrary: c rs) (auto split: prod.splits)

lemma exchange_append:
  "exchange x c b (ds @ ds') =
     (case exchange x c b ds of (rs, c) \<Rightarrow> case exchange x c b ds' of (rs', c) \<Rightarrow> (rs @ rs', c))"
  by (induction ds arbitrary: c) (auto split: prod.splits)

lemma exchange_split:
  assumes "exchange x c b (ds @ ds') = (rs @ rs', c')" "length rs = length ds"
  obtains c1 where "exchange x c b ds = (rs, c1)" "exchange x c1 b ds' = (rs', c')"
  using assms by (auto simp: exchange_append split: prod.splits dest: exchange_length)

lemma exchange_SPI:
  assumes "exchange x (card s) (cs s) (d # ds) = (r # rs, c')"
  shows "rx (SPI x d s) = r" "exchange x (card (SPI x d s)) (cs (SPI x d s)) ds = (rs, c')"
  using assms by (auto simp: SPI_def split: prod.splits)

text \<open>The loops consume the part of the answer they wait for.\<close>

lemma await_response_exchange:
  assumes "exchange x (card s) (cs s) (replicate n 0xFF) = (rs, c')" "n \<le> N"
    and "r # rs = replicate n 0xFF @ [z]" "z \<noteq> 0xFF"
  shows "\<exists>s'. await_response x N r s = (z, s') \<and> card s' = c' \<and> cs s' = cs s \<and>
    SDHCtype s' = SDHCtype s"
  using assms
proof (induction n arbitrary: N r rs s)
  case 0
  then show ?case by (cases N) auto
next
  case (Suc n)
  from Suc.prems(2) obtain M where N: "N = Suc M" "n \<le> M" by (cases N) auto
  from Suc.prems(3) have r: "r = 0xFF" and rs: "rs = replicate n 0xFF @ [z]" by auto
  then obtain r' rs' where rs': "rs = r' # rs'" by (metis neq_Nil_conv append_is_Nil_conv list.distinct(1))
  let ?s = "SPI x 0xFF s"
  note e = Suc.prems(1) [unfolded rs' replicate_Suc, THEN exchange_SPI(1)]
    Suc.prems(1) [unfolded rs' replicate_Suc, THEN exchange_SPI(2)]
  from Suc.IH [OF e(2) N(2)] N(1) Suc.prems(4) rs rs' e(1) show ?case
    by (simp add: r Let_def)
qed

lemma pump_exchange:
  assumes "exchange x (card s) (cs s) (replicate n 0xFF) = (rs, c')"
  shows "\<exists>s'. pump x n s = (rs, s') \<and> card s' = c' \<and> cs s' = cs s \<and> SDHCtype s' = SDHCtype s"
  using assms
proof (induction n arbitrary: rs s)
  case (Suc n)
  obtain r rs' where rs: "rs = r # rs'" using exchange_length [OF Suc.prems] by (cases rs) auto
  let ?s = "SPI x 0xFF s"
  note e = Suc.prems [unfolded rs replicate_Suc, THEN exchange_SPI(1)]
    Suc.prems [unfolded rs replicate_Suc, THEN exchange_SPI(2)]
  from Suc.IH [OF e(2)] e(1) show ?case by (auto simp: rs Let_def)
qed simp

lemma await_token_exchange:
  assumes "exchange x (card s) (cs s) (replicate (length ws + 515) 0xFF) = (ws @ [0xFE] @ b @ crc, c')"
    and "0xFE \<notin> set ws" "length ws < N" "length b = 512" "length crc = 2"
  shows "\<exists>s'. await_token x N s = (Some b, s') \<and> card s' = c' \<and> cs s' = cs s \<and>
    SDHCtype s' = SDHCtype s"
  using assms
proof (induction ws arbitrary: N s)
  case Nil
  then obtain M where N: "N = Suc M" by (cases N) auto
  let ?s = "SPI x 0xFF s"
  have "length [] + 515 = Suc 514" by simp
  note e = Nil.prems(1) [unfolded this replicate_Suc append_Cons append_Nil]
  from pump_exchange [OF e [THEN exchange_SPI(2)]] e [THEN exchange_SPI(1)] Nil.prems(4)
  show ?case by (auto simp: N Let_def spi_readsector_def)
next
  case (Cons w ws)
  then obtain M where N: "N = Suc M" by (cases N) auto
  let ?s = "SPI x 0xFF s"
  have "length (w # ws) + 515 = Suc (length ws + 515)" by simp
  note e = Cons.prems(1) [unfolded this replicate_Suc append_Cons]
  from e [THEN exchange_SPI(2)]
  have "exchange x (card ?s) (cs ?s) (replicate (length ws + 515) 0xFF) =
      (ws @ [0xFE] @ b @ crc, c')" by simp
  from Cons.IH [OF this, of M] e [THEN exchange_SPI(1)] Cons.prems N show ?case
    by (auto simp: Let_def)
qed

lemma fold_SPI_simps [simp]:
  "cs (fold (SPI x) ds s) = cs s" "SDHCtype (fold (SPI x) ds s) = SDHCtype s"
  by (induction ds arbitrary: s) simp_all

lemma exchange_fold:
  assumes "exchange x (card s) (cs s) (ds @ es) = (rs @ rs', c')" "length rs = length ds"
  shows "exchange x (card (fold (SPI x) ds s)) (cs s) es = (rs', c')"
    and "ds \<noteq> [] \<Longrightarrow> rx (fold (SPI x) ds s) = last rs"
proof -
  have "exchange x (card (fold (SPI x) ds s)) (cs s) es = (rs', c') \<and>
      (ds \<noteq> [] \<longrightarrow> rx (fold (SPI x) ds s) = last rs)"
    using assms
  proof (induction ds arbitrary: s rs)
    case (Cons d ds)
    then obtain r rs1 where rs: "rs = r # rs1" by (cases rs) auto
    note e = Cons.prems(1) [unfolded rs append_Cons]
    have "exchange x (card (SPI x d s)) (cs (SPI x d s)) (ds @ es) = (rs1 @ rs', c')"
      using e by (rule exchange_SPI(2))
    from Cons.IH [OF this] Cons.prems(2) e [THEN exchange_SPI(1)] show ?case
      by (auto simp: rs)
  qed simp
  then show "exchange x (card (fold (SPI x) ds s)) (cs s) es = (rs', c')"
    and "ds \<noteq> [] \<Longrightarrow> rx (fold (SPI x) ds s) = last rs" by auto
qed

text \<open>\<open>cmd_read\<close> sends the six bytes of CMD17 and then waits for the response.\<close>

lemma cmd_read_frame:
  "cmd_read x lba s =
     (let s = fold (SPI x) (read_frame (SDHCtype s) lba) s in await_response x 39999 (rx s) s)"
proof -
  have "(ucast ((0xFF0051 :: u32) AND 255) :: u8) = 0x51"
    "(ucast (drop_bit 16 (0xFF0051 :: u32) AND 255) :: u8) = 0xFF"
    by (simp_all add: drop_bit_eq_div)
  then show ?thesis
    unfolding cmd_read_def cmd_write_def read_frame_def Let_def
    unfolding bytes_of_u32(2-4) unfolding bytes_of_u32(1)
    by simp
qed

lemma sd_read_sector_correct:
  assumes "answers x (SDHCtype s) lba sector (card s) c'"
  shows "fst (sd_read_sector x s lba) = sector" "card (snd (sd_read_sector x s lba)) = c'"
    "SDHCtype (snd (sd_read_sector x s lba)) = SDHCtype s"
proof -
  define s0 where "s0 = SPI_CS True s"
  let ?head = "0xFF # read_frame (SDHCtype s) lba"
  define s1 where "s1 = fold (SPI x) ?head s0"
  have s0: "card s0 = card s" "cs s0 = True" "SDHCtype s0 = SDHCtype s"
    by (simp_all add: s0_def SPI_CS_def)
  have s1: "cs s1 = True" "SDHCtype s1 = SDHCtype s" using s0 by (simp_all add: s1_def)
  have cmd: "cmd_read x lba (SPI x 0xFF s0) = await_response x 39999 (rx s1) s1"
    using s0 by (simp add: cmd_read_frame s1_def Let_def)
  have len: "length ?head = 7" by (simp add: read_frame_def Let_def)
  have "fst (sd_read_sector x s lba) = sector \<and> card (snd (sd_read_sector x s lba)) = c' \<and>
    SDHCtype (snd (sd_read_sector x s lba)) = SDHCtype s"
  proof (cases sector)
    case None
    with assms obtain pre n r where *: "length pre = 6" "n \<le> 39999" "r \<noteq> 0" "r \<noteq> 0xFF"
      "exchange x (card s0) (cs s0) (?head @ replicate n 0xFF) = (pre @ replicate n 0xFF @ [r], c')"
      by (auto simp: answers_def s0)
    obtain r0 rs where r0: "replicate n 0xFF @ [r] = r0 # rs"
      by (metis neq_Nil_conv append_is_Nil_conv list.distinct(1))
    have e: "exchange x (card s0) (cs s0) (?head @ replicate n 0xFF) = ((pre @ [r0]) @ rs, c')"
      using *(5) r0 by simp
    have "rx s1 = r0" "exchange x (card s1) (cs s1) (replicate n 0xFF) = (rs, c')"
      using exchange_fold [OF e] *(1) len s0 s1 by (auto simp: s1_def)
    from await_response_exchange [OF this(2) *(2) r0 [symmetric] *(4)] this(1)
    obtain s' where "cmd_read x lba (SPI x 0xFF s0) = (r, s')" "card s' = c'" "SDHCtype s' = SDHCtype s"
      using cmd s1 by auto
    with *(3) None show ?thesis by (simp add: sd_read_sector_def s0_def)
  next
    case (Some b)
    have "answers x (SDHCtype s) lba (Some b) (card s0) c'"
      using assms Some s0(1) by (simp only:)
    then obtain pre n ws crc z where *: "length pre = 6" "n \<le> 39999" "length b = 512"
      "length ws < 1499999" "0xFE \<notin> set ws" "length crc = 2"
      "exchange x (card s0) (cs s0) (?head @ replicate (n + length ws + 516) 0xFF) =
        (pre @ replicate n 0xFF @ [0] @ ws @ [0xFE] @ b @ crc @ [z], c')"
      unfolding s0(2) by (rule answers_SomeE)
    obtain r0 :: u8 and rs where r0: "replicate n 0xFF @ [0] = r0 # rs"
      by (metis neq_Nil_conv append_is_Nil_conv list.distinct(1))
    have lrs: "length rs = n"
      using arg_cong [OF r0, of length] by simp
    define tail where "tail = ws @ [0xFE] @ b @ crc"
    have reps: "n + length ws + 516 = n + ((length ws + 515) + 1)" by simp
    have "?head @ replicate (n + length ws + 516) 0xFF =
        ?head @ replicate n 0xFF @ replicate (length ws + 515) 0xFF @ [0xFF]"
      unfolding reps replicate_add by simp
    moreover have "pre @ replicate n 0xFF @ [0] @ ws @ [0xFE] @ b @ crc @ [z] =
        (pre @ [r0]) @ rs @ tail @ [z]"
      using r0 unfolding tail_def by (metis append.assoc append_Cons append_Nil)
    ultimately have e: "exchange x (card s0) (cs s0)
        (?head @ replicate n 0xFF @ replicate (length ws + 515) 0xFF @ [0xFF]) =
        ((pre @ [r0]) @ rs @ tail @ [z], c')"
      using *(7) by simp
    have rx1: "rx s1 = r0" and e1: "exchange x (card s1) (cs s1)
        (replicate n 0xFF @ replicate (length ws + 515) 0xFF @ [0xFF]) = (rs @ tail @ [z], c')"
      using exchange_fold [OF e] *(1) len s0 s1 by (auto simp: s1_def)
    obtain c1 where c1: "exchange x (card s1) (cs s1) (replicate n 0xFF) = (rs, c1)"
      "exchange x c1 (cs s1) (replicate (length ws + 515) 0xFF @ [0xFF]) = (tail @ [z], c')"
      by (rule exchange_split [OF e1]) (simp_all add: lrs)
    obtain s2 where s2: "await_response x 39999 r0 s1 = (0, s2)" "card s2 = c1" "cs s2 = True"
      "SDHCtype s2 = SDHCtype s"
      using await_response_exchange [OF c1(1) *(2) r0 [symmetric]] s1 by auto
    have ltail: "length tail = length (replicate (length ws + 515) (0xFF :: u8))"
      by (simp add: tail_def *)
    obtain c2 where c2: "exchange x c1 (cs s1) (replicate (length ws + 515) 0xFF) = (tail, c2)"
      "exchange x c2 (cs s1) [0xFF] = ([z], c')"
      by (rule exchange_split [OF c1(2) ltail]) blast
    obtain s3 where s3: "await_token x 1499999 s2 = (Some b, s3)" "card s3 = c2" "cs s3 = True"
      "SDHCtype s3 = SDHCtype s"
      using await_token_exchange [of x s2 ws b crc c2 1499999, OF _ *(5,4,3,6)] c2(1) s1 s2
      unfolding tail_def by auto
    have "card (SPI x 0xFF s3) = c'"
      using c2(2) s3 s1 by (simp add: SPI_def split: prod.splits)
    with cmd rx1 s2 s3 Some show ?thesis
      by (simp add: sd_read_sector_def s0_def SPI_CS_def)
  qed
  then show "fst (sd_read_sector x s lba) = sector" "card (snd (sd_read_sector x s lba)) = c'"
    "SDHCtype (snd (sd_read_sector x s lba)) = SDHCtype s" by auto
qed

text \<open>The driver provides the block device of the FAT code. Writing always fails, so the
  write law holds because nothing is written.\<close>

interpretation spi: block_device "spi_ops x" "spi_serves x" for x
proof unfold_locales
  fix img :: image and d lba
  assume "spi_serves x img d"
  then obtain c' where c': "answers x (SDHCtype d) lba (img lba) (card d) c'"
    "serving x (SDHCtype d) img c'"
    unfolding spi_serves_def by (meson serving.cases)
  note r = sd_read_sector_correct [OF c'(1)]
  show "fst (sd_read (spi_ops x) d lba) = img lba" by (simp add: spi_ops_def r)
  show "spi_serves x img (snd (sd_read (spi_ops x) d lba))"
    by (simp add: spi_ops_def spi_serves_def r c')
  show "length b = 512" if "img lba = Some b" for b
    using c'(1) that by (simp add: answers_def)
next
  fix img :: image and d lba and b :: bytes
  assume "spi_serves x img d"
  then show "spi_serves x (if fst (sd_write (spi_ops x) d lba b) then img(lba \<mapsto> b) else img)
      (snd (sd_write (spi_ops x) d lba b))"
    by (simp add: spi_ops_def sd_write_sector_def)
qed

end
