(* ===== verification/FatChain.thy ===== *)
theory FatChain
  imports Fat Spi "HOL-Library.Monad_Syntax"
begin

text \<open>
  The cluster chain of \<^verbatim>\<open>Firmware_Common/fat.c\<close>: \<open>GetFATLink\<close>, \<open>FileNextSector\<close>,
  \<open>FileSeek\<close>, \<open>FileRead\<close>, \<open>FileWrite\<close>, all through the one-sector buffer \<open>fat_buffer\<close>. The
  reference \<open>chain_link\<close> reads the table from the image of the card; the lemmas show that the
  buffer is transparent and that the file position follows the chain.
\<close>

section \<open>The functions\<close>

text \<open>The sector of the table that holds a cluster's entry, and its index there.\<close>

definition link_sector :: "bool \<Rightarrow> u32 \<Rightarrow> u32" where
  "link_sector f32 cluster = (if f32 then drop_bit 7 cluster else drop_bit 8 cluster)"

definition link_index :: "bool \<Rightarrow> u32 \<Rightarrow> u16" where
  "link_index f32 cluster = ucast (if f32 then cluster AND 0x7F else cluster AND 0xFF)"

text \<open>Load a sector of the table unless it is the buffered one.\<close>

definition load_fat_sector :: "'d sd_ops \<Rightarrow> u32 \<Rightarrow> 'd fatst \<Rightarrow> bool \<times> 'd fatst" where
  "load_fat_sector io fat_index s =
     (if fat_index \<noteq> buffered_fat_index s then
        (case sd_read io (dev s) (fat_start s + fat_index) of
           (None, d) \<Rightarrow> (False, s\<lparr>dev := d\<rparr>)
         | (Some b, d) \<Rightarrow> (True, s\<lparr>dev := d, fat_buffer := overlay b (fat_buffer s),
                                   buffered_fat_index := fat_index\<rparr>))
      else (True, s))"

text \<open>The entry as the code reads it from the union \<open>FATBUFFER\<close>.\<close>

definition buffered_link :: "'d fatst \<Rightarrow> u16 \<Rightarrow> u32" where
  "buffered_link s i =
     (if fat32 s then SwapBBBB (be32 (fat_buffer s) (4 * unat i)) AND 0x0FFFFFFF
      else SwapBB (ucast (be16 (fat_buffer s) (2 * unat i))))"

definition GetFATLink :: "'d sd_ops \<Rightarrow> u32 \<Rightarrow> 'd fatst \<Rightarrow> u32 \<times> 'd fatst" where
  "GetFATLink io cluster s =
     (case load_fat_sector io (link_sector (fat32 s) cluster) s of
        (False, s) \<Rightarrow> (0, s)
      | (True, s) \<Rightarrow> (buffered_link s (link_index (fat32 s) cluster), s))"

definition FileNextSector ::
  "'d sd_ops \<Rightarrow> fileTYPE \<Rightarrow> 'd fatst \<Rightarrow> bool \<times> fileTYPE \<times> 'd fatst" where
  "FileNextSector io f s =
     (let f = f\<lparr>fsector := fsector f + 1\<rparr>
      in if fsector f AND NOT (cluster_mask s) = 0 then
           (case load_fat_sector io (link_sector (fat32 s) (fcluster f)) s of
              (False, s) \<Rightarrow> (False, f, s)
            | (True, s) \<Rightarrow>
                (True, f\<lparr>fcluster := buffered_link s (link_index (fat32 s) (fcluster f))\<rparr>, s))
         else (True, f, s))"

definition is_eoc :: "bool \<Rightarrow> u32 \<Rightarrow> bool" where
  "is_eoc f32 c \<longleftrightarrow> (if f32 then c = 0x0FFFFFFF else c = 0xFFFF)"

partial_function (option) FileSeek_forward ::
  "'d sd_ops \<Rightarrow> u32 \<Rightarrow> fileTYPE \<Rightarrow> 'd fatst \<Rightarrow> (bool \<times> fileTYPE \<times> 'd fatst) option" where
  [code]: "FileSeek_forward io offset f s =
     (if (fsector f XOR offset) AND cluster_mask s \<noteq> 0 then
        (let r = load_fat_sector io (link_sector (fat32 s) (fcluster f)) s; s' = snd r
         in if \<not> fst r then Some (False, f, s')
            else let f' = f\<lparr>fcluster := buffered_link s' (link_index (fat32 s) (fcluster f))\<rparr>
                 in if is_eoc (fat32 s) (fcluster f') then Some (False, f', s')
                    else FileSeek_forward io offset
                           (f'\<lparr>fsector := fsector f' + ucast (cluster_size s)\<rparr>) s')
      else Some (True, f\<lparr>fsector := offset\<rparr>, s))"

abbreviation (input) "SEEK_SET \<equiv> (0 :: u32)"
abbreviation (input) "SEEK_CUR \<equiv> (1 :: u32)"

text \<open>The step backwards before the loop.\<close>

definition seek_back :: "u32 \<Rightarrow> u32 \<Rightarrow> fileTYPE \<Rightarrow> fileTYPE" where
  "seek_back cmask offset f =
     (if fsector f > offset then
        (if (fsector f XOR offset) AND cmask \<noteq> 0
         then f\<lparr>fcluster := start_cluster f, fsector := 0\<rparr>
         else f\<lparr>fsector := offset\<rparr>)
      else f)"

definition FileSeek ::
  "'d sd_ops \<Rightarrow> fileTYPE \<Rightarrow> u32 \<Rightarrow> u32 \<Rightarrow> 'd fatst \<Rightarrow> (bool \<times> fileTYPE \<times> 'd fatst) option" where
  "FileSeek io f offset origin s =
     (let offset = (if origin = SEEK_CUR then offset + fsector f else offset)
      in FileSeek_forward io offset (seek_back (cluster_mask s) offset f) s)"

text \<open>The LBA of the sector the file is positioned at.\<close>

definition file_lba :: "'d fatst \<Rightarrow> fileTYPE \<Rightarrow> u32" where
  "file_lba s f = data_start s + ucast (cluster_size s) * (fcluster f - 2)
     + (fsector f AND NOT (cluster_mask s))"

text \<open>\<open>FileRead\<close> returns what the driver stored into the caller's buffer (\<open>None\<close>: returned 0).\<close>

definition FileRead :: "'d sd_ops \<Rightarrow> fileTYPE \<Rightarrow> 'd fatst \<Rightarrow> bytes option \<times> 'd fatst" where
  "FileRead io f s =
     (case sd_read io (dev s) (file_lba s f) of (r, d) \<Rightarrow> (r, s\<lparr>dev := d\<rparr>))"

definition FileWrite :: "'d sd_ops \<Rightarrow> fileTYPE \<Rightarrow> bytes \<Rightarrow> 'd fatst \<Rightarrow> bool \<times> 'd fatst" where
  "FileWrite io f buf s =
     (case sd_write io (dev s) (file_lba s f) (take 512 buf) of (w, d) \<Rightarrow> (w, s\<lparr>dev := d\<rparr>))"

section \<open>Reference: the chain on the card\<close>

text \<open>The entry of a cluster in the table on the card, in the format's byte order.\<close>

definition table_entry :: "bool \<Rightarrow> bytes \<Rightarrow> nat \<Rightarrow> u32" where
  "table_entry f32 b i =
     (if f32 then le32 b (4 * i) AND 0x0FFFFFFF else ucast (le16 b (2 * i)))"

definition chain_link :: "image \<Rightarrow> 'd fatst \<Rightarrow> u32 \<Rightarrow> u32 option" where
  "chain_link img s c =
     map_option (\<lambda>b. table_entry (fat32 s) b (unat c mod (if fat32 s then 128 else 256)))
       (img (fat_start s + link_sector (fat32 s) c))"

text \<open>The cluster \<open>n\<close> links after \<open>c\<close>, and the same when no link up to it is the end mark.\<close>

primrec chain :: "image \<Rightarrow> 'd fatst \<Rightarrow> u32 \<Rightarrow> nat \<Rightarrow> u32 option" where
  "chain img s c 0 = Some c"
| "chain img s c (Suc n) = Option.bind (chain img s c n) (chain_link img s)"

primrec live_chain :: "image \<Rightarrow> 'd fatst \<Rightarrow> u32 \<Rightarrow> nat \<Rightarrow> u32 option" where
  "live_chain img s c 0 = Some c"
| "live_chain img s c (Suc n) =
     (case Option.bind (live_chain img s c n) (chain_link img s) of
        None \<Rightarrow> None | Some l \<Rightarrow> if is_eoc (fat32 s) l then None else Some l)"

lemma live_chain_chain: "live_chain img s c n = Some l \<Longrightarrow> chain img s c n = Some l"
  by (induction n arbitrary: l) (auto split: option.splits if_splits bind_splits)

lemma live_chain_mono: "live_chain img s c (m + n) = Some l \<Longrightarrow> \<exists>l'. live_chain img s c m = Some l'"
  by (induction n arbitrary: l) (auto split: option.splits if_splits bind_splits)

section \<open>Invariants\<close>

text \<open>The variables a mounted volume keeps while files are read.\<close>

definition same_volume :: "'d fatst \<Rightarrow> 'd fatst \<Rightarrow> bool" where
  "same_volume s s' \<longleftrightarrow>
     (\<exists>d b i. s' = s\<lparr>dev := d, fat_buffer := b, buffered_fat_index := i\<rparr>)"

text \<open>The buffered sector of the table is the one on the card; \<open>0xFFFFFFFF\<close> marks an empty
  buffer and is the sector of no cluster.\<close>

definition cache_ok :: "image \<Rightarrow> 'd fatst \<Rightarrow> bool" where
  "cache_ok img s \<longleftrightarrow> length (fat_buffer s) = 512 \<and>
     (buffered_fat_index s \<noteq> -1 \<longrightarrow>
        img (fat_start s + buffered_fat_index s) = Some (fat_buffer s))"

definition geometry_ok :: "'d fatst \<Rightarrow> bool" where
  "geometry_ok s \<longleftrightarrow>
     (\<exists>k \<le> 7. unat (cluster_size s) = 2 ^ k \<and> cluster_mask s = NOT (mask k))"

lemma same_volume_refl [simp, intro]: "same_volume s s"
  unfolding same_volume_def
  by (rule exI [of _ "dev s"], rule exI [of _ "fat_buffer s"], rule exI [of _ "buffered_fat_index s"])
     simp

lemma same_volume_trans [trans]: "same_volume s t \<Longrightarrow> same_volume t u \<Longrightarrow> same_volume s u"
  unfolding same_volume_def by (elim exE, simp only:, intro exI) (rule refl | simp)+

lemma same_volumeD:
  assumes "same_volume s s'"
  shows "fat32 s' = fat32 s" "fat_start s' = fat_start s" "data_start s' = data_start s"
    "cluster_size s' = cluster_size s" "cluster_mask s' = cluster_mask s"
    "sector_buffer s' = sector_buffer s"
    "root_directory_cluster s' = root_directory_cluster s"
    "root_directory_start s' = root_directory_start s"
    "root_directory_size s' = root_directory_size s"
    "fat_number s' = fat_number s" "fat_size s' = fat_size s"
  using assms by (auto simp: same_volume_def)

lemma same_volume_dev [simp]: "same_volume s (s\<lparr>dev := d\<rparr>)"
  unfolding same_volume_def
  by (rule exI [of _ d], rule exI [of _ "fat_buffer s"], rule exI [of _ "buffered_fat_index s"]) simp

lemma chain_link_same_volume: "same_volume s s' \<Longrightarrow> chain_link img s' = chain_link img s"
  by (auto simp: chain_link_def same_volumeD fun_eq_iff)

lemma chain_same_volume: "same_volume s s' \<Longrightarrow> chain img s' c n = chain img s c n"
  by (induction n) (simp_all add: chain_link_same_volume)

lemma live_chain_same_volume:
  assumes "same_volume s s'"
  shows "live_chain img s' c n = live_chain img s c n"
  by (induction n) (simp_all add: chain_link_same_volume [OF assms] same_volumeD [OF assms] split: option.split)

lemma link_sector_not_empty: "link_sector f32 c \<noteq> -1"
proof
  assume "link_sector f32 c = -1"
  then have "unat (link_sector f32 c) = 2 ^ 32 - 1"
    by (simp add: unsigned_minus_1_eq_mask mask_eq_exp_minus_1)
  moreover have "unat c div 128 < 33554432" "unat c div 256 < 16777216"
    using unat_u32_less [of c] by (simp_all only: div_less_iff_less_mult)
  ultimately show False
    by (cases f32) (simp_all add: link_sector_def word_nat)
qed

lemma unat_link_index:
  "unat (link_index f32 c) = unat c mod (if f32 then 128 else 256)"
proof -
  have "unat c mod m < 65536" if "0 < m" "m \<le> 256" for m
    using mod_less_divisor [OF that(1), of "unat c"] that(2) by linarith
  then show ?thesis
    by (simp add: link_index_def unsigned_ucast_eq word_nat take_bit_nat_eq_self_iff)
qed

text \<open>Blocks of \<open>2^k\<close> sectors: a step of one block inside the range of \<open>u32\<close> does not wrap.\<close>

lemma block_step:
  fixes a b :: u32
  assumes "k \<le> 32" "unat a div 2 ^ k < unat b div 2 ^ k" "unat c = 2 ^ k"
  shows "unat (a + c) div 2 ^ k = Suc (unat a div 2 ^ k)"
proof -
  have N: "2 ^ 32 div 2 ^ k * 2 ^ k = (2::nat) ^ 32"
    by (rule dvd_div_mult_self, rule le_imp_power_dvd [OF assms(1)])
  have "unat b < 2 ^ 32 div 2 ^ k * 2 ^ k"
    unfolding N using unat_u32_less [of b] by simp
  then have "unat b div 2 ^ k < 2 ^ 32 div 2 ^ k"
    by (rule less_mult_imp_div_less)
  with assms(2) have "unat a div 2 ^ k + 2 \<le> 2 ^ 32 div 2 ^ k" by linarith
  then have "(unat a div 2 ^ k + 2) * 2 ^ k \<le> 2 ^ 32 div 2 ^ k * 2 ^ k"
    by (rule mult_le_mono1)
  then have "(unat a div 2 ^ k + 2) * 2 ^ k \<le> 2 ^ 32"
    by (simp only: N)
  moreover have "unat a < (unat a div 2 ^ k + 1) * 2 ^ k"
    using dividend_less_div_times [of "2 ^ k" "unat a"] by (simp add: algebra_simps)
  ultimately have "unat a + unat c < 2 ^ 32" using assms(3) by (simp add: algebra_simps)
  then have "unat (a + c) = unat a + 2 ^ k" using assms(3) by (simp add: unat_word_ariths)
  then show ?thesis by (simp add: div_add_self2)
qed

text \<open>
  The file's cluster is the one the chain of its first cluster gives for its sector.
\<close>

definition positioned :: "image \<Rightarrow> nat \<Rightarrow> 'd fatst \<Rightarrow> fileTYPE \<Rightarrow> bool" where
  "positioned img k s f \<longleftrightarrow>
     live_chain img s (start_cluster f) (unat (fsector f) div 2 ^ k) = Some (fcluster f)"

context block_device
begin

text \<open>
  The contract of the table buffer: loading a sector succeeds exactly when the card can read
  it, and then the buffer holds that sector; everything else of the volume is unchanged.
\<close>

lemma load_fat_sector_correct:
  assumes "serves img (dev s)" "cache_ok img s" "idx \<noteq> -1"
  obtains s' where "load_fat_sector io idx s = (img (fat_start s + idx) \<noteq> None, s')"
    "same_volume s s'" "serves img (dev s')" "cache_ok img s'"
    "\<And>b. img (fat_start s + idx) = Some b \<Longrightarrow> fat_buffer s' = b \<and> length b = 512"
proof (cases "idx = buffered_fat_index s")
  case True
  with assms have "img (fat_start s + idx) = Some (fat_buffer s)" "length (fat_buffer s) = 512"
    by (auto simp: cache_ok_def)
  with True assms show thesis
    by (intro that [of s]) (auto simp: load_fat_sector_def)
next
  case False
  from assms(1) show thesis
  proof (cases rule: sd_read_cases [where lba = "fat_start s + idx"])
    case (fail d')
    with False assms show thesis
      by (intro that [of "s\<lparr>dev := d'\<rparr>"]) (auto simp: load_fat_sector_def cache_ok_def)
  next
    case (success b d')
    let ?s = "s\<lparr>dev := d', fat_buffer := b, buffered_fat_index := idx\<rparr>"
    have "overlay b (fat_buffer s) = b"
      using success assms(2) by (simp add: overlay_def cache_ok_def)
    moreover have "same_volume s ?s"
      unfolding same_volume_def by blast
    ultimately show thesis
      using False success assms by (intro that [of ?s]) (auto simp: load_fat_sector_def cache_ok_def)
  qed
qed

text \<open>Reading an entry through the buffer gives the entry on the card.\<close>

lemma buffered_link_correct:
  assumes "fat_buffer s = b"
  shows "buffered_link s (link_index (fat32 s) c) =
    table_entry (fat32 s) b (unat c mod (if fat32 s then 128 else 256))"
  using assms by (simp add: buffered_link_def table_entry_def unat_link_index)

lemma follow_link:
  assumes "serves img (dev s)" "cache_ok img s"
  obtains s' where "load_fat_sector io (link_sector (fat32 s) c) s = (chain_link img s c \<noteq> None, s')"
    "same_volume s s'" "serves img (dev s')" "cache_ok img s'"
    "\<And>l. chain_link img s c = Some l \<Longrightarrow> buffered_link s' (link_index (fat32 s) c) = l"
proof (rule load_fat_sector_correct [OF assms link_sector_not_empty [of "fat32 s" c]])
  fix s'
  assume *: "load_fat_sector io (link_sector (fat32 s) c) s =
      (img (fat_start s + link_sector (fat32 s) c) \<noteq> None, s')"
    "same_volume s s'" "serves img (dev s')" "cache_ok img s'"
    "\<And>b. img (fat_start s + link_sector (fat32 s) c) = Some b \<Longrightarrow> fat_buffer s' = b \<and> length b = 512"
  have "fat32 s' = fat32 s" using *(2) by (rule same_volumeD)
  then show thesis
    using *(2-5) buffered_link_correct [of s' _ c]
    by (intro that [of s']) (auto simp: *(1) chain_link_def)
qed

lemma GetFATLink_correct:
  assumes "serves img (dev s)" "cache_ok img s"
  obtains s' where "GetFATLink io c s = (case chain_link img s c of None \<Rightarrow> 0 | Some l \<Rightarrow> l, s')"
    "same_volume s s'" "serves img (dev s')" "cache_ok img s'"
proof (rule follow_link [OF assms, of c])
  fix s'
  assume *: "load_fat_sector io (link_sector (fat32 s) c) s = (chain_link img s c \<noteq> None, s')"
    "same_volume s s'" "serves img (dev s')" "cache_ok img s'"
    "\<And>l. chain_link img s c = Some l \<Longrightarrow> buffered_link s' (link_index (fat32 s) c) = l"
  then show thesis
    using same_volumeD(1) [OF *(2)]
    by (intro that [of s']) (auto simp: GetFATLink_def split: option.split)
qed

lemma FileSeek_forward_correct:
  assumes "serves img (dev s)" "cache_ok img s"
    and "k \<le> 7" "unat (cluster_size s) = 2 ^ k" "cluster_mask s = NOT (mask k)"
    and "positioned img k s f" "unat (fsector f) div 2 ^ k \<le> unat offset div 2 ^ k"
  obtains r f' s' where "FileSeek_forward io offset f s = Some (r, f', s')"
    "same_volume s s'" "serves img (dev s')" "cache_ok img s'"
    "r \<longleftrightarrow> live_chain img s (start_cluster f) (unat offset div 2 ^ k) \<noteq> None"
    "start_cluster f' = start_cluster f"
    "r \<Longrightarrow> fsector f' = offset \<and> positioned img k s f'"
  using assms
proof (induction "unat offset div 2 ^ k - unat (fsector f) div 2 ^ k" arbitrary: f s thesis)
  case 0
  then have "unat (fsector f) div 2 ^ k = unat offset div 2 ^ k" by simp
  moreover from this have "(fsector f XOR offset) AND cluster_mask s = 0"
    by (simp add: "0.prems"(6) xor_and_not_mask_eq_0_iff)
  ultimately have "FileSeek_forward io offset f s = Some (True, f\<lparr>fsector := offset\<rparr>, s)"
      "positioned img k s (f\<lparr>fsector := offset\<rparr>)"
    using "0.prems"(7) by (auto simp: FileSeek_forward.simps [of io offset f s] positioned_def)
  then show ?case
    using "0.prems"(2,3) by (intro "0.prems"(1) [of True "f\<lparr>fsector := offset\<rparr>" s])
      (auto simp: positioned_def)
next
  case (Suc n)
  let ?q = "unat (fsector f) div 2 ^ k"
  have lt: "?q < unat offset div 2 ^ k" using Suc.hyps(2) by simp
  then have guard: "(fsector f XOR offset) AND cluster_mask s \<noteq> 0"
    by (simp add: Suc.prems(6) xor_and_not_mask_eq_0_iff)
  obtain s' where s': "load_fat_sector io (link_sector (fat32 s) (fcluster f)) s =
      (chain_link img s (fcluster f) \<noteq> None, s')"
    "same_volume s s'" "serves img (dev s')" "cache_ok img s'"
    "\<And>l. chain_link img s (fcluster f) = Some l \<Longrightarrow> buffered_link s' (link_index (fat32 s) (fcluster f)) = l"
    by (rule follow_link [OF Suc.prems(2,3)]) blast
  have next_live: "live_chain img s (start_cluster f) (Suc ?q) =
      (case chain_link img s (fcluster f) of None \<Rightarrow> None
       | Some l \<Rightarrow> if is_eoc (fat32 s) l then None else Some l)"
    using Suc.prems(7) by (simp add: positioned_def)
  have dead: "live_chain img s (start_cluster f) (Suc ?q) = None \<Longrightarrow>
      live_chain img s (start_cluster f) (unat offset div 2 ^ k) = None"
    using live_chain_mono [of img s "start_cluster f" "Suc ?q" "unat offset div 2 ^ k - Suc ?q"] lt
    by (cases "live_chain img s (start_cluster f) (unat offset div 2 ^ k)") auto
  show ?case
  proof (cases "live_chain img s (start_cluster f) (Suc ?q)")
    case None
    show ?thesis
    proof (cases "chain_link img s (fcluster f)")
      case no_link: None
      with s' guard have "FileSeek_forward io offset f s = Some (False, f, s')"
        by (simp add: FileSeek_forward.simps [of io offset f s])
      then show ?thesis using s' dead [OF None] by (intro Suc.prems(1) [of False f s']) auto
    next
      case (Some l)
      with next_live None have "is_eoc (fat32 s) l" by (simp split: if_splits)
      with s' guard Some have "FileSeek_forward io offset f s = Some (False, f\<lparr>fcluster := l\<rparr>, s')"
        by (simp add: FileSeek_forward.simps [of io offset f s])
      then show ?thesis using s' dead [OF None]
        by (intro Suc.prems(1) [of False "f\<lparr>fcluster := l\<rparr>" s']) auto
    qed
  next
    case (Some l)
    then have l: "chain_link img s (fcluster f) = Some l" "\<not> is_eoc (fat32 s) l"
      using next_live by (auto split: option.splits if_splits)
    define g where "g = f\<lparr>fcluster := l, fsector := fsector f + ucast (cluster_size s)\<rparr>"
    have step: "FileSeek_forward io offset f s = FileSeek_forward io offset g s'"
      using s' guard l by (simp add: FileSeek_forward.simps [of io offset f s] g_def Let_def)
    have q': "unat (fsector g) div 2 ^ k = Suc ?q"
      using block_step [of k "fsector f" offset "ucast (cluster_size s)"] Suc.prems(4,5) lt
      by (simp add: g_def word_nat)
    have pos: "positioned img k s' g"
      unfolding positioned_def q' live_chain_same_volume [OF s'(2)] using Some by (simp add: g_def)
    note vol = same_volumeD [OF s'(2)]
    show ?thesis
    proof (rule Suc.hyps(1) [of g s'])
      fix r f' s''
      assume *: "FileSeek_forward io offset g s' = Some (r, f', s'')"
        "same_volume s' s''" "serves img (dev s'')" "cache_ok img s''"
        "r \<longleftrightarrow> live_chain img s' (start_cluster g) (unat offset div 2 ^ k) \<noteq> None"
        "start_cluster f' = start_cluster g"
        "r \<Longrightarrow> fsector f' = offset \<and> positioned img k s' f'"
      then show ?thesis
        using same_volume_trans [OF s'(2) *(2)] live_chain_same_volume [OF s'(2)]
        by (intro Suc.prems(1) [of r f' s'']) (auto simp: step g_def positioned_def)
    qed (use Suc.hyps(2) Suc.prems(4-6) s'(3,4) pos q' lt vol in auto)
  qed
qed

lemma FileSeek_correct:
  assumes "serves img (dev s)" "cache_ok img s"
    and geom: "k \<le> 7" "unat (cluster_size s) = 2 ^ k" "cluster_mask s = NOT (mask k)"
    and pos: "positioned img k s f"
  obtains r f' s' where "FileSeek io f offset origin s = Some (r, f', s')"
    "same_volume s s'" "serves img (dev s')" "cache_ok img s'"
    "r \<longleftrightarrow> live_chain img s (start_cluster f)
       (unat (if origin = SEEK_CUR then offset + fsector f else offset) div 2 ^ k) \<noteq> None"
    "start_cluster f' = start_cluster f"
    "r \<Longrightarrow> fsector f' = (if origin = SEEK_CUR then offset + fsector f else offset) \<and>
       positioned img k s f'"
proof -
  define t where "t = (if origin = SEEK_CUR then offset + fsector f else offset)"
  let ?g = "seek_back (cluster_mask s) t f"
  have start: "start_cluster ?g = start_cluster f" by (simp add: seek_back_def)
  have "positioned img k s ?g"
    using pos geom(3) by (auto simp: seek_back_def positioned_def xor_and_not_mask_eq_0_iff)
  moreover have "unat (fsector ?g) div 2 ^ k \<le> unat t div 2 ^ k"
    using geom(3) by (auto simp: seek_back_def word_less_nat_alt not_less intro: div_le_mono)
  ultimately show thesis
  proof (rule FileSeek_forward_correct [OF assms(1,2) geom])
    fix r f' s'
    assume *: "FileSeek_forward io t ?g s = Some (r, f', s')"
      "same_volume s s'" "serves img (dev s')" "cache_ok img s'"
      "r \<longleftrightarrow> live_chain img s (start_cluster ?g) (unat t div 2 ^ k) \<noteq> None"
      "start_cluster f' = start_cluster ?g" "r \<Longrightarrow> fsector f' = t \<and> positioned img k s f'"
    have "FileSeek io f offset origin s = Some (r, f', s')"
      using *(1) by (simp add: FileSeek_def t_def)
    then show thesis
      by (rule that [OF _ *(2-5,6,7) [unfolded start, unfolded t_def]])
  qed
qed

text \<open>
  \<open>FileNextSector\<close> moves one sector on; at the end of a cluster it takes the next link,
  whatever it is, so the position after the last sector of the file has the end mark as its
  cluster.
\<close>

lemma FileNextSector_correct:
  assumes "serves img (dev s)" "cache_ok img s"
    and geom: "k \<le> 7" "unat (cluster_size s) = 2 ^ k" "cluster_mask s = NOT (mask k)"
    and pos: "chain img s (start_cluster f) (unat (fsector f) div 2 ^ k) = Some (fcluster f)"
    and no_wrap: "fsector f \<noteq> -1"
  obtains r f' s' where "FileNextSector io f s = (r, f', s')"
    "same_volume s s'" "serves img (dev s')" "cache_ok img s'"
    "fsector f' = fsector f + 1" "start_cluster f' = start_cluster f"
    "r \<longleftrightarrow> chain img s (start_cluster f) (unat (fsector f + 1) div 2 ^ k) \<noteq> None"
    "r \<Longrightarrow> chain img s (start_cluster f) (unat (fsector f + 1) div 2 ^ k) = Some (fcluster f')"
proof -
  have suc: "unat (fsector f + 1) = Suc (unat (fsector f))"
    using no_wrap by (simp add: unatSuc add_eq_0_iff add.commute)
  let ?f = "f\<lparr>fsector := fsector f + 1\<rparr>"
  have "(fsector f + 1) AND mask k = 0 \<longleftrightarrow> Suc (unat (fsector f)) mod 2 ^ k = 0"
    by (metis suc unat_and_mask unat_eq_zero)
  then have boundary: "(fsector f + 1) AND NOT (cluster_mask s) = 0 \<longleftrightarrow>
      Suc (unat (fsector f)) mod 2 ^ k = 0"
    using geom(3) by simp
  show thesis
  proof (cases "Suc (unat (fsector f)) mod 2 ^ k = 0")
    case False
    then have "unat (fsector f + 1) div 2 ^ k = unat (fsector f) div 2 ^ k"
      unfolding suc by (simp add: div_Suc)
    moreover have "FileNextSector io f s = (True, ?f, s)"
      using False boundary by (simp add: FileNextSector_def)
    ultimately show thesis
      using assms pos by (intro that [of True ?f s]) auto
  next
    case True
    then have "unat (fsector f + 1) div 2 ^ k = Suc (unat (fsector f) div 2 ^ k)"
      unfolding suc by (simp add: div_Suc)
    then have ch: "chain img s (start_cluster f) (unat (fsector f + 1) div 2 ^ k) =
        chain_link img s (fcluster f)"
      using pos by simp
    obtain s' where s': "load_fat_sector io (link_sector (fat32 s) (fcluster f)) s =
        (chain_link img s (fcluster f) \<noteq> None, s')"
      "same_volume s s'" "serves img (dev s')" "cache_ok img s'"
      "\<And>l. chain_link img s (fcluster f) = Some l \<Longrightarrow>
        buffered_link s' (link_index (fat32 s) (fcluster f)) = l"
      by (rule follow_link [OF assms(1,2)]) blast
    note vol = same_volumeD [OF s'(2)]
    show thesis
    proof (cases "chain_link img s (fcluster f)")
      case None
      with s' True boundary have "FileNextSector io f s = (False, ?f, s')"
        by (simp add: FileNextSector_def)
      with s' None ch show thesis by (intro that [of False ?f s']) auto
    next
      case (Some l)
      with s' True boundary vol have "FileNextSector io f s = (True, ?f\<lparr>fcluster := l\<rparr>, s')"
        by (simp add: FileNextSector_def)
      with s' Some ch show thesis by (intro that [of True "?f\<lparr>fcluster := l\<rparr>" s']) auto
    qed
  qed
qed

lemma FileRead_correct:
  assumes "serves img (dev s)"
  shows "fst (FileRead io f s) = img (file_lba s f)" "same_volume s (snd (FileRead io f s))"
    "serves img (dev (snd (FileRead io f s)))"
    "cache_ok img s \<Longrightarrow> cache_ok img (snd (FileRead io f s))"
  using sd_read_result [OF assms] sd_read_serves [OF assms]
  by (auto simp: FileRead_def cache_ok_def split: prod.split) (metis fst_conv snd_conv)+

end

end
