(* ===== verification/FatDir.thy ===== *)
theory FatDir
  imports FatChain
begin

text \<open>
  Directory entries in \<^verbatim>\<open>Firmware_Common/fat.c\<close>: \<open>FileOpen\<close>, \<open>FileCreate\<close> and
  \<open>UpdateEntry\<close>. A directory entry is 32 bytes of \<open>sector_buffer\<close>; the offsets are those of
  the packed struct \<open>DIRENTRY\<close> of \<^verbatim>\<open>fat.h\<close>. The loop over the clusters of a directory can
  run for ever on a cyclic chain, so it is a partial function; the loops over the entries of a
  cluster and over the table are structural.
\<close>

section \<open>Entries\<close>

abbreviation (input) "SLOT_EMPTY \<equiv> (0x00 :: u8)"
abbreviation (input) "SLOT_DELETED \<equiv> (0xE5 :: u8)"
abbreviation (input) "ATTR_HIDDEN \<equiv> (0x02 :: u8)"
abbreviation (input) "ATTR_VOLUME \<equiv> (0x08 :: u8)"
abbreviation (input) "ATTR_DIRECTORY \<equiv> (0x10 :: u8)"
abbreviation (input) "ATTR_LFN \<equiv> (0x0F :: u8)"

definition entry_offset :: "u32 \<Rightarrow> nat" where
  "entry_offset iEntry = 32 * unat (iEntry AND 0x0F)"

text \<open>Entry \<open>iEntry\<close> is reached by loading a sector every 16 entries; a failed read leaves the
  old contents of the buffer.\<close>

definition next_entry ::
  "'d sd_ops \<Rightarrow> u32 \<Rightarrow> u32 \<times> 'd fatst \<Rightarrow> u32 \<times> 'd fatst" where
  "next_entry io iEntry = (\<lambda>(sector, s).
     if iEntry AND 0x0F = 0 then (sector + 1, snd (read_sector_buffer io sector s))
     else (sector, s))"

definition zero_file :: fileTYPE where
  "zero_file = \<lparr>fname = replicate 11 0, attributes = 0, entry_sector = 0, entry_index = 0,
     fsector = 0, fsize = 0, fcluster = 0, start_cluster = 0, long_name = replicate 261 0\<rparr>"

definition entry_cluster :: "bool \<Rightarrow> bytes \<Rightarrow> nat \<Rightarrow> u32" where
  "entry_cluster f32 b e =
     SwapBB (ucast (be16 b (e + 26))) +
     (if f32 then push_bit 16 (SwapBB (ucast (be16 b (e + 20))) AND 0x0FFF) else 0)"

definition entry_matches :: "reader \<Rightarrow> bytes \<Rightarrow> nat \<Rightarrow> bool" where
  "entry_matches name b e \<longleftrightarrow>
     b ! e \<noteq> SLOT_EMPTY \<and> b ! e \<noteq> SLOT_DELETED \<and>
     b ! (e + 11) AND (ATTR_VOLUME OR ATTR_DIRECTORY) = 0 \<and>
     strncmp (at b e) name 11 = 0"

definition file_of_entry :: "bool \<Rightarrow> bytes \<Rightarrow> u32 \<Rightarrow> u32 \<Rightarrow> fileTYPE \<Rightarrow> fileTYPE" where
  "file_of_entry f32 b sector iEntry f =
     (let e = entry_offset iEntry; c = entry_cluster f32 b e
      in f\<lparr>fname := strncpy (at b e) 11,
           attributes := b ! (e + 11),
           fsize := SwapBBBB (be32 b (e + 28)),
           start_cluster := c,
           fcluster := c,
           fsector := 0,
           entry_sector := sector,
           entry_index := iEntry AND 0x0F\<rparr>)"

section \<open>FileOpen\<close>

fun FileOpen_entries ::
  "'d sd_ops \<Rightarrow> reader \<Rightarrow> fileTYPE \<Rightarrow> nat \<Rightarrow> u32 \<Rightarrow> u32 \<times> 'd fatst \<Rightarrow>
     fileTYPE option \<times> 'd fatst" where
  "FileOpen_entries io name f 0 iEntry (sector, s) = (None, s)"
| "FileOpen_entries io name f (Suc n) iEntry (sector, s) =
     (case next_entry io iEntry (sector, s) of (sector, s) \<Rightarrow>
        if entry_matches name (sector_buffer s) (entry_offset iEntry)
        then (Some (file_of_entry (fat32 s) (sector_buffer s) (sector - 1) iEntry f), s)
        else FileOpen_entries io name f n (iEntry + 1) (sector, s))"

definition end_of_chain :: "bool \<Rightarrow> u32 \<Rightarrow> bool" where
  "end_of_chain f32 c \<longleftrightarrow>
     (if f32 then c AND 0x0FFFFFF8 = 0x0FFFFFF8 else c AND 0xFFF8 = 0xFFF8)"

definition cluster_lba :: "'d fatst \<Rightarrow> u32 \<Rightarrow> u32" where
  "cluster_lba s c = data_start s + ucast (cluster_size s) * (c - 2)"

definition root_entries :: "'d fatst \<Rightarrow> u32" where
  "root_entries s =
     (if fat32 s then push_bit 4 (ucast (cluster_size s)) else push_bit 4 (root_directory_size s))"

partial_function (option) FileOpen_clusters ::
  "'d sd_ops \<Rightarrow> reader \<Rightarrow> fileTYPE \<Rightarrow> u32 \<Rightarrow> u32 \<Rightarrow> 'd fatst \<Rightarrow>
     (bool \<times> fileTYPE \<times> 'd fatst) option" where
  [code]: "FileOpen_clusters io name f cluster sector s =
     (let r = FileOpen_entries io name f (unat (root_entries s)) 0 (sector, s); s1 = snd r
      in if fst r \<noteq> None then Some (True, the (fst r), s1)
         else if \<not> fat32 s then Some (False, zero_file, s1)
         else (let l = GetFATLink io cluster s1; s2 = snd l
               in if end_of_chain (fat32 s) (fst l) then Some (False, zero_file, s2)
                  else FileOpen_clusters io name f (fst l) (cluster_lba s2 (fst l)) s2))"

definition FileOpen ::
  "'d sd_ops \<Rightarrow> fileTYPE \<Rightarrow> reader \<Rightarrow> 'd fatst \<Rightarrow> (bool \<times> fileTYPE \<times> 'd fatst) option" where
  "FileOpen io f name s =
     FileOpen_clusters io name f (root_directory_cluster s) (root_directory_start s) s"

section \<open>UpdateEntry\<close>

text \<open>The expression the code compares before and after; a volume with \<open>cluster_size\<close> 0 would
  divide by zero and trap, so it has no value. An entry index beyond the 1024 bytes of
  \<open>sector_buffer\<close>, where the C code would write outside it, has no value either.\<close>

definition size_in_clusters :: "u8 \<Rightarrow> u32 \<Rightarrow> u32 option" where
  "size_in_clusters csize sz =
     (if csize = 0 then None else Some ((sz + ucast csize - 1) div push_bit 9 (ucast csize)))"

definition UpdateEntry ::
  "'d sd_ops \<Rightarrow> fileTYPE \<Rightarrow> 'd fatst \<Rightarrow> (bool \<times> 'd fatst) option" where
  "UpdateEntry io f s =
     (if 32 \<le> unat (entry_index f) then None else
      case read_sector_buffer io (entry_sector f) s of
        (False, s) \<Rightarrow> Some (False, s)
      | (True, s) \<Rightarrow>
         (let e = 32 * unat (entry_index f);
              b = store_at e (take 11 (fname f)) (sector_buffer s);
              b = b[e + 11 := attributes f]
          in case (size_in_clusters (cluster_size s) (SwapBBBB (be32 b (e + 28))),
                   size_in_clusters (cluster_size s) (fsize f)) of
               (Some old, Some new) \<Rightarrow>
                 if old \<noteq> new then Some (False, s\<lparr>sector_buffer := b\<rparr>)
                 else (let b = put_be32 b (e + 28) (SwapBBBB (fsize f))
                       in case sd_write io (dev s) (entry_sector f) (take 512 b) of
                            (w, d) \<Rightarrow> Some (w, s\<lparr>sector_buffer := b, dev := d\<rparr>))
             | _ \<Rightarrow> None))"

section \<open>FileCreate\<close>

definition FILEDATE :: "u32 \<Rightarrow> u32 \<Rightarrow> u32 \<Rightarrow> u32" where
  "FILEDATE y m d = (push_bit 9 (y - 1980) AND 0xFE00) OR (push_bit 5 m AND 0x1E0) OR (d AND 0x1F)"

definition FILETIME :: "u32 \<Rightarrow> u32 \<Rightarrow> u32 \<Rightarrow> u32" where
  "FILETIME h m s = (push_bit 11 h AND 0xF800) OR (push_bit 5 m AND 0x7E0) OR (s div 2 AND 0x1F)"

definition new_direntry :: "bool \<Rightarrow> fileTYPE \<Rightarrow> u32 \<Rightarrow> bytes" where
  "new_direntry f32 f cluster =
     (let date = ucast (SwapBB (FILEDATE 2009 9 1)) :: u16;
          time = ucast (SwapBB (FILETIME 0 0 0)) :: u16;
          b = store_at 0 (take 11 (fname f)) (replicate 32 0);
          b = b[11 := attributes f];
          b = put_be16 b 16 date;
          b = put_be16 b 14 time;
          b = put_be16 b 18 date;
          b = put_be16 b 24 date;
          b = put_be16 b 22 time;
          b = put_be16 b 26 (ucast (SwapBB cluster));
          b = put_be16 b 20 (if f32 then ucast (SwapBB (drop_bit 16 cluster)) else 0)
      in put_be32 b 28 (SwapBBBB (fsize f)))"

text \<open>The entry of the buffered sector as the code compares it with 0, and the end mark it
  stores.\<close>

definition raw_link :: "'d fatst \<Rightarrow> nat \<Rightarrow> u32" where
  "raw_link s i = (if fat32 s then be32 (fat_buffer s) (4 * i) else ucast (be16 (fat_buffer s) (2 * i)))"

definition mark_eoc :: "'d fatst \<Rightarrow> nat \<Rightarrow> 'd fatst" where
  "mark_eoc s i = s\<lparr>fat_buffer :=
     (if fat32 s then put_be32 (fat_buffer s) (4 * i) 0xFFFFFF0F
      else put_be16 (fat_buffer s) (2 * i) 0xFFFF)\<rparr>"

datatype free_search = Read_failed | Table_full | Free_at u32 nat

text \<open>The search over the sectors of the table, \<open>n\<close> of which are left; the first two entries
  of the table are reserved.\<close>

fun find_free ::
  "'d sd_ops \<Rightarrow> nat \<Rightarrow> u32 \<Rightarrow> nat \<Rightarrow> 'd fatst \<Rightarrow> free_search \<times> 'd fatst" where
  "find_free io 0 fat_index buffer_index s = (Table_full, s)"
| "find_free io (Suc n) fat_index buffer_index s =
     (case load_fat_sector io fat_index s of
        (False, s) \<Rightarrow> (Read_failed, s)
      | (True, s) \<Rightarrow>
         (case find (\<lambda>i. raw_link s i = 0) [buffer_index..<(if fat32 s then 128 else 256)] of
            Some i \<Rightarrow> (Free_at fat_index i, s)
          | None \<Rightarrow> find_free io n (fat_index + 1) 0 s))"

definition cluster_number :: "bool \<Rightarrow> u32 \<Rightarrow> nat \<Rightarrow> u32" where
  "cluster_number f32 fat_index i = push_bit (if f32 then 7 else 8) fat_index + of_nat i"

fun write_copies :: "'d sd_ops \<Rightarrow> u32 \<Rightarrow> nat list \<Rightarrow> 'd fatst \<Rightarrow> bool \<times> 'd fatst" where
  "write_copies io fat_index [] s = (True, s)"
| "write_copies io fat_index (i # is) s =
     (case sd_write io (dev s) (fat_start s + of_nat i * fat_size s + fat_index) (fat_buffer s) of
        (False, d) \<Rightarrow> (False, s\<lparr>dev := d\<rparr>)
      | (True, d) \<Rightarrow> write_copies io fat_index is (s\<lparr>dev := d\<rparr>))"

text \<open>What happens once an empty directory slot is found: allocate a cluster, write the table
  and its copies, then the entry. A full table returns 1 without doing anything.\<close>

definition create_at ::
  "'d sd_ops \<Rightarrow> u32 \<Rightarrow> u32 \<Rightarrow> fileTYPE \<Rightarrow> 'd fatst \<Rightarrow> bool \<times> fileTYPE \<times> 'd fatst" where
  "create_at io sector iEntry f s =
     (case find_free io (unat (fat_size s)) 0 2 s of
        (Read_failed, s) \<Rightarrow> (False, f, s)
      | (Table_full, s) \<Rightarrow> (True, f, s)
      | (Free_at fat_index i, s) \<Rightarrow>
         (let cluster = cluster_number (fat32 s) fat_index i;
              s = mark_eoc s i
          in case sd_write io (dev s) (fat_start s + fat_index) (fat_buffer s) of
               (False, d) \<Rightarrow> (False, f, s\<lparr>dev := d\<rparr>)
             | (True, d) \<Rightarrow>
                (case write_copies io fat_index [1..<unat (fat_number s)] (s\<lparr>dev := d\<rparr>) of
                   (False, s) \<Rightarrow> (False, f, s)
                 | (True, s) \<Rightarrow>
                    (let b = store_at (entry_offset iEntry) (new_direntry (fat32 s) f cluster)
                               (sector_buffer s);
                         s = s\<lparr>sector_buffer := b\<rparr>
                     in case sd_write io (dev s) sector (take 512 b) of
                          (False, d) \<Rightarrow> (False, f, s\<lparr>dev := d\<rparr>)
                        | (True, d) \<Rightarrow>
                           (True, f\<lparr>start_cluster := cluster, fcluster := cluster, fsector := 0,
                                   entry_sector := sector, entry_index := iEntry AND 0x0F\<rparr>,
                            s\<lparr>dev := d\<rparr>)))))"

fun FileCreate_entries ::
  "'d sd_ops \<Rightarrow> fileTYPE \<Rightarrow> nat \<Rightarrow> u32 \<Rightarrow> u32 \<times> 'd fatst \<Rightarrow>
     (bool \<times> fileTYPE) option \<times> 'd fatst" where
  "FileCreate_entries io f 0 iEntry (sector, s) = (None, s)"
| "FileCreate_entries io f (Suc n) iEntry (sector, s) =
     (case next_entry io iEntry (sector, s) of (sector, s) \<Rightarrow>
        if sector_buffer s ! entry_offset iEntry = SLOT_EMPTY
        then (case create_at io (sector - 1) iEntry f s of (r, f, s) \<Rightarrow> (Some (r, f), s))
        else FileCreate_entries io f n (iEntry + 1) (sector, s))"

partial_function (option) FileCreate_clusters ::
  "'d sd_ops \<Rightarrow> bool \<Rightarrow> u32 \<Rightarrow> fileTYPE \<Rightarrow> u32 \<Rightarrow> u32 \<Rightarrow> 'd fatst \<Rightarrow>
     (bool \<times> fileTYPE \<times> 'd fatst) option" where
  [code]: "FileCreate_clusters io linked nEntries f cluster sector s =
     (let r = FileCreate_entries io f (unat nEntries) 0 (sector, s); s1 = snd r
      in if fst r \<noteq> None then Some (fst (the (fst r)), snd (the (fst r)), s1)
         else if \<not> linked then Some (False, f, s1)
         else (let l = GetFATLink io cluster s1; s2 = snd l
               in if end_of_chain (fat32 s) (fst l) then Some (False, f, s2)
                  else FileCreate_clusters io linked nEntries f (fst l) (cluster_lba s2 (fst l)) s2))"

definition FileCreate ::
  "'d sd_ops \<Rightarrow> u32 \<Rightarrow> fileTYPE \<Rightarrow> 'd fatst \<Rightarrow> (bool \<times> fileTYPE \<times> 'd fatst) option" where
  "FileCreate io iDirectory f s =
     (if iDirectory \<noteq> 0 then
        FileCreate_clusters io True (push_bit 4 (ucast (cluster_size s))) f iDirectory
          (cluster_lba s iDirectory) s
      else FileCreate_clusters io (fat32 s) (root_entries s) f (root_directory_cluster s)
          (root_directory_start s) s)"

section \<open>Reference: the slots of the directory\<close>

text \<open>A slot is an entry of a directory sector. The slots of \<open>n\<close> consecutive sectors, of the
  chain of clusters of a FAT32 directory, and of the root directory.\<close>

definition run_slots :: "u32 \<Rightarrow> nat \<Rightarrow> (u32 \<times> nat) list" where
  "run_slots start n = map (\<lambda>j. (start + of_nat (j div 16), j mod 16)) [0..<16 * n]"

inductive cluster_slots :: "image \<Rightarrow> 'd fatst \<Rightarrow> u32 \<Rightarrow> (u32 \<times> nat) list \<Rightarrow> bool"
  for img s where
  cluster_slots_last: "chain_link img s c = Some l \<Longrightarrow> end_of_chain (fat32 s) l \<Longrightarrow>
    cluster_slots img s c (run_slots (cluster_lba s c) (unat (cluster_size s)))"
| cluster_slots_more: "chain_link img s c = Some l \<Longrightarrow> \<not> end_of_chain (fat32 s) l \<Longrightarrow>
    cluster_slots img s l sl \<Longrightarrow>
    cluster_slots img s c (run_slots (cluster_lba s c) (unat (cluster_size s)) @ sl)"

definition root_slots :: "image \<Rightarrow> 'd fatst \<Rightarrow> (u32 \<times> nat) list \<Rightarrow> bool" where
  "root_slots img s slots \<longleftrightarrow>
     (if fat32 s then cluster_slots img s (root_directory_cluster s) slots \<and>
        root_directory_start s = cluster_lba s (root_directory_cluster s)
      else slots = run_slots (root_directory_start s) (unat (root_directory_size s)) \<and>
        unat (root_directory_size s) < 2 ^ 28)"

text \<open>The slots of a directory by its first cluster, 0 for the root.\<close>

definition directory_slots :: "image \<Rightarrow> 'd fatst \<Rightarrow> u32 \<Rightarrow> (u32 \<times> nat) list \<Rightarrow> bool" where
  "directory_slots img s dir slots \<longleftrightarrow>
     (if dir \<noteq> 0 then cluster_slots img s dir slots else root_slots img s slots)"

text \<open>The contents of \<open>sector_buffer\<close> after a directory sector is loaded: its second half is
  never written by the directory code.\<close>

definition sector_view :: "image \<Rightarrow> 'd fatst \<Rightarrow> u32 \<Rightarrow> bytes" where
  "sector_view img s lba = overlay (the (img lba)) (sector_buffer s)"

text \<open>Slot \<open>i\<close> of a sector is a file of a given name: it is in use, is neither a volume label nor a
  directory, and the eleven characters agree (up to a NUL, if they hold one).\<close>

definition slot_matches :: "image \<Rightarrow> 'd fatst \<Rightarrow> reader \<Rightarrow> u32 \<times> nat \<Rightarrow> bool" where
  "slot_matches img s name = (\<lambda>(lba, i).
     let b = sector_view img s lba; e = 32 * i
     in b ! e \<notin> {0, 0xE5} \<and> b ! (e + 11) AND 0x18 = 0 \<and>
        (\<forall>k < 11. (\<forall>j < k. b ! (e + j) \<noteq> 0) \<longrightarrow> b ! (e + k) = name k))"

lemma slot_matches_entry: "slot_matches img s name (lba, i) \<longleftrightarrow> entry_matches name (sector_view img s lba) (32 * i)"
  by (simp add: slot_matches_def entry_matches_def strncmp_0_iff at_def Let_def)

text \<open>The open file that a slot describes; its fields are little-endian.\<close>

definition file_of_slot :: "image \<Rightarrow> 'd fatst \<Rightarrow> fileTYPE \<Rightarrow> u32 \<times> nat \<Rightarrow> fileTYPE" where
  "file_of_slot img s f =
     (\<lambda>(lba, i).
        let b = sector_view img s lba; e = 32 * i;
            c = ucast (le16 b (e + 26)) +
                (if fat32 s then push_bit 16 (ucast (le16 b (e + 20)) AND 0x0FFF) else 0)
        in f\<lparr>fname := strncpy (at b e) 11, attributes := b ! (e + 11), fsize := le32 b (e + 28),
             start_cluster := c, fcluster := c, fsector := 0, entry_sector := lba, entry_index := of_nat i\<rparr>)"

text \<open>What scanning a directory leaves alone.\<close>

definition scanned :: "'d fatst \<Rightarrow> 'd fatst \<Rightarrow> bool" where
  "scanned s s' \<longleftrightarrow> (\<exists>d b i sb. s' = s\<lparr>dev := d, fat_buffer := b, buffered_fat_index := i,
       sector_buffer := sb\<rparr> \<and> drop 512 sb = drop 512 (sector_buffer s))"

lemma scanned_refl [simp, intro]: "scanned s s"
  unfolding scanned_def
  by (rule exI [of _ "dev s"], rule exI [of _ "fat_buffer s"],
      rule exI [of _ "buffered_fat_index s"], rule exI [of _ "sector_buffer s"]) simp

lemma scanned_trans [trans]: "scanned s t \<Longrightarrow> scanned t u \<Longrightarrow> scanned s u"
  unfolding scanned_def by (elim exE conjE, simp only:, intro exI conjI) (rule refl | simp)+

lemma scannedD:
  assumes "scanned s s'"
  shows "fat32 s' = fat32 s" "fat_start s' = fat_start s" "data_start s' = data_start s"
    "cluster_size s' = cluster_size s" "fat_size s' = fat_size s" "fat_number s' = fat_number s"
    "root_directory_size s' = root_directory_size s"
    "drop 512 (sector_buffer s') = drop 512 (sector_buffer s)"
  using assms by (auto simp: scanned_def)

lemma same_volume_scanned: "same_volume s s' \<Longrightarrow> scanned s s'"
  unfolding scanned_def same_volume_def
  by (elim exE, rename_tac d b i, rule_tac x = d in exI, rule_tac x = b in exI, rule_tac x = i in exI,
      rule_tac x = "sector_buffer s" in exI) simp

lemma scanned_derived:
  assumes "scanned s s'"
  shows "chain_link img s' = chain_link img s" "cluster_lba s' = cluster_lba s"
    "root_entries s' = root_entries s"
  using scannedD [OF assms]
  by (simp_all add: chain_link_def cluster_lba_def root_entries_def fun_eq_iff)

lemma sector_view_scanned:
  assumes "scanned s s'" "\<And>b. img lba = Some b \<Longrightarrow> length b = 512" "img lba \<noteq> None"
  shows "sector_view img s' lba = sector_view img s lba"
  using assms scannedD(8) [OF assms(1)] by (auto simp: sector_view_def overlay_def)

lemma length_run_slots [simp]: "length (run_slots start n) = 16 * n"
  by (simp add: run_slots_def)

lemma unat_push_bit_u32:
  fixes w :: u32
  assumes "unat w < 2 ^ (32 - k)" "k \<le> 32"
  shows "unat (push_bit k w) = 2 ^ k * unat w"
proof -
  have "unat w * 2 ^ k < 2 ^ (32 - k) * 2 ^ k" using assms(1) by simp
  then have "unat w * 2 ^ k < 2 ^ 32" using assms(2) by (simp flip: power_add)
  then show ?thesis
    unfolding unsigned_push_bit_eq by (simp add: take_bit_nat_eq_self_iff push_bit_eq_mult mult.commute)
qed

section \<open>Walking the directory\<close>

lemma entry_of_nat:
  "unat ((of_nat j :: u32) AND 0x0F) = j mod 16"
  "(of_nat j :: u32) AND 0x0F = 0 \<longleftrightarrow> j mod 16 = 0"
  "entry_offset (of_nat j) = 32 * (j mod 16)"
proof -
  show *: "unat ((of_nat j :: u32) AND 0x0F) = j mod 16"
    by (simp add: word_nat unat_of_nat mod_mod_cancel)
  show "(of_nat j :: u32) AND 0x0F = 0 \<longleftrightarrow> j mod 16 = 0"
    using * by (metis unat_eq_zero)
  show "entry_offset (of_nat j) = 32 * (j mod 16)"
    using * by (simp add: entry_offset_def)
qed

lemma entry_and_mask: "(of_nat j :: u32) AND 0x0F = of_nat (j mod 16)"
  using arg_cong [OF entry_of_nat(1) [of j], of "of_nat :: nat \<Rightarrow> u32"] by simp

text \<open>Stepping to the next entry when the loaded sector is passed through \<open>tr\<close> first: the
  identity for \<open>FileOpen\<close> and \<open>FileCreate\<close>, the swapping of the fields for \<open>ScanDirectory\<close>.\<close>

definition load_entry ::
  "(bytes \<Rightarrow> bytes) \<Rightarrow> 'd sd_ops \<Rightarrow> u32 \<Rightarrow> u32 \<times> 'd fatst \<Rightarrow> u32 \<times> 'd fatst" where
  "load_entry tr io iEntry = (\<lambda>(sector, s).
     if iEntry AND 0x0F = 0 then
       (let s = snd (read_sector_buffer io sector s)
        in (sector + 1, s\<lparr>sector_buffer := tr (sector_buffer s)\<rparr>))
     else (sector, s))"

lemma next_entry_load: "next_entry = load_entry (\<lambda>b. b)"
  by (simp add: next_entry_def load_entry_def fun_eq_iff Let_def)

text \<open>Before entry \<open>j\<close> of a run of sectors the buffer holds the sector of the previous entry.\<close>

definition walking ::
  "(bytes \<Rightarrow> bytes) \<Rightarrow> ('d \<Rightarrow> bool) \<Rightarrow> image \<Rightarrow> 'd fatst \<Rightarrow> u32 \<Rightarrow> nat \<Rightarrow> u32 \<times> 'd fatst \<Rightarrow> bool" where
  "walking tr P img s0 start j = (\<lambda>(sector, s).
     sector = start + of_nat ((j + 15) div 16) \<and> scanned s0 s \<and> P (dev s) \<and> cache_ok img s \<and>
     (j mod 16 \<noteq> 0 \<longrightarrow> sector_buffer s = tr (sector_view img s0 (start + of_nat (j div 16)))))"

definition keeps_second_half :: "(bytes \<Rightarrow> bytes) \<Rightarrow> bool" where
  "keeps_second_half tr \<longleftrightarrow> (\<forall>b. drop 512 (tr b) = drop 512 b)"

lemma keeps_second_half_id [simp]: "keeps_second_half (\<lambda>b. b)"
  by (simp add: keeps_second_half_def)

context block_device
begin

lemma load_entry_walking:
  assumes tr: "keeps_second_half tr"
    and walk: "walking tr (serves img) img s0 start j (sector, s)"
    and readable: "img (start + of_nat (j div 16)) \<noteq> None"
  obtains sector' s' where "load_entry tr io (of_nat j) (sector, s) = (sector', s')"
    "sector' - 1 = start + of_nat (j div 16)"
    "sector_buffer s' = tr (sector_view img s0 (start + of_nat (j div 16)))"
    "scanned s0 s'" "walking tr (serves img) img s0 start (Suc j) (sector', s')"
proof -
  let ?lba = "start + of_nat (j div 16) :: u32"
  have *: "sector = start + of_nat ((j + 15) div 16)" "scanned s0 s" "serves img (dev s)"
    "cache_ok img s" "j mod 16 \<noteq> 0 \<Longrightarrow> sector_buffer s = tr (sector_view img s0 ?lba)"
    using walk by (auto simp: walking_def)
  have len: "\<And>b. img ?lba = Some b \<Longrightarrow> length b = 512" by (rule sector_length [OF *(3)])
  have div: "(Suc j + 15) div 16 = Suc (j div 16)" by simp
  show thesis
  proof (cases "j mod 16 = 0")
    case True
    then have lba: "sector = ?lba" using *(1) by auto
    obtain b where b: "img ?lba = Some b" using readable by blast
    obtain d where d: "sd_read io (dev s) ?lba = (Some b, d)" "serves img d"
      using *(3) by (rule sd_read_cases [where lba = ?lba]) (use b in auto)
    define t where "t = s\<lparr>dev := d, sector_buffer := tr (overlay b (sector_buffer s))\<rparr>"
    have step: "load_entry tr io (of_nat j) (sector, s) = (sector + 1, t)"
      using True d(1) by (simp add: load_entry_def entry_of_nat read_sector_buffer_def lba t_def Let_def)
    have half: "drop 512 (tr (overlay b (sector_buffer s))) = drop 512 (sector_buffer s)"
      using tr len [OF b] by (simp add: keeps_second_half_def overlay_def)
    have st: "scanned s t"
      unfolding scanned_def t_def
      by (rule exI [of _ d], rule exI [of _ "fat_buffer s"], rule exI [of _ "buffered_fat_index s"],
          rule exI [of _ "tr (overlay b (sector_buffer s))"]) (simp add: half)
    have view: "sector_buffer t = tr (sector_view img s0 ?lba)"
      using sector_view_scanned [OF *(2), of img ?lba] len b by (simp add: t_def sector_view_def)
    have "walking tr (serves img) img s0 start (Suc j) (sector + 1, t)"
    proof -
      have "Suc j div 16 = j div 16" using True by (simp add: div_Suc mod_Suc)
      moreover have "cache_ok img t" "dev t = d" using *(4) by (simp_all add: t_def cache_ok_def)
      moreover have "?lba + 1 = start + of_nat (Suc (j div 16))" by simp
      ultimately show ?thesis
        using scanned_trans [OF *(2) st] d(2) view
        unfolding walking_def prod.case div lba by (simp only: simp_thms)
    qed
    then show thesis
      using step lba view scanned_trans [OF *(2) st] by (intro that [of "sector + 1" t]) auto
  next
    case False
    then have "j + 15 = Suc (j div 16) * 16 + (j mod 16 - 1)"
      using div_mult_mod_eq [of j 16] by simp
    then have next_sector: "(j + 15) div 16 = Suc (j div 16)" by (simp add: less_imp_diff_less)
    then have lba: "sector - 1 = ?lba" using *(1) by simp
    have "Suc j mod 16 \<noteq> 0 \<Longrightarrow> Suc j div 16 = j div 16" by (simp add: div_Suc)
    then have "walking tr (serves img) img s0 start (Suc j) (sector, s)"
      using * False next_sector unfolding walking_def prod.case div by simp
    then show thesis
      using False lba * by (intro that [of sector s]) (auto simp: load_entry_def entry_of_nat)
  qed
qed

lemmas next_entry_walking = load_entry_walking [OF keeps_second_half_id, folded next_entry_load]

text \<open>Searching a run of sectors is \<open>find\<close> over its slots.\<close>

lemma FileOpen_entries_walk:
  assumes "walking (\<lambda>b. b) (serves img) img s0 start j (sector, s)"
    and "\<forall>i \<in> {j..<j + n}. img (start + of_nat (i div 16)) \<noteq> None"
  shows "\<exists>s'. FileOpen_entries io name f n (of_nat j) (sector, s) =
      (map_option (file_of_slot img s0 f)
        (find (slot_matches img s0 name)
          (map (\<lambda>j. (start + of_nat (j div 16), j mod 16)) [j..<j + n])), s') \<and>
    scanned s0 s' \<and> serves img (dev s') \<and> cache_ok img s'"
  using assms
proof (induction n arbitrary: j sector s)
  case 0
  then show ?case by (auto simp: walking_def)
next
  case (Suc n)
  let ?lba = "start + of_nat (j div 16) :: u32"
  have "img ?lba \<noteq> None" using Suc.prems(2) by auto
  from Suc.prems(1) this obtain sector' s' where
    step: "next_entry io (of_nat j) (sector, s) = (sector', s')" "sector' - 1 = ?lba"
      "sector_buffer s' = sector_view img s0 ?lba" "scanned s0 s'"
      "walking (\<lambda>b. b) (serves img) img s0 start (Suc j) (sector', s')"
    by (rule next_entry_walking) blast
  have f32: "fat32 s' = fat32 s0" by (rule scannedD [OF step(4)])
  have slots: "[j..<j + Suc n] = j # [Suc j..<Suc j + n]" by (simp add: upt_conv_Cons)
  show ?case
  proof (cases "slot_matches img s0 name (?lba, j mod 16)")
    case True
    have "FileOpen_entries io name f (Suc n) (of_nat j) (sector, s) =
        (Some (file_of_slot img s0 f (?lba, j mod 16)), s')"
      unfolding FileOpen_entries.simps step(1) prod.case
      using True by (simp add: step(2,3) f32 slot_matches_entry file_of_slot_def entry_of_nat
          file_of_entry_def entry_cluster_def entry_and_mask Let_def)
    then show ?thesis
      using step(4,5) True unfolding slots by (simp add: walking_def)
  next
    case False
    then have "FileOpen_entries io name f (Suc n) (of_nat j) (sector, s) =
        FileOpen_entries io name f n (of_nat (Suc j)) (sector', s')"
      unfolding FileOpen_entries.simps step(1) prod.case
      by (simp add: step(3) slot_matches_entry entry_of_nat add.commute)
    with False Suc.IH [OF step(5)] Suc.prems(2) show ?thesis
      unfolding slots by auto
  qed
qed

lemma FileOpen_run:
  assumes "scanned s0 s" "serves img (dev s)" "cache_ok img s"
    and "unat nE = 16 * n" "\<forall>x \<in> set (run_slots start n). img (fst x) \<noteq> None"
  obtains s' where "FileOpen_entries io name f (unat nE) 0 (start, s) =
      (map_option (file_of_slot img s0 f) (find (slot_matches img s0 name) (run_slots start n)), s')"
    "scanned s0 s'" "serves img (dev s')" "cache_ok img s'"
proof -
  have "walking (\<lambda>b. b) (serves img) img s0 start 0 (start, s)"
    using assms by (simp add: walking_def)
  then show thesis
    using FileOpen_entries_walk [of img s0 start 0 start s "unat nE" name f] assms(4,5) that
    unfolding run_slots_def by auto
qed

text \<open>One cluster of a directory, or the FAT16 root directory.\<close>

lemma FileOpen_clusters_step:
  assumes inv: "scanned s0 s" "serves img (dev s)" "cache_ok img s"
    and n: "unat (root_entries s0) = 16 * n"
    and readable: "\<forall>x \<in> set (run_slots start n). img (fst x) \<noteq> None"
    and link: "fat32 s0 \<Longrightarrow> chain_link img s0 c = Some l"
  obtains s' where "scanned s0 s'" "serves img (dev s')" "cache_ok img s'"
    "FileOpen_clusters io name f c start s =
      (case find (slot_matches img s0 name) (run_slots start n) of
         Some x \<Rightarrow> Some (True, file_of_slot img s0 f x, s')
       | None \<Rightarrow> if \<not> fat32 s0 \<or> end_of_chain (fat32 s0) l then Some (False, zero_file, s')
                 else FileOpen_clusters io name f l (cluster_lba s0 l) s')"
proof (rule FileOpen_run [OF inv n readable, of name f])
  fix t
  let ?find = "find (slot_matches img s0 name) (run_slots start n)"
  assume t: "FileOpen_entries io name f (unat (root_entries s0)) 0 (start, s) =
      (map_option (file_of_slot img s0 f) ?find, t)"
    "scanned s0 t" "serves img (dev t)" "cache_ok img t"
  note s_eq = scannedD(1) [OF inv(1)] scanned_derived(3) [OF inv(1)]
  show thesis
  proof (cases "?find = None \<and> fat32 s0")
    case False
    then show thesis
      using t by (intro that [of t])
        (auto simp: FileOpen_clusters.simps [of io name f c start s] s_eq Let_def split: option.split)
  next
    case True
    from t(3,4) show thesis
    proof (rule GetFATLink_correct [where c = c])
      fix s'
      assume s': "GetFATLink io c t = (case chain_link img t c of None \<Rightarrow> 0 | Some l \<Rightarrow> l, s')"
        "same_volume t s'" "serves img (dev s')" "cache_ok img s'"
      have "scanned s0 s'" using t(2) same_volume_scanned [OF s'(2)] by (rule scanned_trans)
      moreover from this have "cluster_lba s' = cluster_lba s0" by (rule scanned_derived)
      ultimately show thesis
        using True t(1) s' link scanned_derived(1) [OF t(2), of img]
        by (intro that [of s']) (simp_all add: FileOpen_clusters.simps [of io name f c start s] s_eq Let_def)
    qed
  qed
qed

lemma FileOpen_clusters_fat32:
  assumes "cluster_slots img s0 c slots"
    and "fat32 s0" "\<forall>x \<in> set slots. img (fst x) \<noteq> None"
    and "scanned s0 s" "serves img (dev s)" "cache_ok img s"
  shows "\<exists>s'. FileOpen_clusters io name f c (cluster_lba s0 c) s =
      Some (case find (slot_matches img s0 name) slots of
              None \<Rightarrow> (False, zero_file, s') | Some x \<Rightarrow> (True, file_of_slot img s0 f x, s')) \<and>
    scanned s0 s' \<and> serves img (dev s') \<and> cache_ok img s'"
proof -
  have n: "unat (root_entries s0) = 16 * unat (cluster_size s0)"
    using assms(2) order_less_trans [OF unat_u8_less [of "cluster_size s0"], of "2 ^ 28"]
    by (simp add: root_entries_def unat_push_bit_u32 word_nat)
  show ?thesis
    using assms
  proof (induction arbitrary: s rule: cluster_slots.induct)
    case (cluster_slots_last c l)
    show ?case
    proof (rule FileOpen_clusters_step [OF cluster_slots_last.prems(3-5) n, where c = c and l = l
          and name = name and f = f and start = "cluster_lba s0 c"])
      fix s'
      assume "scanned s0 s'" "serves img (dev s')" "cache_ok img s'"
        "FileOpen_clusters io name f c (cluster_lba s0 c) s =
          (case find (slot_matches img s0 name) (run_slots (cluster_lba s0 c) (unat (cluster_size s0))) of
             Some x \<Rightarrow> Some (True, file_of_slot img s0 f x, s')
           | None \<Rightarrow> if \<not> fat32 s0 \<or> end_of_chain (fat32 s0) l then Some (False, zero_file, s')
                     else FileOpen_clusters io name f l (cluster_lba s0 l) s')"
      then show ?thesis
        using cluster_slots_last.hyps(2) by (auto split: option.split)
    qed (use cluster_slots_last in auto)
  next
    case (cluster_slots_more c l sl)
    show ?case
    proof (rule FileOpen_clusters_step [OF cluster_slots_more.prems(3-5) n, where c = c and l = l
          and name = name and f = f and start = "cluster_lba s0 c"])
      fix s'
      assume "scanned s0 s'" "serves img (dev s')" "cache_ok img s'"
        "FileOpen_clusters io name f c (cluster_lba s0 c) s =
          (case find (slot_matches img s0 name) (run_slots (cluster_lba s0 c) (unat (cluster_size s0))) of
             Some x \<Rightarrow> Some (True, file_of_slot img s0 f x, s')
           | None \<Rightarrow> if \<not> fat32 s0 \<or> end_of_chain (fat32 s0) l then Some (False, zero_file, s')
                     else FileOpen_clusters io name f l (cluster_lba s0 l) s')"
      then show ?thesis
        using cluster_slots_more.IH [of s'] cluster_slots_more.prems(1,2) cluster_slots_more.hyps(2)
        by (auto simp: find_append split: option.split)
    qed (use cluster_slots_more in auto)
  qed
qed

text \<open>Opening a file: the first slot of the root directory that names it.\<close>

lemma FileOpen_correct:
  assumes "serves img (dev s)" "cache_ok img s"
    and slots: "root_slots img s slots" "\<forall>x \<in> set slots. img (fst x) \<noteq> None"
  shows "\<exists>s'. FileOpen io f name s =
      Some (case find (slot_matches img s name) slots of
              None \<Rightarrow> (False, zero_file, s') | Some x \<Rightarrow> (True, file_of_slot img s f x, s')) \<and>
    scanned s s' \<and> serves img (dev s') \<and> cache_ok img s'"
proof (cases "fat32 s")
  case True
  then show ?thesis
    using slots FileOpen_clusters_fat32 [of img s "root_directory_cluster s" slots s name f] assms(1,2)
    by (simp add: FileOpen_def root_slots_def)
next
  case False
  then have "unat (root_entries s) = 16 * unat (root_directory_size s)"
    "slots = run_slots (root_directory_start s) (unat (root_directory_size s))"
    using slots(1) by (simp_all add: root_entries_def root_slots_def unat_push_bit_u32)
  note n = this(1) and slots_eq = this(2)
  obtain s' where s': "scanned s s'" "serves img (dev s')" "cache_ok img s'"
    "FileOpen_clusters io name f (root_directory_cluster s) (root_directory_start s) s =
      (case find (slot_matches img s name)
          (run_slots (root_directory_start s) (unat (root_directory_size s))) of
         Some x \<Rightarrow> Some (True, file_of_slot img s f x, s')
       | None \<Rightarrow> if \<not> fat32 s \<or> end_of_chain (fat32 s) 0 then Some (False, zero_file, s')
                 else FileOpen_clusters io name f 0 (cluster_lba s 0) s')"
  proof (rule FileOpen_clusters_step [OF scanned_refl assms(1,2) n slots(2) [unfolded slots_eq],
        where c = "root_directory_cluster s" and l = 0 and name = name and f = f])
    show "fat32 s \<Longrightarrow> chain_link img s (root_directory_cluster s) = Some 0"
      using False by simp
  qed (rule that)
  then show ?thesis
    using False by (auto simp: FileOpen_def slots_eq split: option.split)
qed

text \<open>The search for a free cluster, over the entries of the table numbered from 0.\<close>

end

definition per_sector :: "bool \<Rightarrow> nat" where
  "per_sector f32 = (if f32 then 128 else 256)"

lemma per_sector_pos [simp]: "0 < per_sector f32"
  by (simp add: per_sector_def)

definition raw_entry :: "bool \<Rightarrow> bytes \<Rightarrow> nat \<Rightarrow> u32" where
  "raw_entry f32 b i = (if f32 then be32 b (4 * i) else ucast (be16 b (2 * i)))"

definition entry_free :: "image \<Rightarrow> 'd fatst \<Rightarrow> nat \<Rightarrow> bool" where
  "entry_free img s k \<longleftrightarrow>
     (\<exists>b. img (fat_start s + of_nat (k div per_sector (fat32 s))) = Some b \<and>
          raw_entry (fat32 s) b (k mod per_sector (fat32 s)) = 0)"

fun search_result :: "image \<Rightarrow> 'd fatst \<Rightarrow> nat \<Rightarrow> nat \<Rightarrow> free_search \<Rightarrow> bool" where
  "search_result img s from to (Free_at fat_index i) \<longleftrightarrow>
     (let k = unat fat_index * per_sector (fat32 s) + i
      in i < per_sector (fat32 s) \<and> from \<le> k \<and> k < to \<and> entry_free img s k \<and>
         (\<forall>k' \<in> {from..<k}. \<not> entry_free img s k'))"
| "search_result img s from to Table_full \<longleftrightarrow> (\<forall>k \<in> {from..<to}. \<not> entry_free img s k)"
| "search_result img s from to Read_failed \<longleftrightarrow>
     (\<exists>k. from div per_sector (fat32 s) \<le> k \<and> k * per_sector (fat32 s) < to \<and>
        img (fat_start s + of_nat k) = None)"

lemma find_upt_SomeD:
  "find P [m..<n] = Some i \<Longrightarrow> m \<le> i \<and> i < n \<and> P i \<and> (\<forall>j \<in> {m..<i}. \<not> P j)"
  by (induction n arbitrary: i) (auto simp: find_append find_None_iff split: option.splits if_splits)

lemma entry_free_block:
  assumes "img (fat_start s + of_nat q) = Some b" "j < per_sector (fat32 s)"
  shows "entry_free img s (q * per_sector (fat32 s) + j) \<longleftrightarrow> raw_entry (fat32 s) b j = 0"
  using assms by (simp add: entry_free_def)

lemma entry_free_same_volume:
  "same_volume s s' \<Longrightarrow> entry_free img s' = entry_free img s"
  by (auto simp: entry_free_def same_volumeD fun_eq_iff)

lemma search_result_same_volume:
  "same_volume s s' \<Longrightarrow> search_result img s' m n r = search_result img s m n r"
  by (cases r) (simp_all add: same_volumeD entry_free_same_volume)

lemma search_result_extend:
  assumes "search_result img s (Suc q * per_sector (fat32 s)) m r"
    and "\<And>i. j \<le> i \<Longrightarrow> i < per_sector (fat32 s) \<Longrightarrow> \<not> entry_free img s (q * per_sector (fat32 s) + i)"
    and "j < per_sector (fat32 s)"
  shows "search_result img s (q * per_sector (fat32 s) + j) m r"
proof -
  have used: "\<not> entry_free img s k" if "q * per_sector (fat32 s) + j \<le> k" "k < Suc q * per_sector (fat32 s)" for k
    using that assms(2) [of "k - q * per_sector (fat32 s)"] by auto
  show ?thesis
  proof (cases r)
    case Read_failed
    then obtain k where "Suc q \<le> k" "k * per_sector (fat32 s) < m" "img (fat_start s + of_nat k) = None"
      using assms(1) by auto
    then show ?thesis
      using Read_failed assms(3) by (auto intro!: exI [of _ k])
  next
    case Table_full
    then show ?thesis using assms(1) used by (force simp: not_less)
  next
    case (Free_at fi i)
    then show ?thesis
      using assms(1,3) used by (auto simp: Let_def not_less)
  qed
qed

lemma load_fat_sector_index:
  "load_fat_sector io i s = (True, s') \<Longrightarrow> buffered_fat_index s' = i"
  by (auto simp: load_fat_sector_def split: if_splits prod.splits option.splits)

context block_device
begin

lemma find_free_correct:
  assumes "serves img (dev s)" "cache_ok img s"
    and "unat fat_index + n < 2 ^ 32" "j < per_sector (fat32 s)"
  obtains r s' where "find_free io n fat_index j s = (r, s')"
    "same_volume s s'" "serves img (dev s')" "cache_ok img s'"
    "search_result img s (unat fat_index * per_sector (fat32 s) + j)
       ((unat fat_index + n) * per_sector (fat32 s)) r"
    "\<And>fi i. r = Free_at fi i \<Longrightarrow> buffered_fat_index s' = fi"
  using assms
proof (induction n arbitrary: fat_index j s thesis)
  case 0
  then show ?case by (intro "0.prems"(1) [of Table_full s]) auto
next
  case (Suc n)
  let ?q = "unat fat_index" and ?p = "per_sector (fat32 s)"
  have "fat_index \<noteq> -1"
    using Suc.prems(4) by (auto simp: unsigned_minus_1_eq_mask mask_eq_exp_minus_1)
  then show ?case
  proof (rule load_fat_sector_correct [OF Suc.prems(2,3)])
    fix s1
    assume s1: "load_fat_sector io fat_index s = (img (fat_start s + fat_index) \<noteq> None, s1)"
      "same_volume s s1" "serves img (dev s1)" "cache_ok img s1"
      "\<And>b. img (fat_start s + fat_index) = Some b \<Longrightarrow> fat_buffer s1 = b \<and> length b = 512"
    note vol = same_volumeD [OF s1(2)]
    have suc: "unat (fat_index + 1) = Suc ?q"
      using Suc.prems(4) by (simp add: unat_word_ariths)
    show ?case
    proof (cases "img (fat_start s + fat_index)")
      case None
      moreover have "search_result img s (?q * ?p + j) ((?q + Suc n) * ?p) Read_failed"
        using None Suc.prems(5) by (auto intro!: exI [of _ ?q] simp: add_mult_distrib trans_less_add1)
      ultimately show ?thesis
        using s1 by (intro Suc.prems(1) [of Read_failed s1]) auto
    next
      case (Some b)
      then have b: "fat_buffer s1 = b" "img (fat_start s + of_nat ?q) = Some b"
        using s1(5) by auto
      have raw: "raw_link s1 i = raw_entry (fat32 s) b i" for i
        by (simp add: raw_link_def raw_entry_def b vol)
      let ?find = "find (\<lambda>i. raw_entry (fat32 s) b i = 0) [j..<?p]"
      have step: "find_free io (Suc n) fat_index j s =
          (case ?find of Some i \<Rightarrow> (Free_at fat_index i, s1)
           | None \<Rightarrow> find_free io n (fat_index + 1) 0 s1)"
        using Some s1(1) by (simp add: vol raw per_sector_def)
      have block: "entry_free img s (?q * ?p + i) \<longleftrightarrow> raw_entry (fat32 s) b i = 0" if "i < ?p" for i
        using b(2) that by (rule entry_free_block)
      show ?thesis
      proof (cases ?find)
        case (Some i)
        note i = find_upt_SomeD [OF Some]
        have "\<not> entry_free img s k" if "k \<in> {?q * ?p + j..<?q * ?p + i}" for k
        proof -
          have "k - ?q * ?p < ?p" "k - ?q * ?p \<in> {j..<i}" using that i by auto
          then show ?thesis using that i block [of "k - ?q * ?p"] by auto
        qed
        then have "search_result img s (?q * ?p + j) ((?q + Suc n) * ?p) (Free_at fat_index i)"
          using i block [of i] by (auto simp: Let_def algebra_simps)
        moreover have "buffered_fat_index s1 = fat_index"
          using s1(1) \<open>img (fat_start s + fat_index) = Some b\<close>
          by (intro load_fat_sector_index) simp
        ultimately show ?thesis
          using step Some s1 by (intro Suc.prems(1) [of "Free_at fat_index i" s1]) auto
      next
        case None
        then have used: "\<not> entry_free img s (?q * ?p + i)" if "j \<le> i" "i < ?p" for i
          using that block [of i] by (auto simp: find_None_iff)
        show ?thesis
        proof (rule Suc.IH [OF _ s1(3,4), of "fat_index + 1" 0])
          fix r s'
          assume r: "find_free io n (fat_index + 1) 0 s1 = (r, s')"
            "same_volume s1 s'" "serves img (dev s')" "cache_ok img s'"
            "search_result img s1 (unat (fat_index + 1) * per_sector (fat32 s1) + 0)
              ((unat (fat_index + 1) + n) * per_sector (fat32 s1)) r"
            "\<And>fi i. r = Free_at fi i \<Longrightarrow> buffered_fat_index s' = fi"
          have "search_result img s (Suc ?q * ?p) ((?q + Suc n) * ?p) r"
            using r(5) search_result_same_volume [OF s1(2)] by (simp add: suc vol)
          then have "search_result img s (?q * ?p + j) ((?q + Suc n) * ?p) r"
            using used Suc.prems(5) by (rule search_result_extend)
          then show ?thesis
            using step None r same_volume_trans [OF s1(2) r(2)]
            by (intro Suc.prems(1) [of r s']) auto
        qed (use Suc.prems(4) in \<open>simp_all add: suc\<close>)
      qed
    qed
  qed
qed

end

section \<open>Creating a file\<close>

text \<open>What the card holds after the table sector \<open>b\<close> with entry \<open>i\<close> marked was written over
  the copies \<open>js\<close> of the table.\<close>

definition marked :: "bool \<Rightarrow> bytes \<Rightarrow> nat \<Rightarrow> bytes" where
  "marked f32 b i = (if f32 then put_be32 b (4 * i) 0xFFFFFF0F else put_be16 b (2 * i) 0xFFFF)"

definition with_copies :: "'d fatst \<Rightarrow> u32 \<Rightarrow> bytes \<Rightarrow> nat list \<Rightarrow> image \<Rightarrow> image" where
  "with_copies s fat_index b js img =
     fold (\<lambda>j m. m(fat_start s + of_nat j * fat_size s + fat_index \<mapsto> b)) js img"

lemma marked_entry:
  assumes "length b = 512" "i < per_sector f32"
  shows "table_entry f32 (marked f32 b i) i = (if f32 then 0x0FFFFFFF else 0xFFFF)"
    "j < per_sector f32 \<Longrightarrow> j \<noteq> i \<Longrightarrow> table_entry f32 (marked f32 b i) j = table_entry f32 b j"
    "length (marked f32 b i) = 512"
proof -
  show "table_entry f32 (marked f32 b i) i = (if f32 then 0x0FFFFFFF else 0xFFFF)"
    using assms
    by (auto simp: table_entry_def marked_def per_sector_def simp flip: SwapBBBB_be32 SwapBB_be16)
       (code_simp)+
  show "length (marked f32 b i) = 512" using assms by (simp add: marked_def)
  assume "j < per_sector f32" "j \<noteq> i"
  then show "table_entry f32 (marked f32 b i) j = table_entry f32 b j"
    by (auto simp: table_entry_def marked_def le32_def le16_def put_be32_def put_be16_def)
qed

lemma mark_eoc_marked: "mark_eoc s i = s\<lparr>fat_buffer := marked (fat32 s) (fat_buffer s) i\<rparr>"
  by (simp add: mark_eoc_def marked_def)

lemma cluster_number_of_nat:
  "cluster_number f32 fi i = of_nat (unat fi * per_sector f32 + i)"
  by (simp add: cluster_number_def per_sector_def push_bit_eq_mult)

lemma length_new_direntry [simp]: "length (new_direntry f32 f c) = 32"
  by (simp add: new_direntry_def store_at_def Let_def)

context block_device
begin

lemma write_copies_correct:
  assumes "write_copies io fi js s = (True, s')" "serves img (dev s)" "length (fat_buffer s) = 512"
  shows "serves (with_copies s fi (fat_buffer s) js img) (dev s')" "s' = s\<lparr>dev := dev s'\<rparr>"
  using assms
proof (induction js arbitrary: s img)
  case (Cons j js)
  {
    case 1
    then obtain d where d: "sd_write io (dev s) (fat_start s + of_nat j * fat_size s + fi) (fat_buffer s) = (True, d)"
      "write_copies io fi js (s\<lparr>dev := d\<rparr>) = (True, s')"
      by (auto split: prod.splits bool.splits)
    with sd_write_serves [OF 1(2,3), of "fat_start s + of_nat j * fat_size s + fi"] 1(3) Cons(1) [OF d(2)]
    show ?case by (simp add: with_copies_def)
  next
    case 2
    then obtain d where d: "write_copies io fi js (s\<lparr>dev := d\<rparr>) = (True, s')"
      "sd_write io (dev s) (fat_start s + of_nat j * fat_size s + fi) (fat_buffer s) = (True, d)"
      by (auto split: prod.splits bool.splits)
    with sd_write_serves [OF 2(2,3), of "fat_start s + of_nat j * fat_size s + fi"] 2(3) Cons(2) [OF d(1)]
    show ?case by simp
  }
qed (simp_all add: with_copies_def)

text \<open>
  When \<open>create_at\<close> returns 1 there are two cases. A free cluster was found: it is the first one
  after the two reserved entries, its entry is marked as an end of chain in every copy of the
  table, the directory slot holds the new entry, and the file starts at the cluster. Or there
  was none, and nothing happened.
\<close>

lemma create_at_correct:
  assumes "serves img (dev s)" "cache_ok img s"
    and "unat (fat_size s) * per_sector (fat32 s) < 2 ^ 32" "1 \<le> unat (fat_number s)"
    and sb: "length (sector_buffer s) = 1024"
    and result: "create_at io sector iEntry f s = (True, f', s')"
  obtains (full) "\<forall>k \<in> {2..<unat (fat_size s) * per_sector (fat32 s)}. \<not> entry_free img s k"
      "f' = f" "serves img (dev s')" "cache_ok img s'" "same_volume s s'"
  | (allocated) k b fb db where "2 \<le> k" "entry_free img s k" "\<forall>k' \<in> {2..<k}. \<not> entry_free img s k'"
      "k < 2 ^ 32" "img (fat_start s + of_nat (k div per_sector (fat32 s))) = Some b"
      "length b = 512" "fb = marked (fat32 s) b (k mod per_sector (fat32 s))"
      "db = take 512 (store_at (entry_offset iEntry) (new_direntry (fat32 s) f (of_nat k)) (sector_buffer s))"
      "serves ((with_copies s (of_nat (k div per_sector (fat32 s))) fb [0..<unat (fat_number s)] img)
                (sector \<mapsto> db)) (dev s')"
      "f' = f\<lparr>start_cluster := of_nat k, fcluster := of_nat k, fsector := 0,
              entry_sector := sector, entry_index := iEntry AND 0x0F\<rparr>"
proof -
  let ?p = "per_sector (fat32 s)"
  have "unat (0 :: u32) + unat (fat_size s) < 2 ^ 32" "2 < ?p"
    by (simp_all add: per_sector_def)
  then show thesis
  proof (rule find_free_correct [OF assms(1,2)])
    fix r t
    assume t: "find_free io (unat (fat_size s)) 0 2 s = (r, t)" "same_volume s t"
      "serves img (dev t)" "cache_ok img t"
      "search_result img s (unat (0 :: u32) * ?p + 2) ((unat (0 :: u32) + unat (fat_size s)) * ?p) r"
      "\<And>fi i. r = Free_at fi i \<Longrightarrow> buffered_fat_index t = fi"
    show thesis
    proof (cases r)
      case Read_failed
      then show thesis using result t(1) by (simp add: create_at_def)
    next
      case Table_full
      then show thesis using result t by (intro full) (auto simp: create_at_def)
    next
      case (Free_at fi i)
      define k where "k = unat fi * ?p + i"
      have k: "2 \<le> k" "k < unat (fat_size s) * ?p" "entry_free img s k"
        "\<forall>k' \<in> {2..<k}. \<not> entry_free img s k'" "i < ?p"
        using t(5) Free_at by (auto simp: Let_def k_def)
      have idx: "k div ?p = unat fi" "k mod ?p = i"
        using k(5) by (simp_all add: k_def)
      note vol = same_volumeD [OF t(2)]
      have "unat fi * ?p < unat (fat_size s) * ?p" using k(2) unfolding k_def by linarith
      then have "fi \<noteq> -1"
        using unat_u32_less [of "fat_size s"]
        by (auto simp: unsigned_minus_1_eq_mask mask_eq_exp_minus_1 simp del: unat_u32_less)
      then have b: "img (fat_start s + fi) = Some (fat_buffer t)" "length (fat_buffer t) = 512"
        using t(4) t(6) [OF Free_at] vol by (auto simp: cache_ok_def)
      define fb where "fb = marked (fat32 s) (fat_buffer t) i"
      have fb: "length fb = 512" using marked_entry(3) [OF b(2) k(5)] by (simp add: fb_def)
      have num: "cluster_number (fat32 s) fi i = of_nat k"
        by (simp add: cluster_number_of_nat k_def)
      define u where "u = t\<lparr>fat_buffer := fb\<rparr>"
      have mark: "mark_eoc t i = u" by (simp add: u_def mark_eoc_marked fb_def vol)
      define db where "db = take 512
        (store_at (entry_offset iEntry) (new_direntry (fat32 s) f (of_nat k)) (sector_buffer s))"
      have "entry_offset iEntry \<le> 480" by (simp add: entry_offset_def word_nat)
      then have db: "length db = 512" using sb by (simp add: db_def)
      obtain d1 t3 where w: "sd_write io (dev t) (fat_start s + fi) fb = (True, d1)"
        "write_copies io fi [1..<unat (fat_number s)] (u\<lparr>dev := d1\<rparr>) = (True, t3)"
        using result by (auto simp: create_at_def t(1) Free_at mark Let_def u_def vol
            split: prod.splits bool.splits)
      have "serves (img(fat_start s + fi \<mapsto> fb)) d1"
        using sd_write_serves [OF t(3) fb, of "fat_start s + fi"] w(1) by simp
      then have serves3: "serves (with_copies s fi fb [1..<unat (fat_number s)]
          (img(fat_start s + fi \<mapsto> fb))) (dev t3)" and t3: "t3 = u\<lparr>dev := dev t3\<rparr>"
        using write_copies_correct [OF w(2)] fb by (simp_all add: u_def with_copies_def vol)
      have "fat32 t3 = fat32 s" "sector_buffer t3 = sector_buffer s"
        using arg_cong [OF t3, of fat32] arg_cong [OF t3, of sector_buffer] by (simp_all add: u_def vol)
      then obtain d4 where d4: "sd_write io (dev t3) sector db = (True, d4)" "dev s' = d4"
        and f': "f' = f\<lparr>start_cluster := of_nat k, fcluster := of_nat k, fsector := 0,
              entry_sector := sector, entry_index := iEntry AND 0x0F\<rparr>"
        using result w by (auto simp: create_at_def t(1) Free_at mark Let_def u_def vol num db_def
            split: prod.splits bool.splits)
      have "[0..<unat (fat_number s)] = 0 # [1..<unat (fat_number s)]"
        using assms(4) by (simp add: upt_conv_Cons)
      then have "serves ((with_copies s fi fb [0..<unat (fat_number s)] img)(sector \<mapsto> db)) d4"
        using sd_write_serves [OF serves3 db, of sector] d4 by (simp add: with_copies_def)
      then show thesis
        using k idx b fb f' d4(2) assms(3)
        by (intro allocated [of k "fat_buffer t" fb db]) (simp_all add: fb_def db_def)
    qed
  qed
qed

end

section \<open>Updating a slot\<close>

definition updated_slot :: "fileTYPE \<Rightarrow> nat \<Rightarrow> bytes \<Rightarrow> bytes" where
  "updated_slot f e b =
     put_be32 ((store_at e (take 11 (fname f)) b)[e + 11 := attributes f]) (e + 28) (SwapBBBB (fsize f))"

lemma updated_slot_fields:
  assumes "length b = 1024" "e + 32 \<le> 512" "length (fname f) = 11"
  shows "length (take 512 (updated_slot f e b)) = 512"
    "take 11 (drop e (take 512 (updated_slot f e b))) = fname f"
    "take 512 (updated_slot f e b) ! (e + 11) = attributes f"
    "le32 (take 512 (updated_slot f e b)) (e + 28) = fsize f"
    "j < 512 \<Longrightarrow> j \<notin> {e..e + 11} \<union> {e + 28..e + 31} \<Longrightarrow> take 512 (updated_slot f e b) ! j = b ! j"
proof -
  have len: "length (updated_slot f e b) = 1024"
    using assms by (simp add: updated_slot_def)
  then show *: "length (take 512 (updated_slot f e b)) = 512" by simp
  have old: "updated_slot f e b ! j = (store_at e (fname f) b)[e + 11 := attributes f] ! j"
    if "j < e + 28 \<or> e + 31 < j" for j
    using that assms(3) by (auto simp: updated_slot_def put_be32_def put_be16_def)
  show "take 11 (drop e (take 512 (updated_slot f e b))) = fname f"
  proof (rule nth_equalityI)
    fix i
    assume "i < length (take 11 (drop e (take 512 (updated_slot f e b))))"
    then have i: "i < 11" by simp
    then have "store_at e (fname f) b ! (e + i) = fname f ! i"
      using assms by (subst nth_store_at) auto
    with i show "take 11 (drop e (take 512 (updated_slot f e b))) ! i = fname f ! i"
      using assms len old [of "e + i"] by simp
  qed (use assms len in simp)
  show "take 512 (updated_slot f e b) ! (e + 11) = attributes f"
    using assms old [of "e + 11"] by simp
  have "be32 (updated_slot f e b) (e + 28) = SwapBBBB (fsize f)"
    using assms by (simp add: updated_slot_def)
  then have "be32 (take 512 (updated_slot f e b)) (e + 28) = SwapBBBB (fsize f)"
    using assms by (simp add: be32_def be16_def)
  then show "le32 (take 512 (updated_slot f e b)) (e + 28) = fsize f"
    by (metis SwapBBBB_be32 SwapBBBB_SwapBBBB)
  assume "j < 512" "j \<notin> {e..e + 11} \<union> {e + 28..e + 31}"
  moreover from this have "store_at e (fname f) b ! j = b ! j"
    using assms by (subst nth_store_at) auto
  ultimately show "take 512 (updated_slot f e b) ! j = b ! j"
    using old [of j] by (auto simp: nth_list_update)
qed

context block_device
begin

lemma UpdateEntry_correct:
  assumes "serves img (dev s)" "length (sector_buffer s) = 1024"
    and "length (fname f) = 11" "unat (entry_index f) < 16"
    and "UpdateEntry io f s = Some (True, s')"
  obtains b where "img (entry_sector f) = Some b" "length b = 512"
    "serves (img(entry_sector f \<mapsto>
       take 512 (updated_slot f (32 * unat (entry_index f)) (overlay b (sector_buffer s))))) (dev s')"
  using assms(1)
proof (cases rule: sd_read_cases [where lba = "entry_sector f"])
  case (fail d')
  then show thesis using assms(4,5) by (simp add: UpdateEntry_def read_sector_buffer_def)
next
  case (success b d')
  let ?b = "take 512 (updated_slot f (32 * unat (entry_index f)) (overlay b (sector_buffer s)))"
  have len: "length ?b = 512"
    using success assms by (intro updated_slot_fields) auto
  have "sd_write io d' (entry_sector f) ?b = (True, dev s')"
    using success assms(4,5)
    by (auto simp: UpdateEntry_def read_sector_buffer_def Let_def updated_slot_def
        split: option.splits if_splits prod.splits)
  then show thesis
    using sd_write_serves [OF success(4) len, of "entry_sector f"] success by (intro that [of b]) auto
qed

end

end
