(* ===== verification/FatScan.thy ===== *)
theory FatScan
  imports FatDir "HOL-Library.Multiset" "HOL-Library.List_Lexorder"
begin

text \<open>
  The directory browser of \<^verbatim>\<open>Firmware_Common/fat.c\<close>: \<open>ScanDirectory\<close> keeps a window of
  eight entries of the current directory in sorted order (\<open>DirEntry\<close>, \<open>DirEntryLFN\<close> and the
  permutation \<open>sort_table\<close>) and scrolls it by reading the directory again. Entries are the 32
  bytes of a \<open>DIRENTRY\<close>. The result \<open>None\<close> stands for a scan that does not return or that
  writes outside the long-name buffer \<open>lfn\<close>.
\<close>

section \<open>State\<close>

abbreviation (input) "MAXDIRENTRIES \<equiv> (8 :: nat)"

abbreviation (input) "SCAN_INIT \<equiv> (0 :: u32)"
abbreviation (input) "SCAN_NEXT \<equiv> (1 :: u32)"
abbreviation (input) "SCAN_PREV \<equiv> (- 1 :: u32)"
abbreviation (input) "SCAN_NEXT_PAGE \<equiv> (2 :: u32)"
abbreviation (input) "SCAN_PREV_PAGE \<equiv> (- 2 :: u32)"
abbreviation (input) "SCAN_INIT_FIRST \<equiv> (3 :: u32)"
abbreviation (input) "SCAN_INIT_NEXT \<equiv> (4 :: u32)"

abbreviation (input) "SCAN_DIR \<equiv> (1 :: u8)"
abbreviation (input) "SCAN_LFN \<equiv> (2 :: u8)"
abbreviation (input) "FIND_DIR \<equiv> (4 :: u8)"
abbreviation (input) "FIND_FILE \<equiv> (8 :: u8)"

text \<open>A directory entry with its long name, and a table of eight of them with its order.\<close>

type_synonym item = "bytes \<times> bytes"

record listing =
  DirEntry :: "bytes list"
  DirEntryLFN :: "bytes list"
  sort_table :: "nat list"

definition item_at :: "listing \<Rightarrow> nat \<Rightarrow> item" where
  "item_at t k = (DirEntry t ! k, DirEntryLFN t ! k)"

text \<open>The globals and the locals that live across entries. The counters are \<open>unsigned char\<close>
  in the code; the invariant below bounds them by 8.\<close>

record scan =
  view :: listing
  temp :: listing
  nDirEntries :: nat
  iSelectedEntry :: nat
  iCurrentDirectory :: u32
  iPreviousDirectory :: u32
  nNewEntries :: nat
  scan_rc :: bool
  lfn :: bytes
  lfn_error :: bool
  name_checksum :: u8
  prev_sequence_number :: u8
  prev_name_checksum :: u8

section \<open>Comparing entries\<close>

text \<open>The checksum of the short name, over its 11 bytes.\<close>

definition checksum_step :: "u8 \<Rightarrow> u8 \<Rightarrow> u8" where
  "checksum_step b c = push_bit 7 (c AND 1) + drop_bit 1 c + b"

definition lfn_checksum :: "bytes \<Rightarrow> u8" where
  "lfn_checksum name = fold checksum_step (take 11 name) 0"

text \<open>\<open>tolower\<close> is the macro \<open>(x|32)\<close>, applied to a signed character.\<close>

definition tolower :: "u8 \<Rightarrow> u32" where
  "tolower c = scast c OR 32"

text \<open>Called with a positive length only.\<close>

fun strnicmp :: "reader \<Rightarrow> reader \<Rightarrow> nat \<Rightarrow> u32" where
  "strnicmp s1 s2 0 = 0"
| "strnicmp s1 s2 (Suc n) =
     (let c1 = s1 0; c2 = s2 0; v = tolower c1 - tolower c2
      in if v = 0 \<and> c1 \<noteq> 0 \<and> n > 0 then strnicmp (advance s1) (advance s2) n else v)"

definition is_dir :: "bytes \<Rightarrow> bool" where
  "is_dir e \<longleftrightarrow> e ! 11 AND ATTR_DIRECTORY \<noteq> 0"

definition CompareDirEntries :: "item \<Rightarrow> item \<Rightarrow> u32" where
  "CompareDirEntries = (\<lambda>(e1, l1) (e2, l2).
     if is_dir e1 \<and> \<not> is_dir e2 then - 1
     else if \<not> is_dir e1 \<and> is_dir e2 then 1
     else (let len = (if l1 ! 0 \<noteq> 0 \<and> l2 ! 0 \<noteq> 0 then 260 else 11);
               s1 = (if l1 ! 0 \<noteq> 0 then at l1 0 else at e1 0);
               s2 = (if l2 ! 0 \<noteq> 0 then at l2 0 else at e2 0);
               rc = strnicmp s1 s2 len
           in if rc = 0 then
                (if l1 ! 0 \<noteq> 0 then (if l2 ! 0 = 0 then 1 else rc)
                 else (if l2 ! 0 \<noteq> 0 then - 1 else rc))
              else rc))"

definition before :: "item \<Rightarrow> item \<Rightarrow> bool" where
  "before a b \<longleftrightarrow> CompareDirEntries a b <s 0"

definition behind :: "item \<Rightarrow> item \<Rightarrow> bool" where
  "behind a b \<longleftrightarrow> 0 <s CompareDirEntries a b"

section \<open>Storing and ordering entries\<close>

text \<open>The long name that goes with an entry: the collected name when its checksum is that of
  the short name.\<close>

definition store_item :: "nat \<Rightarrow> bytes \<Rightarrow> scan \<Rightarrow> listing \<Rightarrow> listing" where
  "store_item k e s t =
     t\<lparr>DirEntry := (DirEntry t)[k := e],
       DirEntryLFN := (DirEntryLFN t)[k :=
         (if lfn s ! 0 \<noteq> 0 \<and> lfn_checksum e = name_checksum s then strncpy (at (lfn s) 0) 261
          else (DirEntryLFN t ! k)[0 := 0])]\<rparr>"

text \<open>The pass from position \<open>i\<close> downwards that moves the new entry to its place.\<close>

fun bubble :: "(item \<Rightarrow> item \<Rightarrow> bool) \<Rightarrow> nat \<Rightarrow> listing \<Rightarrow> listing" where
  "bubble lt 0 t = t"
| "bubble lt (Suc i) t =
     (let st = sort_table t
      in if lt (item_at t (st ! Suc i)) (item_at t (st ! i))
         then bubble lt i (t\<lparr>sort_table := st[Suc i := st ! i, i := st ! Suc i]\<rparr>)
         else t)"

text \<open>Add an entry to a table that holds \<open>n\<close>: at the first free index, or over the last in
  order when it comes before that; then one pass.\<close>

definition insert_entry ::
  "(item \<Rightarrow> item \<Rightarrow> bool) \<Rightarrow> bytes \<Rightarrow> scan \<Rightarrow> nat \<times> listing \<Rightarrow> nat \<times> listing" where
  "insert_entry lt e s = (\<lambda>(n, t).
     (let (n, t) =
        (if n < MAXDIRENTRIES then (n + 1, store_item n e s t)
         else if lt (e, lfn s) (item_at t (sort_table t ! 7)) then (n, store_item (sort_table t ! 7) e s t)
         else (n, t))
      in (n, bubble lt (n - 1) t)))"

text \<open>The same for the temporary table, whose \<open>t_sort_table\<close> is extended as it fills.\<close>

definition insert_temp ::
  "(item \<Rightarrow> item \<Rightarrow> bool) \<Rightarrow> bytes \<Rightarrow> scan \<Rightarrow> nat \<times> listing \<Rightarrow> nat \<times> listing" where
  "insert_temp lt e s = (\<lambda>(n, t).
     (let (n, t) =
        (if n < MAXDIRENTRIES then
           (n + 1, (store_item n e s t)\<lparr>sort_table := (sort_table t)[n := n]\<rparr>)
         else if lt (e, lfn s) (item_at t (sort_table t ! 7)) then (n, store_item (sort_table t ! 7) e s t)
         else (n, t))
      in (n, bubble lt (n - 1) t)))"

section \<open>One entry, by mode\<close>

definition last_item :: "scan \<Rightarrow> nat \<Rightarrow> item" where
  "last_item s i = item_at (view s) (sort_table (view s) ! i)"

definition scan_init_entry :: "bytes \<Rightarrow> scan \<Rightarrow> scan" where
  "scan_init_entry e s =
     (case insert_entry before e s (nDirEntries s, view s) of
        (n, t) \<Rightarrow> s\<lparr>nDirEntries := n, view := t\<rparr>)"

definition full_cluster :: "bool \<Rightarrow> bytes \<Rightarrow> u32" where
  "full_cluster f32 e =
     ucast (be16 e 26) + (if f32 then push_bit 16 (ucast (be16 e 20) AND 0x0FFF) else 0)"

definition scan_init_first_entry :: "bool \<Rightarrow> bytes \<Rightarrow> scan \<Rightarrow> scan" where
  "scan_init_first_entry f32 e s =
     (if full_cluster f32 e = iPreviousDirectory s then
        s\<lparr>view := store_item 0 e s ((view s)\<lparr>sort_table := [0..<MAXDIRENTRIES]\<rparr>),
          nDirEntries := 1, iSelectedEntry := 0, scan_rc := True\<rparr>
      else s)"

definition scan_init_next_entry :: "bytes \<Rightarrow> scan \<Rightarrow> scan" where
  "scan_init_next_entry e s =
     (if behind (e, lfn s) (last_item s 0) then scan_init_entry e s else s)"

text \<open>Scrolling down by one: the first entry leaves, the new one becomes the last.\<close>

definition scan_next_entry :: "bytes \<Rightarrow> scan \<Rightarrow> scan" where
  "scan_next_entry e s =
     (let st = sort_table (view s)
      in if nNewEntries s = 0 then
           (if behind (e, lfn s) (last_item s 7) then
              s\<lparr>nNewEntries := 1,
                view := (store_item (st ! 0) e s (view s))\<lparr>sort_table := tl st @ [hd st]\<rparr>\<rparr>
            else s)
         else if before (e, lfn s) (last_item s 7) \<and> behind (e, lfn s) (last_item s 6)
         then s\<lparr>view := store_item (st ! 7) e s (view s)\<rparr>
         else s)"

definition scan_prev_entry :: "bytes \<Rightarrow> scan \<Rightarrow> scan" where
  "scan_prev_entry e s =
     (let st = sort_table (view s)
      in if nNewEntries s = 0 then
           (if before (e, lfn s) (last_item s 0) then
              s\<lparr>nNewEntries := 1,
                nDirEntries := (if nDirEntries s < MAXDIRENTRIES then nDirEntries s + 1 else nDirEntries s),
                view := (store_item (st ! 7) e s (view s))\<lparr>sort_table := last st # butlast st\<rparr>\<rparr>
            else s)
         else if behind (e, lfn s) (last_item s 0) \<and> before (e, lfn s) (last_item s 1)
         then s\<lparr>view := store_item (st ! 0) e s (view s)\<rparr>
         else s)"

definition collect_temp :: "(item \<Rightarrow> item \<Rightarrow> bool) \<Rightarrow> bytes \<Rightarrow> scan \<Rightarrow> scan" where
  "collect_temp lt e s =
     (case insert_temp lt e s (nNewEntries s, temp s) of
        (n, t) \<Rightarrow> s\<lparr>nNewEntries := n, temp := t\<rparr>)"

definition scan_next_page_entry :: "bytes \<Rightarrow> scan \<Rightarrow> scan" where
  "scan_next_page_entry e s =
     (if behind (e, lfn s) (last_item s 7) then collect_temp before e s else s)"

definition scan_prev_page_entry :: "bytes \<Rightarrow> scan \<Rightarrow> scan" where
  "scan_prev_page_entry e s =
     (if before (e, lfn s) (last_item s 0) then collect_temp behind e s else s)"

definition is_char_mode :: "u32 \<Rightarrow> bool" where
  "is_char_mode mode \<longleftrightarrow> (0x30 \<le> mode \<and> mode \<le> 0x39) \<or> (0x41 \<le> mode \<and> mode \<le> 0x5A)"

text \<open>\<open>pEntry->Name\<close> is unsigned here, so \<open>tolower\<close> zero-extends it.\<close>

definition scan_char_entry :: "u32 \<Rightarrow> bool \<Rightarrow> bool \<Rightarrow> bytes \<Rightarrow> scan \<Rightarrow> scan" where
  "scan_char_entry mode find_file find_dir e s =
     (let is_file = \<not> is_dir e;
          from_char = (mode OR 32) \<le> (ucast (e ! 0) OR 32 :: u32);
          x = (if find_file then from_char \<and> is_file
               else if find_dir then from_char \<or> is_file
               else behind (e, lfn s) (last_item s (iSelectedEntry s)))
      in if x then collect_temp before e s else s)"

definition scan_mode_entry :: "u32 \<Rightarrow> u8 \<Rightarrow> bool \<Rightarrow> bytes \<Rightarrow> scan \<Rightarrow> scan" where
  "scan_mode_entry mode options f32 e s =
     (if mode = SCAN_INIT then scan_init_entry e s
      else if mode = SCAN_INIT_FIRST then scan_init_first_entry f32 e s
      else if mode = SCAN_INIT_NEXT then scan_init_next_entry e s
      else if mode = SCAN_NEXT then scan_next_entry e s
      else if mode = SCAN_PREV then scan_prev_entry e s
      else if mode = SCAN_NEXT_PAGE then scan_next_page_entry e s
      else if mode = SCAN_PREV_PAGE then scan_prev_page_entry e s
      else if is_char_mode mode
      then scan_char_entry mode (options AND FIND_FILE \<noteq> 0) (options AND FIND_DIR \<noteq> 0) e s
      else s)"

text \<open>A part of a long name: 13 characters stored at their place in \<open>lfn\<close>, \<open>None\<close> when that
  is outside the 261 bytes of the buffer.\<close>

definition lfn_chars :: "bytes \<Rightarrow> bytes" where
  "lfn_chars e = map (\<lambda>i. e ! i) [1, 3, 5, 7, 9, 14, 16, 18, 20, 22, 24, 28, 30]"

definition lfn_entry :: "bytes \<Rightarrow> scan \<Rightarrow> scan option" where
  "lfn_entry e s =
     (let sequence = e ! 0; check = e ! 13;
          n = unat (sequence AND 0x1F);
          err = (if sequence AND 0x40 \<noteq> 0 then False
                 else if int n \<noteq> int (unat (prev_sequence_number s AND 0x1F)) - 1 \<or>
                         check \<noteq> prev_name_checksum s \<or> n > 19 then True
                 else lfn_error s);
          s = s\<lparr>name_checksum := check, lfn_error := err, prev_sequence_number := sequence,
                prev_name_checksum := check\<rparr>;
          chars = lfn_chars e @ (if sequence AND 0x40 \<noteq> 0 then [0] else [])
      in if err then Some s
         else if n = 0 \<or> 261 < (n - 1) * 13 + length chars then None
         else Some (s\<lparr>lfn := store_at ((n - 1) * 13) chars (lfn s)\<rparr>))"

definition visible :: "reader \<Rightarrow> u8 \<Rightarrow> bytes \<Rightarrow> bool" where
  "visible extension options e \<longleftrightarrow>
     e ! 11 AND (ATTR_VOLUME OR ATTR_HIDDEN) = 0 \<and> (e ! 0 \<noteq> 0x2E \<or> e ! 1 \<noteq> 0x20) \<and>
     (extension 0 = 0x2A \<or> strncmp (at e 8) extension 3 = 0 \<or>
      options AND SCAN_DIR \<noteq> 0 \<and> e ! 11 AND ATTR_DIRECTORY \<noteq> 0)"

definition scan_entry ::
  "u32 \<Rightarrow> reader \<Rightarrow> u8 \<Rightarrow> bool \<Rightarrow> bytes \<Rightarrow> scan \<Rightarrow> scan option" where
  "scan_entry mode extension options f32 e s =
     (if e ! 0 \<noteq> SLOT_EMPTY \<and> e ! 0 \<noteq> SLOT_DELETED then
        (if e ! 11 = ATTR_LFN then
           (if options AND SCAN_LFN \<noteq> 0 then lfn_entry e s else Some s)
         else
           (let s = (if visible extension options e then scan_mode_entry mode options f32 e s else s)
            in Some (s\<lparr>lfn := (lfn s)[0 := 0]\<rparr>)))
      else Some s)"

section \<open>The whole scan\<close>

text \<open>After a directory sector is loaded the multi-byte fields of its entries are swapped in
  place.\<close>

definition swap_entry :: "bytes \<Rightarrow> nat \<Rightarrow> bytes" where
  "swap_entry b i =
     (let e = 32 * i
      in if b ! (e + 11) \<noteq> ATTR_LFN then
           (let b = put_be16 b (e + 26) (ucast (SwapBB (ucast (be16 b (e + 26)))));
                b = put_be16 b (e + 20) (ucast (SwapBB (ucast (be16 b (e + 20)))))
            in put_be32 b (e + 28) (SwapBBBB (be32 b (e + 28))))
         else b)"

definition swap_dir_sector :: "bytes \<Rightarrow> bytes" where
  "swap_dir_sector b = foldl swap_entry b [0..<16]"

definition next_scan_entry ::
  "'d sd_ops \<Rightarrow> u32 \<Rightarrow> u32 \<times> 'd fatst \<Rightarrow> u32 \<times> 'd fatst" where
  "next_scan_entry io iEntry = (\<lambda>(sector, s).
     if iEntry AND 0x0F = 0 then
       (let s = snd (read_sector_buffer io sector s)
        in (sector + 1, s\<lparr>sector_buffer := swap_dir_sector (sector_buffer s)\<rparr>))
     else (sector, s))"

definition buffered_entry :: "u32 \<Rightarrow> 'd fatst \<Rightarrow> bytes" where
  "buffered_entry iEntry s = take 32 (drop (entry_offset iEntry) (sector_buffer s))"

fun ScanDirectory_entries ::
  "'d sd_ops \<Rightarrow> (bytes \<Rightarrow> scan \<Rightarrow> scan option) \<Rightarrow> nat \<Rightarrow> u32 \<Rightarrow> u32 \<times> 'd fatst \<Rightarrow> scan \<Rightarrow>
     (scan \<times> 'd fatst) option" where
  "ScanDirectory_entries io step 0 iEntry (sector, s) g = Some (g, s)"
| "ScanDirectory_entries io step (Suc n) iEntry (sector, s) g =
     (case next_scan_entry io iEntry (sector, s) of (sector, s) \<Rightarrow>
        (case step (buffered_entry iEntry s) g of
           None \<Rightarrow> None
         | Some g \<Rightarrow> ScanDirectory_entries io step n (iEntry + 1) (sector, s) g))"

partial_function (option) ScanDirectory_clusters ::
  "'d sd_ops \<Rightarrow> (bytes \<Rightarrow> scan \<Rightarrow> scan option) \<Rightarrow> bool \<Rightarrow> nat \<Rightarrow> u32 \<Rightarrow> u32 \<Rightarrow> 'd fatst \<Rightarrow> scan \<Rightarrow>
     (scan \<times> 'd fatst) option" where
  [code]: "ScanDirectory_clusters io step linked nEntries cluster sector s g =
     Option.bind (ScanDirectory_entries io step nEntries 0 (sector, s) g) (\<lambda>r.
       if \<not> linked then Some r
       else (let l = GetFATLink io cluster (snd r)
             in if end_of_chain (fat32 s) (fst l) then Some (fst r, snd l)
                else ScanDirectory_clusters io step linked nEntries (fst l)
                       (cluster_lba (snd l) (fst l)) (snd l) (fst r)))"

text \<open>The start of a call: \<open>None\<close> continues with the scan, \<open>Some\<close> returns 0 at once.\<close>

definition scan_begin :: "u32 \<Rightarrow> scan \<Rightarrow> bool \<times> scan" where
  "scan_begin mode g =
     (let g = g\<lparr>nNewEntries := 0, scan_rc := False, lfn := (lfn g)[0 := 0], lfn_error := True,
                name_checksum := 0, prev_sequence_number := 0, prev_name_checksum := 0\<rparr>
      in if mode = SCAN_INIT then
           (True, g\<lparr>nDirEntries := 0, iSelectedEntry := 0,
                    view := (view g)\<lparr>sort_table := [0..<MAXDIRENTRIES]\<rparr>\<rparr>)
         else if nDirEntries g = 0 then (False, g)
         else if mode = SCAN_NEXT then
           (if iSelectedEntry g + 1 < nDirEntries g
            then (False, g\<lparr>iSelectedEntry := iSelectedEntry g + 1\<rparr>)
            else (\<not> nDirEntries g < MAXDIRENTRIES, g))
         else if mode = SCAN_PREV then
           (if iSelectedEntry g > 0 then (False, g\<lparr>iSelectedEntry := iSelectedEntry g - 1\<rparr>)
            else (True, g))
         else if mode = SCAN_NEXT_PAGE then
           (if iSelectedEntry g + 1 < nDirEntries g
            then (False, g\<lparr>iSelectedEntry := nDirEntries g - 1\<rparr>)
            else (\<not> nDirEntries g < MAXDIRENTRIES, g))
         else if mode = SCAN_PREV_PAGE then
           (if iSelectedEntry g \<noteq> 0 then (False, g\<lparr>iSelectedEntry := 0\<rparr>) else (True, g))
         else (True, g))"

text \<open>\<open>strcpy\<close> over a long name, and copying an entry from the temporary table.\<close>

definition strcpy_into :: "bytes \<Rightarrow> bytes \<Rightarrow> bytes" where
  "strcpy_into src dst = overlay (takeWhile (\<lambda>c. c \<noteq> 0) src @ [0]) dst"

definition copy_item :: "listing \<Rightarrow> nat \<Rightarrow> nat \<Rightarrow> listing \<Rightarrow> listing" where
  "copy_item src k l dst =
     dst\<lparr>DirEntry := (DirEntry dst)[l := DirEntry src ! k],
         DirEntryLFN := (DirEntryLFN dst)[l := strcpy_into (DirEntryLFN src ! k) (DirEntryLFN dst ! l)]\<rparr>"

definition swap_nth :: "nat \<Rightarrow> nat \<Rightarrow> 'a list \<Rightarrow> 'a list" where
  "swap_nth i j xs = xs[i := xs ! j, j := xs ! i]"

text \<open>Copying the temporary entries, in their order, to positions \<open>pos i\<close> of the window.\<close>

definition copy_temp :: "scan \<Rightarrow> (nat \<Rightarrow> nat) \<Rightarrow> listing \<Rightarrow> listing" where
  "copy_temp g pos t =
     foldl (\<lambda>t i. copy_item (temp g) (sort_table (temp g) ! i) (sort_table t ! pos i) t) t
       [0..<nNewEntries g]"

definition finish_next_page :: "scan \<Rightarrow> scan" where
  "finish_next_page g =
     (let n = nNewEntries g; j = 8 - n;
          st = foldl (\<lambda>st i. swap_nth i (i + n) st) (sort_table (view g)) [0..<j]
      in g\<lparr>view := copy_temp g (\<lambda>i. i + j) ((view g)\<lparr>sort_table := st\<rparr>)\<rparr>)"

definition finish_prev_page :: "scan \<Rightarrow> scan" where
  "finish_prev_page g =
     (let n = nNewEntries g; j = n - 1;
          st = foldl (\<lambda>st i. swap_nth i (i - n) st) (sort_table (view g)) (rev [Suc j..<8])
      in g\<lparr>view := copy_temp g (\<lambda>i. j - i) ((view g)\<lparr>sort_table := st\<rparr>),
           nDirEntries := min MAXDIRENTRIES (nDirEntries g + n)\<rparr>)"

definition finish_char :: "u32 \<Rightarrow> u8 \<Rightarrow> scan \<Rightarrow> scan" where
  "finish_char mode options g =
     (let first = DirEntry (temp g) ! (sort_table (temp g) ! 0);
          selected = DirEntry (view g) ! (sort_table (view g) ! iSelectedEntry g);
          x = (if options AND FIND_DIR \<noteq> 0 then is_dir first
               else if options AND FIND_FILE = 0 then is_dir first = is_dir selected
               else True)
      in if ucast (first ! 0) = mode \<and> x
         then g\<lparr>view := copy_temp g (\<lambda>i. i) (view g), nDirEntries := nNewEntries g,
                iSelectedEntry := 0, scan_rc := True\<rparr>
         else g)"

definition scan_finish :: "u32 \<Rightarrow> u8 \<Rightarrow> scan \<Rightarrow> scan" where
  "scan_finish mode options g =
     (if nNewEntries g \<noteq> 0 then
        (if mode = SCAN_NEXT_PAGE then finish_next_page g
         else if mode = SCAN_PREV_PAGE then finish_prev_page g
         else if is_char_mode mode then finish_char mode options g
         else g)
      else g)"

definition ScanDirectory ::
  "'d sd_ops \<Rightarrow> u32 \<Rightarrow> reader \<Rightarrow> u8 \<Rightarrow> scan \<Rightarrow> 'd fatst \<Rightarrow> (bool \<times> scan \<times> 'd fatst) option" where
  "ScanDirectory io mode extension options g s =
     (case scan_begin mode g of
        (False, g) \<Rightarrow> Some (False, g, s)
      | (True, g) \<Rightarrow>
         (let dir = iCurrentDirectory g; sub = dir \<noteq> 0
          in map_option (\<lambda>(g, s). (scan_rc (scan_finish mode options g), scan_finish mode options g, s))
               (ScanDirectory_clusters io (scan_entry mode extension options (fat32 s)) (sub \<or> fat32 s)
                  (unat (if sub then push_bit 4 (ucast (cluster_size s)) else root_entries s))
                  (if sub then dir else root_directory_cluster s)
                  (if sub then cluster_lba s dir else root_directory_start s) s g)))"

definition ChangeDirectory :: "u32 \<Rightarrow> scan \<Rightarrow> scan" where
  "ChangeDirectory iStartCluster g =
     g\<lparr>iPreviousDirectory := iCurrentDirectory g, iCurrentDirectory := iStartCluster\<rparr>"

section \<open>The window stays well formed\<close>

text \<open>The tables have eight places, \<open>sort_table\<close> is a permutation of them, and the selected
  entry is one of those shown.\<close>

definition listing_ok :: "listing \<Rightarrow> bool" where
  "listing_ok t \<longleftrightarrow> length (DirEntry t) = 8 \<and> length (DirEntryLFN t) = 8 \<and>
     mset (sort_table t) = mset [0..<8]"

definition temp_ok :: "listing \<Rightarrow> bool" where
  "temp_ok t \<longleftrightarrow> length (DirEntry t) = 8 \<and> length (DirEntryLFN t) = 8 \<and>
     length (sort_table t) = 8 \<and> set (sort_table t) \<subseteq> {..<8}"

definition scan_ok :: "scan \<Rightarrow> bool" where
  "scan_ok g \<longleftrightarrow> listing_ok (view g) \<and> temp_ok (temp g) \<and> nNewEntries g \<le> 8 \<and>
     nDirEntries g \<le> 8 \<and> (iSelectedEntry g = 0 \<or> iSelectedEntry g < nDirEntries g)"

lemma store_item_simps [simp]:
  "sort_table (store_item k e s t) = sort_table t"
  "length (DirEntry (store_item k e s t)) = length (DirEntry t)"
  "length (DirEntryLFN (store_item k e s t)) = length (DirEntryLFN t)"
  by (simp_all add: store_item_def)

lemma listing_ok_store [simp]: "listing_ok (store_item k e s t) = listing_ok t"
  by (simp add: listing_ok_def)

lemma temp_ok_store [simp]: "temp_ok (store_item k e s t) = temp_ok t"
  by (simp add: temp_ok_def)

lemma mset_swap_Suc: "Suc i < length xs \<Longrightarrow> mset (xs[Suc i := xs ! i, i := xs ! Suc i]) = mset xs"
  using mset_swap [of "Suc i" xs i] by (simp add: list_update_swap)

lemma bubble_frame [simp]:
  "DirEntry (bubble lt i t) = DirEntry t" "DirEntryLFN (bubble lt i t) = DirEntryLFN t"
  by (induction lt i t rule: bubble.induct; simp add: Let_def)+

lemma mset_bubble: "i < length (sort_table t) \<Longrightarrow> mset (sort_table (bubble lt i t)) = mset (sort_table t)"
  by (induction lt i t rule: bubble.induct) (auto simp: Let_def mset_swap_Suc)

lemma listing_ok_length: "listing_ok t \<Longrightarrow> length (sort_table t) = 8"
  unfolding listing_ok_def by (metis length_upt minus_nat.diff_0 size_mset)

lemma listing_ok_bubble: "listing_ok t \<Longrightarrow> i < 8 \<Longrightarrow> listing_ok (bubble lt i t)"
  using mset_bubble [of i t lt] listing_ok_length [of t] by (simp add: listing_ok_def)

lemma temp_ok_bubble: "temp_ok t \<Longrightarrow> i < 8 \<Longrightarrow> temp_ok (bubble lt i t)"
  using mset_bubble [of i t lt] mset_eq_setD [of "sort_table (bubble lt i t)" "sort_table t"]
    mset_eq_length [of "sort_table (bubble lt i t)" "sort_table t"]
  by (simp add: temp_ok_def)

lemma insert_entry_ok:
  assumes "listing_ok t" "n \<le> 8" "insert_entry lt e s (n, t) = (n', t')"
  shows "listing_ok t' \<and> n \<le> n' \<and> n' \<le> 8"
  using assms by (auto simp: insert_entry_def Let_def listing_ok_bubble split: if_splits)

lemma insert_temp_ok:
  assumes "temp_ok t" "n \<le> 8" "insert_temp lt e s (n, t) = (n', t')"
  shows "temp_ok t' \<and> n' \<le> 8"
proof -
  have "temp_ok (u\<lparr>sort_table := (sort_table t)[n := n]\<rparr>)" if "temp_ok u" "n < 8" for u
    using that assms(1) set_update_subset_insert [of "sort_table t" n n] by (auto simp: temp_ok_def)
  with assms show ?thesis
    by (auto simp: insert_temp_def Let_def temp_ok_bubble split: if_splits)
qed

lemma rotate_mset:
  assumes "length st = 8"
  shows "mset (tl st @ [hd st]) = mset st" "mset (last st # butlast st) = mset st"
proof -
  have "st \<noteq> []" using assms by auto
  then show "mset (tl st @ [hd st]) = mset st" by (cases st) simp_all
  from \<open>st \<noteq> []\<close> show "mset (last st # butlast st) = mset st"
    by (cases st rule: rev_cases) simp_all
qed

lemma scan_ok_simps [simp]:
  "scan_ok (g\<lparr>lfn := l\<rparr>) = scan_ok g"
  "scan_ok (g\<lparr>name_checksum := a, lfn_error := b, prev_sequence_number := c, prev_name_checksum := d\<rparr>) =
     scan_ok g"
  by (simp_all add: scan_ok_def)

lemma lfn_entry_ok: "lfn_entry e g = Some g' \<Longrightarrow> scan_ok g' = scan_ok g"
  by (auto simp: lfn_entry_def Let_def scan_ok_def split: if_splits)

lemma scan_init_entry_ok: "scan_ok g \<Longrightarrow> scan_ok (scan_init_entry e g)"
  using insert_entry_ok [of "view g" "nDirEntries g" before e g]
  by (auto simp: scan_init_entry_def scan_ok_def split: prod.split)

lemma collect_temp_ok: "scan_ok g \<Longrightarrow> scan_ok (collect_temp lt e g)"
  using insert_temp_ok [of "temp g" "nNewEntries g" lt e g]
  by (auto simp: collect_temp_def scan_ok_def split: prod.split)

lemma scan_init_first_entry_ok: "scan_ok g \<Longrightarrow> scan_ok (scan_init_first_entry f32 e g)"
  by (simp add: scan_init_first_entry_def scan_ok_def listing_ok_def del: mset_upt)

lemma scan_next_entry_ok: "scan_ok g \<Longrightarrow> scan_ok (scan_next_entry e g)"
  using rotate_mset(1) [of "sort_table (view g)"] listing_ok_length [of "view g"]
  by (simp add: scan_next_entry_def scan_ok_def listing_ok_def Let_def)

lemma scan_prev_entry_ok: "scan_ok g \<Longrightarrow> scan_ok (scan_prev_entry e g)"
  using rotate_mset(2) [of "sort_table (view g)"] listing_ok_length [of "view g"]
  by (auto simp: scan_prev_entry_def scan_ok_def listing_ok_def Let_def)

lemma scan_mode_entry_ok: "scan_ok g \<Longrightarrow> scan_ok (scan_mode_entry mode options f32 e g)"
  by (simp add: scan_mode_entry_def scan_init_entry_ok scan_init_first_entry_ok scan_next_entry_ok
      scan_prev_entry_ok scan_init_next_entry_def scan_next_page_entry_def scan_prev_page_entry_def
      scan_char_entry_def collect_temp_ok Let_def)

lemma scan_entry_ok:
  assumes "scan_ok g" "scan_entry mode ext options f32 e g = Some g'"
  shows "scan_ok g'"
  using assms lfn_entry_ok
  by (auto simp: scan_entry_def Let_def scan_mode_entry_ok split: if_splits)

lemma mset_swap_nth: "i < length xs \<Longrightarrow> j < length xs \<Longrightarrow> mset (swap_nth i j xs) = mset xs"
  by (simp add: swap_nth_def mset_swap list_update_swap)

lemma mset_fold_swap:
  "\<forall>i \<in> set is. i < length xs \<and> f i < length xs \<Longrightarrow>
     mset (foldl (\<lambda>st i. swap_nth i (f i) st) xs is) = mset xs"
proof (induction "is" arbitrary: xs)
  case (Cons i "is")
  have "length (swap_nth i (f i) xs) = length xs" by (simp add: swap_nth_def)
  with Cons show ?case by (simp add: mset_swap_nth)
qed simp

lemma copy_item_ok [simp]:
  "listing_ok (copy_item src k l t) = listing_ok t" "sort_table (copy_item src k l t) = sort_table t"
  by (simp_all add: copy_item_def listing_ok_def)

lemma copy_temp_ok: "listing_ok (copy_temp g pos t) = listing_ok t"
proof -
  have "listing_ok (foldl (\<lambda>t i. copy_item (temp g) (sort_table (temp g) ! i) (sort_table t ! pos i) t) t is) =
      listing_ok t" for "is"
    by (induction "is" arbitrary: t) simp_all
  then show ?thesis unfolding copy_temp_def .
qed

lemma scan_finish_ok:
  assumes "scan_ok g"
  shows "scan_ok (scan_finish mode options g)"
proof -
  have g: "listing_ok (view g)" "nNewEntries g \<le> 8" "length (sort_table (view g)) = 8"
    using assms by (simp_all add: scan_ok_def listing_ok_length)
  have "listing_ok ((view g)\<lparr>sort_table :=
      foldl (\<lambda>st i. swap_nth i (i + n) st) (sort_table (view g)) [0..<8 - n]\<rparr>)" for n
  proof -
    have "\<forall>i \<in> set [0..<8 - n]. i < length (sort_table (view g)) \<and> i + n < length (sort_table (view g))"
      unfolding g(3) by auto
    from mset_fold_swap [OF this] show ?thesis using g(1) by (simp add: listing_ok_def del: mset_upt)
  qed
  moreover have "listing_ok ((view g)\<lparr>sort_table :=
      foldl (\<lambda>st i. swap_nth i (i - n) st) (sort_table (view g)) (rev [j..<8])\<rparr>)" for n j
  proof -
    have "\<forall>i \<in> set (rev [j..<8]). i < length (sort_table (view g)) \<and> i - n < length (sort_table (view g))"
      unfolding g(3) by auto
    from mset_fold_swap [OF this] show ?thesis using g(1) by (simp add: listing_ok_def del: mset_upt)
  qed
  ultimately show ?thesis
    using assms by (auto simp: scan_finish_def finish_next_page_def finish_prev_page_def finish_char_def
        Let_def scan_ok_def copy_temp_ok)
qed

lemma scan_begin_ok: "scan_ok g \<Longrightarrow> scan_ok (snd (scan_begin mode g))"
  by (auto simp: scan_begin_def Let_def scan_ok_def listing_ok_def simp del: mset_upt)

lemma ScanDirectory_entries_ok:
  "ScanDirectory_entries io (scan_entry mode ext options f32) n iEntry (sector, s) g = Some (g', s') \<Longrightarrow>
     scan_ok g \<Longrightarrow> scan_ok g'"
proof (induction n arbitrary: iEntry sector s g)
  case (Suc n)
  then show ?case by (auto dest: scan_entry_ok split: prod.splits option.splits)
qed simp

lemma ScanDirectory_clusters_ok:
  assumes "ScanDirectory_clusters io step linked n c sector s g = Some y" "scan_ok g"
    and "step = scan_entry mode ext options f32"
  shows "scan_ok (fst y)"
proof -
  have "step = scan_entry mode ext options f32 \<longrightarrow> scan_ok g \<longrightarrow> scan_ok (fst y)"
  proof (rule ScanDirectory_clusters.raw_induct [OF _ assms(1), where
        P = "\<lambda>_ step _ _ _ _ _ g y. step = scan_entry mode ext options f32 \<longrightarrow> scan_ok g \<longrightarrow> scan_ok (fst y)"],
      intro impI)
    fix recurse io step linked n c sector s g y
    assume IH: "\<And>io step linked n c sector s g y. recurse io step linked n c sector s g = Some y \<Longrightarrow>
        step = scan_entry mode ext options f32 \<longrightarrow> scan_ok g \<longrightarrow> scan_ok (fst y)"
      and body: "Option.bind (ScanDirectory_entries io step n 0 (sector, s) g) (\<lambda>r.
        if \<not> linked then Some r
        else let l = GetFATLink io c (snd r)
             in if end_of_chain (fat32 s) (fst l) then Some (fst r, snd l)
                else recurse io step linked n (fst l) (cluster_lba (snd l) (fst l)) (snd l) (fst r)) = Some y"
      and step: "step = scan_entry mode ext options f32" and ok: "scan_ok g"
    show "scan_ok (fst y)"
    proof (cases "ScanDirectory_entries io step n 0 (sector, s) g")
      case (Some r)
      then have "scan_ok (fst r)" using ScanDirectory_entries_ok step ok by (metis prod.collapse)
      then show ?thesis using body Some IH step by (auto simp: Let_def split: if_splits)
    qed (use body in simp)
  qed
  with assms(2,3) show ?thesis by blast
qed

text \<open>Every call keeps the window well formed.\<close>

lemma ScanDirectory_ok:
  assumes "ScanDirectory io mode ext options g s = Some (r, g', s')" "scan_ok g"
  shows "scan_ok g'"
proof (cases "scan_begin mode g")
  case (Pair go g1)
  then have "scan_ok g1" using scan_begin_ok [OF assms(2), of mode] by simp
  then show ?thesis
    using assms(1) Pair ScanDirectory_clusters_ok [OF _ _ refl]
    by (cases go) (auto simp: ScanDirectory_def Let_def intro!: scan_finish_ok, fastforce+)
qed

section \<open>Stable insertion from the end\<close>

definition insr :: "('a \<Rightarrow> 'b::linorder) \<Rightarrow> 'a \<Rightarrow> 'a list \<Rightarrow> 'a list" where
  "insr f x ys = takeWhile (\<lambda>y. f y \<le> f x) ys @ x # dropWhile (\<lambda>y. f y \<le> f x) ys"

lemma insr_simps [simp]:
  "insr f x [] = [x]"
  "insr f x (y # ys) = (if f y \<le> f x then y # insr f x ys else x # y # ys)"
  by (simp_all add: insr_def)

lemma set_insr [simp]: "set (insr f x ys) = insert x (set ys)"
  by (induction ys) auto

lemma mset_insr: "mset (insr f x ys) = add_mset x (mset ys)"
  by (induction ys) auto

lemma sorted_insr: "sorted (map f ys) \<Longrightarrow> sorted (map f (insr f x ys))"
  by (induction ys) auto

lemma insr_length [simp]: "length (insr f x ys) = Suc (length ys)"
  by (induction ys) auto

lemma filter_insr:
  "sorted (map f ys) \<Longrightarrow> filter (\<lambda>y. f y = k) (insr f x ys) = filter (\<lambda>y. f y = k) (ys @ [x])"
proof (induction ys)
  case (Cons a ys)
  show ?case
  proof (cases "f a \<le> f x")
    case False
    then have "filter (\<lambda>y. f y = f x) (a # ys) = []"
      using Cons.prems by (auto simp: filter_empty_conv)
    with False show ?thesis by (cases "k = f x") auto
  qed (use Cons in auto)
qed simp

lemma sort_key_snoc: "sort_key f (xs @ [x]) = insr f x (sort_key f xs)"
proof (rule properties_for_sort_key)
  show "sorted (map f (insr f x (sort_key f xs)))" by (simp add: sorted_insr)
  have stable: "filter (\<lambda>y. f y = k) (sort_key f xs) = filter (\<lambda>y. f y = k) xs" for k
    by (rule sort_key_stable)
  show "filter (\<lambda>y. f k = f y) (insr f x (sort_key f xs)) = filter (\<lambda>y. f k = f y) (xs @ [x])" for k
    unfolding eq_commute [of "f k"] by (simp add: filter_insr stable)
qed (simp add: mset_insr)

lemma insr_last:
  assumes "sorted (map f ys)"
  shows "\<forall>y \<in> set ys. f y \<le> f x \<Longrightarrow> insr f x ys = ys @ [x]"
    "f x < f y \<Longrightarrow> insr f x (ys @ [y]) = insr f x ys @ [y]"
  using assms by (induction ys) auto

lemma take_insr: "take n (insr f x ys) = take n (insr f x (take n ys))"
proof (induction ys arbitrary: n)
  case (Cons y ys)
  then show ?case by (cases n) (auto simp: take_Cons')
qed simp

text \<open>The pass of the code on the entries in their order.\<close>

definition ordered_items :: "listing \<Rightarrow> item list" where
  "ordered_items t = map (item_at t) (sort_table t)"

lemma item_at_sort_update [simp]: "item_at (t\<lparr>sort_table := st\<rparr>) = item_at t"
  by (simp add: item_at_def fun_eq_iff)

lemma bubble_is_insr:
  assumes "ordered_items t = ys @ x # zs" "sorted (map f ys)"
    and "\<And>y. y \<in> set ys \<Longrightarrow> lt x y \<longleftrightarrow> f x < f y"
  shows "ordered_items (bubble lt (length ys) t) = insr f x ys @ zs"
  using assms
proof (induction ys arbitrary: t zs rule: rev_induct)
  case (snoc y ys)
  let ?i = "length ys" and ?st = "sort_table t"
  have len: "length ?st = Suc (Suc (?i + length zs))"
    using arg_cong [OF snoc.prems(1), of length] by (simp add: ordered_items_def)
  have items: "map (item_at t) ?st ! ?i = y" "map (item_at t) ?st ! Suc ?i = x"
    using snoc.prems(1) by (simp_all add: ordered_items_def nth_append)
  have st: "item_at t (?st ! ?i) = y" "item_at t (?st ! Suc ?i) = x"
    using items len by simp_all
  have lt: "lt x y \<longleftrightarrow> f x < f y" using snoc.prems(3) by simp
  have sorted: "sorted (map f ys)" "\<forall>z \<in> set ys. f z \<le> f y"
    using snoc.prems(2) by (simp_all add: sorted_append)
  show ?case
  proof (cases "f x < f y")
    case True
    define t' where "t' = t\<lparr>sort_table := ?st[Suc ?i := ?st ! ?i, ?i := ?st ! Suc ?i]\<rparr>"
    have "ordered_items t' = (map (item_at t) ?st)[Suc ?i := y, ?i := x]"
      using st by (simp add: ordered_items_def t'_def map_update)
    also have "\<dots> = ys @ x # y # zs"
      using snoc.prems(1) by (simp add: ordered_items_def list_update_append)
    finally have "ordered_items (bubble lt ?i t') = insr f x ys @ y # zs"
      using snoc.IH sorted(1) snoc.prems(3) by simp
    moreover have "bubble lt (length (ys @ [y])) t = bubble lt ?i t'"
      using True lt st by (simp add: t'_def Let_def)
    ultimately show ?thesis
      using insr_last(2) [OF sorted(1) True] by simp
  next
    case False
    then have "\<forall>z \<in> set (ys @ [y]). f z \<le> f x" using sorted(2) by fastforce
    from insr_last(1) [OF snoc.prems(2) this] False lt st snoc.prems(1) show ?thesis
      by (simp add: Let_def)
  qed
qed simp

section \<open>The order of short names\<close>

definition skey :: "bytes \<Rightarrow> int list" where
  "skey e = (if is_dir e then 0 else 1) # map (\<lambda>c. sint (tolower c)) (take 11 e)"

definition plain :: "bytes \<Rightarrow> bool" where
  "plain e \<longleftrightarrow> length e = 32 \<and> (\<forall>i < 11. e ! i \<noteq> 0)"

lemma sint_range_u8: "-128 \<le> sint (w :: u8)" "sint (w :: u8) < 128"
  using sint_ge [of w] sint_lt [of w] by simp_all

lemma sint_tolower: "sint (tolower c) = sint (c OR 32)" "-128 \<le> sint (tolower c)" "sint (tolower c) < 128"
proof -
  show *: "sint (tolower c) = sint (c OR 32)"
    using sint_range_u8 [of c]
    by (simp add: tolower_def signed_or_eq signed_scast_eq signed_take_bit_int_eq_self)
  show "-128 \<le> sint (tolower c)" "sint (tolower c) < 128"
    unfolding * using sint_range_u8 by auto
qed

lemma tolower_diff:
  "tolower a - tolower b = 0 \<longleftrightarrow> sint (tolower a) = sint (tolower b)"
  "tolower a - tolower b <s 0 \<longleftrightarrow> sint (tolower a) < sint (tolower b)"
  "0 <s tolower a - tolower b \<longleftrightarrow> sint (tolower b) < sint (tolower a)"
proof -
  have "sint (tolower a - tolower b) = sint (tolower a) - sint (tolower b)"
    using sint_tolower(2,3) [of a] sint_tolower(2,3) [of b]
    by (simp add: sint_word_ariths signed_take_bit_int_eq_self)
  then show "tolower a - tolower b <s 0 \<longleftrightarrow> sint (tolower a) < sint (tolower b)"
    "0 <s tolower a - tolower b \<longleftrightarrow> sint (tolower b) < sint (tolower a)"
    by (simp_all add: word_sless_alt)
qed (simp add: word_eq_iff_signed)

text \<open>On strings without a NUL \<open>_strnicmp\<close> is the lexicographic order of the lower-cased
  signed characters.\<close>

lemma strnicmp_lex:
  fixes p q :: reader
  defines "key \<equiv> \<lambda>p n. map (\<lambda>i. sint (tolower (p i))) [0..<n]"
  assumes "\<forall>i < n. p i \<noteq> 0"
  shows "strnicmp p q n <s 0 \<longleftrightarrow> key p n < key q n" "0 <s strnicmp p q n \<longleftrightarrow> key q n < key p n"
    "strnicmp p q n = 0 \<longleftrightarrow> key p n = key q n"
  using assms(2)
proof (atomize (full), induction p q n rule: strnicmp.induct)
  case (1 p q)
  then show ?case by (simp add: key_def)
next
  case (2 p q n)
  have key_Suc: "key r (Suc n) = sint (tolower (r 0)) # key (advance r) n" for r
    by (simp add: key_def advance_def map_upt_Suc del: upt_Suc)
  show ?case
  proof (cases "n = 0 \<or> tolower (p 0) - tolower (q 0) \<noteq> 0")
    case True
    then have v: "strnicmp p q (Suc n) = tolower (p 0) - tolower (q 0)"
      unfolding strnicmp.simps Let_def by (auto simp del: strnicmp.simps)
    from True have "key (advance p) n = key (advance q) n \<or> sint (tolower (p 0)) \<noteq> sint (tolower (q 0))"
    proof
      assume "n = 0"
      then show ?thesis by (simp add: key_def)
    qed (use tolower_diff(1) [of "p 0" "q 0"] in blast)
    then show ?thesis
      unfolding v tolower_diff key_Suc Cons_less_Cons list.inject by (metis less_irrefl less_le)
  next
    case False
    then have "strnicmp p q (Suc n) = strnicmp (advance p) (advance q) n"
      using 2(2) by (simp add: Let_def)
    moreover have "sint (tolower (p 0)) = sint (tolower (q 0))"
      using False tolower_diff(1) by blast
    moreover have "\<forall>i < n. advance p i \<noteq> 0" using 2(2) by (simp add: advance_def)
    ultimately show ?thesis
      using 2(1) [OF refl refl refl] False 2(2) unfolding key_Suc by simp
  qed
qed

lemma CompareDirEntries_short:
  assumes "plain e1" "length e2 = 32" "l1 ! 0 = 0" "l2 ! 0 = 0"
  shows "before (e1, l1) (e2, l2) \<longleftrightarrow> skey e1 < skey e2"
    "behind (e1, l1) (e2, l2) \<longleftrightarrow> skey e2 < skey e1"
proof -
  have key: "map (\<lambda>i. sint (tolower (at e 0 i))) [0..<11] = map (\<lambda>c. sint (tolower c)) (take 11 e)"
    if "length e = 32" for e
    using that by (intro nth_equalityI) (simp_all add: at_def)
  have "\<forall>i < 11. at e1 0 i \<noteq> 0" using assms(1) by (simp add: plain_def at_def)
  note lex = strnicmp_lex [OF this, of "at e2 0"]
  have len: "length e1 = 32" using assms(1) by (simp add: plain_def)
  show "before (e1, l1) (e2, l2) \<longleftrightarrow> skey e1 < skey e2"
    "behind (e1, l1) (e2, l2) \<longleftrightarrow> skey e2 < skey e1"
    using assms(3,4) lex key [OF len] key [OF assms(2)]
    by (cases "is_dir e1"; cases "is_dir e2";
        simp add: before_def behind_def CompareDirEntries_def skey_def Let_def word_sless_alt)+
qed

section \<open>The first eight entries\<close>

definition shown :: "nat \<Rightarrow> listing \<Rightarrow> bytes list" where
  "shown n t = map (\<lambda>k. DirEntry t ! k) (take n (sort_table t))"

text \<open>After inserting the entries \<open>es\<close>, none of which has a long name.\<close>

definition window_of :: "bytes list \<Rightarrow> nat \<times> listing \<Rightarrow> bool" where
  "window_of es = (\<lambda>(n, t). listing_ok t \<and> n = min 8 (length es) \<and>
     drop n (sort_table t) = [n..<8] \<and> shown n t = take 8 (sort_key skey es) \<and>
     (\<forall>k < 8. DirEntryLFN t ! k \<noteq> []) \<and> (\<forall>k < n. DirEntryLFN t ! k ! 0 = 0) \<and>
     (\<forall>e \<in> set es. plain e))"

lemma map_insr: "map g (insr (f \<circ> g) x ys) = insr f (g x) (map g ys)"
  by (induction ys) auto

lemma drop_bubble: "drop (Suc i) (sort_table (bubble lt i t)) = drop (Suc i) (sort_table t)"
proof (induction lt i t rule: bubble.induct)
  case (2 lt i t)
  let ?u = "t\<lparr>sort_table := (sort_table t)[Suc i := sort_table t ! i, i := sort_table t ! Suc i]\<rparr>"
  have "drop (Suc (Suc i)) xs = drop 1 (drop (Suc i) xs)" for xs :: "nat list" by simp
  then have "drop (Suc i) (sort_table (bubble lt i ?u)) = drop (Suc i) (sort_table ?u) \<Longrightarrow>
      drop (Suc (Suc i)) (sort_table (bubble lt i ?u)) = drop (Suc (Suc i)) (sort_table t)"
    by (metis (no_types, lifting) drop_update_cancel lessI less_SucI listing.select_convs(3)
        listing.surjective listing.update_convs(3))
  then show ?case using 2 by (simp add: Let_def)
qed simp

lemma shown_items: "shown n t = take n (map fst (ordered_items t))"
  by (simp add: shown_def ordered_items_def item_at_def take_map comp_def)

lemma window_places:
  assumes "window_of es (n, t)" "k \<in> set (take n (sort_table t))"
  shows "k < n" "plain (DirEntry t ! k)" "DirEntryLFN t ! k ! 0 = 0"
proof -
  have *: "mset (sort_table t) = mset [0..<8]" "drop n (sort_table t) = [n..<8]"
    "shown n t = take 8 (sort_key skey es)"
    using assms(1) by (auto simp: window_of_def listing_ok_def)
  have d: "distinct (sort_table t)" and set: "set (sort_table t) = {..<8}"
    using *(1) by (metis distinct_upt mset_eq_imp_distinct_iff) (metis *(1) atLeast_upt lessThan_atLeast0 mset_eq_setD set_upt)
  have "k \<notin> set (drop n (sort_table t))" "k \<in> set (sort_table t)"
    using assms(2) set_take_disj_set_drop_if_distinct [OF d le_refl, of n] by (auto dest: in_set_takeD)
  then show "k < n" using set *(2) by auto
  then show "DirEntryLFN t ! k ! 0 = 0" using assms(1) by (auto simp: window_of_def)
  have "DirEntry t ! k \<in> set (shown n t)" using assms(2) by (simp add: shown_def)
  then have "DirEntry t ! k \<in> set es" using *(3) by (metis in_set_takeD set_sort)
  then show "plain (DirEntry t ! k)" using assms(1) by (auto simp: window_of_def)
qed

lemma bubble_new_item:
  fixes f :: "item \<Rightarrow> int list"
  assumes "f = skey \<circ> fst" "ordered_items t = map (item_at u) ks @ x # zs"
    and "\<And>k. k \<in> set ks \<Longrightarrow> plain (DirEntry u ! k) \<and> DirEntryLFN u ! k ! 0 = 0"
    and "plain (fst x)" "snd x ! 0 = 0" "sorted (map skey (map (\<lambda>k. DirEntry u ! k) ks))"
  shows "map fst (ordered_items (bubble before (length ks) t)) =
    insr skey (fst x) (map (\<lambda>k. DirEntry u ! k) ks) @ map fst zs"
proof -
  let ?ys = "map (item_at u) ks"
  have "sorted (map f ?ys)" using assms(1,6) by (simp add: item_at_def comp_def)
  moreover have "before x y \<longleftrightarrow> f x < f y" if y: "y \<in> set ?ys" for y
  proof -
    obtain k where "k \<in> set ks" "y = item_at u k" using y by auto
    then have k: "k \<in> set ks" "y = (DirEntry u ! k, DirEntryLFN u ! k)"
      by (simp_all add: item_at_def)
    then show ?thesis
      using CompareDirEntries_short(1) [of "fst x" "DirEntry u ! k" "snd x" "DirEntryLFN u ! k"]
        assms(1,3-5) by (auto simp: plain_def)
  qed
  ultimately have "ordered_items (bubble before (length ?ys) t) = insr f x ?ys @ zs"
    by (rule bubble_is_insr [OF assms(2)])
  moreover have "map fst (insr f x ?ys) = insr skey (fst x) (map fst ?ys)"
    unfolding assms(1) by (rule map_insr)
  ultimately show ?thesis by (simp add: item_at_def comp_def)
qed

lemma insert_entry_room:
  assumes w: "window_of es (n, t)" and e: "plain e" and l: "lfn s ! 0 = 0" and n: "n < 8"
  shows "window_of (es @ [e]) (insert_entry before e s (n, t))"
proof -
  let ?t = "store_item n e s t" and ?st = "sort_table t"
  have *: "listing_ok t" "n = length es" "drop n ?st = [n..<8]" "shown n t = sort_key skey es"
    "\<forall>k < 8. DirEntryLFN t ! k \<noteq> []" "\<forall>k < n. DirEntryLFN t ! k ! 0 = 0" "\<forall>e \<in> set es. plain e"
    using w n by (auto simp: window_of_def min_def split: if_splits)
  have len: "length (DirEntry t) = 8" "length (DirEntryLFN t) = 8" "length ?st = 8"
    using *(1) listing_ok_length by (simp_all add: listing_ok_def)
  have st: "?st = take n ?st @ n # [Suc n..<8]"
    using append_take_drop_id [of n ?st] n unfolding *(3) by (simp add: upt_conv_Cons)
  have new: "item_at ?t n = (e, (DirEntryLFN t ! n)[0 := 0])"
    using l len n by (simp add: item_at_def store_item_def)
  have old: "item_at ?t k = item_at t k" if "k \<noteq> n" for k
    using that by (simp add: item_at_def store_item_def)
  have below: "k < n" "plain (DirEntry t ! k)" "DirEntryLFN t ! k ! 0 = 0" if "k \<in> set (take n ?st)" for k
    using window_places [OF w that] by auto
  have "ordered_items ?t = map (item_at ?t) (take n ?st @ n # [Suc n..<8])"
    using st by (simp add: ordered_items_def)
  also have "\<dots> = map (item_at t) (take n ?st) @ (e, (DirEntryLFN t ! n)[0 := 0]) #
      map (item_at ?t) [Suc n..<8]"
    using new old below(1) by (simp add: less_imp_neq)
  finally have items: "ordered_items ?t = \<dots>" .
  have sorted: "sorted (map skey (map (\<lambda>k. DirEntry t ! k) (take n ?st)))"
    using *(4) by (simp add: shown_def [symmetric])
  have nil: "snd (e, (DirEntryLFN t ! n)[0 := 0]) ! 0 = 0"
    using *(5) n by (cases "DirEntryLFN t ! n") auto
  have "map fst (ordered_items (bubble before (length (take n ?st)) ?t)) =
      insr skey e (shown n t) @ map fst (map (item_at ?t) [Suc n..<8])"
    using bubble_new_item [OF refl items _ _ nil sorted] below e by (simp add: shown_def)
  then have bub: "shown (Suc n) (bubble before n ?t) = sort_key skey (es @ [e])"
    using len n *(2,4) by (simp add: shown_items sort_key_snoc insr_length)
  have "insert_entry before e s (n, t) = (Suc n, bubble before n ?t)"
    using n by (simp add: insert_entry_def)
  moreover have "listing_ok (bubble before n ?t)"
    using *(1) n by (simp add: listing_ok_bubble)
  moreover have "drop (Suc n) (sort_table (bubble before n ?t)) = [Suc n..<8]"
    unfolding drop_bubble using st len by (metis append_Cons append_Nil append_assoc append_eq_conv_conj length_append_singleton length_take min.absorb4 n store_item_simps(1))
  moreover have "\<forall>k < 8. DirEntryLFN ?t ! k \<noteq> []" "\<forall>k < Suc n. DirEntryLFN ?t ! k ! 0 = 0"
    using *(5,6) l len n nil by (auto simp: store_item_def nth_list_update less_Suc_eq)
  ultimately show ?thesis
    using bub *(2,7) e n by (simp add: window_of_def)
qed

lemma take_butlast_last: "length xs = 8 \<Longrightarrow> xs = take 7 xs @ [xs ! 7]"
  using take_Suc_conv_app_nth [of 7 xs] by simp

lemma insert_entry_full:
  assumes w: "window_of es (8, t)" and e: "plain e" and l: "lfn s ! 0 = 0"
  shows "window_of (es @ [e]) (insert_entry before e s (8, t))"
proof -
  let ?st = "sort_table t" and ?k7 = "sort_table t ! 7"
  have *: "listing_ok t" "8 \<le> length es" "shown 8 t = take 8 (sort_key skey es)"
    "\<forall>k < 8. DirEntryLFN t ! k \<noteq> []" "\<forall>k < 8. DirEntryLFN t ! k ! 0 = 0" "\<forall>e \<in> set es. plain e"
    using w by (auto simp: window_of_def)
  have len: "length (DirEntry t) = 8" "length (DirEntryLFN t) = 8" "length ?st = 8"
    using *(1) listing_ok_length by (simp_all add: listing_ok_def)
  have st: "?st = take 7 ?st @ [?k7]" using len(3) by (rule take_butlast_last)
  have place: "k < 8" "plain (DirEntry t ! k)" "DirEntryLFN t ! k ! 0 = 0" if "k \<in> set ?st" for k
    using window_places [OF w, of k] that len by auto
  have k7: "?k7 \<in> set ?st" and ks: "set (take 7 ?st) \<subseteq> set ?st"
    using len by (auto intro: nth_mem dest: in_set_takeD)
  let ?W = "map (\<lambda>k. DirEntry t ! k) (take 7 ?st)" and ?last = "DirEntry t ! ?k7"
  have W: "shown 8 t = ?W @ [?last]"
    using arg_cong [OF st, of "map (\<lambda>k. DirEntry t ! k)"] len by (simp add: shown_def)
  have "sorted (map skey (shown 8 t))" unfolding *(3) by (simp add: take_map [symmetric] sorted_wrt_take)
  then have sorted: "sorted (map skey ?W)" "sorted (map skey (?W @ [?last]))" "\<forall>y \<in> set ?W. skey y \<le> skey ?last"
    unfolding W by (auto simp: sorted_append)
  have merged: "take 8 (sort_key skey (es @ [e])) = take 8 (insr skey e (?W @ [?last]))"
    unfolding sort_key_snoc by (subst take_insr) (simp add: *(3) [symmetric] W)
  have lt: "before (e, lfn s) (item_at t ?k7) \<longleftrightarrow> skey e < skey ?last"
    using CompareDirEntries_short(1) [OF e _ l] place [OF k7] by (simp add: item_at_def plain_def)
  show ?thesis
  proof (cases "skey e < skey ?last")
    case True
    let ?t = "store_item ?k7 e s t"
    have "distinct ?st"
      using *(1) by (metis distinct_upt listing_ok_def mset_eq_imp_distinct_iff)
    then have "?k7 \<notin> set (take 7 ?st)"
      using st by (metis distinct_append disjoint_insert(1) list.simps(15) )
    moreover have "item_at ?t k = item_at t k" if "?k7 \<noteq> k" for k
      using that by (simp add: item_at_def store_item_def)
    ultimately have old: "map (item_at ?t) (take 7 ?st) = map (item_at t) (take 7 ?st)"
      by (intro map_cong refl) metis
    have new: "item_at ?t ?k7 = (e, (DirEntryLFN t ! ?k7)[0 := 0])"
      using l len place(1) [OF k7] by (simp add: item_at_def store_item_def)
    have "ordered_items ?t = map (item_at ?t) (take 7 ?st) @ [item_at ?t ?k7]"
      using arg_cong [OF st, of "map (item_at ?t)"] by (simp add: ordered_items_def)
    then have items: "ordered_items ?t = map (item_at t) (take 7 ?st) @ (e, (DirEntryLFN t ! ?k7)[0 := 0]) # []"
      using old new by simp
    have nil: "snd (e, (DirEntryLFN t ! ?k7)[0 := 0]) ! 0 = 0"
      using *(4) place(1) [OF k7] by (cases "DirEntryLFN t ! ?k7") auto
    have "map fst (ordered_items (bubble before (length (take 7 ?st)) ?t)) = insr skey e ?W"
      using bubble_new_item [OF refl items _ _ nil sorted(1)] place ks e by auto
    then have "shown 8 (bubble before 7 ?t) = take 8 (sort_key skey (es @ [e]))"
      using len merged insr_last(2) [OF sorted(1) True] by (simp add: shown_items)
    moreover have "insert_entry before e s (8, t) = (8, bubble before 7 ?t)"
      using lt True by (simp add: insert_entry_def)
    moreover have "listing_ok (bubble before 7 ?t)" using *(1) by (simp add: listing_ok_bubble)
    moreover have "\<forall>k < 8. DirEntryLFN ?t ! k \<noteq> []" "\<forall>k < 8. DirEntryLFN ?t ! k ! 0 = 0"
      using *(4,5) l len nil place(1) [OF k7] by (auto simp: store_item_def nth_list_update)
    ultimately show ?thesis
      using *(2,6) e listing_ok_length by (simp add: window_of_def)
  next
    case False
    have items: "ordered_items t = map (item_at t) (take 7 ?st) @ item_at t ?k7 # []"
      using arg_cong [OF st, of "map (item_at t)"] by (simp add: ordered_items_def)
    have "map fst (ordered_items (bubble before (length (take 7 ?st)) t)) =
        insr skey (fst (item_at t ?k7)) ?W @ map fst ([] :: item list)"
      by (rule bubble_new_item [OF refl items _ _ _ sorted(1)])
         (use place ks k7 in \<open>auto simp: item_at_def\<close>)
    also have "\<dots> = ?W @ [?last]"
      using insr_last(1) [OF sorted(1,3)] by (simp add: item_at_def)
    finally have "shown 8 (bubble before 7 t) = ?W @ [?last]"
      using len by (simp add: shown_items)
    moreover have "\<forall>y \<in> set (?W @ [?last]). skey y \<le> skey e"
      using sorted(3) False by fastforce
    from insr_last(1) [OF sorted(2) this] have "take 8 (sort_key skey (es @ [e])) = ?W @ [?last]"
      using len merged by simp
    moreover have "insert_entry before e s (8, t) = (8, bubble before 7 t)"
      using lt False by (simp add: insert_entry_def)
    moreover have "listing_ok (bubble before 7 t)" using *(1) by (simp add: listing_ok_bubble)
    ultimately show ?thesis
      using *(2,4-6) e listing_ok_length by (simp add: window_of_def)
  qed
qed

lemma insert_entry_window:
  assumes "window_of es nt" "plain e" "lfn s ! 0 = 0"
  shows "window_of (es @ [e]) (insert_entry before e s nt)"
proof (cases nt)
  case (Pair n t)
  then have "n \<le> 8" using assms(1) by (auto simp: window_of_def)
  then show ?thesis
    using insert_entry_room [of es n t e s] insert_entry_full [of es t e s] assms Pair
    by (cases "n = 8") auto
qed

section \<open>The scan over the card\<close>

primrec scan_all :: "(bytes \<Rightarrow> scan \<Rightarrow> scan option) \<Rightarrow> bytes list \<Rightarrow> scan \<Rightarrow> scan option" where
  "scan_all step [] g = Some g"
| "scan_all step (e # es) g = Option.bind (step e g) (scan_all step es)"

lemma scan_all_append:
  "scan_all step (xs @ ys) g = Option.bind (scan_all step xs g) (scan_all step ys)"
proof (induction xs arbitrary: g)
  case (Cons x xs)
  then show ?case by (cases "step x g") simp_all
qed simp

text \<open>The entry in a slot of the directory, in the byte order of the processor.\<close>

definition dir_entry :: "image \<Rightarrow> 'd fatst \<Rightarrow> u32 \<times> nat \<Rightarrow> bytes" where
  "dir_entry img s = (\<lambda>(lba, i). take 32 (drop (32 * i) (swap_dir_sector (sector_view img s lba))))"

lemma next_scan_entry_load: "next_scan_entry = load_entry swap_dir_sector"
  by (simp add: next_scan_entry_def load_entry_def fun_eq_iff)

lemma drop_put_be16: "i + 1 < n \<Longrightarrow> drop n (put_be16 b i w) = drop n b"
  by (simp add: put_be16_def)

lemma drop_swap_entry: "i < 16 \<Longrightarrow> drop 512 (swap_entry b i) = drop 512 b"
  by (simp add: swap_entry_def Let_def put_be32_def drop_put_be16)

lemma keeps_second_half_swap: "keeps_second_half swap_dir_sector"
proof -
  have "\<forall>i \<in> set is. i < 16 \<Longrightarrow> drop 512 (foldl swap_entry b is) = drop 512 b" for b "is"
    by (induction "is" arbitrary: b) (simp_all add: drop_swap_entry)
  then show ?thesis by (simp add: keeps_second_half_def swap_dir_sector_def)
qed

context block_device
begin

lemmas next_scan_entry_walking =
  load_entry_walking [OF keeps_second_half_swap, folded next_scan_entry_load]

lemma ScanDirectory_entries_walk:
  assumes "walking swap_dir_sector (serves img) img s0 start j (sector, s)"
    and "\<forall>i \<in> {j..<j + n}. img (start + of_nat (i div 16)) \<noteq> None"
    and "scan_all step (map (dir_entry img s0)
      (map (\<lambda>j. (start + of_nat (j div 16), j mod 16)) [j..<j + n])) g = Some g'"
  shows "\<exists>s'. ScanDirectory_entries io step n (of_nat j) (sector, s) g = Some (g', s') \<and>
    scanned s0 s' \<and> serves img (dev s') \<and> cache_ok img s'"
  using assms
proof (induction n arbitrary: j sector s g)
  case 0
  then show ?case by (auto simp: walking_def)
next
  case (Suc n)
  let ?lba = "start + of_nat (j div 16) :: u32"
  have "img ?lba \<noteq> None" using Suc.prems(2) by auto
  from Suc.prems(1) this obtain sector' s' where
    step: "next_scan_entry io (of_nat j) (sector, s) = (sector', s')"
      "sector_buffer s' = swap_dir_sector (sector_view img s0 ?lba)" "scanned s0 s'"
      "walking swap_dir_sector (serves img) img s0 start (Suc j) (sector', s')"
    by (rule next_scan_entry_walking) blast
  have slots: "[j..<j + Suc n] = j # [Suc j..<Suc j + n]" by (simp add: upt_conv_Cons)
  have e: "buffered_entry (of_nat j) s' = dir_entry img s0 (?lba, j mod 16)"
    by (simp add: buffered_entry_def dir_entry_def step(2) entry_of_nat)
  obtain g1 where g1: "step (dir_entry img s0 (?lba, j mod 16)) g = Some g1"
    "scan_all step (map (dir_entry img s0)
      (map (\<lambda>j. (start + of_nat (j div 16), j mod 16)) [Suc j..<Suc j + n])) g1 = Some g'"
    using Suc.prems(3) unfolding slots by (auto simp: bind_eq_Some_conv)
  have "ScanDirectory_entries io step (Suc n) (of_nat j) (sector, s) g =
      ScanDirectory_entries io step n (of_nat (Suc j)) (sector', s') g1"
    unfolding ScanDirectory_entries.simps step(1) prod.case e g1(1) by (simp add: add.commute)
  with Suc.IH [OF step(4) _ g1(2)] Suc.prems(2) show ?case by auto
qed

lemma ScanDirectory_run:
  assumes "scanned s0 s" "serves img (dev s)" "cache_ok img s"
    and "\<forall>x \<in> set (run_slots start n). img (fst x) \<noteq> None"
    and "scan_all step (map (dir_entry img s0) (run_slots start n)) g = Some g'"
  obtains s' where "ScanDirectory_entries io step (16 * n) 0 (start, s) g = Some (g', s')"
    "scanned s0 s'" "serves img (dev s')" "cache_ok img s'"
proof -
  have "walking swap_dir_sector (serves img) img s0 start 0 (start, s)"
    using assms by (simp add: walking_def)
  then show thesis
    using ScanDirectory_entries_walk [of img s0 start 0 start s "16 * n" step g g'] assms(4,5) that
    unfolding run_slots_def by auto
qed

lemma ScanDirectory_clusters_chain:
  assumes "cluster_slots img s0 c slots" "\<forall>x \<in> set slots. img (fst x) \<noteq> None"
    and "scanned s0 s" "serves img (dev s)" "cache_ok img s"
    and "scan_all step (map (dir_entry img s0) slots) g = Some g'"
  shows "\<exists>s'. ScanDirectory_clusters io step True (16 * unat (cluster_size s0)) c (cluster_lba s0 c) s g =
      Some (g', s') \<and> scanned s0 s' \<and> serves img (dev s') \<and> cache_ok img s'"
  using assms
proof (induction arbitrary: s g rule: cluster_slots.induct)
  case (cluster_slots_last c l)
  from cluster_slots_last.prems(2-4,1,5) obtain t where
    t: "ScanDirectory_entries io step (16 * unat (cluster_size s0)) 0 (cluster_lba s0 c, s) g = Some (g', t)"
      "scanned s0 t" "serves img (dev t)" "cache_ok img t"
    by (rule ScanDirectory_run)
  from t(3,4) obtain s' where s': "GetFATLink io c t = (case chain_link img t c of None \<Rightarrow> 0 | Some l \<Rightarrow> l, s')"
    "same_volume t s'" "serves img (dev s')" "cache_ok img s'"
    by (rule GetFATLink_correct [where c = c])
  have "chain_link img t c = Some l"
    using cluster_slots_last.hyps(1) scanned_derived(1) [OF t(2)] by simp
  then show ?case
    using t s' cluster_slots_last.hyps(2) scannedD(1) [OF cluster_slots_last.prems(2)]
      scanned_trans [OF t(2) same_volume_scanned [OF s'(2)]]
    by (simp add: ScanDirectory_clusters.simps [of io step True _ c] Let_def)
next
  case (cluster_slots_more c l sl)
  obtain g1 where g1: "scan_all step (map (dir_entry img s0)
      (run_slots (cluster_lba s0 c) (unat (cluster_size s0)))) g = Some g1"
    "scan_all step (map (dir_entry img s0) sl) g1 = Some g'"
    using cluster_slots_more.prems(5) by (auto simp: scan_all_append bind_eq_Some_conv)
  have readable: "\<forall>x \<in> set (run_slots (cluster_lba s0 c) (unat (cluster_size s0))). img (fst x) \<noteq> None"
    using cluster_slots_more.prems(1) by simp
  from cluster_slots_more.prems(2-4) readable g1(1) obtain t where
    t: "ScanDirectory_entries io step (16 * unat (cluster_size s0)) 0 (cluster_lba s0 c, s) g = Some (g1, t)"
      "scanned s0 t" "serves img (dev t)" "cache_ok img t"
    by (rule ScanDirectory_run)
  from t(3,4) obtain s' where s': "GetFATLink io c t = (case chain_link img t c of None \<Rightarrow> 0 | Some l \<Rightarrow> l, s')"
    "same_volume t s'" "serves img (dev s')" "cache_ok img s'"
    by (rule GetFATLink_correct [where c = c])
  have sc: "scanned s0 s'" using t(2) same_volume_scanned [OF s'(2)] by (rule scanned_trans)
  have "chain_link img t c = Some l"
    using cluster_slots_more.hyps(1) scanned_derived(1) [OF t(2)] by simp
  then have "ScanDirectory_clusters io step True (16 * unat (cluster_size s0)) c (cluster_lba s0 c) s g =
      ScanDirectory_clusters io step True (16 * unat (cluster_size s0)) l (cluster_lba s0 l) s' g1"
    using t s' cluster_slots_more.hyps(2) scannedD(1) [OF cluster_slots_more.prems(2)]
      scanned_derived(2) [OF sc]
    by (simp add: ScanDirectory_clusters.simps [of io step True _ c] Let_def)
  with cluster_slots_more.IH [OF _ sc s'(3,4) g1(2)] cluster_slots_more.prems(1) show ?case by simp
qed

text \<open>A call that scans does so over the entries of the current directory, in order.\<close>

lemma ScanDirectory_scans:
  assumes "serves img (dev s)" "cache_ok img s"
    and go: "scan_begin mode g = (True, g1)"
    and slots: "directory_slots img s (iCurrentDirectory g1) slots" "\<forall>x \<in> set slots. img (fst x) \<noteq> None"
    and scan: "scan_all (scan_entry mode ext options (fat32 s)) (map (dir_entry img s) slots) g1 = Some g2"
  obtains s' where "ScanDirectory io mode ext options g s =
      Some (scan_rc (scan_finish mode options g2), scan_finish mode options g2, s')"
    "scanned s s'" "serves img (dev s')" "cache_ok img s'"
proof -
  let ?step = "scan_entry mode ext options (fat32 s)" and ?dir = "iCurrentDirectory g1"
  let ?linked = "?dir \<noteq> 0 \<or> fat32 s"
  let ?n = "unat (if ?dir \<noteq> 0 then push_bit 4 (ucast (cluster_size s)) else root_entries s)"
  let ?c = "if ?dir \<noteq> 0 then ?dir else root_directory_cluster s"
  let ?sector = "if ?dir \<noteq> 0 then cluster_lba s ?dir else root_directory_start s"
  have size: "unat (push_bit 4 (ucast (cluster_size s)) :: u32) = 16 * unat (cluster_size s)"
    using order_less_trans [OF unat_u8_less [of "cluster_size s"], of "2 ^ 28"]
    by (simp add: unat_push_bit_u32 word_nat)
  have "\<exists>s'. ScanDirectory_clusters io ?step ?linked ?n ?c ?sector s g1 = Some (g2, s') \<and>
      scanned s s' \<and> serves img (dev s') \<and> cache_ok img s'"
  proof (cases ?linked)
    case True
    then have "cluster_slots img s ?c slots" "?sector = cluster_lba s ?c" "?n = 16 * unat (cluster_size s)"
      using slots(1) size by (auto simp: directory_slots_def root_slots_def root_entries_def)
    then show ?thesis
      using True ScanDirectory_clusters_chain [OF _ slots(2) scanned_refl assms(1,2) scan] by simp
  next
    case False
    then have r: "slots = run_slots (root_directory_start s) (unat (root_directory_size s))"
      "?n = 16 * unat (root_directory_size s)"
      using slots(1) by (auto simp: directory_slots_def root_slots_def root_entries_def unat_push_bit_u32)
    obtain t where t: "ScanDirectory_entries io ?step (16 * unat (root_directory_size s)) 0
        (root_directory_start s, s) g1 = Some (g2, t)" "scanned s t" "serves img (dev t)" "cache_ok img t"
      by (rule ScanDirectory_run [OF scanned_refl assms(1,2) slots(2) [unfolded r(1)] scan [unfolded r(1)]])
    then show ?thesis
      using False r(2) by (simp add: ScanDirectory_clusters.simps [of io _ False])
  qed
  then show thesis
    using go that by (auto simp: ScanDirectory_def Let_def)
qed

end

text \<open>Without a long-name part that is stored outside \<open>lfn\<close> a scan returns; no step changes the
  directory.\<close>

definition long_name_fits :: "bytes \<Rightarrow> bool" where
  "long_name_fits e \<longleftrightarrow> (e ! 0 \<notin> {0, 0xE5} \<and> e ! 11 = 0x0F \<longrightarrow>
     1 \<le> unat (e ! 0 AND 0x1F) \<and> unat (e ! 0 AND 0x1F) \<le> 20)"

lemma lfn_entry_returns:
  assumes "1 \<le> unat (e ! 0 AND 0x1F)" "unat (e ! 0 AND 0x1F) \<le> 20"
  shows "\<exists>g'. lfn_entry e g = Some g' \<and> iCurrentDirectory g' = iCurrentDirectory g"
proof -
  have "(unat (e ! 0 AND 0x1F) - 1) * 13 \<le> 19 * 13" using assms(2) by (intro mult_le_mono1) simp
  then show ?thesis using assms by (auto simp: lfn_entry_def Let_def lfn_chars_def)
qed

lemma insert_entry_directory: "iCurrentDirectory (scan_mode_entry mode options f32 e g) = iCurrentDirectory g"
  by (simp add: scan_mode_entry_def scan_init_entry_def scan_init_first_entry_def scan_init_next_entry_def
      scan_next_entry_def scan_prev_entry_def scan_next_page_entry_def scan_prev_page_entry_def
      scan_char_entry_def collect_temp_def Let_def split: prod.split)

lemma scan_entry_returns:
  assumes "options AND SCAN_LFN = 0 \<or> long_name_fits e"
  shows "\<exists>g'. scan_entry mode ext options f32 e g = Some g' \<and> iCurrentDirectory g' = iCurrentDirectory g"
  using assms lfn_entry_returns [of e g]
  by (auto simp: scan_entry_def long_name_fits_def Let_def insert_entry_directory)

lemma scan_all_returns:
  assumes "\<forall>e \<in> set es. options AND SCAN_LFN = 0 \<or> long_name_fits e"
  shows "\<exists>g'. scan_all (scan_entry mode ext options f32) es g = Some g' \<and> iCurrentDirectory g' = iCurrentDirectory g"
  using assms
proof (induction es arbitrary: g)
  case (Cons e es)
  obtain g1 where g1: "scan_entry mode ext options f32 e g = Some g1" "iCurrentDirectory g1 = iCurrentDirectory g"
    using scan_entry_returns [of options e mode ext f32 g] Cons.prems by auto
  then show ?case using Cons.IH [of g1] Cons.prems by simp
qed simp

lemma scan_begin_directory: "iCurrentDirectory (snd (scan_begin mode g)) = iCurrentDirectory g"
  by (simp add: scan_begin_def Let_def)

lemma scan_finish_directory: "iCurrentDirectory (scan_finish mode options g) = iCurrentDirectory g"
  by (simp add: scan_finish_def finish_next_page_def finish_prev_page_def finish_char_def Let_def)

text \<open>The first scan without long names: the entries that are listed, sorted.\<close>

definition listed :: "reader \<Rightarrow> u8 \<Rightarrow> bytes \<Rightarrow> bool" where
  "listed ext options e \<longleftrightarrow> e ! 0 \<noteq> SLOT_EMPTY \<and> e ! 0 \<noteq> SLOT_DELETED \<and> e ! 11 \<noteq> ATTR_LFN \<and>
     visible ext options e"

lemma scan_entry_init:
  assumes "options AND SCAN_LFN = 0" "lfn g \<noteq> []" "lfn g ! 0 = 0"
    and "window_of es (nDirEntries g, view g)" "listed ext options e \<Longrightarrow> plain e"
  obtains g' where "scan_entry SCAN_INIT ext options f32 e g = Some g'"
    "lfn g' \<noteq> []" "lfn g' ! 0 = 0"
    "window_of (if listed ext options e then es @ [e] else es) (nDirEntries g', view g')"
    "nNewEntries g' = nNewEntries g" "scan_rc g' = scan_rc g" "iSelectedEntry g' = iSelectedEntry g"
proof (cases "listed ext options e")
  case True
  have "window_of (es @ [e]) (insert_entry before e g (nDirEntries g, view g))"
    using assms(3-5) True by (intro insert_entry_window) simp_all
  with True assms(1-3) show thesis
    by (intro that [of "(scan_init_entry e g)\<lparr>lfn := (lfn g)[0 := 0]\<rparr>"])
       (auto simp: scan_entry_def listed_def scan_mode_entry_def scan_init_entry_def Let_def
        split: prod.splits)
next
  case False
  then have "scan_entry SCAN_INIT ext options f32 e g = Some g \<or>
      scan_entry SCAN_INIT ext options f32 e g = Some (g\<lparr>lfn := (lfn g)[0 := 0]\<rparr>)"
    using assms(1) by (auto simp: scan_entry_def listed_def Let_def)
  then show thesis using assms False by (elim disjE) (auto intro!: that)
qed

lemma scan_all_init:
  assumes "options AND SCAN_LFN = 0" "lfn g \<noteq> []" "lfn g ! 0 = 0"
    and "window_of es (nDirEntries g, view g)" "\<forall>e \<in> set ds. listed ext options e \<longrightarrow> plain e"
  shows "\<exists>g'. scan_all (scan_entry SCAN_INIT ext options f32) ds g = Some g' \<and>
    window_of (es @ filter (listed ext options) ds) (nDirEntries g', view g') \<and>
    nNewEntries g' = nNewEntries g \<and> scan_rc g' = scan_rc g \<and> iSelectedEntry g' = iSelectedEntry g"
  using assms
proof (induction ds arbitrary: g es)
  case (Cons d ds)
  from Cons.prems(1-4) obtain g1 where g1: "scan_entry SCAN_INIT ext options f32 d g = Some g1"
    "lfn g1 \<noteq> []" "lfn g1 ! 0 = 0"
    "window_of (if listed ext options d then es @ [d] else es) (nDirEntries g1, view g1)"
    "nNewEntries g1 = nNewEntries g" "scan_rc g1 = scan_rc g" "iSelectedEntry g1 = iSelectedEntry g"
    by (rule scan_entry_init [where ?f32.0 = f32 and e = d and ext = ext]) (use Cons.prems(5) in auto)
  from Cons.IH [OF assms(1) g1(2-4)] Cons.prems(5) g1 show ?case
    by (auto split: if_splits)
qed (use assms in auto)

text \<open>What the call needs of the state: tables of the right size.\<close>

definition tables_ok :: "scan \<Rightarrow> bool" where
  "tables_ok g \<longleftrightarrow> length (DirEntry (view g)) = 8 \<and> length (DirEntryLFN (view g)) = 8 \<and>
     (\<forall>l \<in> set (DirEntryLFN (view g)). l \<noteq> []) \<and> lfn g \<noteq> []"

lemma scan_begin_init:
  assumes "tables_ok g"
  obtains g1 where "scan_begin SCAN_INIT g = (True, g1)" "lfn g1 \<noteq> []" "lfn g1 ! 0 = 0"
    "window_of [] (nDirEntries g1, view g1)" "nNewEntries g1 = 0" "scan_rc g1 = False"
    "iSelectedEntry g1 = 0" "iCurrentDirectory g1 = iCurrentDirectory g"
  using assms by (intro that [of "snd (scan_begin SCAN_INIT g)"])
    (auto simp: scan_begin_def Let_def tables_ok_def window_of_def listing_ok_def shown_def)

end
