(* ===== verification/FatCreate.thy ===== *)
theory FatCreate
  imports FatDir Spi
begin

text \<open>
  \<open>FileCreate\<close> and \<open>UpdateEntry\<close> in full, whatever the writes return: the walk over a directory to
  its first empty slot, over any driver that keeps the laws of \<open>block_device\<close>, and what follows
  over \<^verbatim>\<open>spi.c\<close>, whose \<open>sd_write_sector\<close> is a stub that returns 0.
\<close>

section \<open>The first empty slot\<close>

definition slot_unused :: "image \<Rightarrow> 'd fatst \<Rightarrow> u32 \<times> nat \<Rightarrow> bool" where
  "slot_unused img s = (\<lambda>(lba, i). sector_view img s lba ! (32 * i) = 0)"

text \<open>The entry counts only modulo 16.\<close>

lemma create_at_mod: "create_at io sector (of_nat j) f s = create_at io sector (of_nat (j mod 16)) f s"
proof -
  have "(of_nat j :: u32) AND 0x0F = of_nat (j mod 16) AND 0x0F" unfolding entry_and_mask by simp
  then show ?thesis unfolding create_at_def entry_offset_def by (simp only:)
qed

text \<open>How the call goes on at a slot, with the state it is reached in.\<close>

definition created_at :: "'d sd_ops \<Rightarrow> fileTYPE \<Rightarrow> 'd fatst \<Rightarrow> (u32 \<times> nat) option \<Rightarrow> bool \<times> fileTYPE \<times> 'd fatst" where
  "created_at io f t r = (case r of None \<Rightarrow> (False, f, t) | Some (lba, i) \<Rightarrow> create_at io lba (of_nat i) f t)"

context block_device
begin

lemma FileCreate_entries_walk:
  assumes "walking (\<lambda>b. b) (serves img) img s0 start j (sector, s)"
    and "\<forall>i \<in> {j..<j + n}. img (start + of_nat (i div 16)) \<noteq> None"
  shows "\<exists>t. (let r = find (slot_unused img s0) (map (\<lambda>j. (start + of_nat (j div 16), j mod 16)) [j..<j + n]);
      (b, f', u) = created_at io f t r
    in FileCreate_entries io f n (of_nat j) (sector, s) = (if r = None then None else Some (b, f'), u)) \<and>
    scanned s0 t \<and> serves img (dev t) \<and> cache_ok img t"
  using assms
proof (induction n arbitrary: j sector s)
  case 0
  then show ?case by (auto simp: walking_def created_at_def)
next
  case (Suc n)
  let ?lba = "start + of_nat (j div 16) :: u32"
  have "img ?lba \<noteq> None" using Suc.prems(2) by auto
  from Suc.prems(1) this obtain sector' s' where
    step: "next_entry io (of_nat j) (sector, s) = (sector', s')" "sector' - 1 = ?lba"
      "sector_buffer s' = sector_view img s0 ?lba" "scanned s0 s'"
      "walking (\<lambda>b. b) (serves img) img s0 start (Suc j) (sector', s')"
    by (rule next_entry_walking) blast
  have slots: "[j..<j + Suc n] = j # [Suc j..<Suc j + n]" by (simp add: upt_conv_Cons)
  show ?case
  proof (cases "slot_unused img s0 (?lba, j mod 16)")
    case True
    obtain b f' u where c: "create_at io ?lba (of_nat (j mod 16)) f s' = (b, f', u)" by (rule prod_cases3)
    have "FileCreate_entries io f (Suc n) (of_nat j) (sector, s) = (Some (b, f'), u)"
      unfolding FileCreate_entries.simps step(1) prod.case
      using True c by (simp add: step(2,3) slot_unused_def entry_of_nat create_at_mod [of io _ j])
    then show ?thesis
      using step(4,5) True c unfolding slots by (intro exI [of _ s']) (simp add: walking_def created_at_def)
  next
    case False
    then have "FileCreate_entries io f (Suc n) (of_nat j) (sector, s) =
        FileCreate_entries io f n (of_nat (Suc j)) (sector', s')"
      unfolding FileCreate_entries.simps step(1) prod.case
      by (simp add: step(3) slot_unused_def entry_of_nat add.commute)
    with False Suc.IH [OF step(5)] Suc.prems(2) show ?thesis
      unfolding slots by auto
  qed
qed

lemma FileCreate_run:
  assumes "scanned s0 s" "serves img (dev s)" "cache_ok img s"
    and "\<forall>x \<in> set (run_slots start n). img (fst x) \<noteq> None"
  obtains t b f' u where "created_at io f t (find (slot_unused img s0) (run_slots start n)) = (b, f', u)"
    "FileCreate_entries io f (16 * n) 0 (start, s) =
      (if find (slot_unused img s0) (run_slots start n) = None then None else Some (b, f'), u)"
    "scanned s0 t" "serves img (dev t)" "cache_ok img t"
proof -
  have "walking (\<lambda>b. b) (serves img) img s0 start 0 (start, s)"
    using assms by (simp add: walking_def)
  then obtain t where "let r = find (slot_unused img s0) (run_slots start n); (b, f', u) = created_at io f t r
      in FileCreate_entries io f (16 * n) 0 (start, s) = (if r = None then None else Some (b, f'), u)"
      "scanned s0 t" "serves img (dev t)" "cache_ok img t"
    using FileCreate_entries_walk [of img s0 start 0 start s "16 * n" f] assms(4)
    unfolding run_slots_def by auto
  then show thesis
    using that by (cases "created_at io f t (find (slot_unused img s0) (run_slots start n))") (auto simp: Let_def)
qed

lemma FileCreate_clusters_chain:
  assumes "cluster_slots img s0 c slots" "\<forall>x \<in> set slots. img (fst x) \<noteq> None"
    and "scanned s0 s" "serves img (dev s)" "cache_ok img s"
    and n: "unat nE = 16 * unat (cluster_size s0)"
  shows "\<exists>t. FileCreate_clusters io True nE f c (cluster_lba s0 c) s =
      Some (created_at io f t (find (slot_unused img s0) slots)) \<and> scanned s0 t \<and> serves img (dev t) \<and> cache_ok img t"
  using assms(1-5)
proof (induction arbitrary: s rule: cluster_slots.induct)
  case (cluster_slots_last c l)
  from cluster_slots_last.prems(2-4,1) obtain t b f' u where
    t: "created_at io f t (find (slot_unused img s0) (run_slots (cluster_lba s0 c) (unat (cluster_size s0)))) = (b, f', u)"
      "FileCreate_entries io f (16 * unat (cluster_size s0)) 0 (cluster_lba s0 c, s) =
        (if find (slot_unused img s0) (run_slots (cluster_lba s0 c) (unat (cluster_size s0))) = None then None else Some (b, f'), u)"
      "scanned s0 t" "serves img (dev t)" "cache_ok img t"
    by (rule FileCreate_run)
  show ?case
  proof (cases "find (slot_unused img s0) (run_slots (cluster_lba s0 c) (unat (cluster_size s0)))")
    case (Some x)
    then show ?thesis
      using t by (intro exI [of _ t]) (simp add: FileCreate_clusters.simps [of io True] n)
  next
    case None
    then have u: "b = False" "f' = f" "u = t" using t(1) by (auto simp: created_at_def)
    from t(4,5) obtain s' where s': "GetFATLink io c t = (case chain_link img t c of None \<Rightarrow> 0 | Some l \<Rightarrow> l, s')"
      "same_volume t s'" "serves img (dev s')" "cache_ok img s'"
      by (rule GetFATLink_correct [where c = c])
    have "chain_link img t c = Some l"
      using cluster_slots_last.hyps(1) scanned_derived(1) [OF t(3)] by simp
    then show ?thesis
      using None t u s' cluster_slots_last.hyps(2) scannedD(1) [OF cluster_slots_last.prems(2)]
        scanned_trans [OF t(3) same_volume_scanned [OF s'(2)]]
      by (intro exI [of _ s']) (simp add: FileCreate_clusters.simps [of io True] Let_def n created_at_def)
  qed
next
  case (cluster_slots_more c l sl)
  have "\<forall>x \<in> set (run_slots (cluster_lba s0 c) (unat (cluster_size s0))). img (fst x) \<noteq> None"
    using cluster_slots_more.prems(1) by simp
  from cluster_slots_more.prems(2-4) this obtain t b f' u where
    t: "created_at io f t (find (slot_unused img s0) (run_slots (cluster_lba s0 c) (unat (cluster_size s0)))) = (b, f', u)"
      "FileCreate_entries io f (16 * unat (cluster_size s0)) 0 (cluster_lba s0 c, s) =
        (if find (slot_unused img s0) (run_slots (cluster_lba s0 c) (unat (cluster_size s0))) = None then None else Some (b, f'), u)"
      "scanned s0 t" "serves img (dev t)" "cache_ok img t"
    by (rule FileCreate_run)
  show ?case
  proof (cases "find (slot_unused img s0) (run_slots (cluster_lba s0 c) (unat (cluster_size s0)))")
    case (Some x)
    then show ?thesis
      using t by (intro exI [of _ t]) (simp add: FileCreate_clusters.simps [of io True] n find_append)
  next
    case None
    then have u: "u = t" using t(1) by (auto simp: created_at_def)
    from t(4,5) obtain s' where s': "GetFATLink io c t = (case chain_link img t c of None \<Rightarrow> 0 | Some l \<Rightarrow> l, s')"
      "same_volume t s'" "serves img (dev s')" "cache_ok img s'"
      by (rule GetFATLink_correct [where c = c])
    have sc: "scanned s0 s'" using t(3) same_volume_scanned [OF s'(2)] by (rule scanned_trans)
    have "chain_link img t c = Some l"
      using cluster_slots_more.hyps(1) scanned_derived(1) [OF t(3)] by simp
    then have "FileCreate_clusters io True nE f c (cluster_lba s0 c) s =
        FileCreate_clusters io True nE f l (cluster_lba s0 l) s'"
      using None t u s' cluster_slots_more.hyps(2) scannedD(1) [OF cluster_slots_more.prems(2)]
        scanned_derived(2) [OF sc]
      by (simp add: FileCreate_clusters.simps [of io True nE f c] Let_def n)
    with cluster_slots_more.IH [OF _ sc s'(3,4)] cluster_slots_more.prems(1) None show ?thesis
      by (simp add: find_append)
  qed
qed

text \<open>The call on a directory whose sectors are readable.\<close>

lemma FileCreate_correct:
  assumes "serves img (dev s)" "cache_ok img s"
    and slots: "directory_slots img s dir slots" "\<forall>x \<in> set slots. img (fst x) \<noteq> None"
  obtains t where "FileCreate io dir f s = Some (created_at io f t (find (slot_unused img s) slots))"
    "scanned s t" "serves img (dev t)" "cache_ok img t"
proof -
  have size: "unat (push_bit 4 (ucast (cluster_size s)) :: u32) = 16 * unat (cluster_size s)"
    using order_less_trans [OF unat_u8_less [of "cluster_size s"], of "2 ^ 28"]
    by (simp add: unat_push_bit_u32 word_nat)
  have "\<exists>t. FileCreate io dir f s = Some (created_at io f t (find (slot_unused img s) slots)) \<and>
      scanned s t \<and> serves img (dev t) \<and> cache_ok img t"
  proof (cases "dir \<noteq> 0 \<or> fat32 s")
    case True
    let ?c = "if dir \<noteq> 0 then dir else root_directory_cluster s"
    have c: "cluster_slots img s ?c slots"
      "FileCreate io dir f s = FileCreate_clusters io True (push_bit 4 (ucast (cluster_size s))) f ?c (cluster_lba s ?c) s"
      using True slots(1) by (auto simp: directory_slots_def root_slots_def FileCreate_def root_entries_def)
    show ?thesis
      unfolding c(2) by (rule FileCreate_clusters_chain [OF c(1) slots(2) scanned_refl assms(1,2) size])
  next
    case False
    then have r: "slots = run_slots (root_directory_start s) (unat (root_directory_size s))"
      "unat (root_entries s) = 16 * unat (root_directory_size s)"
      using slots(1) by (auto simp: directory_slots_def root_slots_def root_entries_def unat_push_bit_u32)
    obtain t b f' u where t: "created_at io f t (find (slot_unused img s) slots) = (b, f', u)"
      "FileCreate_entries io f (16 * unat (root_directory_size s)) 0 (root_directory_start s, s) =
        (if find (slot_unused img s) slots = None then None else Some (b, f'), u)"
      "scanned s t" "serves img (dev t)" "cache_ok img t"
      using FileCreate_run [OF scanned_refl assms(1,2) slots(2) [unfolded r(1)], of f] r(1) by metis
    have "find (slot_unused img s) slots = None \<Longrightarrow> (b, f', u) = (False, f, t)"
      using t(1) by (simp add: created_at_def)
    then show ?thesis
      using False t r(2) by (intro exI [of _ t]) (auto simp: FileCreate_def FileCreate_clusters.simps [of io False])
  qed
  then show thesis using that by blast
qed

end

section \<open>Over the SD card driver\<close>

lemma spi_write: "sd_write (spi_ops x) d lba b = (False, d)"
  by (simp add: spi_ops_def sd_write_sector_def)

lemma find_upt_SomeI:
  assumes "m \<le> k" "k < n" "P k" "\<forall>j \<in> {m..<k}. \<not> P j"
  shows "find P [m..<n] = Some k"
proof -
  have "[m..<n] = [m..<k] @ k # [Suc k..<n]"
    using assms(1,2) upt_add_eq_append [of m k "n - k"] by (simp add: upt_conv_Cons)
  moreover have "find P [m..<k] = None" using assms(4) by (auto simp: find_None_iff)
  ultimately show ?thesis using assms(3) by (simp add: find_append)
qed

text \<open>On a readable table the search ends with its first free entry, or finds none.\<close>

lemma search_result_find:
  assumes "search_result img s 2 (n * per_sector (fat32 s)) r" "\<forall>k < n. img (fat_start s + of_nat k) \<noteq> None"
  shows "case find (entry_free img s) [2..<n * per_sector (fat32 s)] of
    None \<Rightarrow> r = Table_full
  | Some k \<Rightarrow> \<exists>fi i. r = Free_at fi i \<and> k = unat fi * per_sector (fat32 s) + i \<and> i < per_sector (fat32 s) \<and>
      k < n * per_sector (fat32 s)"
proof (cases r)
  case Read_failed
  then obtain k where k: "k * per_sector (fat32 s) < n * per_sector (fat32 s)" "img (fat_start s + of_nat k) = None"
    using assms(1) by auto
  then have "k < n" by simp
  then show ?thesis using assms(2) k(2) by blast
next
  case Table_full
  then have "find (entry_free img s) [2..<n * per_sector (fat32 s)] = None"
    using assms(1) by (auto simp: find_None_iff)
  then show ?thesis using Table_full by simp
next
  case (Free_at fi i)
  let ?k = "unat fi * per_sector (fat32 s) + i"
  have k: "2 \<le> ?k" "?k < n * per_sector (fat32 s)" "entry_free img s ?k" "\<forall>j \<in> {2..<?k}. \<not> entry_free img s j"
    and i: "i < per_sector (fat32 s)"
    using assms(1) Free_at by (simp_all add: Let_def)
  show ?thesis unfolding find_upt_SomeI [OF k] using Free_at k(2) i by simp
qed

text \<open>A failed write of the table leaves the entry marked in the buffer, where it is read.\<close>

lemma marked_link:
  assumes "buffered_fat_index t = fi" "length (fat_buffer t) = 512" "i < per_sector (fat32 t)"
    and k: "k = unat fi * per_sector (fat32 t) + i" "k < 2 ^ 32"
  shows "fst (GetFATLink io (of_nat k) (mark_eoc t i)) = (if fat32 t then 0x0FFFFFFF else 0xFFFF)"
proof -
  have u: "unat (of_nat k :: u32) = k" using k(2) by (intro unat_of_nat_u32) simp
  have p: "per_sector (fat32 t) = (if fat32 t then 128 else 256)" by (simp add: per_sector_def)
  have "unat (link_sector (fat32 t) (of_nat k)) = k div per_sector (fat32 t)"
    by (simp add: link_sector_def unat_drop_bit u per_sector_def)
  also have "\<dots> = unat fi" using k(1) assms(3) by simp
  finally have sector: "link_sector (fat32 t) (of_nat k) = fi" by (simp only: word_unat_eq_iff)
  have m: "mark_eoc t i = t\<lparr>fat_buffer := marked (fat32 t) (fat_buffer t) i\<rparr>" by (rule mark_eoc_marked)
  have "fst (GetFATLink io (of_nat k) (mark_eoc t i)) = buffered_link (mark_eoc t i) (link_index (fat32 t) (of_nat k))"
    by (simp add: GetFATLink_def load_fat_sector_def m sector assms(1))
  also have "\<dots> = table_entry (fat32 t) (marked (fat32 t) (fat_buffer t) i) (unat (of_nat k :: u32) mod per_sector (fat32 t))"
    using spi.buffered_link_correct [of "mark_eoc t i" "marked (fat32 t) (fat_buffer t) i" "of_nat k"]
      marked_entry(3) [OF assms(2,3)] by (simp add: m p)
  also have "unat (of_nat k :: u32) mod per_sector (fat32 t) = i" using k(1) assms(3) u by simp
  finally show ?thesis using marked_entry(1) [OF assms(2,3)] by simp
qed

lemma create_at_spi:
  assumes t: "spi_serves x img (dev t)" "cache_ok img t"
    and size: "unat (fat_size t) * per_sector (fat32 t) < 2 ^ 32"
    and table: "\<forall>k < unat (fat_size t). img (fat_start t + of_nat k) \<noteq> None"
  obtains r s' where "create_at (spi_ops x) sector iEntry f t = (r, f, s')" "same_volume t s'" "spi_serves x img (dev s')"
    "case find (entry_free img t) [2..<unat (fat_size t) * per_sector (fat32 t)] of
       None \<Rightarrow> r \<and> cache_ok img s'
     | Some k \<Rightarrow> \<not> r \<and> fst (GetFATLink (spi_ops x) (of_nat k) s') = (if fat32 t then 0x0FFFFFFF else 0xFFFF)"
proof -
  let ?p = "per_sector (fat32 t)"
  have "unat (0 :: u32) + unat (fat_size t) < 2 ^ 32" "2 < ?p" by (simp_all add: per_sector_def)
  then show thesis
  proof (rule spi.find_free_correct [OF t])
    fix r s
    assume s: "find_free (spi_ops x) (unat (fat_size t)) 0 2 t = (r, s)" "same_volume t s"
      "spi_serves x img (dev s)" "cache_ok img s"
      "search_result img t (unat (0 :: u32) * ?p + 2) ((unat (0 :: u32) + unat (fat_size t)) * ?p) r"
      "\<And>fi i. r = Free_at fi i \<Longrightarrow> buffered_fat_index s = fi"
    note vol = same_volumeD [OF s(2)]
    have "search_result img t 2 (unat (fat_size t) * ?p) r" using s(5) unfolding unat_0 mult_zero_left add_0 .
    note search = search_result_find [OF this table]
    show thesis
    proof (cases "find (entry_free img t) [2..<unat (fat_size t) * ?p]")
      case None
      then have "r = Table_full" using search by simp
      then have "create_at (spi_ops x) sector iEntry f t = (True, f, s)" using s(1) by (simp add: create_at_def)
      from that [OF this s(2,3)] show thesis using None s(4) by simp
    next
      case (Some k)
      then obtain fi i where r: "r = Free_at fi i" "k = unat fi * ?p + i" "i < ?p" "k < unat (fat_size t) * ?p"
        using search by auto
      let ?s = "mark_eoc s i"
      have c: "create_at (spi_ops x) sector iEntry f t = (False, f, ?s)"
        by (simp add: create_at_def s(1) r(1) spi_write Let_def)
      have m: "?s = s\<lparr>fat_buffer := marked (fat32 s) (fat_buffer s) i\<rparr>" by (rule mark_eoc_marked)
      have "same_volume s ?s"
        unfolding same_volume_def m
        by (intro exI [of _ "dev s"] exI [of _ "marked (fat32 s) (fat_buffer s) i"] exI [of _ "buffered_fat_index s"]) simp
      then have v: "same_volume t ?s" by (rule same_volume_trans [OF s(2)])
      have d: "spi_serves x img (dev ?s)" using s(3) by (simp add: m)
      have link: "fst (GetFATLink (spi_ops x) (of_nat k) ?s) = (if fat32 t then 0x0FFFFFFF else 0xFFFF)"
        using marked_link [of s fi i k] s(4,6) r size by (simp add: vol cache_ok_def)
      from that [OF c v d] show thesis using link Some by simp
    qed
  qed
qed

section \<open>The buffered slot of UpdateEntry\<close>

lemma updated_slot_in_buffer:
  assumes "length b = 1024" "e + 32 \<le> 512" "length (fname f) = 11"
  defines "c \<equiv> (store_at e (take 11 (fname f)) b)[e + 11 := attributes f]"
  shows "take 11 (drop e c) = fname f" "c ! (e + 11) = attributes f" "be32 c (e + 28) = be32 b (e + 28)"
    "j < 1024 \<Longrightarrow> j \<notin> {e..e + 11} \<Longrightarrow> c ! j = b ! j" "length c = 1024"
proof -
  show "take 11 (drop e c) = fname f"
  proof (rule nth_equalityI)
    fix i
    assume "i < length (take 11 (drop e c))"
    then have i: "i < 11" by simp
    then have "store_at e (fname f) b ! (e + i) = fname f ! i"
      using assms by (subst nth_store_at) auto
    with i show "take 11 (drop e c) ! i = fname f ! i"
      using assms by (simp add: c_def)
  qed (use assms in simp)
  show "c ! (e + 11) = attributes f" "length c = 1024" using assms by (simp_all add: c_def)
  show *: "c ! j = b ! j" if "j < 1024" "j \<notin> {e..e + 11}" for j
  proof -
    have "store_at e (fname f) b ! j = b ! j" using that assms(1-3) by (subst nth_store_at) auto
    then show ?thesis using that(2) assms(3) by (auto simp: c_def)
  qed
  show "be32 c (e + 28) = be32 b (e + 28)" using * assms(2) by (simp add: be32_def be16_def)
qed

end
