(* ===== verification/SampleCard.thy ===== *)
theory SampleCard
  imports Spi
begin

text \<open>
  A small SDHC card that answers CMD17 at once, for the witnesses of the theorems about code
  that reads a card: it collects the six bytes of a command and queues its answer.
\<close>

definition sample_answer :: "image \<Rightarrow> bytes \<Rightarrow> bytes" where
  "sample_answer img frame =
     (case img (be32 frame 1) of
        None \<Rightarrow> [0x05]
      | Some b \<Rightarrow> [0] @ [0xFE] @ b @ [0, 0])"

fun sample_bus :: "image \<Rightarrow> (bytes \<times> bytes) bus" where
  "sample_bus img (r # q, buf) sel b = (r, (q, buf))"
| "sample_bus img ([], buf) sel b =
     (let buf = (if buf = [] \<and> b = 0xFF then [] else buf @ [b])
      in (0xFF, if length buf = 6 then (sample_answer img buf, []) else ([], buf)))"

lemma exchange_queue:
  "exchange (sample_bus img) (q, buf) sel (replicate (length q) 0xFF) = (q, ([], buf))"
  by (induction q) simp_all

abbreviation "idle6 \<equiv> [0xFF, 0xFF, 0xFF, 0xFF, 0xFF, 0xFF] :: bytes"

lemma exchange_frame:
  "exchange (sample_bus img) ([], []) sel (0xFF # read_frame True lba) =
     (idle6 @ [0xFF], (sample_answer img (read_frame True lba), []))"
  by (simp add: read_frame_def Let_def)

lemma be32_read_frame: "be32 (read_frame True lba) 1 = lba"
  by (simp add: read_frame_def be32_def be16_def Let_def eval_nat_numeral)

lemma sample_answer_read_frame:
  "sample_answer img (read_frame True lba) =
     (case img lba of None \<Rightarrow> [0x05] | Some b \<Rightarrow> [0] @ [0xFE] @ b @ [0, 0])"
  unfolding sample_answer_def be32_read_frame ..

lemma sample_answers:
  assumes "\<And>lba b. img lba = Some b \<Longrightarrow> length b = 512"
  shows "answers (sample_bus img) True lba (img lba) ([], []) ([], [])"
proof (cases "img lba")
  case None
  have "exchange (sample_bus img) ([], []) True ((0xFF # read_frame True lba) @ replicate 1 0xFF) =
      (idle6 @ replicate 1 0xFF @ [0x05], ([], []))"
    unfolding exchange_append exchange_frame prod.case sample_answer_read_frame None option.case
    by simp
  then show ?thesis
    unfolding None answers_def option.case
    by (intro exI [of _ idle6] exI [of _ 1] exI [of _ 5]) simp
next
  case (Some b)
  let ?a = "[0] @ [0xFE] @ b @ [0, 0]"
  have len: "length b = 512" using assms Some by blast
  then have n: "1 + length ([] :: bytes) + 516 = length ?a + 1" by simp
  have "exchange (sample_bus img) ([], []) True
      ((0xFF # read_frame True lba) @ replicate (1 + length ([] :: bytes) + 516) 0xFF) =
      ((idle6 @ [0xFF]) @ ?a @ [0xFF], ([], []))"
    unfolding n exchange_append exchange_frame prod.case sample_answer_read_frame Some option.case
      replicate_add exchange_queue
    by simp
  with len show ?thesis
    unfolding Some answers_def option.case
    by (intro conjI exI [of _ idle6] exI [of _ 1] exI [of _ "[]"] exI [of _ "[0, 0]"]
        exI [of _ "0xFF"]) simp_all
qed

lemma sample_serving:
  assumes "\<And>lba b. img lba = Some b \<Longrightarrow> length b = 512"
  shows "serving (sample_bus img) True img ([], [])"
proof (rule serving.coinduct [where X = "\<lambda>c. c = ([], [])"])
  fix c :: "bytes \<times> bytes"
  assume "c = ([], [])"
  moreover have "answers (sample_bus img) True lba (img lba) ([], []) ([], [])" for lba
    by (rule sample_answers) (rule assms)
  ultimately show "\<exists>c0. c = c0 \<and> (\<forall>lba. \<exists>c'. answers (sample_bus img) True lba (img lba) c0 c' \<and>
      (c' = ([], []) \<or> serving (sample_bus img) True img c'))"
    by blast
qed simp

definition sample_spi :: "(bytes \<times> bytes) spi" where
  "sample_spi = \<lparr>card = ([], []), cs = False, rx = 0, SDHCtype = True, div7 = 0\<rparr>"

lemma sample_spi_serves:
  assumes "\<And>lba b. img lba = Some b \<Longrightarrow> length b = 512"
  shows "spi_serves (sample_bus img) img sample_spi"
  using sample_serving [OF assms] by (simp add: spi_serves_def sample_spi_def)

end
