(* ===== verification/Volume.thy ===== *)
theory Volume
  imports FatChain SampleCard
begin

text \<open>
  The FAT code over the SD card driver: the lemmas of the locale \<open>block_device\<close>, through its
  interpretation on \<^verbatim>\<open>spi.c\<close>, as statements about a card that serves an image. The sample
  volume of the witnesses is a FAT16 volume with one sector per cluster, the table in sector 1
  and data from sector 4, and a file in clusters 2, 3 and 5.
\<close>

section \<open>Sample volume\<close>

definition sample_table :: bytes where
  "sample_table = [0xF8, 0xFF, 0xFF, 0xFF, 3, 0, 5, 0, 0, 0, 0xFF, 0xFF] @ replicate 500 0"

definition sample_image :: image where
  "sample_image lba = Some (if lba = 1 then sample_table else replicate 512 (ucast lba))"

definition sample_volume :: "(bytes \<times> bytes) spi fatst" where
  "sample_volume =
     \<lparr>fattype = 16, fat32 = False, boot_sector = 0, fat_start = 1, data_start = 4,
      root_directory_cluster = 0, root_directory_start = 2, root_directory_size = 2,
      fat_number = 1, cluster_size = 1, cluster_mask = 0xFFFFFFFF, dir_entries = 32,
      fat_size = 1, sector_buffer = replicate 1024 0, partitions = [], partitioncount = 0,
      fat_buffer = replicate 512 0, buffered_fat_index = -1, dev = sample_spi\<rparr>"

definition sample_file :: fileTYPE where
  "sample_file =
     \<lparr>fname = replicate 11 0x41, attributes = 0, entry_sector = 2, entry_index = 0,
      fsector = 0, fsize = 1100, fcluster = 2, start_cluster = 2, long_name = replicate 261 0\<rparr>"

lemma sample_image_length: "sample_image lba = Some b \<Longrightarrow> length b = 512"
  by (auto simp: sample_image_def sample_table_def)

lemma sample_volume_serves:
  "spi_serves (sample_bus sample_image) sample_image (dev sample_volume)"
  using sample_spi_serves [OF sample_image_length] by (simp add: sample_volume_def)

lemma sample_volume_cache: "cache_ok img sample_volume"
  by (simp add: cache_ok_def sample_volume_def)

lemma sample_volume_geometry:
  "(0::nat) \<le> 7" "unat (cluster_size sample_volume) = 2 ^ 0"
  "cluster_mask sample_volume = NOT (mask 0)"
  by (simp_all add: sample_volume_def)

lemma sample_file_positioned: "positioned img 0 sample_volume sample_file"
  by (simp add: positioned_def sample_file_def)

lemma sample_links:
  "chain_link sample_image sample_volume 2 = Some 3"
  "chain_link sample_image sample_volume 3 = Some 5"
  "chain_link sample_image sample_volume 5 = Some 0xFFFF"
  by (simp_all add: chain_link_def sample_volume_def sample_image_def link_sector_def
      table_entry_def le16_def sample_table_def drop_bit_eq_div word_cat_eq')

lemmas sample_facts = sample_volume_serves sample_volume_cache sample_volume_geometry
  sample_file_positioned

section \<open>Following the chain\<close>

text \<open>
  C20. Through the one-sector buffer, and whatever sector it holds, \<open>GetFATLink\<close> returns the
  entry that the table on the card has for the cluster (0 when the sector cannot be read); the
  buffer stays consistent with the card, and the volume and the card's contents are unchanged.
\<close>

theorem GetFATLink_reads_table:
  assumes "spi_serves x img (dev s)" "cache_ok img s"
  shows "\<exists>s'. GetFATLink (spi_ops x) c s = (case chain_link img s c of None \<Rightarrow> 0 | Some l \<Rightarrow> l, s') \<and>
    same_volume s s' \<and> spi_serves x img (dev s') \<and> cache_ok img s'"
  by (rule spi.GetFATLink_correct [OF assms]) blast

lemma GetFATLink_reads_table_witness:
  "\<exists>s'. GetFATLink (spi_ops (sample_bus sample_image)) 3 sample_volume = (5, s')"
  using GetFATLink_reads_table [OF sample_volume_serves sample_volume_cache, of 3] sample_links
  by auto

text \<open>
  C15. \<open>FileSeek\<close> terminates. On a file positioned on its chain it succeeds exactly when the
  chain reaches the cluster of the target sector without an end mark or an unreadable table
  sector, forwards and backwards, and then the file is at the target with the cluster the chain
  gives for it.
\<close>

theorem FileSeek_follows_chain:
  assumes "spi_serves x img (dev s)" "cache_ok img s"
    and "k \<le> 7" "unat (cluster_size s) = 2 ^ k" "cluster_mask s = NOT (mask k)"
    and "positioned img k s f"
  shows "let target = (if origin = SEEK_CUR then offset + fsector f else offset) in
    \<exists>r f' s'. FileSeek (spi_ops x) f offset origin s = Some (r, f', s') \<and>
      (r \<longleftrightarrow> live_chain img s (start_cluster f) (unat target div 2 ^ k) \<noteq> None) \<and>
      (r \<longrightarrow> fsector f' = target \<and> positioned img k s f') \<and>
      start_cluster f' = start_cluster f \<and> same_volume s s' \<and> cache_ok img s'"
  unfolding Let_def by (rule spi.FileSeek_correct [OF assms, of offset origin]) blast

lemma FileSeek_follows_chain_witness:
  "\<exists>f' s'. FileSeek (spi_ops (sample_bus sample_image)) sample_file 2 SEEK_SET sample_volume =
      Some (True, f', s') \<and> fsector f' = 2 \<and> fcluster f' = 5"
proof -
  have live: "live_chain sample_image sample_volume 2 (Suc (Suc 0)) = Some 5"
    using sample_links by (simp add: is_eoc_def)
  show ?thesis
    using FileSeek_follows_chain [OF sample_facts, of SEEK_SET 2] live
      [folded numeral_2_eq_2]
    by (fastforce simp: positioned_def sample_file_def)
qed

end
