(* ===== verification/Directory.thy ===== *)
theory Directory
  imports FatCreate Volume
begin

text \<open>
  Opening, creating and updating files: the lemmas of theories \<open>FatDir\<close> and \<open>FatCreate\<close> as
  statements about the SD card driver, whose \<open>sd_write_sector\<close> is a stub. What creating and updating
  would do with a driver that writes is stated by \<open>create_at_correct\<close> and \<open>UpdateEntry_correct\<close> of
  theory \<open>FatDir\<close>, over the laws of \<open>block_device\<close>.
\<close>

section \<open>Opening\<close>

text \<open>
  C18. Over the SD card driver \<open>FileOpen\<close> terminates on a root directory whose sectors are
  readable (and, for FAT32, whose chain ends): it opens the first slot, in directory order, that
  is in use, is neither a volume label nor a directory and has the name, and reports the slot's
  position; when there is none it clears the file and returns 0.
\<close>

theorem FileOpen_finds_first:
  assumes "spi_serves x img (dev s)" "cache_ok img s"
    and "root_slots img s slots" "\<forall>e \<in> set slots. img (fst e) \<noteq> None"
  shows "\<exists>s'. FileOpen (spi_ops x) f name s =
      Some (case find (slot_matches img s name) slots of
              None \<Rightarrow> (False, zero_file, s') | Some e \<Rightarrow> (True, file_of_slot img s f e, s')) \<and>
    scanned s s' \<and> spi_serves x img (dev s') \<and> cache_ok img s'"
  by (rule spi.FileOpen_correct [OF assms])

definition sample_name :: reader where
  "sample_name = (\<lambda>_. 2)"

lemma sample_slot: "slot_matches sample_image sample_volume sample_name (2, 0)"
proof -
  have "sector_view sample_image sample_volume 2 = replicate 512 2 @ replicate 512 0"
    by (simp add: sector_view_def sample_image_def sample_volume_def overlay_def drop_replicate)
  then show ?thesis
    by (simp add: slot_matches_def Let_def nth_append sample_name_def)
qed

lemma FileOpen_finds_first_witness:
  "\<exists>s'. FileOpen (spi_ops (sample_bus sample_image)) sample_file sample_name sample_volume =
     Some (True, file_of_slot sample_image sample_volume sample_file (2, 0), s')"
proof -
  have slots: "root_slots sample_image sample_volume (run_slots 2 2)"
    by (simp add: root_slots_def sample_volume_def)
  have "\<forall>e \<in> set (run_slots 2 2). sample_image (fst e) \<noteq> None"
    by (simp add: sample_image_def)
  moreover have "run_slots 2 2 = (2, 0) # tl (run_slots 2 2)"
    by (simp add: run_slots_def upt_conv_Cons)
  then have "find (slot_matches sample_image sample_volume sample_name) (run_slots 2 2) = Some (2, 0)"
    using sample_slot by (metis find.simps(2))
  ultimately show ?thesis
    using FileOpen_finds_first [OF sample_volume_serves sample_volume_cache slots, of sample_file sample_name]
    by auto
qed

section \<open>Creating\<close>

text \<open>
  C19. What \<open>FileCreate\<close> does over the SD card driver, whose \<open>sd_write_sector\<close> is a stub. On a
  directory and a table whose sectors are readable it terminates, changes neither the card nor the
  file, and returns: 0 when the directory has no slot whose first byte is 0; 1, for success, when it has
  one and the table has no free cluster; and 0 when there is a free cluster. In the last case the first
  free cluster stays marked in the buffered sector of the table: \<open>GetFATLink\<close> then reads an end of
  chain for a cluster that is free on the card.
\<close>

theorem FileCreate_over_driver:
  assumes "spi_serves x img (dev s)" "cache_ok img s"
    and "directory_slots img s dir slots" "\<forall>e \<in> set slots. img (fst e) \<noteq> None"
    and "\<forall>k < unat (fat_size s). img (fat_start s + of_nat k) \<noteq> None"
    and "unat (fat_size s) * per_sector (fat32 s) < 2 ^ 32"
  shows "\<exists>r s'. FileCreate (spi_ops x) dir f s = Some (r, f, s') \<and> scanned s s' \<and> spi_serves x img (dev s') \<and>
    (if \<forall>e \<in> set slots. \<not> slot_unused img s e then \<not> r \<and> cache_ok img s'
     else case find (entry_free img s) [2..<unat (fat_size s) * per_sector (fat32 s)] of
       None \<Rightarrow> r \<and> cache_ok img s'
     | Some k \<Rightarrow> \<not> r \<and> fst (GetFATLink (spi_ops x) (of_nat k) s') = (if fat32 s then 0x0FFFFFFF else 0xFFFF))"
proof -
  obtain t where t: "FileCreate (spi_ops x) dir f s = Some (created_at (spi_ops x) f t (find (slot_unused img s) slots))"
    "scanned s t" "spi_serves x img (dev t)" "cache_ok img t"
    by (rule spi.FileCreate_correct [OF assms(1-4)])
  show ?thesis
  proof (cases "find (slot_unused img s) slots")
    case None
    then have "\<forall>e \<in> set slots. \<not> slot_unused img s e" by (auto simp: find_None_iff)
    then show ?thesis using t None by (intro exI [of _ False] exI [of _ t]) (simp add: created_at_def)
  next
    case (Some e)
    then have used: "\<not> (\<forall>e \<in> set slots. \<not> slot_unused img s e)" by (auto simp: find_Some_iff)
    note vol = scannedD [OF t(2)]
    have free: "entry_free img t = entry_free img s" by (simp add: entry_free_def vol fun_eq_iff)
    obtain lba i where e: "e = (lba, i)" by (cases e)
    obtain r s' where c: "create_at (spi_ops x) lba (of_nat i) f t = (r, f, s')" "same_volume t s'" "spi_serves x img (dev s')"
      "case find (entry_free img t) [2..<unat (fat_size t) * per_sector (fat32 t)] of
         None \<Rightarrow> r \<and> cache_ok img s'
       | Some k \<Rightarrow> \<not> r \<and> fst (GetFATLink (spi_ops x) (of_nat k) s') = (if fat32 t then 0x0FFFFFFF else 0xFFFF)"
      by (rule create_at_spi [OF t(3,4), of lba "of_nat i" f]) (use assms(5,6) vol in simp_all)
    have "FileCreate (spi_ops x) dir f s = Some (r, f, s')"
      using t(1) Some e c(1) by (simp add: created_at_def)
    moreover have "scanned s s'" using t(2) same_volume_scanned [OF c(2)] by (rule scanned_trans)
    ultimately show ?thesis using c(3,4) used unfolding vol free by auto
  qed
qed

text \<open>A card with an empty slot, and cluster 4 as the first free one.\<close>

definition blank_image :: image where
  "blank_image = sample_image(2 \<mapsto> replicate 512 0)"

lemma FileCreate_over_driver_witness:
  "\<exists>s'. FileCreate (spi_ops (sample_bus blank_image)) 0 sample_file sample_volume = Some (False, sample_file, s') \<and>
     fst (GetFATLink (spi_ops (sample_bus blank_image)) 4 s') = 0xFFFF \<and> entry_free blank_image sample_volume 4"
proof -
  have "length b = 512" if "blank_image lba = Some b" for lba b
    using that sample_image_length [of lba b] by (auto simp: blank_image_def split: if_splits)
  then have serves: "spi_serves (sample_bus blank_image) blank_image (dev sample_volume)"
    using sample_spi_serves [of blank_image] by (simp add: sample_volume_def)
  have slots: "directory_slots blank_image sample_volume 0 (run_slots 2 2)"
    by (simp add: directory_slots_def root_slots_def sample_volume_def)
  have readable: "\<forall>e \<in> set (run_slots 2 2). blank_image (fst e) \<noteq> None"
    "\<forall>k < unat (fat_size sample_volume). blank_image (fat_start sample_volume + of_nat k) \<noteq> None"
    "unat (fat_size sample_volume) * per_sector (fat32 sample_volume) < 2 ^ 32"
    by (simp_all add: blank_image_def sample_image_def sample_volume_def per_sector_def)
  have "(2, 0) \<in> set (run_slots 2 2)" by (simp add: run_slots_def upt_conv_Cons)
  moreover have "slot_unused blank_image sample_volume (2, 0)"
    by (simp add: slot_unused_def sector_view_def blank_image_def sample_volume_def overlay_def nth_append)
  ultimately have empty: "\<not> (\<forall>e \<in> set (run_slots 2 2). \<not> slot_unused blank_image sample_volume e)" by blast
  have free: "\<not> entry_free blank_image sample_volume 2" "\<not> entry_free blank_image sample_volume 3"
    "entry_free blank_image sample_volume 4"
    by (simp_all add: entry_free_def blank_image_def sample_image_def sample_volume_def per_sector_def raw_entry_def
        sample_table_def be16_def word_cat_eq')
  have "[2..<256] = 2 # 3 # 4 # [5..<256 :: nat]" by (simp add: upt_conv_Cons)
  moreover have "unat (fat_size sample_volume) * per_sector (fat32 sample_volume) = 256"
    by (simp add: sample_volume_def per_sector_def)
  ultimately have find: "find (entry_free blank_image sample_volume) [2..<unat (fat_size sample_volume) * per_sector (fat32 sample_volume)] = Some 4"
    using free by simp
  have fat16: "\<not> fat32 sample_volume" by (simp add: sample_volume_def)
  show ?thesis
    using FileCreate_over_driver [OF serves sample_volume_cache slots readable, of sample_file] empty free(3) fat16
    unfolding find by auto
qed

text \<open>The invariant of the walk: a returned result is a failure or a full table.\<close>

definition no_creation :: "'d sd_ops \<Rightarrow> fileTYPE \<Rightarrow> bool \<Rightarrow> fileTYPE \<Rightarrow> bool" where
  "no_creation io f r f' \<longleftrightarrow>
     f' = f \<and> (r \<longrightarrow> (\<exists>t. fst (find_free io (unat (fat_size t)) 0 2 t) = Table_full))"

lemma create_at_stub:
  "create_at (spi_ops x) sector iEntry f s = (r, f', s') \<Longrightarrow> no_creation (spi_ops x) f r f'"
  by (auto simp: create_at_def no_creation_def spi_ops_def sd_write_sector_def Let_def
      split: prod.splits free_search.splits intro: exI [of _ s])

lemma FileCreate_entries_stub:
  "FileCreate_entries (spi_ops x) f n iEntry (sector, s) = (Some (r, f'), s') \<Longrightarrow>
     no_creation (spi_ops x) f r f'"
proof (induction n arbitrary: iEntry sector s)
  case (Suc n)
  then show ?case
    by (auto dest: create_at_stub split: prod.splits if_splits)
qed simp

lemma FileCreate_clusters_stub:
  assumes "FileCreate_clusters io linked nE f c sector s = Some y" "io = spi_ops x"
  shows "no_creation io f (fst y) (fst (snd y))"
proof -
  have "io = spi_ops x \<longrightarrow> no_creation io f (fst y) (fst (snd y))"
  proof (rule FileCreate_clusters.raw_induct [OF _ assms(1), where
        P = "\<lambda>io _ _ f _ _ _ y. io = spi_ops x \<longrightarrow> no_creation io f (fst y) (fst (snd y))"],
      intro impI)
    fix recurse io linked nE f c sector s y
    assume IH: "\<And>io linked nE f c sector s y. recurse io linked nE f c sector s = Some y \<Longrightarrow>
        io = spi_ops x \<longrightarrow> no_creation io f (fst y) (fst (snd y))"
      and step: "(let r = FileCreate_entries io f (unat nE) 0 (sector, s); s1 = snd r
        in if fst r \<noteq> None then Some (fst (the (fst r)), snd (the (fst r)), s1)
           else if \<not> linked then Some (False, f, s1)
           else let l = GetFATLink io c s1; s2 = snd l
                in if end_of_chain (fat32 s) (fst l) then Some (False, f, s2)
                   else recurse io linked nE f (fst l) (cluster_lba s2 (fst l)) s2) = Some y"
      and io: "io = spi_ops x"
    show "no_creation io f (fst y) (fst (snd y))"
    proof (cases "FileCreate_entries io f (unat nE) 0 (sector, s)")
      case (Pair r s1)
      then show ?thesis
        using step IH io FileCreate_entries_stub [of x f "unat nE" 0 sector s "fst (the r)" "snd (the r)" s1]
        by (cases r) (auto simp: Let_def no_creation_def split: if_splits)
    qed
  qed
  with assms(2) show ?thesis by blast
qed

text \<open>
  The driver's \<open>sd_write_sector\<close> is a stub that returns 0, so over \<^verbatim>\<open>spi.c\<close>
  \<open>FileCreate\<close> never creates anything: whatever it returns, the file is unchanged, and 1 is
  returned only after a search of the table that found no free cluster.
\<close>

theorem FileCreate_never_allocates:
  assumes "FileCreate (spi_ops x) dir f s = Some (r, f', s')"
  shows "f' = f \<and>
    (r \<longrightarrow> (\<exists>t. fst (find_free (spi_ops x) (unat (fat_size t)) 0 2 t) = Table_full))"
  using assms FileCreate_clusters_stub [OF _ refl]
  by (auto simp: FileCreate_def no_creation_def [symmetric] split: if_splits)

lemma FileCreate_never_allocates_witness:
  "FileCreate (spi_ops (sample_bus sample_image)) 0 sample_file
     (sample_volume\<lparr>root_directory_size := 0\<rparr>) =
     Some (False, sample_file, sample_volume\<lparr>root_directory_size := 0\<rparr>) \<and>
   sample_file = sample_file"
proof -
  have "FileCreate (spi_ops (sample_bus sample_image)) 0 sample_file
     (sample_volume\<lparr>root_directory_size := 0\<rparr>) =
     Some (False, sample_file, sample_volume\<lparr>root_directory_size := 0\<rparr>)"
    by (simp add: FileCreate_def FileCreate_clusters.simps root_entries_def sample_volume_def)
  with FileCreate_never_allocates [OF this] show ?thesis by blast
qed

section \<open>Updating\<close>



text \<open>The check of the number of clusters lets a file grow past its last cluster: on a volume
  with one sector per cluster, 512 and 513 bytes count the same.\<close>

lemma UpdateEntry_lets_file_outgrow_chain:
  "size_in_clusters 1 512 = size_in_clusters 1 513"
  "(512 + 511) div 512 \<noteq> (513 + 511 :: nat) div 512"
  by (simp_all add: size_in_clusters_def)

end
