(* ===== verification/Browser.thy ===== *)
theory Browser
  imports FatScan Directory
begin

text \<open>
  The directory browser over the SD card driver: the lemmas of theory \<open>FatScan\<close> as statements
  about \<open>ScanDirectory\<close> on a card that serves an image.
\<close>

lemma first_eight_listed:
  assumes "spi_serves x img (dev s)" "cache_ok img s" "tables_ok g" "options AND SCAN_LFN = 0"
    and "directory_slots img s (iCurrentDirectory g) slots" "\<forall>e \<in> set slots. img (fst e) \<noteq> None"
    and "\<forall>e \<in> set (map (dir_entry img s) slots). listed ext options e \<longrightarrow> plain e"
  shows "\<exists>g' s'. ScanDirectory (spi_ops x) SCAN_INIT ext options g s = Some (False, g', s') \<and>
    shown (nDirEntries g') (view g') =
      take 8 (sort_key skey (filter (listed ext options) (map (dir_entry img s) slots))) \<and>
    nDirEntries g' = min 8 (length (filter (listed ext options) (map (dir_entry img s) slots))) \<and>
    iSelectedEntry g' = 0"
proof -
  obtain g1 where g1: "scan_begin SCAN_INIT g = (True, g1)" "lfn g1 \<noteq> []" "lfn g1 ! 0 = 0"
    "window_of [] (nDirEntries g1, view g1)" "nNewEntries g1 = 0" "scan_rc g1 = False"
    "iSelectedEntry g1 = 0" "iCurrentDirectory g1 = iCurrentDirectory g"
    using assms(3) by (rule scan_begin_init)
  obtain g2 where g2: "scan_all (scan_entry SCAN_INIT ext options (fat32 s)) (map (dir_entry img s) slots) g1 = Some g2"
    "window_of (filter (listed ext options) (map (dir_entry img s) slots)) (nDirEntries g2, view g2)"
    "nNewEntries g2 = 0" "scan_rc g2 = False" "iSelectedEntry g2 = 0"
    using scan_all_init [OF assms(4) g1(2-4) assms(7), of "fat32 s"] g1(5-7) by auto
  have finish: "scan_finish SCAN_INIT options g2 = g2"
    using g2(3) by (simp add: scan_finish_def)
  have slots: "directory_slots img s (iCurrentDirectory g1) slots" using assms(5) g1(8) by simp
  obtain s' where "ScanDirectory (spi_ops x) SCAN_INIT ext options g s = Some (False, g2, s')"
    by (rule spi.ScanDirectory_scans [OF assms(1,2) g1(1) slots assms(6) g2(1)]) (simp add: finish g2(4))
  then show ?thesis using g2(2,5) by (auto simp: window_of_def)
qed

text \<open>
  C17. The first scan of a directory (\<open>SCAN_INIT\<close>) without long names terminates and leaves
  in the window, in the order of \<open>sort_table\<close>, the first eight of the directory's listed entries
  under the stable sort by "directories first, then lower-cased name", with the first one
  selected. The names must not contain a NUL.
\<close>

theorem ScanDirectory_lists_first_eight:
  assumes "spi_serves x img (dev s)" "cache_ok img s" "tables_ok g" "options AND SCAN_LFN = 0"
    and "directory_slots img s (iCurrentDirectory g) slots" "\<forall>e \<in> set slots. img (fst e) \<noteq> None"
    and "\<forall>e \<in> set (map (dir_entry img s) slots). listed ext options e \<longrightarrow> plain e"
  shows "\<exists>g' s'. ScanDirectory (spi_ops x) SCAN_INIT ext options g s = Some (False, g', s') \<and>
    shown (nDirEntries g') (view g') =
      take 8 (sort_key skey (filter (listed ext options) (map (dir_entry img s) slots))) \<and>
    nDirEntries g' = min 8 (length (filter (listed ext options) (map (dir_entry img s) slots))) \<and>
    iSelectedEntry g' = 0"
  by (rule first_eight_listed [OF assms])

text \<open>
  C21. Over the SD card driver a call of \<open>ScanDirectory\<close> in any of its modes terminates and keeps the
  window well formed, on any directory whose sectors are readable and whose long-name parts have
  numbers from 1 to 20 (another number is stored outside the buffer \<open>lfn\<close>, fat.c:576): \<open>sort_table\<close>
  stays a permutation of the eight places, the numbers of entries stay at most eight, and the
  selected entry is one of those shown. The card is left as it is, so that the next call finds
  the same hypotheses.
\<close>

theorem ScanDirectory_keeps_window:
  assumes "spi_serves x img (dev s)" "cache_ok img s" "scan_ok g"
    and "directory_slots img s (iCurrentDirectory g) slots" "\<forall>e \<in> set slots. img (fst e) \<noteq> None"
    and "options AND SCAN_LFN = 0 \<or> (\<forall>e \<in> set slots. long_name_fits (dir_entry img s e))"
  shows "\<exists>r g' s'. ScanDirectory (spi_ops x) mode ext options g s = Some (r, g', s') \<and>
    scan_ok g' \<and> mset (sort_table (view g')) = mset [0..<8] \<and> nDirEntries g' \<le> 8 \<and> nNewEntries g' \<le> 8 \<and>
    (iSelectedEntry g' = 0 \<or> iSelectedEntry g' < nDirEntries g') \<and> iCurrentDirectory g' = iCurrentDirectory g \<and>
    scanned s s' \<and> spi_serves x img (dev s') \<and> cache_ok img s'"
proof -
  obtain go g1 where b: "scan_begin mode g = (go, g1)" by (cases "scan_begin mode g")
  have dir: "iCurrentDirectory g1 = iCurrentDirectory g"
    using scan_begin_directory [of mode g] by (simp add: b)
  have "\<exists>r g' s'. ScanDirectory (spi_ops x) mode ext options g s = Some (r, g', s') \<and>
      iCurrentDirectory g' = iCurrentDirectory g \<and> scanned s s' \<and> spi_serves x img (dev s') \<and> cache_ok img s'"
  proof (cases go)
    case False
    then show ?thesis
      using b dir assms(1,2) by (intro exI [of _ False] exI [of _ g1] exI [of _ s]) (simp add: ScanDirectory_def)
  next
    case True
    have "\<forall>e \<in> set (map (dir_entry img s) slots). options AND SCAN_LFN = 0 \<or> long_name_fits e"
      using assms(6) by auto
    then obtain g2 where g2: "scan_all (scan_entry mode ext options (fat32 s)) (map (dir_entry img s) slots) g1 = Some g2"
      "iCurrentDirectory g2 = iCurrentDirectory g1"
      using scan_all_returns by blast
    have slots: "directory_slots img s (iCurrentDirectory g1) slots" using assms(4) dir by simp
    obtain s' where "ScanDirectory (spi_ops x) mode ext options g s =
        Some (scan_rc (scan_finish mode options g2), scan_finish mode options g2, s')"
      "scanned s s'" "spi_serves x img (dev s')" "cache_ok img s'"
      by (rule spi.ScanDirectory_scans [OF assms(1,2) _ slots assms(5) g2(1)]) (use b True in auto)
    then show ?thesis using g2(2) dir scan_finish_directory by auto
  qed
  then obtain r g' s' where r: "ScanDirectory (spi_ops x) mode ext options g s = Some (r, g', s')"
    "iCurrentDirectory g' = iCurrentDirectory g" "scanned s s'" "spi_serves x img (dev s')" "cache_ok img s'" by blast
  from ScanDirectory_ok [OF r(1) assms(3)] show ?thesis using r by (auto simp: scan_ok_def listing_ok_def)
qed

text \<open>A card whose root directory is a sector of entries of fives and one of fours.\<close>

definition browse_image :: image where
  "browse_image lba = Some (replicate 512 (if lba = 2 then 5 else 4))"

definition browse_scan :: scan where
  "browse_scan = \<lparr>
     view = \<lparr>DirEntry = replicate 8 [], DirEntryLFN = replicate 8 (replicate 261 0), sort_table = [0..<8]\<rparr>,
     temp = \<lparr>DirEntry = replicate 8 [], DirEntryLFN = replicate 8 (replicate 261 0), sort_table = [0..<8]\<rparr>,
     nDirEntries = 0, iSelectedEntry = 0, iCurrentDirectory = 0, iPreviousDirectory = 0,
     nNewEntries = 0, scan_rc = False, lfn = replicate 261 0, lfn_error = True, name_checksum = 0,
     prev_sequence_number = 0, prev_name_checksum = 0\<rparr>"

abbreviation "any_ext \<equiv> (\<lambda>_. 0x2A) :: reader"

lemma browse_serves: "spi_serves (sample_bus browse_image) browse_image (dev sample_volume)"
  using sample_spi_serves [of browse_image] by (simp add: browse_image_def sample_volume_def)

lemma put_be16_id:
  assumes "be16 b i = w" "i + 1 < length b"
  shows "put_be16 b i w = b"
proof -
  have "hi8 w = b ! i" "lo8 w = b ! (i + 1)" using assms(1) by (auto simp: be16_def)
  then show ?thesis by (simp add: put_be16_def)
qed

lemma swap_constant:
  assumes "\<forall>i < 512. b ! i = c" "512 \<le> length b"
  shows "swap_dir_sector b = b"
proof -
  have "swap_entry b i = b" if "i < 16" for i
  proof -
    have n: "32 * i + 32 \<le> 512" using that by simp
    have same: "ucast (SwapBB (ucast (be16 b (32 * i + k)))) = be16 b (32 * i + k)" if "k < 31" for k
    proof -
      have "le16 b (32 * i + k) = be16 b (32 * i + k)"
        using assms(1) n that by (simp add: le16_def be16_def)
      then show ?thesis by simp
    qed
    have "le32 b (32 * i + 28) = be32 b (32 * i + 28)"
      using assms n by (simp add: le32_def be32_def le16_def be16_def)
    then have "SwapBBBB (be32 b (32 * i + 28)) = be32 b (32 * i + 28)" by simp
    moreover have "put_be32 b (32 * i + 28) (be32 b (32 * i + 28)) = b"
      using assms n by (simp add: put_be32_def be32_def put_be16_id)
    ultimately show ?thesis
      using same n assms(2) by (simp add: swap_entry_def Let_def put_be16_id)
  qed
  then have "\<forall>i \<in> set is. i < 16 \<Longrightarrow> foldl swap_entry b is = b" for "is"
    by (induction "is") simp_all
  then show ?thesis by (simp add: swap_dir_sector_def)
qed

lemma browse_entry:
  assumes "i < 16"
  shows "dir_entry browse_image sample_volume (lba, i) = replicate 32 (if lba = 2 then 5 else 4)"
proof -
  let ?c = "if lba = 2 then 5 else 4 :: u8"
  have v: "sector_view browse_image sample_volume lba = replicate 512 ?c @ replicate 512 0"
    by (simp add: sector_view_def browse_image_def sample_volume_def overlay_def drop_replicate)
  then have "swap_dir_sector (sector_view browse_image sample_volume lba) = replicate 512 ?c @ replicate 512 0"
    by (subst swap_constant [where c = ?c]) (simp_all add: nth_append)
  then show ?thesis
    using assms by (simp add: dir_entry_def take_replicate drop_replicate min_def)
qed

abbreviation "fives \<equiv> replicate 32 5 :: bytes"
abbreviation "fours \<equiv> replicate 32 4 :: bytes"

lemma browse_entries:
  "map (dir_entry browse_image sample_volume) (run_slots 2 2) = replicate 16 fives @ replicate 16 fours"
proof (rule nth_equalityI)
  fix j
  assume "j < length (map (dir_entry browse_image sample_volume) (run_slots 2 2))"
  then have j: "j < 32" by simp
  have "(2 + of_nat (j div 16) :: u32) = 2 \<longleftrightarrow> j < 16"
  proof (cases "j < 16")
    case False
    then have "j div 16 = 1" using j by (intro div_nat_eqI) simp_all
    then show ?thesis using False by simp
  qed simp
  then show "map (dir_entry browse_image sample_volume) (run_slots 2 2) ! j =
      (replicate 16 fives @ replicate 16 fours) ! j"
    using j by (simp add: run_slots_def browse_entry nth_append)
qed simp

lemma browse_listed: "listed any_ext 0 fives" "listed any_ext 0 fours"
  by (simp_all add: listed_def visible_def nth_replicate)

lemma filter_replicate_if: "filter P (replicate k y) = (if P y then replicate k y else [])"
  by (induction k) auto

lemma sort_key_two:
  assumes "f b < f a"
  shows "sort_key f (replicate n a @ replicate m b) = replicate m b @ replicate n a"
proof (rule properties_for_sort_key)
  show "filter (\<lambda>x. f k = f x) (replicate m b @ replicate n a) =
      filter (\<lambda>x. f k = f x) (replicate n a @ replicate m b)" for k
    using assms by (auto simp: filter_replicate_if)
qed (use assms in \<open>auto simp: sorted_append\<close>)

lemma skey_browse: "skey fours < skey fives"
  by (simp add: skey_def is_dir_def tolower_def list_less_def numeral_eq_Suc)

lemma browse_slots:
  "directory_slots browse_image sample_volume (iCurrentDirectory browse_scan) (run_slots 2 2)"
  "\<forall>e \<in> set (run_slots 2 2). browse_image (fst e) \<noteq> None"
  "tables_ok browse_scan"
  "\<forall>e \<in> set (map (dir_entry browse_image sample_volume) (run_slots 2 2)). listed any_ext 0 e \<longrightarrow> plain e"
proof -
  show "\<forall>e \<in> set (map (dir_entry browse_image sample_volume) (run_slots 2 2)). listed any_ext 0 e \<longrightarrow> plain e"
    unfolding browse_entries by (auto simp: plain_def)
qed (simp_all add: directory_slots_def root_slots_def browse_scan_def sample_volume_def browse_image_def tables_ok_def)

lemma ScanDirectory_lists_first_eight_witness:
  "\<exists>g' s'. ScanDirectory (spi_ops (sample_bus browse_image)) SCAN_INIT any_ext 0 browse_scan sample_volume =
     Some (False, g', s') \<and> shown 8 (view g') = replicate 8 fours \<and> nDirEntries g' = 8"
  using ScanDirectory_lists_first_eight [OF browse_serves sample_volume_cache browse_slots(3) _ browse_slots(1,2,4)]
    browse_listed sort_key_two [of skey fours fives 16 16] skey_browse
  unfolding browse_entries by auto

lemma browse_first_eight:
  "\<exists>g' s'. ScanDirectory (spi_ops (sample_bus browse_image)) SCAN_INIT any_ext 0 browse_scan sample_volume =
     Some (False, g', s') \<and> nDirEntries g' = 8"
  using first_eight_listed [OF browse_serves sample_volume_cache browse_slots(3) _ browse_slots(1,2,4)]
    browse_listed sort_key_two [of skey fours fives 16 16] skey_browse
  unfolding browse_entries by auto

lemma browse_scan_ok: "scan_ok browse_scan"
  by (auto simp: scan_ok_def browse_scan_def listing_ok_def temp_ok_def)

lemma ScanDirectory_keeps_window_witness:
  "\<exists>r g' s'. ScanDirectory (spi_ops (sample_bus browse_image)) SCAN_INIT any_ext 0 browse_scan sample_volume =
       Some (r, g', s') \<and> nDirEntries g' = 8 \<and> mset (sort_table (view g')) = mset [0..<8] \<and> iSelectedEntry g' < 8"
proof -
  have "\<exists>r g' s'. ScanDirectory (spi_ops (sample_bus browse_image)) SCAN_INIT any_ext 0 browse_scan sample_volume =
       Some (r, g', s') \<and> mset (sort_table (view g')) = mset [0..<8] \<and>
       (iSelectedEntry g' = 0 \<or> iSelectedEntry g' < nDirEntries g')"
    using ScanDirectory_keeps_window [OF browse_serves sample_volume_cache browse_scan_ok browse_slots(1,2),
        of 0 SCAN_INIT any_ext] by auto
  then show ?thesis using browse_first_eight by auto
qed

text \<open>
  A first long-name part, which has bit 6 of the sequence number set, is not checked against the
  size of \<open>lfn\<close>: with number 0, or above 20, it is stored outside the buffer.
\<close>

lemma lfn_entry_outside_buffer:
  assumes "e ! 0 AND 0x40 \<noteq> 0" "e ! 0 AND 0x1F = 0 \<or> 20 < unat (e ! 0 AND 0x1F)"
  shows "lfn_entry e s = None"
  using assms by (auto simp: lfn_entry_def Let_def lfn_chars_def unat_eq_zero)

end
