(* ===== verification/Chain.thy ===== *)
theory Chain
  imports Main
begin

text \<open>
  Circular doubly linked lists with a head node, as \<^verbatim>\<open>klibc/malloc.c\<close> keeps two of them. The
  link fields are functions from addresses; \<open>linked n p a xs b\<close> says that following \<open>n\<close> from
  \<open>a\<close> visits \<open>xs\<close> and arrives at \<open>b\<close>, and that \<open>p\<close> goes back the same way. The lemmas unlink a
  node and insert one with the assignments of the code.
\<close>

primrec linked :: "('a \<Rightarrow> 'a) \<Rightarrow> ('a \<Rightarrow> 'a) \<Rightarrow> 'a \<Rightarrow> 'a list \<Rightarrow> 'a \<Rightarrow> bool" where
  "linked n p a [] b \<longleftrightarrow> n a = b \<and> p b = a"
| "linked n p a (x # xs) b \<longleftrightarrow> n a = x \<and> p x = a \<and> linked n p x xs b"

definition ring :: "('a \<Rightarrow> 'a) \<Rightarrow> ('a \<Rightarrow> 'a) \<Rightarrow> 'a \<Rightarrow> 'a list \<Rightarrow> bool" where
  "ring n p h xs \<longleftrightarrow> linked n p h xs h \<and> distinct (h # xs)"

lemma linked_append:
  "linked n p a (xs @ x # ys) b \<longleftrightarrow> linked n p a xs x \<and> linked n p x ys b"
  by (induction xs arbitrary: a) auto

lemma linked_next_upd [simp]:
  "c \<noteq> a \<Longrightarrow> c \<notin> set xs \<Longrightarrow> linked (n(c := d)) p a xs b = linked n p a xs b"
  by (induction xs arbitrary: a) auto

lemma linked_prev_upd [simp]:
  "c \<noteq> b \<Longrightarrow> c \<notin> set xs \<Longrightarrow> linked n (p(c := d)) a xs b = linked n p a xs b"
  by (induction xs arbitrary: a) auto

text \<open>The last link of a segment.\<close>

lemma linked_last:
  "linked n p a xs b \<Longrightarrow> p b = last (a # xs) \<and> n (last (a # xs)) = b"
  by (induction xs arbitrary: a) auto

lemma linked_first: "linked n p a xs b \<Longrightarrow> n a = hd (xs @ [b]) \<and> p (hd (xs @ [b])) = a"
  by (cases xs) auto

text \<open>Redirecting the end of a segment, and its start.\<close>

lemma linked_redirect_end:
  assumes "linked n p a xs b" "distinct (a # xs)" "c \<notin> set xs"
  shows "linked (n(last (a # xs) := c)) (p(c := last (a # xs))) a xs c"
  using assms
proof (induction xs arbitrary: a)
  case (Cons x xs)
  have "linked (n(last (x # xs) := c)) (p(c := last (x # xs))) x xs c"
    by (rule Cons.IH) (use Cons.prems in auto)
  moreover have "a \<noteq> last (x # xs)" using Cons.prems(2) by (metis distinct.simps(2) last_in_set list.distinct(1))
  ultimately show ?case
    using Cons.prems unfolding last_ConsR [OF list.distinct(2)] linked.simps by (auto simp del: last.simps)
qed simp

lemma linked_redirect_start:
  assumes "linked n p a xs b" "distinct xs" "b \<notin> set xs" "c \<notin> set xs"
  shows "linked (n(c := hd (xs @ [b]))) (p(hd (xs @ [b]) := c)) c xs b"
  using assms by (cases xs) auto

text \<open>Taking out a node: \<open>ap = p x; an = n x; n ap = an; p an = ap\<close>.\<close>

lemma ring_remove:
  assumes "ring n p h (xs @ x # ys)"
  shows "ring (n(p x := n x)) (p(n x := p x)) h (xs @ ys)"
proof -
  have l: "linked n p h xs x" "linked n p x ys h" and d: "distinct (h # xs @ x # ys)"
    using assms by (simp_all add: ring_def linked_append)
  note x = linked_last [OF l(1)] linked_first [OF l(2)]
  show ?thesis
  proof (cases ys)
    case Nil
    have "linked (n(last (h # xs) := h)) (p(h := last (h # xs))) h xs h"
      using linked_redirect_end [OF l(1), of h] d by simp
    then show ?thesis using Nil x d by (simp add: ring_def)
  next
    case (Cons y zs)
    have "linked (n(last (h # xs) := y)) (p(y := last (h # xs))) h xs y"
      using linked_redirect_end [OF l(1), of y] d Cons by auto
    moreover have "linked (n(last (h # xs) := y)) (p(y := last (h # xs))) y zs h"
    proof -
      have "last (h # xs) \<in> set (h # xs)" by (rule last_in_set) simp
      then have "last (h # xs) \<notin> set (y # zs)" using d Cons by auto
      then show ?thesis using l(2) d Cons by auto
    qed
    ultimately show ?thesis using Cons x d by (simp add: ring_def linked_append)
  qed
qed

text \<open>Inserting a fresh node \<open>x\<close> after the node \<open>q\<close>, the last of \<open>h # xs\<close>.\<close>

lemma ring_insert:
  assumes "ring n p h (xs @ ys)" "x \<notin> set (h # xs @ ys)" "q = last (h # xs)"
  shows "ring (n(x := n q, q := x)) (p(n q := x, x := q)) h (xs @ x # ys)"
proof -
  have d: "distinct (h # xs @ ys)" using assms(1) by (simp add: ring_def)
  define r where "r = hd (ys @ [h])"
  have q: "q \<in> set (h # xs)" unfolding assms(3) by (rule last_in_set) simp
  have l: "linked n p h xs r" "n q = r" "p r = q" "ys \<noteq> [] \<Longrightarrow> linked n p r (tl ys) h"
  proof -
    show "linked n p h xs r"
      using assms(1) by (cases ys) (auto simp: ring_def r_def linked_append)
    from linked_last [OF this] show "n q = r" "p r = q" by (simp_all add: assms(3))
    show "ys \<noteq> [] \<Longrightarrow> linked n p r (tl ys) h"
      using assms(1) by (cases ys) (auto simp: ring_def r_def linked_append)
  qed
  have x: "x \<noteq> q" "x \<noteq> r" using assms(2) q by (auto simp: r_def hd_append split: if_splits)
  have "linked (n(q := x)) (p(x := q)) h xs x"
    using linked_redirect_end [OF l(1), of x] d assms(2,3) by simp
  moreover have "r \<notin> set xs"
    using d by (cases ys) (auto simp: r_def)
  ultimately have "linked (n(q := x, x := r)) (p(x := q, r := x)) h xs x"
    using assms(2) x by simp
  moreover have "linked (n(q := x, x := r)) (p(x := q, r := x)) x ys h"
  proof (cases ys)
    case Nil
    then show ?thesis by (simp add: r_def)
  next
    case (Cons y zs)
    then have "q \<notin> set ys" using q d by auto
    then show ?thesis using Cons l(4) x d assms(2) by (auto simp: r_def)
  qed
  ultimately show ?thesis
    using d assms(2) x l(2) by (auto simp: ring_def linked_append fun_upd_twist)
qed

text \<open>A walk from the head reaches the elements in order, in both directions.\<close>

lemma ring_next:
  assumes "ring n p h (xs @ x # ys)"
  shows "n x = hd (ys @ [h])" "p x = last (h # xs)"
  using assms linked_first [of n p x ys h] linked_last [of n p h xs x]
  by (auto simp: ring_def linked_append)

lemma ring_head: "ring n p h xs \<Longrightarrow> n h = hd (xs @ [h]) \<and> p h = last (h # xs)"
  using linked_first [of n p h xs h] linked_last [of n p h xs h] by (simp add: ring_def)

end
