(* ===== verification/Malloc.thy ===== *)
theory Malloc
  imports Chain Prelude "HOL-Library.Multiset"
begin

text \<open>
  The allocator of \<^verbatim>\<open>Firmware_Common/klibc/malloc.c\<close>. A block starts with a header; the headers
  of all blocks are in one circular list, sorted by address, and those of the free blocks in a
  second one, both around \<open>__malloc_head\<close>. Each field of a header is a function from block
  addresses, so an assignment through a pointer is an update of one function at one address.
  The type of the head node distinguishes it from the blocks. Separate functions are right as long
  as headers do not overlap, which \<open>laid_out\<close> states of every reachable arena (blocks of two headers
  at least). Only a split with a rounded size of 16 lays the new header over the one being split;
  \<open>malloc_from_block\<close> writes out what is read back through the overlap. What becomes of a block of
  16 bytes, or of the other bytes that its wild stores hit, is outside the model.
\<close>

section \<open>State and functions\<close>

abbreviation (input) "ARENA_TYPE_USED \<equiv> (0 :: u32)"
abbreviation (input) "ARENA_TYPE_FREE \<equiv> (1 :: u32)"
abbreviation (input) "ARENA_TYPE_HEAD \<equiv> (2 :: u32)"

record arena =
  malloc_head :: u32
  atype :: "u32 \<Rightarrow> u32"
  asize :: "u32 \<Rightarrow> u32"
  anext :: "u32 \<Rightarrow> u32"
  aprev :: "u32 \<Rightarrow> u32"
  next_free :: "u32 \<Rightarrow> u32"
  prev_free :: "u32 \<Rightarrow> u32"

text \<open>\<open>sizeof(struct arena_header)\<close> is 16.\<close>

definition remove_from_main_chain :: "u32 \<Rightarrow> arena \<Rightarrow> arena" where
  "remove_from_main_chain ah m =
     (let ap = aprev m ah; an = anext m ah
      in m\<lparr>anext := (anext m)(ap := an), aprev := (aprev m)(an := ap)\<rparr>)"

definition remove_from_free_chain :: "u32 \<Rightarrow> arena \<Rightarrow> arena" where
  "remove_from_free_chain ah m =
     (let ap = prev_free m ah; an = next_free m ah
      in m\<lparr>next_free := (next_free m)(ap := an), prev_free := (prev_free m)(an := ap)\<rparr>)"

definition remove_from_chains :: "u32 \<Rightarrow> arena \<Rightarrow> arena" where
  "remove_from_chains ah m = remove_from_main_chain ah (remove_from_free_chain ah m)"

text \<open>A free header has its two links at offsets 16 and 20. With \<open>n = 16\<close> these are the type and
  the size of \<open>nfp\<close>, which have been stored when the links of \<open>fp\<close> are read.\<close>

definition malloc_from_block :: "u32 \<Rightarrow> u32 \<Rightarrow> arena \<Rightarrow> u32 \<times> arena" where
  "malloc_from_block fp n m =
     (let fsize = asize m fp
      in if fsize \<ge> n + 32 then
           (let nfp = fp + n; na = anext m fp;
                fpn = (if n = 16 then ARENA_TYPE_FREE else next_free m fp);
                fpp = (if n = 16 then fsize - n else prev_free m fp)
            in (fp + 16, m\<lparr>
                 atype := (atype m)(nfp := ARENA_TYPE_FREE, fp := ARENA_TYPE_USED),
                 asize := (asize m)(nfp := fsize - n, fp := n),
                 aprev := (aprev m)(nfp := fp, na := nfp),
                 anext := (anext m)(nfp := na, fp := nfp),
                 next_free := (next_free m)(fp := fpn, nfp := fpn, fpp := nfp),
                 prev_free := (prev_free m)(fp := fpp, nfp := fpp, fpn := nfp)\<rparr>))
         else (fp + 16, remove_from_free_chain fp (m\<lparr>atype := (atype m)(fp := ARENA_TYPE_USED)\<rparr>)))"

text \<open>\<open>__free_block\<close> in its two steps: merge into the free block before, or enter the free
  chain; then merge with the free block after.\<close>

definition free_into_prev :: "u32 \<Rightarrow> arena \<Rightarrow> u32 \<times> arena" where
  "free_into_prev ah m =
     (let pah = aprev m ah; nah = anext m ah; hd = malloc_head m
      in if atype m pah = ARENA_TYPE_FREE \<and> pah + asize m pah = ah then
           (pah, m\<lparr>asize := (asize m)(pah := asize m pah + asize m ah),
                   anext := (anext m)(pah := nah), aprev := (aprev m)(nah := pah)\<rparr>)
         else
           (ah, m\<lparr>atype := (atype m)(ah := ARENA_TYPE_FREE),
                  next_free := (next_free m)(ah := next_free m hd, hd := ah),
                  prev_free := (prev_free m)(ah := hd, next_free m hd := ah)\<rparr>))"

definition free_block :: "u32 \<Rightarrow> arena \<Rightarrow> u32 \<times> arena" where
  "free_block ah m =
     (let nah = anext m ah
      in case free_into_prev ah m of (ah, m) \<Rightarrow>
           if atype m nah = ARENA_TYPE_FREE \<and> ah + asize m ah = nah
           then (ah, remove_from_chains nah (m\<lparr>asize := (asize m)(ah := asize m ah + asize m nah)\<rparr>))
           else (ah, m))"

partial_function (option) malloc_add_pred :: "u32 \<Rightarrow> u32 \<Rightarrow> arena \<Rightarrow> u32 option" where
  [code]: "malloc_add_pred fp pah m =
     (if atype m pah \<noteq> ARENA_TYPE_HEAD then
        (if pah < fp then Some pah else malloc_add_pred fp (aprev m pah) m)
      else Some pah)"

definition malloc_add :: "u32 \<Rightarrow> u32 \<Rightarrow> arena \<Rightarrow> arena option" where
  "malloc_add fp n m =
     (let m = m\<lparr>atype := (atype m)(fp := ARENA_TYPE_FREE),
                asize := (asize m)(fp := n AND NOT 0xFFFF)\<rparr>
      in map_option (\<lambda>pah. snd (free_block fp
             (m\<lparr>anext := (anext m)(fp := anext m pah, pah := fp),
                aprev := (aprev m)(fp := pah, anext m pah := fp)\<rparr>)))
           (malloc_add_pred fp (aprev m (malloc_head m)) m))"

text \<open>The size of the block for a request: header added and rounded up.\<close>

definition arena_round :: "u32 \<Rightarrow> u32" where
  "arena_round n = (n + 31) AND NOT 15"

partial_function (option) malloc_search :: "u32 \<Rightarrow> u32 \<Rightarrow> arena \<Rightarrow> (u32 \<times> arena) option" where
  [code]: "malloc_search n fp m =
     (if atype m fp \<noteq> ARENA_TYPE_HEAD then
        (if asize m fp \<ge> n then Some (malloc_from_block fp n m)
         else malloc_search n (next_free m fp) m)
      else Some (0, m))"

definition malloc :: "u32 \<Rightarrow> arena \<Rightarrow> (u32 \<times> arena) option" where
  "malloc n m =
     (if n = 0 then Some (0, m)
      else malloc_search (arena_round n) (next_free m (malloc_head m)) m)"

definition free :: "u32 \<Rightarrow> arena \<Rightarrow> arena" where
  "free ptr m = (if ptr = 0 then m else snd (free_block (ptr - 16) m))"

text \<open>The initial value of \<open>__malloc_head\<close>.\<close>

definition empty_arena :: "u32 \<Rightarrow> arena" where
  "empty_arena h = \<lparr>malloc_head = h, atype = (\<lambda>_. 0)(h := ARENA_TYPE_HEAD), asize = (\<lambda>_. 0),
     anext = (\<lambda>_. 0)(h := h), aprev = (\<lambda>_. 0)(h := h),
     next_free = (\<lambda>_. 0)(h := h), prev_free = (\<lambda>_. 0)(h := h)\<rparr>"

section \<open>Invariant and abstraction\<close>

definition block_end :: "arena \<Rightarrow> u32 \<Rightarrow> nat" where
  "block_end m a = unat a + unat (asize m a)"

definition is_free :: "arena \<Rightarrow> u32 \<Rightarrow> bool" where
  "is_free m a \<longleftrightarrow> atype m a = ARENA_TYPE_FREE"

text \<open>What a client sees: the blocks in use with their sizes, and the bytes the arena owns.\<close>

definition used_blocks :: "arena \<Rightarrow> u32 list \<Rightarrow> u32 \<rightharpoonup> nat" where
  "used_blocks m as = (\<lambda>a. if a \<in> set as \<and> \<not> is_free m a then Some (unat (asize m a)) else None)"

definition owned :: "arena \<Rightarrow> u32 list \<Rightarrow> nat set" where
  "owned m as = (\<Union>a \<in> set as. {unat a..<block_end m a})"

text \<open>Blocks of at least two headers, in the order of their addresses, disjoint, below \<open>2^32\<close>
  and not over the head node.\<close>

definition laid_out :: "arena \<Rightarrow> u32 list \<Rightarrow> bool" where
  "laid_out m as \<longleftrightarrow>
     (\<forall>a \<in> set as. 32 \<le> unat a \<and> 32 \<le> unat (asize m a) \<and> block_end m a < 2 ^ 32) \<and>
     sorted_wrt (\<lambda>a b. block_end m a \<le> unat b) as \<and> unat (malloc_head m) \<notin> owned m as"

text \<open>The two chains hold the blocks \<open>as\<close>, in the order of their addresses and without overlap,
  and the free ones among them \<open>fs\<close>.\<close>

definition arena_inv :: "arena \<Rightarrow> u32 list \<Rightarrow> u32 list \<Rightarrow> bool" where
  "arena_inv m as fs \<longleftrightarrow>
     ring (anext m) (aprev m) (malloc_head m) as \<and>
     ring (next_free m) (prev_free m) (malloc_head m) fs \<and>
     atype m (malloc_head m) = ARENA_TYPE_HEAD \<and>
     (\<forall>a \<in> set as. atype m a = ARENA_TYPE_USED \<or> atype m a = ARENA_TYPE_FREE) \<and>
     set fs = {a \<in> set as. is_free m a} \<and>
     laid_out m as"

text \<open>Free neighbours are always merged.\<close>

definition apart :: "arena \<Rightarrow> u32 \<Rightarrow> u32 \<Rightarrow> bool" where
  "apart m a b \<longleftrightarrow> \<not> (is_free m a \<and> is_free m b \<and> block_end m a = unat b)"

definition arena_ok :: "arena \<Rightarrow> u32 list \<Rightarrow> u32 list \<Rightarrow> bool" where
  "arena_ok m as fs \<longleftrightarrow> arena_inv m as fs \<and> successively (apart m) as"

lemma empty_arena_ok: "arena_ok (empty_arena h) [] []"
  by (simp add: arena_ok_def arena_inv_def empty_arena_def ring_def owned_def laid_out_def)

section \<open>The steps preserve the invariant\<close>

lemma ring_replace:
  assumes "ring n p h (xs @ x # ys)" "y \<notin> set (h # xs @ x # ys)"
  shows "ring (n(y := n x, p x := y)) (p(y := p x, n x := y)) h (xs @ y # ys)"
proof -
  have r: "ring (n(p x := n x)) (p(n x := p x)) h (xs @ ys)" using assms(1) by (rule ring_remove)
  have q: "p x = last (h # xs)" "n x = hd (ys @ [h])" using ring_next [OF assms(1)] by simp_all
  have "p x \<in> set (h # xs)" unfolding q by (rule last_in_set) simp
  moreover have "n x \<in> set (ys @ [h])" unfolding q by (rule list.set_sel) simp
  ultimately have y: "y \<noteq> p x" "y \<noteq> n x" using assms(2) by auto
  have "ring ((n(p x := n x))(y := (n(p x := n x)) (p x), p x := y))
      ((p(n x := p x))((n(p x := n x)) (p x) := y, y := p x)) h (xs @ y # ys)"
    using r assms(2) q(1) by (intro ring_insert) auto
  then show ?thesis using y by (simp add: fun_upd_twist)
qed

lemma owned_split: "owned m (xs @ ys) = owned m xs \<union> owned m ys"
  by (auto simp: owned_def)

lemma arena_invD:
  assumes "arena_inv m as fs" "a \<in> set as"
  shows "32 \<le> unat a" "32 \<le> unat (asize m a)" "block_end m a < 2 ^ 32" "a \<noteq> malloc_head m"
    "atype m a \<noteq> ARENA_TYPE_HEAD" "unat a < block_end m a"
  using assms by (auto simp: arena_inv_def laid_out_def ring_def block_end_def)

text \<open>Blocks before and after one block lie outside it.\<close>

lemma arena_inv_neighbours:
  assumes "arena_inv m (xs @ a # ys) fs"
  shows "x \<in> set xs \<Longrightarrow> block_end m x \<le> unat a" "y \<in> set ys \<Longrightarrow> block_end m a \<le> unat y"
    "x \<in> set xs \<Longrightarrow> y \<in> set ys \<Longrightarrow> block_end m x \<le> unat y" "distinct (xs @ a # ys)"
  using assms by (auto simp: arena_inv_def laid_out_def sorted_wrt_append ring_def)

lemma add_no_wrap: "unat (a :: u32) + unat b < 2 ^ 32 \<Longrightarrow> unat (a + b) = unat a + unat b"
  by (simp add: unat_word_ariths)

lemma contiguous_iff:
  assumes "arena_inv m as fs" "a \<in> set as"
  shows "a + asize m a = b \<longleftrightarrow> block_end m a = unat b"
proof -
  have "unat (a + asize m a) = block_end m a"
    using arena_invD(3) [OF assms] by (simp add: block_end_def add_no_wrap)
  then show ?thesis by (metis unsigned_word_eqI)
qed

text \<open>An address strictly inside a block is no other block and not the head.\<close>

lemma inside_fresh:
  assumes "arena_inv m (xs @ a # ys) fs" "unat a < unat b" "unat b < block_end m a"
  shows "b \<notin> set (xs @ a # ys)" "b \<noteq> malloc_head m"
proof -
  show "b \<notin> set (xs @ a # ys)"
  proof
    assume "b \<in> set (xs @ a # ys)"
    then consider "b = a" | "b \<in> set xs" | "b \<in> set ys" by auto
    then show False
    proof cases
      case 2
      then show False
        using arena_inv_neighbours(1) [OF assms(1), of b] arena_invD(6) [OF assms(1), of b] assms(2) by simp
    next
      case 3
      then show False using arena_inv_neighbours(2) [OF assms(1), of b] assms(3) by simp
    qed (use assms(2) in simp)
  qed
  show "b \<noteq> malloc_head m"
    using assms by (auto simp: arena_inv_def laid_out_def owned_split) (auto simp: owned_def)
qed

lemma owned_cong:
  "\<forall>x \<in> set as. asize m' x = asize m x \<Longrightarrow> owned m' as = owned m as"
  by (simp add: owned_def block_end_def)

lemma laid_out_cong:
  assumes "malloc_head m' = malloc_head m" "\<forall>x \<in> set as. asize m' x = asize m x"
  shows "laid_out m' as = laid_out m as"
proof -
  have "sorted_wrt (\<lambda>a b. block_end m' a \<le> unat b) as = sorted_wrt (\<lambda>a b. block_end m a \<le> unat b) as"
    using assms(2) by (induction as) (simp_all add: block_end_def)
  then show ?thesis using assms owned_cong [OF assms(2)] by (simp add: laid_out_def block_end_def)
qed

text \<open>Changing the blocks within one stretch of the arena that stays owned.\<close>

lemma laid_out_change:
  assumes l: "laid_out m (xs @ us @ ys)" "laid_out m' vs" "owned m' vs = owned m us"
    and before: "\<forall>x \<in> set xs. \<forall>v \<in> set vs. block_end m x \<le> unat v"
    and after: "\<forall>v \<in> set vs. \<forall>y \<in> set ys. block_end m' v \<le> unat y"
    and m': "malloc_head m' = malloc_head m" "\<forall>x \<in> set (xs @ ys). asize m' x = asize m x"
  shows "laid_out m' (xs @ vs @ ys)" "owned m' (xs @ vs @ ys) = owned m (xs @ us @ ys)"
proof -
  have "laid_out m (xs @ ys)" "\<forall>x \<in> set xs. \<forall>y \<in> set ys. block_end m x \<le> unat y"
    using l(1) by (auto simp: laid_out_def owned_split sorted_wrt_append)
  moreover from this(1) have "laid_out m' (xs @ ys)"
    using laid_out_cong [OF m'] by simp
  moreover have e: "\<forall>x \<in> set (xs @ ys). block_end m' x = block_end m x"
    using m'(2) by (simp add: block_end_def)
  ultimately show "laid_out m' (xs @ vs @ ys)"
    using l(2) before after by (auto simp: laid_out_def owned_split sorted_wrt_append)
  show "owned m' (xs @ vs @ ys) = owned m (xs @ us @ ys)"
    unfolding owned_split l(3) using e by (simp add: owned_def)
qed

text \<open>Two contiguous blocks are laid out as the one block that covers them.\<close>

lemma laid_out_merge:
  assumes l: "laid_out m (xs @ a # b # ys)" and c: "block_end m a = unat b"
    and m': "malloc_head m' = malloc_head m" "asize m' a = asize m a + asize m b"
      "\<forall>x \<in> set (xs @ ys). asize m' x = asize m x"
  shows "laid_out m' (xs @ a # ys)" "owned m' (xs @ a # ys) = owned m (xs @ a # b # ys)"
proof -
  have b: "32 \<le> unat a" "block_end m b < 2 ^ 32" "32 \<le> unat (asize m b)" "32 \<le> unat (asize m a)"
    and h: "unat (malloc_head m) \<notin> owned m [a, b]"
    using l by (simp_all add: laid_out_def owned_def)
  have e: "unat (asize m' a) = unat (asize m a) + unat (asize m b)"
    using b c unfolding m'(2) by (intro add_no_wrap) (simp add: block_end_def)
  then have sum: "block_end m' a = block_end m b"
    using c by (simp add: block_end_def)
  have o: "owned m' [a] = owned m [a, b]"
    using sum c b by (auto simp: owned_def block_end_def)
  have "laid_out m' [a]" using b h o sum e m'(1) by (simp add: laid_out_def)
  moreover have "\<forall>x \<in> set xs. block_end m x \<le> unat a" "\<forall>y \<in> set ys. block_end m b \<le> unat y"
    using l by (auto simp: laid_out_def sorted_wrt_append)
  ultimately show "laid_out m' (xs @ a # ys)" "owned m' (xs @ a # ys) = owned m (xs @ a # b # ys)"
    using laid_out_change [of m xs "[a, b]" ys m' "[a]"] l o sum m'(1,3) by simp_all
qed

lemma laid_out_divide:
  assumes l: "laid_out m (xs @ a # ys)" and b: "unat b = unat a + unat n"
    and n: "32 \<le> unat n" "unat n + 32 \<le> unat (asize m a)"
    and m': "malloc_head m' = malloc_head m" "asize m' a = n" "asize m' b = asize m a - n"
      "\<forall>x \<in> set (xs @ ys). asize m' x = asize m x"
  shows "laid_out m' (xs @ a # b # ys)" "owned m' (xs @ a # b # ys) = owned m (xs @ a # ys)"
proof -
  have "n \<le> asize m a" using n(2) by (simp add: word_le_nat_alt)
  then have d: "unat (asize m' b) = unat (asize m a) - unat n" by (simp add: m'(3) unat_sub)
  then have e: "block_end m' a = unat b" "block_end m' b = block_end m a"
    using b n m'(2) by (simp_all add: block_end_def)
  have a: "32 \<le> unat a" "block_end m a < 2 ^ 32" "unat (malloc_head m) \<notin> owned m [a]"
    and x: "\<forall>x \<in> set xs. block_end m x \<le> unat a" "\<forall>y \<in> set ys. block_end m a \<le> unat y"
    using l by (auto simp: laid_out_def sorted_wrt_append owned_def)
  have o: "owned m' [a, b] = owned m [a]"
    using e b n by (auto simp: owned_def block_end_def)
  have "unat b \<le> block_end m a" using b n by (simp add: block_end_def)
  then have "laid_out m' [a, b]" using a o e d n b m'(1,2) by (simp add: laid_out_def)
  then show "laid_out m' (xs @ a # b # ys)" "owned m' (xs @ a # b # ys) = owned m (xs @ a # ys)"
    using laid_out_change [of m xs "[a]" ys m' "[a, b]"] l o e x m'(1,4) b \<open>unat b \<le> block_end m a\<close>
    by fastforce+
qed

text \<open>Allocating a whole free block.\<close>

lemma take_whole_inv:
  assumes "arena_inv m as (xs @ a # ys)"
  shows "arena_inv (remove_from_free_chain a (m\<lparr>atype := (atype m)(a := ARENA_TYPE_USED)\<rparr>)) as (xs @ ys)"
proof -
  have free: "ring (next_free m) (prev_free m) (malloc_head m) (xs @ a # ys)"
    and set: "set (xs @ a # ys) = {b \<in> set as. is_free m b}"
    using assms by (simp_all add: arena_inv_def)
  have "a \<in> set as" using set by auto
  then have "a \<noteq> malloc_head m" using arena_invD(4) [OF assms] by blast
  moreover have "set (xs @ ys) = set (xs @ a # ys) - {a}"
    using free by (auto simp: ring_def)
  moreover have "laid_out (remove_from_free_chain a (m\<lparr>atype := (atype m)(a := ARENA_TYPE_USED)\<rparr>)) as"
    using assms by (subst laid_out_cong [of _ m]) (simp_all add: arena_inv_def remove_from_free_chain_def Let_def)
  ultimately show ?thesis
    using assms ring_remove [OF free] set
    by (auto simp: arena_inv_def remove_from_free_chain_def Let_def is_free_def)
qed

text \<open>Splitting a free block: the remainder takes its place in the free chain.\<close>

lemma ring_insert_after:
  assumes "ring n p h (xs @ a # ys)" "x \<notin> set (xs @ a # ys)" "x \<noteq> h"
  shows "ring (n(x := n a, a := x)) (p(x := a, n a := x)) h (xs @ a # x # ys)"
proof -
  have "n a = hd (ys @ [h])" by (rule ring_next [OF assms(1)])
  moreover have "hd (ys @ [h]) \<in> set (ys @ [h])" by (rule list.set_sel) simp
  ultimately have "n a \<noteq> x" using assms(2,3) by auto
  have "ring (n(x := n a, a := x)) (p(n a := x, x := a)) h ((xs @ [a]) @ x # ys)"
    by (rule ring_insert) (use assms in auto)
  then show ?thesis using \<open>n a \<noteq> x\<close> by (simp add: fun_upd_twist)
qed

lemma split_inv:
  assumes inv: "arena_inv m (xs @ a # ys) (us @ a # vs)"
    and n: "32 \<le> unat n" "unat n + 32 \<le> unat (asize m a)"
  defines "m' \<equiv> snd (malloc_from_block a n m)"
  shows "fst (malloc_from_block a n m) = a + 16"
    "arena_inv m' (xs @ a # (a + n) # ys) (us @ (a + n) # vs)"
    "owned m' (xs @ a # (a + n) # ys) = owned m (xs @ a # ys)"
    "used_blocks m' (xs @ a # (a + n) # ys) = (used_blocks m (xs @ a # ys))(a \<mapsto> unat n)"
    "malloc_head m' = malloc_head m"
proof -
  let ?b = "a + n"
  have bound: "block_end m a < 2 ^ 32" by (rule arena_invD [OF inv]) simp
  have b: "unat ?b = unat a + unat n"
    using n(2) bound by (intro add_no_wrap) (simp add: block_end_def)
  have "unat (n + 32) = unat n + unat (32 :: u32)"
    using n(2) bound by (intro add_no_wrap) (simp add: block_end_def)
  then have big: "n + 32 \<le> asize m a" using n(2) by (simp add: word_le_nat_alt)
  have n16: "n \<noteq> 16" using n(1) by auto
  have fresh: "?b \<notin> set (xs @ a # ys)" "?b \<noteq> malloc_head m"
    by (rule inside_fresh [OF inv]; use b n in \<open>simp add: block_end_def\<close>)+
  have free: "set (us @ a # vs) = {c \<in> set (xs @ a # ys). is_free m c}"
    and r: "ring (anext m) (aprev m) (malloc_head m) (xs @ a # ys)"
      "ring (next_free m) (prev_free m) (malloc_head m) (us @ a # vs)"
    and l: "laid_out m (xs @ a # ys)"
    using inv by (simp_all add: arena_inv_def)
  have m': "atype m' = (atype m)(?b := ARENA_TYPE_FREE, a := ARENA_TYPE_USED)"
    "asize m' = (asize m)(?b := asize m a - n, a := n)"
    "anext m' = (anext m)(?b := anext m a, a := ?b)" "aprev m' = (aprev m)(?b := a, anext m a := ?b)"
    "next_free m' = (next_free m)(?b := next_free m a, prev_free m a := ?b)"
    "prev_free m' = (prev_free m)(?b := prev_free m a, next_free m a := ?b)"
    using big n16 by (simp_all add: m'_def malloc_from_block_def Let_def)
  show "fst (malloc_from_block a n m) = a + 16" and head: "malloc_head m' = malloc_head m"
    using big by (simp_all add: m'_def malloc_from_block_def Let_def)
  have r': "ring (anext m') (aprev m') (malloc_head m) (xs @ a # ?b # ys)"
    unfolding m' using r(1) fresh by (rule ring_insert_after)
  have notfree: "?b \<notin> set (us @ a # vs)" using fresh(1) unfolding free by simp
  have f': "ring (next_free m') (prev_free m') (malloc_head m) (us @ ?b # vs)"
    unfolding m' by (rule ring_replace [OF r(2)]) (use notfree fresh(2) in auto)
  have d: "a \<noteq> ?b" "a \<notin> set xs" "a \<notin> set ys" "a \<notin> set us" "a \<notin> set vs" "a \<noteq> malloc_head m"
    using fresh(1) r by (auto simp: ring_def)
  have l': "laid_out m' (xs @ a # ?b # ys)" "owned m' (xs @ a # ?b # ys) = owned m (xs @ a # ys)"
    by (rule laid_out_divide [OF l b n]; use d fresh(1) head m' in auto)+
  then show "owned m' (xs @ a # ?b # ys) = owned m (xs @ a # ys)" by simp
  have t: "is_free m' c \<longleftrightarrow> c = ?b \<or> c \<noteq> a \<and> is_free m c" for c
    using d(1) by (simp add: is_free_def m')
  have "set (us @ ?b # vs) = insert ?b (set (us @ a # vs) - {a})"
    using d by auto
  also have "\<dots> = {c \<in> set (xs @ a # ?b # ys). is_free m' c}"
    unfolding free t using d by auto
  finally have "set (us @ ?b # vs) = {c \<in> set (xs @ a # ?b # ys). is_free m' c}" .
  moreover have "atype m' (malloc_head m) = ARENA_TYPE_HEAD"
    "\<forall>c \<in> set (xs @ a # ?b # ys). atype m' c = ARENA_TYPE_USED \<or> atype m' c = ARENA_TYPE_FREE"
    using inv d fresh by (auto simp: m'(1) arena_inv_def)
  ultimately show "arena_inv m' (xs @ a # ?b # ys) (us @ ?b # vs)"
    unfolding arena_inv_def head using r' f' l'(1) by blast
  show "used_blocks m' (xs @ a # ?b # ys) = (used_blocks m (xs @ a # ys))(a \<mapsto> unat n)"
    using d fresh(1) by (auto simp: used_blocks_def t m'(2) fun_eq_iff)
qed

text \<open>Merging a block into the one before it; the first may be free or in use, the second is in
  use (it is on its way to be freed) and not in the free chain.\<close>

lemma merge_used_inv:
  assumes inv: "arena_inv m (xs @ a # b # ys) fs" and c: "block_end m a = unat b"
    and t: "is_free m a" "\<not> is_free m b"
    and m': "m' = m\<lparr>asize := (asize m)(a := asize m a + asize m b),
                   anext := (anext m)(a := anext m b), aprev := (aprev m)(anext m b := a)\<rparr>"
  shows "arena_inv m' (xs @ a # ys) fs"
    "owned m' (xs @ a # ys) = owned m (xs @ a # b # ys)"
    "used_blocks m' (xs @ a # ys) = (used_blocks m (xs @ a # b # ys))(b := None)"
proof -
  have l: "laid_out m (xs @ a # b # ys)" and r: "ring (anext m) (aprev m) (malloc_head m) (xs @ a # b # ys)"
    and fs: "set fs = {c \<in> set (xs @ a # b # ys). is_free m c}"
    using inv by (simp_all add: arena_inv_def)
  have d: "a \<noteq> b" "a \<notin> set xs" "a \<notin> set ys" "b \<notin> set xs" "b \<notin> set ys" using r by (auto simp: ring_def)
  have "aprev m b = a" using ring_next(2) [of _ _ _ "xs @ [a]" b ys] r by simp
  then have "ring (anext m') (aprev m') (malloc_head m) (xs @ a # ys)"
    using ring_remove [of "anext m" "aprev m" "malloc_head m" "xs @ [a]" b ys] r by (simp add: m')
  moreover have lo: "laid_out m' (xs @ a # ys)" "owned m' (xs @ a # ys) = owned m (xs @ a # b # ys)"
    by (rule laid_out_merge [OF l c]; use d in \<open>auto simp: m'\<close>)+
  moreover have "set fs = {c \<in> set (xs @ a # ys). is_free m' c}"
    unfolding fs using t by (auto simp: is_free_def m')
  ultimately show "arena_inv m' (xs @ a # ys) fs"
    using inv by (simp add: arena_inv_def m')
  show "owned m' (xs @ a # ys) = owned m (xs @ a # b # ys)" by (rule lo(2))
  show "used_blocks m' (xs @ a # ys) = (used_blocks m (xs @ a # b # ys))(b := None)"
    using d t by (auto simp: used_blocks_def is_free_def m' fun_eq_iff)
qed

text \<open>Entering a block in the free chain, at its head.\<close>

lemma mark_free_inv:
  assumes inv: "arena_inv m as fs" and a: "a \<in> set as" "\<not> is_free m a"
    and m': "m' = m\<lparr>atype := (atype m)(a := ARENA_TYPE_FREE),
                next_free := (next_free m)(a := next_free m (malloc_head m), malloc_head m := a),
                prev_free := (prev_free m)(a := malloc_head m, next_free m (malloc_head m) := a)\<rparr>"
  shows "arena_inv m' as (a # fs)" "owned m' as = owned m as"
    "used_blocks m' as = (used_blocks m as)(a := None)"
proof -
  let ?h = "malloc_head m"
  have r: "ring (next_free m) (prev_free m) ?h fs" and fs: "set fs = {c \<in> set as. is_free m c}"
    using inv by (simp_all add: arena_inv_def)
  have ah: "a \<noteq> ?h" using arena_invD(4) [OF inv a(1)] .
  have fresh: "a \<notin> set fs" using a unfolding fs by simp
  have "next_free m ?h \<in> set (fs @ [?h])" using ring_head [OF r] by (metis Nil_is_append_conv hd_in_set list.distinct(1))
  then have "a \<noteq> next_free m ?h" using fresh ah by auto
  moreover have "ring ((next_free m)(a := next_free m ?h, ?h := a)) ((prev_free m)(next_free m ?h := a, a := ?h))
      ?h ([] @ a # fs)"
    by (rule ring_insert) (use r fresh ah in auto)
  ultimately have "ring (next_free m') (prev_free m') ?h (a # fs)"
    by (simp add: m' fun_upd_twist)
  moreover have "set (a # fs) = {c \<in> set as. is_free m' c}"
    using a fs by (auto simp: is_free_def m')
  moreover have "laid_out m' as" using inv by (subst laid_out_cong [of _ m]) (simp_all add: m' arena_inv_def)
  ultimately show "arena_inv m' as (a # fs)"
    using inv ah by (simp add: arena_inv_def m')
  show "owned m' as = owned m as" by (rule owned_cong) (simp add: m')
  show "used_blocks m' as = (used_blocks m as)(a := None)"
    by (auto simp: used_blocks_def is_free_def m' fun_eq_iff)
qed

text \<open>Merging a free block with the free block after it.\<close>

lemma merge_free_inv:
  assumes inv: "arena_inv m (xs @ a # b # ys) (us @ b # vs)" and c: "block_end m a = unat b"
    and t: "is_free m a" "is_free m b"
    and m': "m' = remove_from_chains b (m\<lparr>asize := (asize m)(a := asize m a + asize m b)\<rparr>)"
  shows "arena_inv m' (xs @ a # ys) (us @ vs)"
    "owned m' (xs @ a # ys) = owned m (xs @ a # b # ys)"
    "used_blocks m' (xs @ a # ys) = used_blocks m (xs @ a # b # ys)"
proof -
  note e = m' remove_from_chains_def remove_from_main_chain_def remove_from_free_chain_def Let_def
  have l: "laid_out m (xs @ a # b # ys)"
    and r: "ring (anext m) (aprev m) (malloc_head m) (xs @ a # b # ys)"
      "ring (next_free m) (prev_free m) (malloc_head m) (us @ b # vs)"
    and fs: "set (us @ b # vs) = {c \<in> set (xs @ a # b # ys). is_free m c}"
    using inv by (simp_all add: arena_inv_def)
  have d: "a \<noteq> b" "a \<notin> set xs" "a \<notin> set ys" "b \<notin> set xs" "b \<notin> set ys" "b \<notin> set us" "b \<notin> set vs"
    using r by (auto simp: ring_def)
  have "ring (anext m') (aprev m') (malloc_head m) (xs @ a # ys)"
    using ring_remove [of _ _ _ "xs @ [a]" b ys] r by (simp add: e)
  moreover have "ring (next_free m') (prev_free m') (malloc_head m) (us @ vs)"
    using ring_remove [OF r(2)] by (simp add: e)
  moreover have lo: "laid_out m' (xs @ a # ys)" "owned m' (xs @ a # ys) = owned m (xs @ a # b # ys)"
    by (rule laid_out_merge [OF l c]; use d in \<open>auto simp: e\<close>)+
  moreover have "set (us @ vs) = {c \<in> set (xs @ a # ys). is_free m' c}"
  proof -
    have "set (us @ vs) = set (us @ b # vs) - {b}" using d by auto
    then show ?thesis unfolding fs using d by (auto simp: is_free_def e)
  qed
  ultimately show "arena_inv m' (xs @ a # ys) (us @ vs)"
    using inv by (simp add: arena_inv_def e)
  show "owned m' (xs @ a # ys) = owned m (xs @ a # b # ys)" by (rule lo(2))
  show "used_blocks m' (xs @ a # ys) = used_blocks m (xs @ a # b # ys)"
    using d t by (auto simp: used_blocks_def is_free_def e fun_eq_iff)
qed

section \<open>Freeing\<close>

text \<open>The state between the two steps of \<^term>\<open>free_block\<close>: the freed block \<open>a\<close> may still touch
  a free block after it.\<close>

definition loose :: "arena \<Rightarrow> u32 list \<Rightarrow> u32 \<Rightarrow> u32 list \<Rightarrow> u32 list \<Rightarrow> bool" where
  "loose m xs a ys fs \<longleftrightarrow> arena_inv m (xs @ a # ys) fs \<and> is_free m a \<and>
     successively (apart m) (xs @ [a]) \<and> successively (apart m) ys"

lemma apart_used: "\<not> is_free m a \<Longrightarrow> apart m a b" "\<not> is_free m a \<Longrightarrow> apart m b a"
  by (simp_all add: apart_def)

lemma successively_apart_cong:
  assumes "\<forall>x \<in> set xs. is_free m' x = is_free m x" "\<forall>x \<in> set (butlast xs). block_end m' x = block_end m x"
  shows "successively (apart m') xs = successively (apart m) xs"
  using assms by (induction xs rule: induct_list012) (auto simp: apart_def)

lemma free_into_prev_loose:
  assumes ok: "arena_ok m (xs @ b # ys) fs" and b: "\<not> is_free m b"
  obtains a m' xs' fs' where "free_into_prev b m = (a, m')" "loose m' xs' a ys fs'"
    "owned m' (xs' @ a # ys) = owned m (xs @ b # ys)"
    "used_blocks m' (xs' @ a # ys) = (used_blocks m (xs @ b # ys))(b := None)"
    "malloc_head m' = malloc_head m"
proof -
  have inv: "arena_inv m (xs @ b # ys) fs"
    and ap: "successively (apart m) xs" "successively (apart m) ys" "xs \<noteq> [] \<Longrightarrow> apart m (last xs) b"
    using ok by (auto simp: arena_ok_def successively_append_iff successively_Cons)
  have r: "ring (anext m) (aprev m) (malloc_head m) (xs @ b # ys)"
    and hd: "atype m (malloc_head m) = ARENA_TYPE_HEAD"
    using inv by (simp_all add: arena_inv_def)
  have p: "aprev m b = last (malloc_head m # xs)" by (rule ring_next [OF r])
  have d: "b \<notin> set xs" "b \<notin> set ys" "distinct xs" using r by (auto simp: ring_def)
  show thesis
  proof (cases "xs \<noteq> [] \<and> is_free m (last xs) \<and> block_end m (last xs) = unat b")
    case True
    define a where "a = last xs"
    define zs where "zs = butlast xs"
    have xs: "xs = zs @ [a]" using True by (simp add: a_def zs_def)
    have c: "is_free m a" "block_end m a = unat b" using True by (simp_all add: a_def)
    have inv': "arena_inv m (zs @ a # b # ys) fs" using inv xs by simp
    have test: "atype m a = ARENA_TYPE_FREE" "a + asize m a = b"
      using c contiguous_iff [OF inv', of a b] by (simp_all add: is_free_def)
    define m' where "m' = m\<lparr>asize := (asize m)(a := asize m a + asize m b),
      anext := (anext m)(a := anext m b), aprev := (aprev m)(anext m b := a)\<rparr>"
    have step: "free_into_prev b m = (a, m')"
      using test p xs by (simp add: free_into_prev_def Let_def m'_def)
    note merge = merge_used_inv [OF inv' c(2) c(1) b m'_def]
    have "a \<notin> set zs" "a \<notin> set ys" using inv' by (auto simp: arena_inv_def ring_def)
    then have "successively (apart m') (zs @ [a])" "successively (apart m') ys"
      using ap(1,2) xs
      by (subst successively_apart_cong [of _ _ m];
          auto simp: is_free_def block_end_def m'_def dest: in_set_butlastD)+
    then have loose: "loose m' zs a ys fs"
      using merge(1) c(1) by (simp add: loose_def is_free_def m'_def)
    have "malloc_head m' = malloc_head m" by (simp add: m'_def)
    from that [OF step loose _ _ this] show thesis using merge(2,3) xs by simp
  next
    case False
    have test: "\<not> (atype m (aprev m b) = ARENA_TYPE_FREE \<and> aprev m b + asize m (aprev m b) = b)"
    proof (cases "xs = []")
      case True
      then show ?thesis using p hd by simp
    next
      case nonempty: False
      then have "last xs \<in> set (xs @ b # ys)" by simp
      from contiguous_iff [OF inv this, of b] show ?thesis
        using False nonempty p by (simp add: is_free_def)
    qed
    define m' where "m' = m\<lparr>atype := (atype m)(b := ARENA_TYPE_FREE),
      next_free := (next_free m)(b := next_free m (malloc_head m), malloc_head m := b),
      prev_free := (prev_free m)(b := malloc_head m, next_free m (malloc_head m) := b)\<rparr>"
    have step: "free_into_prev b m = (b, m')"
      using test by (simp only: free_into_prev_def Let_def m'_def if_False)
    have "b \<in> set (xs @ b # ys)" by simp
    note mark = mark_free_inv [OF inv this b m'_def]
    have same: "successively (apart m') xs" "successively (apart m') ys"
      using ap(1,2) d
      by (subst successively_apart_cong [of _ _ m]; auto simp: is_free_def block_end_def m'_def)+
    moreover have "xs \<noteq> [] \<Longrightarrow> apart m' (last xs) b"
      using False d(1) last_in_set [of xs] by (auto simp: apart_def is_free_def block_end_def m'_def)
    moreover have "is_free m' b" by (simp add: is_free_def m'_def)
    ultimately have loose: "loose m' xs b ys (b # fs)"
      using mark(1) by (auto simp: loose_def successively_append_iff)
    have "malloc_head m' = malloc_head m" by (simp add: m'_def)
    from that [OF step loose mark(2,3) this] show thesis .
  qed
qed

lemma merge_next_ok:
  assumes l: "loose m xs a ys fs" and nah: "nah = hd (ys @ [malloc_head m])"
  defines "m' \<equiv> (if atype m nah = ARENA_TYPE_FREE \<and> a + asize m a = nah
      then remove_from_chains nah (m\<lparr>asize := (asize m)(a := asize m a + asize m nah)\<rparr>) else m)"
  shows "\<exists>as fs'. arena_ok m' as fs' \<and> owned m' as = owned m (xs @ a # ys) \<and>
    used_blocks m' as = used_blocks m (xs @ a # ys)"
proof -
  have inv: "arena_inv m (xs @ a # ys) fs" and free: "is_free m a"
    and ap: "successively (apart m) (xs @ [a])" "successively (apart m) ys"
    using l by (simp_all add: loose_def)
  have touch: "a + asize m a = b \<longleftrightarrow> block_end m a = unat b" for b
    by (rule contiguous_iff [OF inv]) simp
  show ?thesis
  proof (cases "ys \<noteq> [] \<and> is_free m (hd ys) \<and> block_end m a = unat (hd ys)")
    case True
    then obtain b zs where ys: "ys = b # zs" by (cases ys) auto
    then have c: "is_free m b" "block_end m a = unat b" and "nah = b" using True nah by simp_all
    have m': "m' = remove_from_chains b (m\<lparr>asize := (asize m)(a := asize m a + asize m b)\<rparr>)"
      using c \<open>nah = b\<close> touch by (simp add: m'_def is_free_def)
    have inv': "arena_inv m (xs @ a # b # zs) fs" using inv ys by simp
    have "b \<in> set fs" using inv' c(1) by (simp add: arena_inv_def)
    then obtain us vs where fs: "fs = us @ b # vs" by (auto simp: in_set_conv_decomp)
    note merge = merge_free_inv [OF inv' [unfolded fs] c(2) free c(1) m']
    have d: "a \<notin> set xs" "a \<noteq> b" "a \<notin> set zs" using inv' by (auto simp: arena_inv_def ring_def)
    note e = m' remove_from_chains_def remove_from_main_chain_def remove_from_free_chain_def Let_def
    have s: "successively (apart m') (xs @ [a])" "successively (apart m') zs"
      using ap ys d
      by (subst successively_apart_cong [of _ _ m];
          auto simp: is_free_def block_end_def e successively_Cons dest: in_set_butlastD)+
    have "unat (asize m' a) = unat (asize m a) + unat (asize m b)"
      using arena_invD(3) [OF inv', of b] c(2)
      by (simp add: e block_end_def add_no_wrap)
    then have "block_end m' a = block_end m b" using c(2) by (simp add: block_end_def)
    moreover have "zs \<noteq> [] \<Longrightarrow> apart m b (hd zs)" using ap(2) ys by (cases zs) auto
    ultimately have "zs \<noteq> [] \<Longrightarrow> apart m' a (hd zs)"
      using c(1) by (auto simp: apart_def is_free_def e)
    then have "arena_ok m' (xs @ a # zs) (us @ vs)"
      using merge(1) s by (auto simp: arena_ok_def successively_append_iff successively_Cons)
    then show ?thesis using merge(2,3) ys by blast
  next
    case False
    have "m' = m"
    proof (cases ys)
      case Nil
      then show ?thesis using inv nah by (simp add: m'_def arena_inv_def)
    next
      case (Cons b zs)
      then show ?thesis using False nah touch by (auto simp: m'_def is_free_def)
    qed
    moreover have "arena_ok m (xs @ a # ys) fs"
      using inv ap False by (auto simp: arena_ok_def successively_append_iff successively_Cons apart_def)
    ultimately show ?thesis by blast
  qed
qed

lemma free_block_ok:
  assumes ok: "arena_ok m as fs" and b: "b \<in> set as" "\<not> is_free m b"
  obtains as' fs' where "arena_ok (snd (free_block b m)) as' fs'"
    "owned (snd (free_block b m)) as' = owned m as"
    "used_blocks (snd (free_block b m)) as' = (used_blocks m as)(b := None)"
proof -
  obtain xs ys where as: "as = xs @ b # ys" using b(1) by (auto simp: in_set_conv_decomp)
  obtain a m1 xs' fs' where step: "free_into_prev b m = (a, m1)" and l: "loose m1 xs' a ys fs'"
    and eq: "owned m1 (xs' @ a # ys) = owned m as" "used_blocks m1 (xs' @ a # ys) = (used_blocks m as)(b := None)"
    and head: "malloc_head m1 = malloc_head m"
    using free_into_prev_loose [OF ok [unfolded as] b(2)] as by metis
  have "anext m b = hd (ys @ [malloc_head m1])"
    using ok ring_next(1) as by (fastforce simp: arena_ok_def arena_inv_def head)
  from merge_next_ok [OF l this] obtain as' fs'' where
    r: "arena_ok (snd (free_block b m)) as' fs''" "owned (snd (free_block b m)) as' = owned m1 (xs' @ a # ys)"
      "used_blocks (snd (free_block b m)) as' = used_blocks m1 (xs' @ a # ys)"
    by (auto simp: free_block_def Let_def step split: if_splits)
  from that [OF r(1)] show thesis using r(2,3) eq by simp
qed

section \<open>Allocating\<close>

lemma malloc_search_walks:
  assumes "ring (next_free m) p (malloc_head m) (us @ fs)" "atype m (malloc_head m) = ARENA_TYPE_HEAD"
    "\<forall>a \<in> set fs. atype m a \<noteq> ARENA_TYPE_HEAD"
  shows "malloc_search n (hd (fs @ [malloc_head m])) m =
    Some (case find (\<lambda>a. asize m a \<ge> n) fs of Some a \<Rightarrow> malloc_from_block a n m | None \<Rightarrow> (0, m))"
  using assms
proof (induction fs arbitrary: us)
  case Nil
  then show ?case by (simp add: malloc_search.simps)
next
  case (Cons a fs)
  have "next_free m a = hd (fs @ [malloc_head m])"
    by (rule ring_next(1) [OF Cons.prems(1)])
  moreover have "malloc_search n (hd (fs @ [malloc_head m])) m =
      Some (case find (\<lambda>a. asize m a \<ge> n) fs of Some a \<Rightarrow> malloc_from_block a n m | None \<Rightarrow> (0, m))"
    using Cons.IH [of "us @ [a]"] Cons.prems by simp
  ultimately show ?case using Cons.prems(3) by (subst malloc_search.simps) simp
qed

lemma malloc_first_fit:
  assumes "arena_inv m as fs" "n \<noteq> 0"
  shows "malloc n m = Some (case find (\<lambda>a. asize m a \<ge> arena_round n) fs of
    Some a \<Rightarrow> malloc_from_block a (arena_round n) m | None \<Rightarrow> (0, m))"
proof -
  have r: "ring (next_free m) (prev_free m) (malloc_head m) ([] @ fs)"
    and h: "atype m (malloc_head m) = ARENA_TYPE_HEAD" and s: "set fs \<subseteq> set as"
    using assms(1) by (auto simp: arena_inv_def)
  have "\<forall>a \<in> set fs. atype m a \<noteq> ARENA_TYPE_HEAD"
    using s arena_invD(5) [OF assms(1)] by blast
  from malloc_search_walks [OF r h this] show ?thesis
    using ring_head [OF r] assms(2) by (simp add: malloc_def)
qed

lemma arena_round_nat: "unat (arena_round n) = unat (n + 31) div 16 * 16"
proof -
  have "arena_round n = (n + 31) AND NOT (mask 4)" by (simp add: arena_round_def mask_eq_exp_minus_1)
  also have "\<dots> = push_bit 4 (drop_bit 4 (n + 31))" by (rule bit_word_eqI) (auto simp: bit_simps)
  finally have "unat (arena_round n) = unat (n + 31) div 16 * 16 mod 2 ^ 32"
    by (simp add: push_bit_eq_mult unat_word_ariths unat_drop_bit)
  moreover have "unat (n + 31) div 16 * 16 < 4294967296"
    by (rule le_less_trans [OF div_times_less_eq_dividend unat_u32_less])
  ultimately show ?thesis by (simp only: mod_less) simp
qed

text \<open>The block for a request holds it and a header, and is not larger than needed.\<close>

lemma arena_round_bounds:
  assumes "unat n < 2 ^ 32 - 31"
  shows "unat (arena_round n) = (unat n + 31) div 16 * 16"
    "unat n + 16 \<le> unat (arena_round n)" "unat (arena_round n) < unat n + 32"
    "n \<noteq> 0 \<Longrightarrow> 32 \<le> unat (arena_round n)"
proof -
  have s: "unat (n + 31) = unat n + 31" using assms by (subst add_no_wrap) simp_all
  then show e: "unat (arena_round n) = (unat n + 31) div 16 * 16"
    by (simp only: arena_round_nat)
  have "(unat n + 31) div 16 * 16 + (unat n + 31) mod 16 = unat n + 31" by (rule div_mult_mod_eq)
  moreover have "(unat n + 31) mod 16 < 16" by simp
  ultimately show "unat n + 16 \<le> unat (arena_round n)" "unat (arena_round n) < unat n + 32"
    unfolding e by linarith+
  assume "n \<noteq> 0"
  then have "1 \<le> unat n" by (simp add: Suc_le_eq unat_gt_0)
  then have "32 div 16 * 16 \<le> (unat n + 31) div 16 * 16" by (intro mult_le_mono1 div_le_mono) simp
  then show "32 \<le> unat (arena_round n)" unfolding e by simp
qed

text \<open>For requests that wrap the rounded size is 0 or 16.\<close>

lemma arena_round_huge:
  assumes "2 ^ 32 - 31 \<le> unat n"
  shows "unat (arena_round n) < 31" "2 ^ 32 - 15 \<le> unat n \<Longrightarrow> arena_round n = 16"
proof -
  have "unat (n + 31) = (unat n + 31) mod 4294967296" by (simp add: unat_word_ariths)
  also have "\<dots> = (unat n + 31 - 4294967296) mod 4294967296"
    by (rule le_mod_geq) (use assms in simp)
  also have "\<dots> = unat n + 31 - 4294967296"
    by (rule mod_less) (use unat_u32_less [of n] in linarith)
  finally have s: "unat (n + 31) = unat n + 31 - 4294967296" .
  show "unat (arena_round n) < 31" using s unat_u32_less [of n] unfolding arena_round_nat by linarith
  assume "2 ^ 32 - 15 \<le> unat n"
  then have "4294967281 \<le> unat n" by simp
  then have "16 \<le> unat (n + 31)" "unat (n + 31) < 32" using s unat_u32_less [of n] by linarith+
  then have "unat (n + 31) div 16 = 1" by linarith
  then have "unat (arena_round n) = unat (16 :: u32)" unfolding arena_round_nat by simp
  then show "arena_round n = 16" by (simp only: word_unat_eq_iff)
qed

lemma take_whole_used:
  assumes "arena_inv m as fs" "a \<in> set as"
  shows "used_blocks (remove_from_free_chain a (m\<lparr>atype := (atype m)(a := ARENA_TYPE_USED)\<rparr>)) as =
    (used_blocks m as)(a \<mapsto> unat (asize m a))"
  using assms(2) by (auto simp: used_blocks_def is_free_def remove_from_free_chain_def Let_def fun_eq_iff)

lemma malloc_from_block_ok:
  assumes ok: "arena_ok m as fs" and a: "a \<in> set fs"
    and n: "32 \<le> unat n" "n \<le> asize m a" "unat n + 32 < 2 ^ 32"
  obtains as' fs' sz where "fst (malloc_from_block a n m) = a + 16"
    "arena_ok (snd (malloc_from_block a n m)) as' fs'"
    "owned (snd (malloc_from_block a n m)) as' = owned m as"
    "used_blocks (snd (malloc_from_block a n m)) as' = (used_blocks m as)(a \<mapsto> sz)"
    "unat n \<le> sz" "sz < unat n + 32" "sz \<le> unat (asize m a)"
    "asize (snd (malloc_from_block a n m)) a = of_nat sz"
    "malloc_head (snd (malloc_from_block a n m)) = malloc_head m"
proof -
  have inv: "arena_inv m as fs" and ap: "successively (apart m) as" using ok by (simp_all add: arena_ok_def)
  obtain us vs where fs: "fs = us @ a # vs" using a by (auto simp: in_set_conv_decomp)
  have "a \<in> set as" and free: "is_free m a" using inv a by (auto simp: arena_inv_def)
  then obtain xs ys where as: "as = xs @ a # ys" by (auto simp: in_set_conv_decomp)
  let ?m = "snd (malloc_from_block a n m)"
  have n32: "unat (n + 32) = unat n + 32" using n(3) by (subst add_no_wrap) simp_all
  have d: "a \<notin> set xs" "a \<notin> set ys" using inv as by (auto simp: arena_inv_def ring_def)
  show thesis
  proof (cases "asize m a \<ge> n + 32")
    case True
    then have big: "unat n + 32 \<le> unat (asize m a)" using n32 by (simp add: word_le_nat_alt)
    note split = split_inv [OF inv [unfolded as fs] n(1) big]
    have m: "is_free ?m c \<longleftrightarrow> c = a + n \<or> c \<noteq> a \<and> is_free m c"
      "asize ?m = (asize m)(a + n := asize m a - n, a := n)" if "a + n \<noteq> a" for c
      using True that by (auto simp: malloc_from_block_def Let_def is_free_def)
    have "distinct (xs @ a # (a + n) # ys)" using split(2) by (auto simp: arena_inv_def ring_def)
    then have b: "a + n \<noteq> a" "a + n \<notin> set xs" "a + n \<notin> set ys" by auto
    have s: "successively (apart ?m) xs" "successively (apart ?m) ys"
      using ap as b d
      by (subst successively_apart_cong [of _ _ m];
          auto simp: m block_end_def successively_append_iff successively_Cons dest: in_set_butlastD)+
    have "unat (a + n) = unat a + unat n"
      by (rule add_no_wrap) (use arena_invD(3) [OF inv \<open>a \<in> set as\<close>] big in \<open>simp add: block_end_def\<close>)
    then have "block_end ?m (a + n) = block_end m a"
      using n(2) b(1) by (simp add: block_end_def m unat_sub word_le_nat_alt)
    moreover have "ys \<noteq> [] \<Longrightarrow> apart m a (hd ys)" using ap as by (auto simp: successively_append_iff successively_Cons)
    moreover have "hd ys \<noteq> a + n" "hd ys \<noteq> a" if "ys \<noteq> []"
      using b(3) d(2) hd_in_set [OF that] by auto
    ultimately have "ys \<noteq> [] \<Longrightarrow> apart ?m (a + n) (hd ys)"
      using free b(1) by (simp add: apart_def m)
    moreover have "apart ?m a (a + n)" "\<And>x. apart ?m x a"
      using apart_used [of ?m a] m(1) [OF b(1), of a] b(1) by auto
    ultimately have "successively (apart ?m) (xs @ a # (a + n) # ys)"
      using s unfolding successively_append_iff successively_Cons by auto
    then have "arena_ok ?m (xs @ a # (a + n) # ys) (us @ (a + n) # vs)"
      using split(2) by (simp only: arena_ok_def)
    then show thesis
      using that [of "xs @ a # (a + n) # ys" "us @ (a + n) # vs" "unat n"] split as n(2) b(1)
      by (simp add: m word_le_nat_alt)
  next
    case False
    then have e: "malloc_from_block a n m =
        (a + 16, remove_from_free_chain a (m\<lparr>atype := (atype m)(a := ARENA_TYPE_USED)\<rparr>))"
      by (simp add: malloc_from_block_def Let_def)
    have "successively (apart ?m) as"
    proof (rule successively_mono [OF ap])
      show "apart ?m x y" if "apart m x y" for x y
        using that by (auto simp: e apart_def is_free_def block_end_def remove_from_free_chain_def Let_def split: if_splits)
    qed
    then have "arena_ok ?m as (us @ vs)"
      using take_whole_inv [OF inv [unfolded fs]] by (simp add: e arena_ok_def)
    moreover have "owned ?m as = owned m as"
      by (rule owned_cong) (simp add: e remove_from_free_chain_def Let_def)
    ultimately show thesis
      using that [of as "us @ vs" "unat (asize m a)"] take_whole_used [OF inv \<open>a \<in> set as\<close>] n(2) False n32
      by (simp add: e word_le_nat_alt remove_from_free_chain_def Let_def)
  qed
qed

section \<open>Adding memory\<close>

lemma malloc_add_pred_walks:
  assumes "ring n (aprev m) (malloc_head m) (xs @ ys @ zs)" "atype m (malloc_head m) = ARENA_TYPE_HEAD"
    "\<forall>a \<in> set (xs @ ys). atype m a \<noteq> ARENA_TYPE_HEAD"
    "\<forall>x \<in> set xs. x < fp" "\<forall>y \<in> set ys. \<not> y < fp"
  shows "malloc_add_pred fp (last (malloc_head m # xs @ ys)) m = Some (last (malloc_head m # xs))"
  using assms
proof (induction ys arbitrary: zs rule: rev_induct)
  case Nil
  then show ?case using last_in_set [of xs] by (subst malloc_add_pred.simps) auto
next
  case (snoc y ys)
  have "aprev m y = last (malloc_head m # xs @ ys)"
    using ring_next(2) [of n "aprev m" "malloc_head m" "xs @ ys" y zs] snoc.prems(1) by simp
  moreover have "malloc_add_pred fp (last (malloc_head m # xs @ ys)) m = Some (last (malloc_head m # xs))"
    using snoc.IH [of "y # zs"] snoc.prems by simp
  ultimately show ?case using snoc.prems(3,5) by (subst malloc_add_pred.simps) simp
qed

text \<open>A block of the arena that is marked free but not yet in the free chain is freed like one
  that is marked in use.\<close>

lemma free_block_mark:
  assumes "aprev m b \<noteq> b" "anext m b \<noteq> b"
  defines "m0 \<equiv> m\<lparr>atype := (atype m)(b := ARENA_TYPE_USED)\<rparr>"
  shows "snd (free_block b m0) = snd (free_block b m) \<or>
    snd (free_block b m0) = (snd (free_block b m))\<lparr>atype := (atype (snd (free_block b m)))(b := ARENA_TYPE_USED)\<rparr>"
proof (cases "atype m (aprev m b) = ARENA_TYPE_FREE \<and> aprev m b + asize m (aprev m b) = b")
  case False
  then have "free_into_prev b m0 = free_into_prev b m"
    using assms(1) by (simp only: free_into_prev_def Let_def m0_def) simp
  then show ?thesis by (simp add: free_block_def Let_def m0_def)
next
  case True
  have u: "remove_from_chains a (m'\<lparr>atype := t, asize := s\<rparr>) =
      (remove_from_chains a (m'\<lparr>asize := s\<rparr>))\<lparr>atype := t\<rparr>" for a m' s t
    by (simp add: remove_from_chains_def remove_from_main_chain_def remove_from_free_chain_def Let_def)
  obtain a m1 where m1: "free_into_prev b m = (a, m1)" by (cases "free_into_prev b m")
  then have "atype m1 = atype m" using True by (auto simp: free_into_prev_def Let_def)
  moreover have m2: "free_into_prev b m0 = (a, m1\<lparr>atype := (atype m)(b := ARENA_TYPE_USED)\<rparr>)"
    using True assms(1) m1 by (auto simp: free_into_prev_def Let_def m0_def)
  moreover have "atype (remove_from_chains c m') = atype m'" for c m'
    by (simp add: remove_from_chains_def remove_from_main_chain_def remove_from_free_chain_def Let_def)
  ultimately show ?thesis
    using assms(2) m1 by (simp add: free_block_def Let_def u) (simp add: m0_def)
qed

lemma free_block_head: "malloc_head (snd (free_block b m)) = malloc_head m"
  by (simp add: free_block_def free_into_prev_def Let_def remove_from_chains_def
      remove_from_main_chain_def remove_from_free_chain_def)

lemma arena_ok_atype:
  assumes "b \<notin> set as" "b \<noteq> malloc_head m"
  shows "arena_ok (m\<lparr>atype := (atype m)(b := t)\<rparr>) as fs = arena_ok m as fs"
proof -
  let ?m = "m\<lparr>atype := (atype m)(b := t)\<rparr>"
  have "successively (apart ?m) as = successively (apart m) as"
    using assms(1) by (intro successively_cong) (auto simp: apart_def is_free_def block_end_def)
  moreover have "laid_out ?m as = laid_out m as" by (rule laid_out_cong) simp_all
  moreover have "{a \<in> set as. is_free ?m a} = {a \<in> set as. is_free m a}"
    using assms(1) by (auto simp: is_free_def)
  moreover have "(\<forall>a \<in> set as. atype ?m a = ARENA_TYPE_USED \<or> atype ?m a = ARENA_TYPE_FREE) =
      (\<forall>a \<in> set as. atype m a = ARENA_TYPE_USED \<or> atype m a = ARENA_TYPE_FREE)"
    using assms(1) by auto
  ultimately show ?thesis using assms(2) by (simp add: arena_ok_def arena_inv_def)
qed

text \<open>Where a new region goes among the blocks.\<close>

lemma region_position:
  assumes inv: "arena_inv m as fs" and r: "{unat fp..<unat fp + n} \<inter> owned m as = {}" "0 < n"
  obtains xs ys where "as = xs @ ys" "\<forall>x \<in> set xs. x < fp \<and> block_end m x \<le> unat fp"
    "\<forall>y \<in> set ys. \<not> y < fp \<and> unat fp + n \<le> unat y"
proof -
  define xs where "xs = takeWhile (\<lambda>a. a < fp) as"
  define ys where "ys = dropWhile (\<lambda>a. a < fp) as"
  have as: "as = xs @ ys" by (simp add: xs_def ys_def)
  have out: "x \<notin> {unat fp..<unat fp + n}" if "x \<in> {unat a..<block_end m a}" "a \<in> set as" for x a
    using that r(1) unfolding owned_def by blast
  have "block_end m x \<le> unat fp" if "x \<in> set xs" for x
  proof -
    have "x < fp" using that unfolding xs_def by (rule set_takeWhileD [THEN conjunct2])
    then have "unat x < unat fp" by (simp add: word_less_nat_alt)
    then show ?thesis using out [of "unat fp" x] that as r(2) by (cases "unat fp < block_end m x") auto
  qed
  moreover have "\<forall>x \<in> set xs. x < fp" by (auto simp: xs_def dest: set_takeWhileD)
  moreover have low: "\<not> y < fp" if y: "y \<in> set ys" for y
  proof -
    obtain z zs where ys: "ys = z # zs" using y by (cases ys) auto
    then have "\<not> z < fp" by (metis ys_def hd_dropWhile list.sel(1) list.distinct(1))
    moreover have "y = z \<or> unat z < unat y"
      using y inv as ys arena_invD(6) [OF inv, of z]
      by (auto simp: arena_inv_def laid_out_def sorted_wrt_append)
    ultimately show ?thesis by (auto simp: word_less_nat_alt)
  qed
  moreover have "unat fp + n \<le> unat y" if "y \<in> set ys" for y
    using out [of "unat y" y] that as arena_invD(6) [OF inv, of y] low [OF that] by (auto simp: word_less_nat_alt)
  ultimately show thesis using as by (intro that [of xs ys]) auto
qed

lemma malloc_add_ok:
  assumes ok: "arena_ok m as fs"
    and n: "32 \<le> unat (n AND NOT 0xFFFF)" and fp: "32 \<le> unat fp" "unat fp + unat (n AND NOT 0xFFFF) < 2 ^ 32"
    and r: "{unat fp..<unat fp + unat (n AND NOT 0xFFFF)} \<inter> owned m as = {}"
    and h: "unat (malloc_head m) \<notin> {unat fp..<unat fp + unat (n AND NOT 0xFFFF)}"
  obtains m' as' fs' where "malloc_add fp n m = Some m'" "arena_ok m' as' fs'"
    "owned m' as' = owned m as \<union> {unat fp..<unat fp + unat (n AND NOT 0xFFFF)}"
    "used_blocks m' as' = used_blocks m as"
proof -
  let ?n = "n AND NOT 0xFFFF"
  have inv: "arena_inv m as fs" and ap: "successively (apart m) as" using ok by (simp_all add: arena_ok_def)
  obtain xs ys where as: "as = xs @ ys" and xs: "\<forall>x \<in> set xs. x < fp \<and> block_end m x \<le> unat fp"
    and ys: "\<forall>y \<in> set ys. \<not> y < fp \<and> unat fp + unat ?n \<le> unat y"
    using region_position [OF inv r] n by auto
  have fresh: "fp \<notin> set as" "fp \<noteq> malloc_head m"
    using xs ys n h as by auto
  have ring: "ring (anext m) (aprev m) (malloc_head m) (xs @ ys)"
    and hd: "atype m (malloc_head m) = ARENA_TYPE_HEAD"
    and types: "\<forall>a \<in> set as. atype m a = ARENA_TYPE_USED \<or> atype m a = ARENA_TYPE_FREE"
    using inv as by (simp_all add: arena_inv_def)
  define pah where "pah = last (malloc_head m # xs)"
  define m1 where "m1 = m\<lparr>atype := (atype m)(fp := ARENA_TYPE_FREE), asize := (asize m)(fp := ?n)\<rparr>"
  define m2 where "m2 = m1\<lparr>anext := (anext m)(fp := anext m pah, pah := fp),
      aprev := (aprev m)(fp := pah, anext m pah := fp)\<rparr>"
  define m0 where "m0 = m2\<lparr>atype := (atype m2)(fp := ARENA_TYPE_USED)\<rparr>"
  have "malloc_add_pred fp (aprev m1 (malloc_head m1)) m1 = Some pah"
  proof -
    have m1: "malloc_head m1 = malloc_head m" "aprev m1 = aprev m"
        "\<And>a. a \<noteq> fp \<Longrightarrow> atype m1 a = atype m a"
      by (simp_all add: m1_def)
    have "atype m1 (malloc_head m1) = ARENA_TYPE_HEAD" using hd fresh(2) by (simp add: m1)
    moreover have "\<forall>a \<in> set (xs @ ys). atype m1 a \<noteq> ARENA_TYPE_HEAD"
      using arena_invD(5) [OF inv] fresh(1) as m1(3) by metis
    ultimately show ?thesis
      using malloc_add_pred_walks [of "anext m" m1 xs ys "[]" fp] ring xs ys ring_head [OF ring]
      unfolding m1(1,2) pah_def by (simp only: append_Nil2) blast
  qed
  then have result: "malloc_add fp n m = Some (snd (free_block fp m2))"
    by (simp add: malloc_add_def Let_def m1_def m2_def)
  have pah: "pah \<in> set (malloc_head m # xs)" unfolding pah_def by (rule last_in_set) simp
  have "anext m pah = hd (ys @ [malloc_head m])"
  proof -
    have "linked (anext m) (aprev m) (malloc_head m) xs (hd (ys @ [malloc_head m]))"
      using ring by (cases ys) (auto simp: ring_def linked_append)
    from linked_last [OF this] show ?thesis by (simp add: pah_def)
  qed
  then have "anext m pah \<in> set (ys @ [malloc_head m])" by (cases ys) simp_all
  then have d: "anext m pah \<noteq> fp" "pah \<noteq> fp" using pah fresh as by auto
  have "ring ((anext m)(fp := anext m pah, pah := fp)) ((aprev m)(anext m pah := fp, fp := pah)) (malloc_head m) (xs @ fp # ys)"
    by (rule ring_insert [OF ring]) (use fresh as in \<open>auto simp: pah_def\<close>)
  then have ring0: "ring (anext m0) (aprev m0) (malloc_head m0) (xs @ fp # ys)"
    using d by (simp add: m0_def m2_def m1_def fun_upd_twist)
  have e: "is_free m0 a = is_free m a" "asize m0 a = asize m a" "block_end m0 a = block_end m a" if "a \<noteq> fp" for a
    using that by (simp_all add: is_free_def block_end_def m0_def m2_def m1_def)
  have s: "asize m0 fp = ?n" "block_end m0 fp = unat fp + unat ?n" "\<not> is_free m0 fp" "malloc_head m0 = malloc_head m"
    by (simp_all add: is_free_def block_end_def m0_def m2_def m1_def)
  have ne: "a \<noteq> fp" if "a \<in> set xs \<union> set ys" for a using that fresh(1) as by auto
  have owned0: "owned m0 (xs @ fp # ys) = owned m as \<union> {unat fp..<unat fp + unat ?n}"
    using ne by (auto simp: owned_def e s as)
  have laid: "laid_out m0 (xs @ fp # ys)"
  proof -
    have "laid_out m0 (xs @ ys)"
      using inv ne as by (subst laid_out_cong [of _ m]) (auto simp: arena_inv_def e s)
    moreover have "unat (malloc_head m0) \<notin> owned m0 (xs @ fp # ys)"
      using inv h unfolding owned0 s(4) by (auto simp: arena_inv_def laid_out_def)
    ultimately show ?thesis
      using xs ys n fp ne by (auto simp: laid_out_def sorted_wrt_append e s)
  qed
  have "set fs = {a \<in> set (xs @ fp # ys). is_free m0 a}"
    using inv as ne s(3) by (auto simp: arena_inv_def e)
  moreover have "next_free m0 = next_free m" "prev_free m0 = prev_free m"
    "atype m0 = (atype m)(fp := ARENA_TYPE_USED)"
    by (simp_all add: m0_def m2_def m1_def)
  ultimately have "arena_inv m0 (xs @ fp # ys) fs"
    using inv ring0 laid fresh types as by (auto simp: arena_inv_def s(4))
  moreover have "successively (apart m0) (xs @ fp # ys)"
  proof -
    have "successively (apart m0) xs" "successively (apart m0) ys"
      using ap as ne
      by (subst successively_apart_cong [of _ _ m]; auto simp: e successively_append_iff dest: in_set_butlastD)+
    then show ?thesis using apart_used [OF s(3)] unfolding successively_append_iff successively_Cons by auto
  qed
  ultimately have ok0: "arena_ok m0 (xs @ fp # ys) fs" by (simp add: arena_ok_def)
  have used0: "(used_blocks m0 (xs @ fp # ys))(fp := None) = used_blocks m as"
    using ne fresh(1) as by (auto simp: used_blocks_def e fun_eq_iff)
  obtain as' fs' where f: "arena_ok (snd (free_block fp m0)) as' fs'"
      "owned (snd (free_block fp m0)) as' = owned m as \<union> {unat fp..<unat fp + unat ?n}"
      "used_blocks (snd (free_block fp m0)) as' = used_blocks m as"
    using free_block_ok [OF ok0, of fp] s(3) owned0 used0 by auto
  have head: "malloc_head (snd (free_block fp m2)) \<noteq> fp"
    using fresh(2) by (simp add: free_block_head m2_def m1_def)
  have "arena_ok (snd (free_block fp m2)) as' fs' \<and>
      owned (snd (free_block fp m2)) as' = owned (snd (free_block fp m0)) as' \<and>
      used_blocks (snd (free_block fp m2)) as' = used_blocks (snd (free_block fp m0)) as'"
  proof -
    have links: "aprev m2 fp \<noteq> fp" "anext m2 fp \<noteq> fp" using d by (simp_all add: m2_def)
    show ?thesis
    using free_block_mark [OF links]
  proof
    assume "snd (free_block fp (m2\<lparr>atype := (atype m2)(fp := ARENA_TYPE_USED)\<rparr>)) = snd (free_block fp m2)"
    then show ?thesis using f by (simp add: m0_def)
  next
    assume eq: "snd (free_block fp (m2\<lparr>atype := (atype m2)(fp := ARENA_TYPE_USED)\<rparr>)) =
      (snd (free_block fp m2))\<lparr>atype := (atype (snd (free_block fp m2)))(fp := ARENA_TYPE_USED)\<rparr>"
    have "used_blocks m as fp = None" using fresh(1) by (simp add: used_blocks_def)
    then have "fp \<notin> set as'"
      unfolding f(3) [symmetric] m0_def eq by (auto simp: used_blocks_def is_free_def split: if_splits)
    then show ?thesis
      using f(1) head arena_ok_atype [of fp as' "snd (free_block fp m2)"] unfolding m0_def eq
      by (auto simp: owned_def block_end_def used_blocks_def is_free_def fun_eq_iff)
  qed
  qed
  then show thesis using that [OF result] f by auto
qed

section \<open>What a client of the allocator sees\<close>

text \<open>A history of calls, with the state \<open>m\<close> of the allocator, the blocks in use \<open>U\<close> (start of the
  header and size) and the memory \<open>O\<close> handed to it, by address. The rules say what a client
  must do: regions of \<^const>\<open>malloc_add\<close> are new and at least 64 KB, requests stay 64 bytes below
  \<open>2^32\<close>, only blocks in use are freed.\<close>

inductive session :: "arena \<Rightarrow> (u32 \<rightharpoonup> nat) \<Rightarrow> nat set \<Rightarrow> bool" where
  start: "session (empty_arena h) Map.empty {}"
| add: "session m U R \<Longrightarrow> 32 \<le> unat fp \<Longrightarrow> unat fp + unat (n AND NOT 0xFFFF) < 2 ^ 32 \<Longrightarrow>
    n AND NOT 0xFFFF \<noteq> 0 \<Longrightarrow> region = {unat fp..<unat fp + unat (n AND NOT 0xFFFF)} \<Longrightarrow>
    region \<inter> R = {} \<Longrightarrow> unat (malloc_head m) \<notin> region \<Longrightarrow>
    malloc_add fp n m = Some m' \<Longrightarrow> session m' U (R \<union> region)"
| alloc: "session m U R \<Longrightarrow> unat n < 2 ^ 32 - 64 \<Longrightarrow> malloc n m = Some (p, m') \<Longrightarrow> p \<noteq> 0 \<Longrightarrow>
    session m' (U(p - 16 \<mapsto> unat (asize m' (p - 16)))) R"
| alloc_fails: "session m U R \<Longrightarrow> malloc n m = Some (0, m') \<Longrightarrow> unat n < 2 ^ 32 - 64 \<Longrightarrow> session m' U R"
| release: "session m U R \<Longrightarrow> p - 16 \<in> dom U \<Longrightarrow> session (free p m) (U(p - 16 := None)) R"
| release_null: "session m U R \<Longrightarrow> session (free 0 m) U R"

lemma chunk_mask_nat: "unat (n AND NOT 0xFFFF :: u32) = unat n div 65536 * 65536"
proof -
  have "n AND NOT 0xFFFF = push_bit 16 (drop_bit 16 n)"
    unfolding mask_numerals by (rule bit_word_eqI) (auto simp: bit_simps)
  then have "unat (n AND NOT 0xFFFF) = unat n div 65536 * 65536 mod 2 ^ 32"
    by (simp add: push_bit_eq_mult unat_word_ariths unat_drop_bit)
  moreover have "unat n div 65536 * 65536 < 4294967296"
    by (rule le_less_trans [OF div_times_less_eq_dividend unat_u32_less])
  ultimately show ?thesis by (simp only: mod_less) simp
qed

text \<open>The pointer a client gets is never NULL on success.\<close>

lemma free_block_pointer:
  assumes "arena_inv m as fs" "a \<in> set as"
  shows "a + 16 \<noteq> 0" "unat (a + 16) = unat a + 16"
proof -
  show *: "unat (a + 16) = unat a + 16"
    using arena_invD(2,3) [OF assms] by (subst add_no_wrap) (simp_all add: block_end_def)
  then show "a + 16 \<noteq> 0" by (metis add_is_0 unsigned_0 zero_neq_numeral)
qed

lemma used_blockD:
  assumes "arena_inv m as fs" "used_blocks m as a = Some k"
  shows "a \<in> set as" "\<not> is_free m a" "k = unat (asize m a)"
  using assms(2) by (auto simp: used_blocks_def split: if_splits)

lemma free_blocks_not_used: "is_free m a \<Longrightarrow> used_blocks m as a = None"
  by (simp add: used_blocks_def)

text \<open>A successful \<^const>\<open>malloc\<close> in terms of the abstraction.\<close>

lemma malloc_ok:
  assumes ok: "arena_ok m as fs" and n: "n \<noteq> 0" "unat n < 2 ^ 32 - 64"
    and f: "find (\<lambda>a. arena_round n \<le> asize m a) fs = Some a"
  obtains m' as' fs' sz where "malloc n m = Some (a + 16, m')" "arena_ok m' as' fs'"
    "owned m' as' = owned m as" "used_blocks m' as' = (used_blocks m as)(a \<mapsto> sz)"
    "unat n + 16 \<le> sz" "sz < unat n + 64" "asize m' a = of_nat sz" "sz = unat (asize m' a)"
    "malloc_head m' = malloc_head m"
proof -
  have inv: "arena_inv m as fs" using ok by (simp add: arena_ok_def)
  have a: "a \<in> set fs" "arena_round n \<le> asize m a" using find_SomeD [OF f] by simp_all
  note r = arena_round_bounds [of n]
  have small: "unat n < 2 ^ 32 - 31" using n(2) by simp
  have result: "malloc n m = Some (malloc_from_block a (arena_round n) m)"
    using malloc_first_fit [OF inv n(1)] f by simp
  obtain as' fs' sz where s: "fst (malloc_from_block a (arena_round n) m) = a + 16"
    "arena_ok (snd (malloc_from_block a (arena_round n) m)) as' fs'"
    "owned (snd (malloc_from_block a (arena_round n) m)) as' = owned m as"
    "used_blocks (snd (malloc_from_block a (arena_round n) m)) as' = (used_blocks m as)(a \<mapsto> sz)"
    "unat (arena_round n) \<le> sz" "sz < unat (arena_round n) + 32" "sz \<le> unat (asize m a)"
    "asize (snd (malloc_from_block a (arena_round n) m)) a = of_nat sz"
    "malloc_head (snd (malloc_from_block a (arena_round n) m)) = malloc_head m"
  proof (rule malloc_from_block_ok [OF ok a(1) _ a(2)])
    show "32 \<le> unat (arena_round n)" by (rule r(4) [OF small n(1)])
    show "unat (arena_round n) + 32 < 2 ^ 32" using r(3) [OF small] n(2) by simp
  qed (rule that)
  have sz: "sz = unat (of_nat sz :: u32)"
  proof -
    have "sz < 4294967296" using s(7) le_less_trans unat_u32_less by blast
    then show ?thesis by (simp add: unat_of_nat_u32)
  qed
  have "malloc n m = Some (a + 16, snd (malloc_from_block a (arena_round n) m))"
    using result s(1) by (metis prod.collapse)
  from that [OF this s(2,3,4) _ _ s(8) _ s(9)] show thesis
    using r(2,3) [OF small] s(5,6) sz unfolding s(8) by linarith
qed

lemma malloc_none:
  assumes "arena_ok m as fs" "n = 0 \<or> find (\<lambda>a. arena_round n \<le> asize m a) fs = None"
  shows "malloc n m = Some (0, m)"
proof (cases "n = 0")
  case False
  then show ?thesis using assms malloc_first_fit [of m as fs n] by (simp add: arena_ok_def)
qed (simp add: malloc_def)

lemma session_arena_ok:
  "session m U R \<Longrightarrow> \<exists>as fs. arena_ok m as fs \<and> used_blocks m as = U \<and> owned m as = R"
proof (induction rule: session.induct)
  case (start h)
  then show ?case using empty_arena_ok by (fastforce simp: used_blocks_def owned_def)
next
  case (add m U R fp n region m')
  then obtain as fs where ok: "arena_ok m as fs" and U: "used_blocks m as = U" and R: "owned m as = R" by blast
  have "32 \<le> unat (n AND NOT 0xFFFF)"
  proof -
    have "unat (n AND NOT 0xFFFF) \<noteq> 0" using add.hyps by (simp add: unat_eq_0)
    then show ?thesis unfolding chunk_mask_nat by simp
  qed
  from malloc_add_ok [OF ok this add.hyps(2,3)] show ?case
    using add.hyps(5-8) U R by (metis option.inject)
next
  case (alloc m U R n p m')
  then obtain as fs where ok: "arena_ok m as fs" and U: "used_blocks m as = U" and R: "owned m as = R" by blast
  have n: "n \<noteq> 0" and f: "find (\<lambda>a. arena_round n \<le> asize m a) fs \<noteq> None"
    using malloc_none [OF ok, of n] alloc.hyps by auto
  then obtain a where a: "find (\<lambda>a. arena_round n \<le> asize m a) fs = Some a" by auto
  from malloc_ok [OF ok n alloc.hyps(2) a] show ?case
    using alloc.hyps(3) U R by (metis add_diff_cancel_right' option.inject prod.inject)
next
  case (alloc_fails m U R n m')
  then obtain as fs where ok: "arena_ok m as fs" and U: "used_blocks m as = U" and R: "owned m as = R" by blast
  show ?case
  proof (cases "n = 0 \<or> find (\<lambda>a. arena_round n \<le> asize m a) fs = None")
    case True
    then show ?thesis using malloc_none [OF ok True] alloc_fails.hyps ok U R by auto
  next
    case False
    then obtain a where n: "n \<noteq> 0" and a: "find (\<lambda>a. arena_round n \<le> asize m a) fs = Some a" by auto
    have "a \<in> set as" using find_SomeD [OF a] ok by (auto simp: arena_ok_def arena_inv_def)
    then have "a + 16 \<noteq> 0" using free_block_pointer(1) ok by (auto simp: arena_ok_def)
    moreover obtain m'' where "malloc n m = Some (a + 16, m'')"
      using malloc_ok [OF ok n alloc_fails.hyps(3) a] by metis
    ultimately show ?thesis using alloc_fails.hyps(2) by simp
  qed
next
  case (release m U R p)
  then obtain as fs where ok: "arena_ok m as fs" and U: "used_blocks m as = U" and R: "owned m as = R" by blast
  have a: "p - 16 \<in> set as" "\<not> is_free m (p - 16)"
    using release.hyps ok U used_blockD [of m as fs "p - 16"] by (auto simp: arena_ok_def)
  have "p - 16 + 16 \<noteq> 0" by (rule free_block_pointer(1) [of m as fs, OF _ a(1)]) (use ok in \<open>simp add: arena_ok_def\<close>)
  then have "free p m = snd (free_block (p - 16) m)" by (simp add: free_def)
  then show ?case using free_block_ok [OF ok a] U R by metis
next
  case (release_null m U R)
  then show ?case by (simp add: free_def)
qed

text \<open>A block that is not merged into the one before it is the first of the free chain after its
  release, so the next request that fits gets it.\<close>

lemma free_block_first:
  assumes ok: "arena_ok m as fs" and a: "a \<in> set as" "\<not> is_free m a"
    and prev: "\<not> (atype m (aprev m a) = ARENA_TYPE_FREE \<and> aprev m a + asize m (aprev m a) = a)"
  shows "\<exists>as' fs'. arena_inv (snd (free_block a m)) as' (a # fs') \<and> asize m a \<le> asize (snd (free_block a m)) a"
proof -
  have inv: "arena_inv m as fs" using ok by (simp add: arena_ok_def)
  define m1 where "m1 = m\<lparr>atype := (atype m)(a := ARENA_TYPE_FREE),
    next_free := (next_free m)(a := next_free m (malloc_head m), malloc_head m := a),
    prev_free := (prev_free m)(a := malloc_head m, next_free m (malloc_head m) := a)\<rparr>"
  have step: "free_into_prev a m = (a, m1)"
    using prev by (simp only: free_into_prev_def Let_def m1_def if_False)
  have inv1: "arena_inv m1 as (a # fs)" by (rule mark_free_inv(1) [OF inv a m1_def])
  obtain xs ys where as: "as = xs @ a # ys" using a(1) by (auto simp: in_set_conv_decomp)
  have nah: "anext m a = hd (ys @ [malloc_head m])"
    using ring_next(1) inv as by (fastforce simp: arena_inv_def)
  show ?thesis
  proof (cases "atype m1 (anext m a) = ARENA_TYPE_FREE \<and> a + asize m1 a = anext m a")
    case False
    then have "snd (free_block a m) = m1" by (simp only: free_block_def Let_def step prod.case if_False snd_conv)
    then show ?thesis using inv1 by (auto simp: m1_def)
  next
    case True
    have "malloc_head m1 = malloc_head m" by (simp add: m1_def)
    then have "ys \<noteq> []" using True nah inv1 by (auto simp: arena_inv_def)
    then obtain b zs where ys: "ys = b # zs" "anext m a = b" using nah by (cases ys) auto
    note c = True [unfolded ys(2)]
    have inv2: "arena_inv m1 (xs @ a # b # zs) (a # fs)" using inv1 as ys(1) by simp
    have ab: "a \<noteq> b" using inv2 by (auto simp: arena_inv_def ring_def)
    have "b \<in> set (a # fs)" using inv2 c by (simp add: arena_inv_def is_free_def)
    then obtain us vs where fs: "fs = us @ b # vs" using ab by (auto simp: in_set_conv_decomp)
    have inv3: "arena_inv m1 (xs @ a # b # zs) ((a # us) @ b # vs)" using inv2 fs by simp
    have e: "block_end m1 a = unat b" using contiguous_iff [OF inv3, of a b] c by simp
    have t: "is_free m1 a" "is_free m1 b" using c by (simp_all add: is_free_def m1_def)
    define m2 where "m2 = remove_from_chains b (m1\<lparr>asize := (asize m1)(a := asize m1 a + asize m1 b)\<rparr>)"
    have r: "snd (free_block a m) = m2"
      by (simp only: free_block_def Let_def step prod.case m2_def ys(2) c if_True snd_conv simp_thms)
    have "unat (asize m1 a) + unat (asize m1 b) < 2 ^ 32"
      using arena_invD(3) [OF inv3, of b] e by (simp add: block_end_def)
    then have "asize m1 a \<le> asize m2 a"
      by (simp add: m2_def remove_from_chains_def remove_from_main_chain_def remove_from_free_chain_def
          Let_def word_le_nat_alt add_no_wrap)
    then show ?thesis
      using merge_free_inv(1) [OF inv3 e t m2_def] r by (auto simp: m1_def)
  qed
qed

lemma malloc_reuses_block:
  assumes "arena_ok m as fs" "used_blocks m as (p - 16) = Some k" "n \<noteq> 0" "arena_round n \<le> asize m (p - 16)"
    and "\<not> (atype m (aprev m (p - 16)) = ARENA_TYPE_FREE \<and> aprev m (p - 16) + asize m (aprev m (p - 16)) = p - 16)"
  shows "p \<noteq> 0 \<and> (\<exists>m'. malloc n (free p m) = Some (p, m'))"
proof -
  have inv: "arena_inv m as fs" using assms(1) by (simp add: arena_ok_def)
  note u = used_blockD [OF inv assms(2)]
  have p: "p \<noteq> 0" using free_block_pointer(1) [OF inv u(1)] by simp
  obtain as' fs' where f: "arena_inv (free p m) as' ((p - 16) # fs')" "asize m (p - 16) \<le> asize (free p m) (p - 16)"
    using free_block_first [OF assms(1) u(1,2) assms(5)] p by (auto simp: free_def)
  have "arena_round n \<le> asize (free p m) (p - 16)" using assms(4) f(2) by simp
  then have "malloc n (free p m) = Some (malloc_from_block (p - 16) (arena_round n) (free p m))"
    using malloc_first_fit [OF f(1) assms(3)] by simp
  moreover have "fst (malloc_from_block (p - 16) (arena_round n) (free p m)) = p"
    by (simp add: malloc_from_block_def Let_def)
  ultimately show ?thesis using p by (metis prod.collapse)
qed

text \<open>A sample: 64 KB at \<open>0x10000\<close>, the head node at \<open>0x1000\<close>.\<close>

definition sample_arena :: arena where
  "sample_arena = the (malloc_add 0x10000 0x10000 (empty_arena 0x1000))"

lemma malloc_add_pred_head: "atype m a = ARENA_TYPE_HEAD \<Longrightarrow> malloc_add_pred fp a m = Some a"
  by (subst malloc_add_pred.simps) simp

lemma sample_arena:
  "malloc_add 0x10000 0x10000 (empty_arena 0x1000) = Some sample_arena"
  "malloc_head sample_arena = 0x1000" "next_free sample_arena 0x1000 = 0x10000"
  "asize sample_arena 0x10000 = 0x10000" "atype sample_arena 0x10000 = 1" "prev_free sample_arena 0x10000 = 0x1000"
  by (simp_all add: sample_arena_def malloc_add_def empty_arena_def malloc_add_pred_head free_block_def
      free_into_prev_def Let_def)

lemma sample_arena_ok: "arena_ok sample_arena [0x10000] [0x10000]"
  by (simp add: sample_arena_def malloc_add_def empty_arena_def malloc_add_pred_head free_block_def
      free_into_prev_def Let_def arena_ok_def arena_inv_def ring_def laid_out_def owned_def block_end_def is_free_def)

lemma sample_session: "session sample_arena Map.empty {0x10000..<0x20000}"
proof -
  have "session (empty_arena 0x1000) Map.empty {}" by (rule session.start)
  from session.add [OF this, where fp = "0x10000" and n = "0x10000" and m' = sample_arena and
      region = "{0x10000..<0x20000}"] show ?thesis
    using sample_arena(1) by (simp add: empty_arena_def)
qed

text \<open>100 bytes taken from the sample.\<close>

definition sample_taken :: arena where
  "sample_taken = snd (the (malloc 100 sample_arena))"

lemma sample_taken: "malloc 100 sample_arena = Some (0x10010, sample_taken)"
  "asize sample_taken 0x10000 = 128" "sample_taken = snd (malloc_from_block 0x10000 128 sample_arena)"
proof -
  have "malloc 100 sample_arena = Some (malloc_from_block 0x10000 128 sample_arena)"
    using malloc_first_fit [of sample_arena "[0x10000]" "[0x10000]" 100] sample_arena_ok sample_arena
    by (simp add: arena_ok_def arena_round_def)
  then show "malloc 100 sample_arena = Some (0x10010, sample_taken)" "asize sample_taken 0x10000 = 128"
    "sample_taken = snd (malloc_from_block 0x10000 128 sample_arena)"
    by (simp_all add: sample_taken_def malloc_from_block_def Let_def sample_arena)
qed

section \<open>Properties\<close>

text \<open>
  C26. In every history of calls that respects the interface, the blocks a client holds are
  disjoint, lie within the memory handed to the allocator, and never cover the list head: a
  byte belongs to one owner.
\<close>

theorem session_blocks_disjoint:
  assumes "session m U R" "U a = Some k" "U b = Some l" "a \<noteq> b"
  shows "{unat a..<unat a + k} \<inter> {unat b..<unat b + l} = {} \<and>
    {unat a..<unat a + k} \<subseteq> R - {unat (malloc_head m)}"
proof -
  obtain as fs where ok: "arena_inv m as fs" and U: "used_blocks m as = U" and R: "owned m as = R"
    using session_arena_ok [OF assms(1)] by (auto simp: arena_ok_def)
  have a: "a \<in> set as" "k = unat (asize m a)" and b: "b \<in> set as" "l = unat (asize m b)"
    using assms(2,3) used_blockD [OF ok] U by auto
  have "block_end m a \<le> unat b \<or> block_end m b \<le> unat a"
  proof -
    obtain xs ys where as: "as = xs @ a # ys" using a(1) by (auto simp: in_set_conv_decomp)
    then show ?thesis using arena_inv_neighbours(1,2) [OF ok [unfolded as]] b(1) assms(4) by auto
  qed
  then have "{unat a..<unat a + k} \<inter> {unat b..<unat b + l} = {}"
    by (auto simp: block_end_def a(2) b(2))
  moreover have "{unat a..<unat a + k} \<subseteq> R - {unat (malloc_head m)}"
    using ok a unfolding R [symmetric] by (auto simp: arena_inv_def laid_out_def owned_def block_end_def)
  ultimately show ?thesis ..
qed

text \<open>Two requests of 100 bytes on the sample.\<close>

lemma sample_taken_session: "session sample_taken [0x10000 \<mapsto> 128] {0x10000..<0x20000}"
  using session.alloc [OF sample_session _ sample_taken(1)] by (simp add: sample_taken(2))

lemma sample_second: "\<exists>m. session m [0x10000 \<mapsto> 128, 0x10080 \<mapsto> 128] {0x10000..<0x20000}"
proof -
  have "next_free sample_taken (malloc_head sample_taken) = 0x10080" "atype sample_taken 0x10080 = 1"
    "asize sample_taken 0x10080 = 0xFF80"
    by (simp_all add: sample_taken(3) malloc_from_block_def Let_def sample_arena)
  then have s: "malloc 100 sample_taken = Some (malloc_from_block 0x10080 128 sample_taken)"
    unfolding malloc_def arena_round_def by (subst malloc_search.simps) simp
  obtain m where m: "malloc_from_block 0x10080 128 sample_taken = (0x10090, m)" "asize m 0x10080 = 128"
    using \<open>asize sample_taken 0x10080 = 0xFF80\<close> by (simp add: malloc_from_block_def Let_def)
  have "session m ([0x10000 \<mapsto> 128](0x10090 - 16 \<mapsto> unat (asize m (0x10090 - 16)))) {0x10000..<0x20000}"
    by (rule session.alloc [OF sample_taken_session]) (use s m in auto)
  then show ?thesis using m(2) by auto
qed

lemma session_blocks_disjoint_witness:
  "({0x10000..<0x10080} :: nat set) \<inter> {0x10080..<0x10100} = {} \<and>
   (\<exists>m. session m [0x10000 \<mapsto> 128, 0x10080 \<mapsto> 128] {0x10000..<0x20000} \<and>
     {0x10000..<0x10080} \<subseteq> {0x10000..<0x20000} - {unat (malloc_head m)})"
proof -
  obtain m where m: "session m [0x10000 \<mapsto> 128, 0x10080 \<mapsto> 128] {0x10000..<0x20000}"
    using sample_second by blast
  then show ?thesis using session_blocks_disjoint [OF m, of "0x10000" 128 "0x10080" 128] by auto
qed

text \<open>
  C27. \<open>malloc\<close> terminates on every reachable state and takes the first block of the free chain that
  is large enough for the request, its header and the rounding: the pointer is that block's, the block
  was not in use, holds the request and wastes less than 64 bytes, and all other blocks stay as they
  are. It returns NULL, without a change, exactly when no free block is large enough.
\<close>

theorem malloc_returns_fitting_block:
  assumes "arena_ok m as fs" "n \<noteq> 0" "unat n < 2 ^ 32 - 64"
  shows "\<exists>p m' as' fs'. malloc n m = Some (p, m') \<and> arena_ok m' as' fs' \<and> owned m' as' = owned m as \<and>
    (case find (\<lambda>a. (unat n + 31) div 16 * 16 \<le> unat (asize m a)) fs of
       None \<Rightarrow> p = 0 \<and> m' = m
     | Some a \<Rightarrow> p = a + 16 \<and> p \<noteq> 0 \<and> used_blocks m as a = None \<and>
       (\<exists>k. used_blocks m' as' = (used_blocks m as)(a \<mapsto> k) \<and> unat n + 16 \<le> k \<and> k < unat n + 64))"
proof -
  have "unat (arena_round n) = (unat n + 31) div 16 * 16" using assms(3) by (intro arena_round_bounds) simp
  then have fit: "((unat n + 31) div 16 * 16 \<le> unat (asize m a)) = (arena_round n \<le> asize m a)" for a
    by (simp add: word_le_nat_alt)
  show ?thesis unfolding fit
  proof (cases "find (\<lambda>a. arena_round n \<le> asize m a) fs")
    case None
    then show "\<exists>p m' as' fs'. malloc n m = Some (p, m') \<and> arena_ok m' as' fs' \<and> owned m' as' = owned m as \<and>
      (case find (\<lambda>a. arena_round n \<le> asize m a) fs of
         None \<Rightarrow> p = 0 \<and> m' = m
       | Some a \<Rightarrow> p = a + 16 \<and> p \<noteq> 0 \<and> used_blocks m as a = None \<and>
         (\<exists>k. used_blocks m' as' = (used_blocks m as)(a \<mapsto> k) \<and> unat n + 16 \<le> k \<and> k < unat n + 64))"
      using malloc_none [OF assms(1), of n] assms(1) by auto
  next
    case (Some a)
    have "arena_inv m as fs" "a \<in> set as" "is_free m a"
      using find_SomeD [OF Some] assms(1) by (auto simp: arena_ok_def arena_inv_def)
    then have "a + 16 \<noteq> 0" "used_blocks m as a = None"
      by (auto dest: free_block_pointer free_blocks_not_used)
    moreover obtain m' as' fs' sz where
      "malloc n m = Some (a + 16, m')" "arena_ok m' as' fs'" "owned m' as' = owned m as"
      "used_blocks m' as' = (used_blocks m as)(a \<mapsto> sz)" "unat n + 16 \<le> sz" "sz < unat n + 64"
      by (rule malloc_ok [OF assms Some])
    ultimately show "\<exists>p m' as' fs'. malloc n m = Some (p, m') \<and> arena_ok m' as' fs' \<and> owned m' as' = owned m as \<and>
      (case find (\<lambda>a. arena_round n \<le> asize m a) fs of
         None \<Rightarrow> p = 0 \<and> m' = m
       | Some a \<Rightarrow> p = a + 16 \<and> p \<noteq> 0 \<and> used_blocks m as a = None \<and>
         (\<exists>k. used_blocks m' as' = (used_blocks m as)(a \<mapsto> k) \<and> unat n + 16 \<le> k \<and> k < unat n + 64))"
      unfolding Some option.case by blast
  qed
qed

lemma malloc_returns_fitting_block_witness:
  "\<exists>m' as' fs'. malloc 100 sample_arena = Some (0x10010, m') \<and> arena_ok m' as' fs' \<and>
     (\<exists>k. used_blocks m' as' = [0x10000 \<mapsto> k] \<and> 116 \<le> k \<and> k < 164)"
proof -
  have "used_blocks sample_arena [0x10000] = Map.empty"
    by (auto simp: used_blocks_def is_free_def sample_arena)
  then show ?thesis
    using malloc_returns_fitting_block [OF sample_arena_ok, of 100] by (auto simp: sample_arena)
qed

text \<open>
  C28. \<open>free\<close> gives back exactly the block of the pointer: the other blocks and the memory of the
  arena stay as they are, and free neighbours are merged again.
\<close>

theorem free_releases_block:
  assumes "arena_ok m as fs" "used_blocks m as (p - 16) = Some k"
  shows "\<exists>as' fs'. arena_ok (free p m) as' fs' \<and> owned (free p m) as' = owned m as \<and>
    used_blocks (free p m) as' = (used_blocks m as)(p - 16 := None)"
proof -
  have a: "p - 16 \<in> set as" "\<not> is_free m (p - 16)"
    using assms used_blockD by (auto simp: arena_ok_def)
  have "p - 16 + 16 \<noteq> 0" by (rule free_block_pointer(1) [of m as fs, OF _ a(1)]) (use assms(1) in \<open>simp add: arena_ok_def\<close>)
  then have "free p m = snd (free_block (p - 16) m)" by (simp add: free_def)
  then show ?thesis using free_block_ok [OF assms(1) a] by metis
qed

lemma free_releases_block_witness:
  "\<exists>as' fs'. arena_ok (free 0x10010 sample_taken) as' fs' \<and>
     used_blocks (free 0x10010 sample_taken) as' = Map.empty"
proof -
  obtain as fs where ok: "arena_ok sample_taken as fs" "used_blocks sample_taken as = [0x10000 \<mapsto> 128]"
    using session_arena_ok [OF sample_taken_session] by blast
  show ?thesis using free_releases_block [OF ok(1), of "0x10010" 128] by (simp add: ok(2)) blast
qed

text \<open>
  C29. A request within 31 bytes of \<open>2^32\<close> overflows when the header is added: the allocator
  reports success and returns the first free block, cut down to less than 64 bytes. In the upper
  half of that range, where the block is split, the links of the split block are read back from the
  header just laid over them: \<open>malloc\<close> stores the new header's address through the pointers 1 (the type)
  and the size of the remainder, and the block it hands out stays at the head of the free chain, unless
  the second wild pointer is the head itself.
\<close>

theorem malloc_huge_request_overflows:
  assumes "arena_ok m as (a # fs)" "2 ^ 32 - 31 \<le> unat n"
  shows "\<exists>m'. malloc n m = Some (a + 16, m') \<and> a + 16 \<noteq> 0 \<and> unat (asize m' a) < 64 \<and>
    (2 ^ 32 - 15 \<le> unat n \<and> 48 \<le> unat (asize m a) \<longrightarrow>
       unat (asize m' a) = 16 \<and> prev_free m' 1 = a + 16 \<and> next_free m' (asize m a - 16) = a + 16 \<and>
       (malloc_head m \<noteq> asize m a - 16 \<longrightarrow> next_free m' (malloc_head m) = a))"
proof -
  have inv: "arena_inv m as (a # fs)" using assms(1) by (simp add: arena_ok_def)
  then have a: "a \<in> set as" by (auto simp: arena_inv_def)
  note d = arena_invD(2) [OF inv a] free_block_pointer(1) [OF inv a]
  have "n \<noteq> 0" using assms(2) by auto
  note n = arena_round_huge [OF assms(2)]
  have r: "malloc n m = Some (malloc_from_block a (arena_round n) m)"
    using malloc_first_fit [OF inv \<open>n \<noteq> 0\<close>] n(1) d(1) by (simp add: word_le_nat_alt)
  have n32: "unat (arena_round n + 32) = unat (arena_round n) + 32"
    using n(1) by (subst add_no_wrap) simp_all
  let ?m = "snd (malloc_from_block a (arena_round n) m)"
  have "unat (asize ?m a) < 64"
    using n(1) n32 by (auto simp: malloc_from_block_def Let_def remove_from_free_chain_def word_le_nat_alt)
  moreover have "fst (malloc_from_block a (arena_round n) m) = a + 16"
    by (simp add: malloc_from_block_def Let_def)
  moreover have "unat (asize ?m a) = 16 \<and> prev_free ?m 1 = a + 16 \<and> next_free ?m (asize m a - 16) = a + 16 \<and>
      (malloc_head m \<noteq> asize m a - 16 \<longrightarrow> next_free ?m (malloc_head m) = a)"
    if big: "2 ^ 32 - 15 \<le> unat n \<and> 48 \<le> unat (asize m a)"
  proof -
    have 16: "arena_round n = 16" using big n(2) by blast
    have "48 \<le> asize m a" using big by (simp add: word_le_nat_alt)
    moreover have "a \<noteq> malloc_head m" by (rule arena_invD(4) [OF inv a])
    moreover have "a + 16 \<noteq> malloc_head m"
    proof -
      obtain xs ys where "as = xs @ a # ys" using a by (auto simp: in_set_conv_decomp)
      then show ?thesis
        using inside_fresh(2) [of m xs a ys "a # fs" "a + 16"] inv free_block_pointer(2) [OF inv a] big
        by (simp add: block_end_def)
    qed
    moreover have "next_free m (malloc_head m) = a"
      using inv ring_head [of "next_free m" "prev_free m" "malloc_head m" "a # fs"] by (simp add: arena_inv_def)
    ultimately show ?thesis by (simp add: 16 malloc_from_block_def Let_def)
  qed
  ultimately show ?thesis using r d(2) by (metis prod.collapse)
qed

lemma malloc_huge_request_overflows_witness:
  "\<exists>m'. malloc 0xFFFFFFF1 sample_arena = Some (0x10010, m') \<and> unat (asize m' 0x10000) = 16 \<and>
     prev_free m' 1 = 0x10010 \<and> next_free m' 0xFFF0 = 0x10010 \<and> next_free m' 0x1000 = 0x10000"
  using malloc_huge_request_overflows [OF sample_arena_ok, of "0xFFFFFFF1"] by (auto simp: sample_arena)

end
