(* ===== verification/Cmem.thy ===== *)
theory Cmem
  imports Prelude
begin

text \<open>
  The memory and string functions of \<^verbatim>\<open>Firmware_Common/klibc\<close> on the machine's memory, a
  function from 32 bit addresses to bytes. A loop that counts down a \<open>size_t\<close> recurses on the
  count; one that runs to the terminating NUL need not end and is a partial function. The
  branches for x86 processors are not part of the target. \<open>memset\<close> is that of \<^verbatim>\<open>memset.c\<close>; the
  Makefile of the library builds \<^verbatim>\<open>memset_asm.s\<close> in its place, which stores the same bytes.
\<close>

type_synonym mem = "u32 \<Rightarrow> u8"

section \<open>memcpy, memmove, memset, memcmp\<close>

text \<open>The loops \<open>while (n--) *q++ = *p++\<close> and \<open>while (n--) *--q = *--p\<close>.\<close>

primrec copy_up :: "nat \<Rightarrow> u32 \<Rightarrow> u32 \<Rightarrow> mem \<Rightarrow> mem" where
  "copy_up 0 q p m = m"
| "copy_up (Suc n) q p m = copy_up n (q + 1) (p + 1) (m(q := m p))"

primrec copy_down :: "nat \<Rightarrow> u32 \<Rightarrow> u32 \<Rightarrow> mem \<Rightarrow> mem" where
  "copy_down 0 q p m = m"
| "copy_down (Suc n) q p m = copy_down n (q - 1) (p - 1) (m(q - 1 := m (p - 1)))"

definition memcpy :: "u32 \<Rightarrow> u32 \<Rightarrow> u32 \<Rightarrow> mem \<Rightarrow> u32 \<times> mem" where
  "memcpy dst src n m = (dst, copy_up (unat n) dst src m)"

definition memmove :: "u32 \<Rightarrow> u32 \<Rightarrow> u32 \<Rightarrow> mem \<Rightarrow> u32 \<times> mem" where
  "memmove dst src n m =
     (dst, if dst < src then copy_up (unat n) dst src m else copy_down (unat n) (dst + n) (src + n) m)"

primrec fill :: "nat \<Rightarrow> u32 \<Rightarrow> u8 \<Rightarrow> mem \<Rightarrow> mem" where
  "fill 0 q c m = m"
| "fill (Suc n) q c m = fill n (q + 1) c (m(q := c))"

definition memset :: "u32 \<Rightarrow> u32 \<Rightarrow> u32 \<Rightarrow> mem \<Rightarrow> u32 \<times> mem" where
  "memset dst c n m = (dst, fill (unat n) dst (ucast c) m)"

primrec compare_up :: "nat \<Rightarrow> u32 \<Rightarrow> u32 \<Rightarrow> mem \<Rightarrow> int" where
  "compare_up 0 p q m = 0"
| "compare_up (Suc n) p q m =
     (let d = uint (m p) - uint (m q) in if d \<noteq> 0 then d else compare_up n (p + 1) (q + 1) m)"

definition memcmp :: "u32 \<Rightarrow> u32 \<Rightarrow> u32 \<Rightarrow> mem \<Rightarrow> int" where
  "memcmp s1 s2 n m = compare_up (unat n) s1 s2 m"

section \<open>String functions\<close>

partial_function (option) strlen_from :: "u32 \<Rightarrow> mem \<Rightarrow> u32 \<Rightarrow> u32 option" where
  [code]: "strlen_from s m ss = (if m ss \<noteq> 0 then strlen_from s m (ss + 1) else Some (ss - s))"

definition strlen :: "u32 \<Rightarrow> mem \<Rightarrow> u32 option" where
  "strlen s m = strlen_from s m s"

partial_function (option) strchr :: "u32 \<Rightarrow> u32 \<Rightarrow> mem \<Rightarrow> u32 option" where
  [code]: "strchr s c m =
     (if m s \<noteq> ucast c then (if m s = 0 then Some 0 else strchr (s + 1) c m) else Some s)"

partial_function (option) strcmp :: "u32 \<Rightarrow> u32 \<Rightarrow> mem \<Rightarrow> int option" where
  [code]: "strcmp c1 c2 m =
     (if uint (m c1) - uint (m c2) \<noteq> 0 \<or> m c1 = 0 then Some (uint (m c1) - uint (m c2))
      else strcmp (c1 + 1) (c2 + 1) m)"

partial_function (option) strcpy_loop :: "u32 \<Rightarrow> u32 \<Rightarrow> mem \<Rightarrow> mem option" where
  [code]: "strcpy_loop q p m =
     (if m p \<noteq> 0 then strcpy_loop (q + 1) (p + 1) (m(q := m p)) else Some (m(q := m p)))"

definition strcpy :: "u32 \<Rightarrow> u32 \<Rightarrow> mem \<Rightarrow> (u32 \<times> mem) option" where
  "strcpy dst src m = map_option (\<lambda>m. (dst, m)) (strcpy_loop dst src m)"

definition strcat :: "u32 \<Rightarrow> u32 \<Rightarrow> mem \<Rightarrow> (u32 \<times> mem) option" where
  "strcat dst src m =
     (case strchr dst 0 m of None \<Rightarrow> None
      | Some q \<Rightarrow> map_option (\<lambda>r. (dst, snd r)) (strcpy q src m))"

primrec strncat_loop :: "nat \<Rightarrow> u32 \<Rightarrow> u32 \<Rightarrow> mem \<Rightarrow> mem" where
  "strncat_loop 0 q p m = m(q := 0)"
| "strncat_loop (Suc n) q p m =
     (let ch = m p; m = m(q := ch) in if ch = 0 then m else strncat_loop n (q + 1) (p + 1) m)"

definition strncat :: "u32 \<Rightarrow> u32 \<Rightarrow> u32 \<Rightarrow> mem \<Rightarrow> (u32 \<times> mem) option" where
  "strncat dst src n m = map_option (\<lambda>q. (dst, strncat_loop (unat n) q src m)) (strchr dst 0 m)"

section \<open>Ranges of addresses\<close>

text \<open>The \<open>n\<close> addresses from \<open>a\<close> on, modulo \<open>2^32\<close>.\<close>

definition span :: "u32 \<Rightarrow> nat \<Rightarrow> u32 set" where
  "span a n = {x. unat (x - a) < n}"

lemma unat_diff_Suc:
  fixes x q :: u32
  assumes "x \<noteq> q"
  shows "unat (x - q) = Suc (unat (x - (q + 1)))"
proof -
  have "unat (x - q - 1) = unat (x - q) - 1" by (rule unat_minus_one) (use assms in simp)
  moreover have "unat (x - q) \<noteq> 0" using assms by (simp add: unat_eq_0)
  ultimately show ?thesis unfolding diff_diff_eq [symmetric] by linarith
qed

lemma not_in_span_next: "n < 2 ^ 32 \<Longrightarrow> a \<notin> span (a + 1) n"
  by (simp add: span_def unsigned_minus_1_eq_mask mask_eq_exp_minus_1)

lemma in_span_Suc: "x \<noteq> a \<Longrightarrow> x \<in> span a (Suc n) \<longleftrightarrow> x \<in> span (a + 1) n"
  by (simp add: span_def unat_diff_Suc)

lemma span_Suc: "n < 2 ^ 32 \<Longrightarrow> span a (Suc n) = insert a (span (a + 1) n)"
proof (intro set_eqI)
  show "x \<in> span a (Suc n) \<longleftrightarrow> x \<in> insert a (span (a + 1) n)" for x
    by (cases "x = a") (simp_all add: in_span_Suc, simp add: span_def)
qed

lemma span_0 [simp]: "span a 0 = {}"
  by (simp add: span_def)

section \<open>Copying\<close>

lemma copy_up_correct:
  assumes "n \<le> 2 ^ 32" "q = p \<or> n \<le> unat (q - p)"
  shows "copy_up n q p m = (\<lambda>x. if x \<in> span q n then m (p + (x - q)) else m x)"
  using assms
proof (induction n arbitrary: q p m)
  case (Suc n)
  have step: "copy_up (Suc n) q p m = (\<lambda>x. if x \<in> span (q + 1) n
      then (m(q := m p)) (p + 1 + (x - (q + 1))) else (m(q := m p)) x)"
    using Suc.IH [of "q + 1" "p + 1"] Suc.prems by auto
  have "p + (x - q) \<noteq> q" if x: "x \<in> span (q + 1) n" for x
  proof
    assume eq: "p + (x - q) = q"
    have "x \<noteq> q" using x not_in_span_next [of n q] Suc.prems(1) by auto
    then have "unat (x - q) < Suc n" "unat (x - q) \<noteq> 0"
      using x unat_diff_Suc [of x q] by (simp_all add: span_def)
    moreover have "q - p = x - q" using eq by (metis add_diff_cancel_left')
    ultimately show False using Suc.prems(2) by auto
  qed
  then show ?case
    unfolding step using Suc.prems(1) not_in_span_next [of n q]
    by (auto simp: span_Suc fun_eq_iff)
qed simp

lemma copy_down_correct:
  assumes "n \<le> 2 ^ 32" "q = p \<or> n \<le> unat (p - q)"
  shows "copy_down n (q + of_nat n) (p + of_nat n) m = (\<lambda>x. if x \<in> span q n then m (p + (x - q)) else m x)"
  using assms
proof (induction n arbitrary: m)
  case (Suc n)
  let ?m = "m(q + of_nat n := m (p + of_nat n))"
  have "r + of_nat (Suc n) - 1 = r + of_nat n" for r :: u32 by simp
  then have "copy_down (Suc n) (q + of_nat (Suc n)) (p + of_nat (Suc n)) m = copy_down n (q + of_nat n) (p + of_nat n) ?m"
    by (simp only: copy_down.simps)
  also have "\<dots> = (\<lambda>x. if x \<in> span q n then ?m (p + (x - q)) else ?m x)"
    using Suc.prems by (intro Suc.IH) auto
  finally have step: "copy_down (Suc n) (q + of_nat (Suc n)) (p + of_nat (Suc n)) m =
      (\<lambda>x. if x \<in> span q n then ?m (p + (x - q)) else ?m x)" .
  have n: "unat (of_nat n :: u32) = n" using Suc.prems(1) by (simp add: unat_of_nat_u32)
  have new: "span q (Suc n) = insert (q + of_nat n) (span q n)" "q + of_nat n \<notin> span q n"
  proof -
    have "unat (x - q) = n \<longleftrightarrow> x = q + of_nat n" for x
      by (metis n add_diff_cancel_left' diff_add_cancel unsigned_word_eqI add.commute)
    then show "span q (Suc n) = insert (q + of_nat n) (span q n)" by (auto simp: span_def less_Suc_eq)
    show "q + of_nat n \<notin> span q n" by (simp add: span_def n)
  qed
  have "p + (x - q) \<noteq> q + of_nat n" if x: "x \<in> span q n" for x
  proof
    assume eq: "p + (x - q) = q + of_nat n"
    have lt: "unat (x - q) < n" using x by (simp add: span_def)
    have "p - q = of_nat n - (x - q)" using eq by (simp add: algebra_simps)
    moreover have "unat (of_nat n - (x - q)) = unat (of_nat n :: u32) - unat (x - q)"
      by (rule unat_sub) (use lt n in \<open>simp add: word_le_nat_alt\<close>)
    ultimately have "unat (p - q) = n - unat (x - q)" by (simp only: n)
    then show False using Suc.prems(2) lt by auto
  qed
  then show ?case unfolding step using new by (auto simp: fun_eq_iff)
qed simp

lemma fill_correct:
  "n \<le> 2 ^ 32 \<Longrightarrow> fill n q c m = (\<lambda>x. if x \<in> span q n then c else m x)"
proof (induction n arbitrary: q m)
  case (Suc n)
  then show ?case using not_in_span_next [of n q] by (auto simp: span_Suc fun_eq_iff)
qed simp


section \<open>NUL-terminated strings\<close>

primrec c_string :: "mem \<Rightarrow> u32 \<Rightarrow> bytes \<Rightarrow> bool" where
  "c_string m s [] \<longleftrightarrow> m s = 0"
| "c_string m s (x # xs) \<longleftrightarrow> m s = x \<and> x \<noteq> 0 \<and> c_string m (s + 1) xs"

lemma c_string_nth:
  "c_string m s xs \<longleftrightarrow> (\<forall>i < length xs. m (s + of_nat i) = xs ! i \<and> xs ! i \<noteq> 0) \<and> m (s + of_nat (length xs)) = 0"
proof (induction xs arbitrary: s)
  case (Cons x xs)
  have e: "s + of_nat (Suc i) = s + 1 + of_nat i" for i by simp
  show ?case
    unfolding c_string.simps Cons.IH length_Cons All_less_Suc2 e by auto
qed simp

lemma c_string_cong:
  assumes "\<And>i. i \<le> length xs \<Longrightarrow> m' (s + of_nat i) = m (s + of_nat i)"
  shows "c_string m' s xs = c_string m s xs"
  unfolding c_string_nth using assms by auto

lemma in_span: "i < 2 ^ 32 \<Longrightarrow> a + of_nat i \<in> span a n \<longleftrightarrow> i < n"
  by (simp add: span_def unat_of_nat_u32)

lemma strlen_from_c_string:
  "c_string m p xs \<Longrightarrow> strlen_from s m p = Some (p + of_nat (length xs) - s)"
proof (induction xs arbitrary: p)
  case Nil
  then show ?case by (subst strlen_from.simps) simp
next
  case (Cons x xs)
  then show ?case by (subst strlen_from.simps) (simp add: algebra_simps)
qed

lemma strlen_c_string: "c_string m s xs \<Longrightarrow> strlen s m = Some (of_nat (length xs))"
  by (simp add: strlen_def strlen_from_c_string)

lemma strchr_nul: "c_string m s xs \<Longrightarrow> strchr s 0 m = Some (s + of_nat (length xs))"
proof (induction xs arbitrary: s)
  case Nil
  then show ?case by (subst strchr.simps) simp
next
  case (Cons x xs)
  then show ?case by (subst strchr.simps) (simp add: add.assoc)
qed

text \<open>\<open>strchr\<close> finds the first occurrence; NULL when there is none.\<close>

lemma strchr_c_string:
  "c_string m s xs \<Longrightarrow> ucast c \<noteq> (0 :: u8) \<Longrightarrow> strchr s c m =
    Some (if ucast c \<in> set xs then s + of_nat (length (takeWhile (\<lambda>x. x \<noteq> ucast c) xs)) else 0)"
proof (induction xs arbitrary: s)
  case Nil
  then show ?case by (subst strchr.simps) simp
next
  case (Cons x xs)
  then show ?case by (subst strchr.simps) (auto simp: add.assoc)
qed

lemma uint_pos: "0 < uint x \<longleftrightarrow> x \<noteq> 0" for x :: "'a::len word"
  by (simp add: order_less_le uint_0_iff)

lemma strcmp_c_string:
  assumes "c_string m a xs" "c_string m b ys"
  shows "\<exists>d. strcmp a b m = Some d \<and> (d = 0 \<longleftrightarrow> xs = ys) \<and> (d < 0 \<longleftrightarrow> (xs, ys) \<in> lexord {(x, y). x < y})"
  using assms
proof (induction xs arbitrary: a b ys)
  case Nil
  then show ?case by (subst strcmp.simps) (cases ys; auto simp: word_less_def uint_pos uint_0_iff)
next
  case (Cons x xs)
  show ?case
  proof (cases ys)
    case Nil
    then show ?thesis using Cons.prems by (subst strcmp.simps) (auto simp: word_less_def uint_0_iff uint_pos)
  next
    case (Cons y zs)
    show ?thesis
    proof (cases "x = y")
      case True
      then show ?thesis using Cons Cons.prems Cons.IH [of "a + 1" "b + 1" zs] by (subst strcmp.simps) auto
    next
      case False
      then show ?thesis using Cons Cons.prems by (subst strcmp.simps) (auto simp: word_less_def word_uint_eq_iff)
    qed
  qed
qed

text \<open>A store outside a string leaves it as it is.\<close>

lemma c_string_upd:
  assumes "length xs < 2 ^ 32" "length xs < unat (q - s)"
  shows "c_string (m(q := c)) s xs = c_string m s xs"
proof (rule c_string_cong)
  fix i
  assume i: "i \<le> length xs"
  have "s + of_nat i \<noteq> q"
  proof
    assume "s + of_nat i = q"
    then have "unat (q - s) = i" using i assms(1) by (auto simp: unat_of_nat_u32)
    then show False using assms(2) i by simp
  qed
  then show "(m(q := c)) (s + of_nat i) = m (s + of_nat i)" by simp
qed

lemma apart_step: "Suc n \<le> unat (q - p) \<Longrightarrow> n \<le> unat (q - (p + 1))" for p q :: u32
  using unat_diff_Suc [of q p] by (cases "q = p") simp_all

lemma strcpy_loop_c_string:
  assumes "c_string m p xs" "length xs < 2 ^ 32" "Suc (length xs) \<le> unat (q - p)"
  shows "strcpy_loop q p m = Some (copy_up (Suc (length xs)) q p m)"
  using assms
proof (induction xs arbitrary: p q m)
  case Nil
  then show ?case by (subst strcpy_loop.simps) (simp add: fun_upd_def)
next
  case (Cons x xs)
  have far: "Suc (length xs) \<le> unat (q - (p + 1))" using apart_step Cons.prems(3) by simp
  then have c: "c_string (m(q := m p)) (p + 1) xs"
    using Cons.prems by (subst c_string_upd) simp_all
  have "strcpy_loop (q + 1) (p + 1) (m(q := m p)) = Some (copy_up (Suc (length xs)) (q + 1) (p + 1) (m(q := m p)))"
    by (rule Cons.IH [OF c]) (use Cons.prems far in simp_all)
  moreover have "m p \<noteq> 0" using Cons.prems(1) by simp
  ultimately show ?case by (subst strcpy_loop.simps) (simp add: fun_upd_def)
qed

lemma strncat_loop_c_string:
  assumes "c_string m p xs" "length xs < 2 ^ 32" "Suc (length xs) \<le> unat (q - p)"
  shows "strncat_loop n q p m =
    (if length xs < n then copy_up (Suc (length xs)) q p m else (copy_up n q p m)(q + of_nat n := 0))"
  using assms
proof (induction n arbitrary: p q m xs)
  case (Suc n)
  show ?case
  proof (cases xs)
    case Nil
    then show ?thesis using Suc.prems by (simp add: Let_def)
  next
    case (Cons x ys)
    have far: "Suc (length ys) \<le> unat (q - (p + 1))" using apart_step Suc.prems(3) Cons by simp
    then have c: "c_string (m(q := m p)) (p + 1) ys"
      using Suc.prems Cons by (subst c_string_upd) simp_all
    have "strncat_loop n (q + 1) (p + 1) (m(q := m p)) = (if length ys < n
        then copy_up (Suc (length ys)) (q + 1) (p + 1) (m(q := m p))
        else (copy_up n (q + 1) (p + 1) (m(q := m p)))(q + 1 + of_nat n := 0))"
      by (rule Suc.IH [OF c]) (use Suc.prems Cons far in simp_all)
    moreover have "m p \<noteq> 0" using Suc.prems(1) Cons by simp
    ultimately show ?thesis
      by (cases "length ys < n") (simp_all add: Let_def Cons fun_upd_def add.assoc)
  qed
qed simp

text \<open>The string that a copy of a prefix and a NUL leave at its destination.\<close>

lemma append_c_string:
  assumes "c_string m a xs" "c_string m' (a + of_nat (length xs)) ys"
    "\<And>i. i < length xs \<Longrightarrow> m' (a + of_nat i) = m (a + of_nat i)"
  shows "c_string m' a (xs @ ys)"
  using assms
proof (induction xs arbitrary: a)
  case (Cons x xs)
  have e: "a + 1 + of_nat i = a + of_nat (Suc i)" for i by simp
  have "c_string m' (a + 1) (xs @ ys)"
    using Cons.prems Cons.prems(3) [of "Suc i" for i] unfolding e [symmetric]
    by (intro Cons.IH) (simp_all add: add.assoc)
  moreover have "m' a = m a" using Cons.prems(3) [of 0] by simp
  ultimately show ?case using Cons.prems(1) by simp
qed simp


section \<open>Bytes in memory\<close>

primrec bytes_at :: "mem \<Rightarrow> u32 \<Rightarrow> bytes \<Rightarrow> bool" where
  "bytes_at m a [] \<longleftrightarrow> True"
| "bytes_at m a (x # xs) \<longleftrightarrow> m a = x \<and> bytes_at m (a + 1) xs"

lemma bytes_at_append:
  "bytes_at m a (xs @ ys) \<longleftrightarrow> bytes_at m a xs \<and> bytes_at m (a + of_nat (length xs)) ys"
  by (induction xs arbitrary: a) (simp_all add: add.assoc)

lemma bytes_at_nth: "bytes_at m a xs \<longleftrightarrow> (\<forall>i < length xs. m (a + of_nat i) = xs ! i)"
proof (induction xs arbitrary: a)
  case (Cons x xs)
  have e: "a + of_nat (Suc i) = a + 1 + of_nat i" for i by simp
  show ?case unfolding bytes_at.simps Cons.IH length_Cons All_less_Suc2 e by auto
qed simp

lemma c_string_bytes_at: "c_string m a xs \<longleftrightarrow> bytes_at m a (xs @ [0]) \<and> 0 \<notin> set xs"
  by (induction xs arbitrary: a) auto

text \<open>\<open>strlen\<close> returns only when there is a terminating NUL.\<close>

lemma strlen_from_SomeD:
  assumes "strlen_from s m p = Some l"
  shows "\<exists>xs. c_string m p xs"
proof (rule strlen_from.raw_induct [OF _ assms, where P = "\<lambda>s m p l. \<exists>xs. c_string m p xs"])
  fix f s m p l
  assume IH: "\<And>s m p l. f s m p = Some l \<Longrightarrow> \<exists>xs. c_string m p xs"
    and step: "(if m p \<noteq> 0 then f s m (p + 1) else Some (p - s)) = Some l"
  show "\<exists>xs. c_string m p xs"
  proof (cases "m p = 0")
    case True
    then have "c_string m p []" by simp
    then show ?thesis ..
  next
    case False
    then have "f s m (p + 1) = Some l" using step by simp
    then obtain xs where "c_string m (p + 1) xs" using IH [of s m "p + 1" l] by auto
    then have "c_string m p (m p # xs)" using False by simp
    then show ?thesis ..
  qed
qed

lemma strlen_SomeD:
  assumes "strlen s m = Some l"
  obtains xs where "c_string m s xs" "length xs < 2 ^ 32" "l = of_nat (length xs)"
proof -
  obtain xs where c: "c_string m s xs"
    using strlen_from_SomeD [of s m s l] assms by (auto simp: strlen_def)
  have "length xs < 2 ^ 32"
  proof (rule ccontr)
    assume "\<not> length xs < 2 ^ 32"
    then have le: "4294967296 \<le> length xs" by simp
    define j where "j = length xs - 4294967296"
    have "of_nat (j + 4294967296) = (of_nat j :: u32)" by simp
    then have "s + of_nat (length xs) = s + (of_nat j :: u32)" using le by (simp add: j_def)
    moreover have "j < length xs" using le by (simp add: j_def)
    ultimately show False using c unfolding c_string_nth by metis
  qed
  then show thesis using that c strlen_c_string [OF c] assms by simp
qed

section \<open>Words in memory\<close>

text \<open>Big-endian loads and stores.\<close>

definition load32 :: "mem \<Rightarrow> u32 \<Rightarrow> u32" where
  "load32 c a = word_cat (word_cat (c a) (c (a + 1)) :: u16) (word_cat (c (a + 2)) (c (a + 3)) :: u16)"

definition store16 :: "u32 \<Rightarrow> u16 \<Rightarrow> mem \<Rightarrow> mem" where
  "store16 a w c = c(a := hi8 w, a + 1 := lo8 w)"

definition store32 :: "u32 \<Rightarrow> u32 \<Rightarrow> mem \<Rightarrow> mem" where
  "store32 a w c = store16 (a + 2) (lo16 w) (store16 a (hi16 w) c)"

lemma load32_store32_same: "load32 (store32 a w c) a = w"
  by (cases w rule: u32_bytes) (simp add: load32_def store32_def store16_def add.assoc)

lemma load32_store32_disjoint:
  assumes "span a 4 \<inter> span b 4 = {}"
  shows "load32 (store32 a w c) b = load32 c b"
proof -
  have "a + r \<noteq> b + s" if "r < 4" "s < 4" for r s
  proof
    assume e: "a + r = b + s"
    have "a + r \<in> span a 4" "b + s \<in> span b 4" using that by (simp_all add: span_def word_less_nat_alt)
    then show False using e assms by auto
  qed
  from this [of 0 0] this [of 0 1] this [of 0 2] this [of 0 3] this [of 1 0] this [of 1 1] this [of 1 2] this [of 1 3]
    this [of 2 0] this [of 2 1] this [of 2 2] this [of 2 3] this [of 3 0] this [of 3 1] this [of 3 2] this [of 3 3]
  show ?thesis by (simp add: load32_def store32_def store16_def add.assoc)
qed

lemma store32_outside: "x \<notin> span a 4 \<Longrightarrow> store32 a w c x = c x"
proof -
  assume "x \<notin> span a 4"
  moreover have "a + r \<in> span a 4" if "r < 4" for r using that by (simp add: span_def word_less_nat_alt)
  from this [of 0] this [of 1] this [of 2] this [of 3]
  have "a \<in> span a 4" "a + 1 \<in> span a 4" "a + 2 \<in> span a 4" "a + 3 \<in> span a 4" by simp_all
  ultimately show ?thesis by (auto simp: store32_def store16_def add.assoc)
qed

section \<open>Properties\<close>

lemma span_far:
  assumes "q \<in> A" "A \<inter> span p n = {}"
  shows "n \<le> unat (q - p)"
  using assms by (auto simp: span_def not_less)

lemma copied_string:
  assumes "c_string m p ys" "length ys < 2 ^ 32 - 1" "Suc (length ys) \<le> unat (q - p)"
  shows "c_string (copy_up (Suc (length ys)) q p m) q ys"
proof -
  have copy: "copy_up (Suc (length ys)) q p m = (\<lambda>x. if x \<in> span q (Suc (length ys)) then m (p + (x - q)) else m x)"
    by (rule copy_up_correct) (use assms(2,3) in auto)
  have "copy_up (Suc (length ys)) q p m (q + of_nat i) = m (p + of_nat i)" if "i \<le> length ys" for i
  proof -
    have "q + of_nat i \<in> span q (Suc (length ys))" using that assms(2) by (simp add: in_span)
    then show ?thesis unfolding copy by simp
  qed
  then show ?thesis using assms(1) unfolding c_string_nth by simp
qed

lemma unat_uminus_u32: "w \<noteq> 0 \<Longrightarrow> unat (- w) = 2 ^ 32 - unat w" for w :: u32
proof -
  assume "w \<noteq> 0"
  then have "0 < unat w" by (simp add: unat_gt_0)
  have "(unat w + unat (- w)) mod 2 ^ 32 = unat (w + - w)" by (simp only: unat_word_ariths) simp
  then have "(unat w + unat (- w)) mod 4294967296 = 0" by simp
  then obtain k where k: "unat w + unat (- w) = 4294967296 * k" by auto
  have "unat w + unat (- w) < 2 * 4294967296" using unat_u32_less [of w] unat_u32_less [of "- w"] by linarith
  then have "k = 1" using k \<open>0 < unat w\<close> by (cases k) auto
  then show ?thesis using k by simp
qed

lemma unat_diff_swap:
  fixes a b :: u32
  assumes "a \<noteq> b"
  shows "unat (a - b) = 2 ^ 32 - unat (b - a)"
  using unat_uminus_u32 [of "b - a"] assms by simp

lemma unat_diff_le: "b \<le> a \<Longrightarrow> unat (a - b) = unat a - unat b" for a b :: u32
  by (rule unat_sub)

lemma span_iff:
  assumes "unat a + n \<le> 2 ^ 32"
  shows "x \<in> span a n \<longleftrightarrow> unat a \<le> unat x \<and> unat x < unat a + n"
proof (cases "a \<le> x")
  case True
  then show ?thesis using unat_diff_le [OF True] by (auto simp: span_def word_le_nat_alt)
next
  case False
  then have "unat (x - a) = 2 ^ 32 - (unat a - unat x)"
    using unat_diff_swap [of x a] unat_diff_le [of x a] by auto
  moreover have "unat x < unat a" using False by (simp add: word_le_nat_alt)
  ultimately show ?thesis using assms unat_u32_less [of a] by (auto simp: span_def)
qed

lemma span_disjoint:
  "unat a + n \<le> unat b \<Longrightarrow> unat b + k \<le> 2 ^ 32 \<Longrightarrow> span a n \<inter> span b k = {}"
  by (auto simp: span_iff)

text \<open>
  C31. \<open>memmove\<close> leaves at the destination the bytes that were at the source, for every overlap of
  the two areas, and changes nothing else.
\<close>

theorem memmove_copies:
  assumes "unat dst + unat n \<le> 2 ^ 32" "unat src + unat n \<le> 2 ^ 32"
  shows "memmove dst src n m = (dst, \<lambda>x. if x \<in> span dst (unat n) then m (src + (x - dst)) else m x)"
proof (cases "dst < src")
  case True
  then have "unat (dst - src) = 2 ^ 32 - (unat src - unat dst)"
    using unat_diff_swap [of dst src] unat_diff_le [of dst src] by simp
  then have "unat n \<le> unat (dst - src)" using assms(2) by linarith
  then show ?thesis
    using True copy_up_correct [of "unat n" dst src m] unat_u32_less [of n] by (simp add: memmove_def)
next
  case False
  have "dst = src \<or> unat n \<le> unat (src - dst)"
  proof (cases "dst = src")
    case False
    then have "unat (src - dst) = 2 ^ 32 - (unat dst - unat src)"
      using unat_diff_swap [of src dst] unat_diff_le [of src dst] \<open>\<not> dst < src\<close> by simp
    then show ?thesis using assms(1) by linarith
  qed simp
  then show ?thesis
    using False copy_down_correct [of "unat n" dst src m] unat_u32_less [of n] by (simp add: memmove_def)
qed

lemma memmove_copies_witness:
  "snd (memmove 1 0 3 (\<lambda>x. ucast x)) 3 = 2 \<and> snd (memmove 0 1 3 (\<lambda>x. ucast x)) 0 = 1"
  using memmove_copies [of 1 3 0] memmove_copies [of 0 3 1] by (simp add: span_def)

text \<open>A memory with the strings \<open>ab\<close> and \<open>c\<close>.\<close>

definition sample_mem :: mem where
  "sample_mem = (\<lambda>_. 0)(0x100 := 97, 0x101 := 98, 0x200 := 99)"

lemma sample_strings: "c_string sample_mem 0x100 [97, 98]" "c_string sample_mem 0x200 [99]"
  by (simp_all add: sample_mem_def)

text \<open>
  \<open>strcmp\<close> orders strings as the lexicographic order of their unsigned characters and returns 0
  only on equal strings; it returns, for all strings.
\<close>

theorem strcmp_is_lexicographic:
  assumes "c_string m a xs" "c_string m b ys"
  shows "\<exists>d. strcmp a b m = Some d \<and> (d = 0 \<longleftrightarrow> xs = ys) \<and> (d < 0 \<longleftrightarrow> (xs, ys) \<in> lexord {(x, y). x < y})"
  by (rule strcmp_c_string [OF assms])

lemma strcmp_is_lexicographic_witness: "\<exists>d. strcmp 0x100 0x200 sample_mem = Some d \<and> d < 0"
  using strcmp_is_lexicographic [OF sample_strings] by auto

text \<open>
  \<open>strcat\<close> makes the string at \<open>dst\<close> the concatenation of the two, when the source does not
  overlap the result, and writes only the appended characters and their NUL.
\<close>

theorem strcat_appends:
  assumes "c_string m dst xs" "c_string m src ys" "length xs + length ys < 2 ^ 32 - 1"
    "span dst (length xs + length ys + 1) \<inter> span src (length ys + 1) = {}"
  shows "\<exists>m'. strcat dst src m = Some (dst, m') \<and> c_string m' dst (xs @ ys) \<and>
    (\<forall>x. x \<notin> span (dst + of_nat (length xs)) (length ys + 1) \<longrightarrow> m' x = m x)"
proof -
  define q where "q = dst + of_nat (length xs)"
  define m' where "m' = copy_up (Suc (length ys)) q src m"
  have "q \<in> span dst (length xs + length ys + 1)" unfolding q_def using assms(3) by (subst in_span) simp_all
  then have far: "Suc (length ys) \<le> unat (q - src)" using span_far [OF _ assms(4)] by simp
  have "strcpy_loop q src m = Some m'"
    unfolding m'_def by (rule strcpy_loop_c_string [OF assms(2) _ far]) (use assms(3) in simp)
  then have "strcat dst src m = Some (dst, m')"
    by (simp add: strcat_def strcpy_def strchr_nul [OF assms(1)] q_def)
  moreover have same: "m' x = m x" if "x \<notin> span q (length ys + 1)" for x
    unfolding m'_def using that far assms(3) by (subst copy_up_correct) auto
  moreover have "c_string m' dst (xs @ ys)"
  proof (rule append_c_string [OF assms(1)])
    show "c_string m' (dst + of_nat (length xs)) ys"
      unfolding m'_def q_def [symmetric] by (rule copied_string [OF assms(2) _ far]) (use assms(3) in simp)
    show "m' (dst + of_nat i) = m (dst + of_nat i)" if "i < length xs" for i
    proof (rule same)
      have "dst + of_nat i - q = - of_nat (length xs - i)"
        using that by (simp add: q_def of_nat_diff)
      moreover have "unat (of_nat (length xs - i) :: u32) = length xs - i" "(of_nat (length xs - i) :: u32) \<noteq> 0"
        using that assms(3) unat_of_nat_u32 [of "length xs - i"] by (auto simp: unat_eq_0 [symmetric])
      ultimately have "unat (dst + of_nat i - q) = 2 ^ 32 - (length xs - i)"
        using unat_uminus_u32 by metis
      then show "dst + of_nat i \<notin> span q (length ys + 1)"
        using assms(3) that by (simp add: span_def)
    qed
  qed
  ultimately show ?thesis by (auto simp: q_def)
qed


lemma strcat_appends_witness:
  "\<exists>m'. strcat 0x100 0x200 sample_mem = Some (0x100, m') \<and> c_string m' 0x100 [97, 98, 99]"
proof -
  have "span 0x100 (length [97 :: u8, 98] + length [99 :: u8] + 1) \<inter> span 0x200 (length [99 :: u8] + 1) = {}"
    by (rule span_disjoint) simp_all
  from strcat_appends [OF sample_strings _ this] show ?thesis by auto
qed

end
