(* ===== verification/Heap.thy ===== *)
theory Heap
  imports Malloc Cmem
begin

text \<open>
  \<open>zalloc\<close>, \<open>calloc\<close> and \<open>realloc\<close> of \<^verbatim>\<open>Firmware_Common/klibc\<close> on the allocator and the memory it
  hands out. The headers of the blocks are the state of the allocator, the bytes between them the
  memory.
\<close>

definition zalloc :: "u32 \<Rightarrow> arena \<times> mem \<Rightarrow> (u32 \<times> arena \<times> mem) option" where
  "zalloc n s =
     (case malloc n (fst s) of None \<Rightarrow> None
      | Some (ptr, a) \<Rightarrow> Some (ptr, a, if ptr \<noteq> 0 then snd (memset ptr 0 n (snd s)) else snd s))"

definition calloc :: "u32 \<Rightarrow> u32 \<Rightarrow> arena \<times> mem \<Rightarrow> (u32 \<times> arena \<times> mem) option" where
  "calloc nmemb n = zalloc (nmemb * n)"

definition realloc :: "u32 \<Rightarrow> u32 \<Rightarrow> arena \<times> mem \<Rightarrow> (u32 \<times> arena \<times> mem) option" where
  "realloc ptr n s =
     (case s of (a, m) \<Rightarrow>
       if ptr = 0 then map_option (\<lambda>(p, a). (p, a, m)) (malloc n a)
       else if n = 0 then Some (0, free ptr a, m)
       else
         (let n = arena_round n; ah = ptr - 16
          in if asize a ah \<ge> n \<and> n \<ge> drop_bit 2 (asize a ah) then Some (ptr, a, m)
             else
               (let oldsize = asize a ah - 16
                in case malloc n a of None \<Rightarrow> None
                   | Some (newptr, a) \<Rightarrow>
                       Some (newptr, free ptr a, snd (memcpy newptr ptr (if n < oldsize then n else oldsize) m)))))"

section \<open>Properties\<close>

text \<open>
  C30. When \<open>realloc\<close> cannot get a new block it does not report failure and keep the old block, as C
  asks: it copies the contents to address 0 and frees the block.
\<close>

theorem realloc_failure_overwrites_null:
  assumes "arena_ok a as fs" "used_blocks a as (ptr - 16) = Some k"
    "unat n < 2 ^ 32 - 128" "unat (asize a (ptr - 16)) < unat n"
    "\<forall>b \<in> set fs. unat (asize a b) < unat n"
  shows "realloc ptr n (a, m) = Some (0, free ptr a, copy_up (k - 16) 0 ptr m)"
proof -
  have inv: "arena_inv a as fs" using assms(1) by (simp add: arena_ok_def)
  note used = used_blockD [OF inv assms(2)]
  have k: "k = unat (asize a (ptr - 16))" "32 \<le> k" using used(3) arena_invD(2) [OF inv used(1)] by simp_all
  then have "n \<noteq> 0" using assms(4) by auto
  have "ptr \<noteq> 0"
    using free_block_pointer(1) [OF inv used(1)] by simp
  have r: "unat n + 16 \<le> unat (arena_round n)" "unat (arena_round n) < unat n + 32"
    using assms(3) by (intro arena_round_bounds; simp)+
  let ?n = "arena_round n"
  have r2: "unat ?n + 16 \<le> unat (arena_round ?n)"
    using assms(3) r(2) by (intro arena_round_bounds) simp
  have "find (\<lambda>b. arena_round ?n \<le> asize a b) fs = None"
    using assms(5) r(1) r2 by (force simp: find_None_iff word_le_nat_alt)
  then have none: "malloc ?n a = Some (0, a)"
    using malloc_none [OF assms(1), of ?n] by simp
  have small: "\<not> ?n \<le> asize a (ptr - 16)" using assms(4) r(1) by (simp add: word_le_nat_alt)
  have old: "unat (asize a (ptr - 16) - 16) = k - 16"
    using k by (subst unat_diff_le) (simp_all add: word_le_nat_alt)
  then have "\<not> ?n < asize a (ptr - 16) - 16" using assms(4) k r(1) by (simp add: word_less_nat_alt)
  then show ?thesis
    using small none \<open>ptr \<noteq> 0\<close> \<open>n \<noteq> 0\<close> old by (simp add: realloc_def Let_def memcpy_def)
qed


lemma sample_taken_bounds:
  obtains as fs where "arena_ok sample_taken as fs" "used_blocks sample_taken as = [0x10000 \<mapsto> 128]"
    "\<forall>b \<in> set fs. unat (asize sample_taken b) \<le> 65536"
proof -
  obtain as fs where ok: "arena_ok sample_taken as fs" "used_blocks sample_taken as = [0x10000 \<mapsto> 128]"
    and R: "owned sample_taken as = {0x10000..<0x20000}"
    using session_arena_ok [OF sample_taken_session] by blast
  have "unat (asize sample_taken b) \<le> 65536" if "b \<in> set fs" for b
  proof -
    have b: "b \<in> set as" using that ok(1) by (auto simp: arena_ok_def arena_inv_def)
    have "arena_inv sample_taken as fs" using ok(1) by (simp add: arena_ok_def)
    then have "unat b < block_end sample_taken b" using arena_invD(6) b by blast
    then have "unat b \<in> owned sample_taken as" "block_end sample_taken b - 1 \<in> owned sample_taken as"
      using b unfolding owned_def by force+
    then show ?thesis unfolding R by (auto simp: block_end_def)
  qed
  then show thesis using that ok by blast
qed

lemma realloc_failure_overwrites_null_witness:
  "realloc 0x10010 70000 (sample_taken, \<lambda>_. 0) = Some (0, free 0x10010 sample_taken, copy_up 112 0 0x10010 (\<lambda>_. 0))"
proof -
  obtain as fs where ok: "arena_ok sample_taken as fs" "used_blocks sample_taken as = [0x10000 \<mapsto> 128]"
    and le: "\<forall>b \<in> set fs. unat (asize sample_taken b) \<le> 65536"
    by (rule sample_taken_bounds)
  have "\<forall>b \<in> set fs. unat (asize sample_taken b) < unat (70000 :: u32)" using le by fastforce
  from realloc_failure_overwrites_null [OF ok(1) _ _ _ this, of "0x10010" 128 "\<lambda>_. 0"] show ?thesis
    by (simp add: ok(2) sample_taken(2))
qed

text \<open>
  \<open>calloc\<close> returns a block that holds the product of its arguments modulo \<open>2^32\<close> and clears
  exactly these bytes; it fails only when no free block is large enough. The product is not checked
  for overflow, so the block is smaller than asked for when it does not fit 32 bits.
\<close>

theorem calloc_clears_wrapped_product:
  assumes "arena_ok a as fs" "nmemb * n \<noteq> 0" "unat (nmemb * n) < 2 ^ 32 - 64"
    "b \<in> set fs" "unat (nmemb * n) + 31 \<le> unat (asize a b)"
  shows "\<exists>p a' m' as' fs' k. calloc nmemb n (a, m) = Some (p, a', m') \<and> p \<noteq> 0 \<and> arena_ok a' as' fs' \<and>
    used_blocks a' as' = (used_blocks a as)(p - 16 \<mapsto> k) \<and>
    unat nmemb * unat n mod 2 ^ 32 + 16 \<le> k \<and> k < unat nmemb * unat n mod 2 ^ 32 + 64 \<and>
    (\<forall>x. m' x = (if x \<in> span p (unat nmemb * unat n mod 2 ^ 32) then 0 else m x))"
proof -
  let ?n = "nmemb * n"
  have e: "unat ?n = unat nmemb * unat n mod 2 ^ 32" by (simp add: unat_word_ariths)
  have "arena_round ?n \<le> asize a b"
    using assms(3,5) arena_round_bounds(1) [of ?n] div_times_less_eq_dividend [of "unat ?n + 31" 16]
    by (simp add: word_le_nat_alt)
  then obtain c where c: "find (\<lambda>b. arena_round ?n \<le> asize a b) fs = Some c"
    using assms(4) by (cases "find (\<lambda>b. arena_round ?n \<le> asize a b) fs") (auto simp: find_None_iff)
  then have "c \<in> set as" using find_SomeD [OF c] assms(1) by (auto simp: arena_ok_def arena_inv_def)
  then have "c + 16 \<noteq> 0" using free_block_pointer(1) assms(1) by (auto simp: arena_ok_def)
  obtain a' as' fs' k where m: "malloc ?n a = Some (c + 16, a')" "arena_ok a' as' fs'"
    "used_blocks a' as' = (used_blocks a as)(c \<mapsto> k)" "unat ?n + 16 \<le> k" "k < unat ?n + 64"
    using malloc_ok [OF assms(1-3) c] by metis
  have "fill (unat ?n) (c + 16) 0 m = (\<lambda>x. if x \<in> span (c + 16) (unat ?n) then 0 else m x)"
    by (rule fill_correct) (use less_imp_le [OF unat_u32_less [of ?n]] in simp)
  then have "calloc nmemb n (a, m) = Some (c + 16, a', \<lambda>x. if x \<in> span (c + 16) (unat ?n) then 0 else m x)"
    using m(1) \<open>c + 16 \<noteq> 0\<close> by (simp add: calloc_def zalloc_def memset_def)
  then show ?thesis
    using m(2-5) \<open>c + 16 \<noteq> 0\<close> unfolding e
    by (intro exI [of _ "c + 16"] exI [of _ a'] exI) auto
qed

lemma calloc_clears_wrapped_product_witness:
  "\<exists>p a' m' as' fs' k. calloc 0x80000020 2 (sample_arena, \<lambda>_. 1) = Some (p, a', m') \<and> p \<noteq> 0 \<and>
     used_blocks a' as' = (used_blocks sample_arena [0x10000])(p - 16 \<mapsto> k) \<and> arena_ok a' as' fs' \<and> k < 128"
  using calloc_clears_wrapped_product [OF sample_arena_ok, of "0x80000020" 2 "0x10000" "\<lambda>_. 1"]
  by (simp add: sample_arena) (metis (no_types, lifting))

end
