(* ===== verification/Ps2.thy ===== *)
theory Ps2
  imports Prelude
begin

text \<open>
  The PS/2 ports, \<^verbatim>\<open>Firmware_Common/ps2.c\<close>: a ring buffer of received bytes and one of bytes to
  send for the keyboard and for the mouse. The interrupt handler takes the values of the two
  hardware registers and returns what it writes to them. The lemmas on queues are proved once for
  an interface and used for the receiving and the sending side.
\<close>

section \<open>State and functions\<close>

record ps2_ringbuffer =
  in_hw :: nat
  in_cpu :: nat
  out_hw :: nat
  out_cpu :: nat
  inbuf :: bytes
  outbuf :: bytes

record ps2 =
  kbbuffer :: ps2_ringbuffer
  mousebuffer :: ps2_ringbuffer

definition PS2_RINGBUFFER_SIZE :: nat where
  "PS2_RINGBUFFER_SIZE = 32"

text \<open>\<open>(i + 1) & (PS2_RINGBUFFER_SIZE - 1)\<close>\<close>

definition next_index :: "nat \<Rightarrow> nat" where
  "next_index i = (i + 1) AND (PS2_RINGBUFFER_SIZE - 1)"

definition ps2_ringbuffer_init :: "ps2_ringbuffer \<Rightarrow> ps2_ringbuffer" where
  "ps2_ringbuffer_init r = r\<lparr>in_hw := 0, in_cpu := 0, out_hw := 0, out_cpu := 0\<rparr>"

definition ps2_ringbuffer_read :: "ps2_ringbuffer \<Rightarrow> int \<times> ps2_ringbuffer" where
  "ps2_ringbuffer_read r =
     (if in_hw r = in_cpu r then (- 1, r)
      else (uint (inbuf r ! in_cpu r), r\<lparr>in_cpu := next_index (in_cpu r)\<rparr>))"

definition ps2_ringbuffer_count :: "ps2_ringbuffer \<Rightarrow> nat" where
  "ps2_ringbuffer_count r =
     (if in_hw r \<ge> in_cpu r then in_hw r - in_cpu r
      else in_hw r + PS2_RINGBUFFER_SIZE - in_cpu r)"

text \<open>The handler for one port: bit 11 of the register says that a byte was received, bit 10 that
  one can be sent.\<close>

definition receive_byte :: "u8 \<Rightarrow> ps2_ringbuffer \<Rightarrow> ps2_ringbuffer" where
  "receive_byte x r = r\<lparr>inbuf := (inbuf r)[in_hw r := x], in_hw := next_index (in_hw r)\<rparr>"

definition send_byte :: "ps2_ringbuffer \<Rightarrow> u8 option \<times> ps2_ringbuffer" where
  "send_byte r =
     (if out_hw r \<noteq> out_cpu r then (Some (outbuf r ! out_hw r), r\<lparr>out_hw := next_index (out_hw r)\<rparr>)
      else (None, r))"

definition handle_port :: "u16 \<Rightarrow> ps2_ringbuffer \<Rightarrow> u8 option \<times> ps2_ringbuffer" where
  "handle_port reg r =
     (let r = (if reg AND 0x0800 \<noteq> 0 then receive_byte (ucast reg) r else r)
      in if reg AND 0x0400 \<noteq> 0 then send_byte r else (None, r))"

text \<open>\<open>PS2Handler\<close> returns the bytes written to the keyboard and the mouse register.\<close>

type_synonym ps2_writes = "u8 option \<times> u8 option"

definition PS2Handler :: "u16 \<times> u16 \<Rightarrow> ps2 \<Rightarrow> ps2_writes \<times> ps2" where
  "PS2Handler regs s =
     (let (k, kb) = handle_port (fst regs) (kbbuffer s);
          (m, mb) = handle_port (snd regs) (mousebuffer s)
      in ((k, m), \<lparr>kbbuffer = kb, mousebuffer = mb\<rparr>))"

datatype port = Keyboard | Mouse

definition port_buffer :: "port \<Rightarrow> ps2 \<Rightarrow> ps2_ringbuffer" where
  "port_buffer p s = (case p of Keyboard \<Rightarrow> kbbuffer s | Mouse \<Rightarrow> mousebuffer s)"

definition put_buffer :: "port \<Rightarrow> ps2_ringbuffer \<Rightarrow> ps2 \<Rightarrow> ps2" where
  "put_buffer p r s = (case p of Keyboard \<Rightarrow> s\<lparr>kbbuffer := r\<rparr> | Mouse \<Rightarrow> s\<lparr>mousebuffer := r\<rparr>)"

definition store_out :: "u8 \<Rightarrow> ps2_ringbuffer \<Rightarrow> ps2_ringbuffer" where
  "store_out x r = r\<lparr>outbuf := (outbuf r)[out_cpu r := x], out_cpu := next_index (out_cpu r)\<rparr>"

text \<open>\<open>ps2_ringbuffer_write\<close> waits while the buffer is full. The list holds the register values at
  the calls of the handler: the interrupts that come while it waits, then its own call. \<open>None\<close>: the
  buffer is still full after the last of them.\<close>

fun ps2_ringbuffer_write :: "port \<Rightarrow> u8 \<Rightarrow> (u16 \<times> u16) list \<Rightarrow> ps2 \<Rightarrow> (ps2_writes list \<times> (u16 \<times> u16) list \<times> ps2) option" where
  "ps2_ringbuffer_write p x [] s = None"
| "ps2_ringbuffer_write p x (regs # irqs) s =
     (let r = port_buffer p s
      in if out_hw r = next_index (out_cpu r) then
           (let (w, s) = PS2Handler regs s
            in map_option (\<lambda>(ws, irqs, s). (w # ws, irqs, s)) (ps2_ringbuffer_write p x irqs s))
         else (let (w, s) = PS2Handler regs (put_buffer p (store_out x r) s) in Some ([w], irqs, s)))"

section \<open>Queues\<close>

text \<open>A step of a queue takes in the elements \<open>ins c\<close> and gives out a list of elements.\<close>

primrec run_steps :: "('c \<Rightarrow> 's \<Rightarrow> 'a list \<times> 's) \<Rightarrow> 'c list \<Rightarrow> 's \<Rightarrow> 'a list \<times> 's" where
  "run_steps step [] s = ([], s)"
| "run_steps step (c # cs) s =
     (case step c s of (xs, s) \<Rightarrow> case run_steps step cs s of (ys, s) \<Rightarrow> (xs @ ys, s))"

text \<open>At no step do the elements held and those taken in exceed the capacity.\<close>

primrec steps_fit :: "nat \<Rightarrow> ('s \<Rightarrow> 'a list) \<Rightarrow> ('c \<Rightarrow> 'a list) \<Rightarrow> ('c \<Rightarrow> 's \<Rightarrow> 'a list \<times> 's) \<Rightarrow> 'c list \<Rightarrow> 's \<Rightarrow> bool" where
  "steps_fit n items ins step [] s = True"
| "steps_fit n items ins step (c # cs) s =
     (length (items s @ ins c) \<le> n \<and> steps_fit n items ins step cs (snd (step c s)))"

locale bounded_queue =
  fixes inv :: "'s \<Rightarrow> bool" and items :: "'s \<Rightarrow> 'a list" and capacity :: nat
    and ins :: "'c \<Rightarrow> 'a list" and step :: "'c \<Rightarrow> 's \<Rightarrow> 'a list \<times> 's"
  assumes step_inv: "inv s \<Longrightarrow> length (items s @ ins c) \<le> capacity \<Longrightarrow> inv (snd (step c s))"
    and step_fifo: "inv s \<Longrightarrow> length (items s @ ins c) \<le> capacity \<Longrightarrow>
      items s @ ins c = fst (step c s) @ items (snd (step c s))"
begin

lemma run_fifo:
  assumes "inv s" "steps_fit capacity items ins step cs s"
  shows "inv (snd (run_steps step cs s)) \<and>
    items s @ concat (map ins cs) = fst (run_steps step cs s) @ items (snd (run_steps step cs s))"
  using assms
proof (induction cs arbitrary: s)
  case (Cons c cs)
  then have n: "inv (snd (step c s))" "items s @ ins c = fst (step c s) @ items (snd (step c s))"
    and fit: "steps_fit capacity items ins step cs (snd (step c s))"
    using step_inv [of s c] step_fifo [of s c] by simp_all
  show ?case
    using Cons.IH [OF n(1) fit] arg_cong [OF n(2), of "\<lambda>l. l @ concat (map ins cs)"]
    by (simp add: case_prod_unfold)
qed simp

end

section \<open>The rings as queues\<close>

definition ring_items :: "nat \<Rightarrow> nat \<Rightarrow> bytes \<Rightarrow> bytes" where
  "ring_items w r buf = map (\<lambda>i. buf ! ((r + i) mod 32)) [0..<(w + 32 - r) mod 32]"

lemma next_index_mod: "next_index i = Suc i mod 32"
proof -
  have "Suc i AND 31 = Suc i mod 2 ^ 5"
    using take_bit_eq_mask [of 5 "Suc i"] by (simp add: take_bit_eq_mod mask_eq_exp_minus_1)
  then show ?thesis by (simp add: next_index_def PS2_RINGBUFFER_SIZE_def)
qed

lemma next_index_less [simp]: "next_index i < 32"
  by (simp add: next_index_mod)

lemma length_ring_items: "length (ring_items w r buf) = (w + 32 - r) mod 32"
  by (simp add: ring_items_def)

lemma mod_32_if: "i < 64 \<Longrightarrow> i mod 32 = (if i < 32 then i else i - 32)" for i :: nat
  by (simp add: le_mod_geq)

lemma ring_distance: "w < 32 \<Longrightarrow> r < 32 \<Longrightarrow> (w + 32 - r) mod 32 = (if r \<le> w then w - r else w + 32 - r)" for w r :: nat
  by (subst mod_32_if) auto

lemma ring_items_put:
  assumes "w < 32" "r < 32" "length buf = 32" "length (ring_items w r buf) < 31"
  shows "ring_items (next_index w) r (buf[w := x]) = ring_items w r buf @ [x]"
proof -
  define k where "k = (w + 32 - r) mod 32"
  have kw: "k = (if r \<le> w then w - r else w + 32 - r)" "k < 31"
    using assms by (simp_all add: length_ring_items k_def ring_distance)
  have k: "(r + k) mod 32 = w"
    using kw assms(1,2) by (simp add: mod_32_if split: if_splits)
  have n: "(next_index w + 32 - r) mod 32 = Suc k"
    using kw assms(1,2) by (simp add: next_index_mod ring_distance mod_32_if split: if_splits; arith)
  have "w \<noteq> (r + i) mod 32" if "i < k" for i
    using that kw assms(1,2) by (simp add: mod_32_if split: if_splits; arith)
  then have "map (\<lambda>i. (buf[w := x]) ! ((r + i) mod 32)) [0..<k] = map (\<lambda>i. buf ! ((r + i) mod 32)) [0..<k]"
    by auto
  then show ?thesis
    using k n assms(1,3) by (simp add: ring_items_def k_def [symmetric])
qed

lemma ring_items_get:
  assumes "w < 32" "r < 32" "ring_items w r buf = x # xs"
  shows "w \<noteq> r \<and> x = buf ! r \<and> xs = ring_items w (next_index r) buf"
proof -
  define k where "k = (w + 32 - r) mod 32"
  have len: "k = Suc (length xs)"
    using assms(3) length_ring_items [of w r buf] by (simp add: k_def)
  then have w: "w \<noteq> r" unfolding k_def by auto
  have k: "(w + 32 - Suc r mod 32) mod 32 = length xs"
    using len assms(1,2) unfolding k_def by (simp add: ring_distance mod_32_if split: if_splits; arith)
  have "x # xs = map (\<lambda>i. buf ! ((r + i) mod 32)) (0 # map Suc [0..<length xs])"
    using assms(3) len by (simp add: ring_items_def k_def [symmetric] upt_conv_Cons map_Suc_upt del: upt_Suc)
  moreover have "(r + Suc i) mod 32 = (Suc r mod 32 + i) mod 32" for i
    by (simp add: mod_simps)
  ultimately show ?thesis
    using k w assms(2) by (simp add: ring_items_def next_index_mod comp_def)
qed

lemma ring_items_empty:
  assumes "w < 32" "r < 32"
  shows "ring_items w r buf = [] \<longleftrightarrow> w = r"
  using assms by (simp add: ring_items_def ring_distance)

text \<open>The bytes received and not yet read, the bytes accepted and not yet sent, and the indices in
  range of the arrays.\<close>

definition ring_ok :: "ps2_ringbuffer \<Rightarrow> bool" where
  "ring_ok r \<longleftrightarrow> in_hw r < 32 \<and> in_cpu r < 32 \<and> out_hw r < 32 \<and> out_cpu r < 32 \<and>
     length (inbuf r) = 32 \<and> length (outbuf r) = 32"

definition unread :: "ps2_ringbuffer \<Rightarrow> bytes" where
  "unread r = ring_items (in_hw r) (in_cpu r) (inbuf r)"

definition unsent :: "ps2_ringbuffer \<Rightarrow> bytes" where
  "unsent r = ring_items (out_cpu r) (out_hw r) (outbuf r)"

definition port_reg :: "port \<Rightarrow> 'a \<times> 'a \<Rightarrow> 'a" where
  "port_reg p x = (case p of Keyboard \<Rightarrow> fst x | Mouse \<Rightarrow> snd x)"

text \<open>The byte that a handler call takes from the register of a port.\<close>

definition received :: "u16 \<Rightarrow> bytes" where
  "received reg = (if reg AND 0x0800 \<noteq> 0 then [ucast reg] else [])"

definition written :: "u8 option \<Rightarrow> bytes" where
  "written w = (case w of None \<Rightarrow> [] | Some x \<Rightarrow> [x])"

definition ps2_ok :: "ps2 \<Rightarrow> bool" where
  "ps2_ok s \<longleftrightarrow> ring_ok (kbbuffer s) \<and> ring_ok (mousebuffer s)"

lemma ring_ok_init: "length (inbuf r) = 32 \<Longrightarrow> length (outbuf r) = 32 \<Longrightarrow> ring_ok (ps2_ringbuffer_init r)"
  by (simp add: ring_ok_def ps2_ringbuffer_init_def)

lemma ring_ok_store: "ring_ok r \<Longrightarrow> ring_ok (store_out x r)"
  by (simp add: ring_ok_def store_out_def)

lemma ring_ok_handle: "ring_ok r \<Longrightarrow> ring_ok (snd (handle_port reg r))"
  by (simp add: ring_ok_def handle_port_def receive_byte_def send_byte_def)

lemma ring_ok_read: "ring_ok r \<Longrightarrow> ring_ok (snd (ps2_ringbuffer_read r))"
  by (simp add: ring_ok_def ps2_ringbuffer_read_def)

lemma count_unread: "ring_ok r \<Longrightarrow> ps2_ringbuffer_count r = length (unread r) \<and> length (unread r) \<le> 31"
  by (simp add: ring_ok_def ps2_ringbuffer_count_def PS2_RINGBUFFER_SIZE_def unread_def
      length_ring_items ring_distance; arith)

lemma unread_handle:
  assumes "ring_ok r" "length (unread r @ received reg) \<le> 31"
  shows "unread (snd (handle_port reg r)) = unread r @ received reg"
proof -
  have "unread (receive_byte x r) = unread r @ [x]" if "length (unread r) < 31" for x
    using assms(1) that by (simp add: ring_ok_def unread_def receive_byte_def ring_items_put)
  moreover have "unread (snd (send_byte r)) = unread r" for r
    by (simp add: send_byte_def unread_def)
  ultimately show ?thesis
    using assms(2) by (auto simp: handle_port_def received_def Let_def)
qed

lemma unread_store: "unread (store_out x r) = unread r"
  by (simp add: unread_def store_out_def)

lemma unread_read:
  assumes "ring_ok r" "ps2_ringbuffer_read r = (c, r')"
  shows "c = (case unread r of [] \<Rightarrow> - 1 | x # _ \<Rightarrow> uint x) \<and> unread r' = tl (unread r)"
proof (cases "unread r")
  case Nil
  then show ?thesis
    using assms ring_items_empty [of "in_hw r" "in_cpu r" "inbuf r"]
    by (simp add: ring_ok_def unread_def ps2_ringbuffer_read_def)
next
  case (Cons x xs)
  then show ?thesis
    using assms ring_items_get [of "in_hw r" "in_cpu r" "inbuf r" x xs]
    by (auto simp: ring_ok_def unread_def ps2_ringbuffer_read_def)
qed

lemma unsent_full:
  assumes "ring_ok r"
  shows "out_hw r = next_index (out_cpu r) \<longleftrightarrow> length (unsent r) = 31" "length (unsent r) \<le> 31"
  using assms by (simp add: ring_ok_def unsent_def length_ring_items ring_distance next_index_mod mod_32_if
      split: if_splits; arith)+

lemma unsent_store:
  assumes "ring_ok r" "out_hw r \<noteq> next_index (out_cpu r)"
  shows "unsent (store_out x r) = unsent r @ [x]"
proof -
  have "length (unsent r) < 31"
    using assms unsent_full [OF assms(1)] by simp
  then show ?thesis
    using assms(1) by (simp add: ring_ok_def unsent_def store_out_def ring_items_put)
qed

lemma unsent_handle:
  assumes "ring_ok r"
  shows "unsent r = written (fst (handle_port reg r)) @ unsent (snd (handle_port reg r))"
proof -
  let ?r = "if reg AND 0x0800 \<noteq> 0 then receive_byte (ucast reg) r else r"
  have same: "unsent ?r = unsent r" "ring_ok ?r"
    using assms by (simp_all add: unsent_def receive_byte_def ring_ok_def)
  have send: "unsent r = written (fst (send_byte r)) @ unsent (snd (send_byte r))" if "ring_ok r" for r
  proof (cases "unsent r")
    case Nil
    then show ?thesis
      using that ring_items_empty [of "out_cpu r" "out_hw r" "outbuf r"]
      by (simp add: ring_ok_def unsent_def send_byte_def written_def)
  next
    case (Cons x xs)
    then show ?thesis
      using that ring_items_get [of "out_cpu r" "out_hw r" "outbuf r" x xs]
      by (simp add: ring_ok_def unsent_def send_byte_def written_def)
  qed
  show ?thesis
    using same(1) send [OF same(2)] by (simp add: handle_port_def Let_def written_def)
qed

lemma port_handler [simp]:
  "port_buffer p (snd (PS2Handler regs s)) = snd (handle_port (port_reg p regs) (port_buffer p s))"
  "port_reg p (fst (PS2Handler regs s)) = fst (handle_port (port_reg p regs) (port_buffer p s))"
  by (simp_all add: PS2Handler_def port_buffer_def port_reg_def case_prod_unfold Let_def split: port.split)

lemma port_put [simp]:
  "port_buffer q (put_buffer p r s) = (if q = p then r else port_buffer q s)"
  by (auto simp: port_buffer_def put_buffer_def split: port.splits)

lemma ps2_ok_ports: "ps2_ok s \<longleftrightarrow> (\<forall>p. ring_ok (port_buffer p s))"
  by (auto simp: ps2_ok_def port_buffer_def split: port.splits)

lemma ps2_ok_simps [simp]:
  "ps2_ok s \<Longrightarrow> ring_ok (port_buffer p s)"
  "ps2_ok s \<Longrightarrow> ps2_ok (snd (PS2Handler regs s))"
  "ps2_ok s \<Longrightarrow> ring_ok r \<Longrightarrow> ps2_ok (put_buffer p r s)"
  by (simp_all add: ps2_ok_ports ring_ok_handle)

section \<open>Interleavings\<close>

text \<open>The steps of the two ports: an interrupt, a read by the program, and the storing of a byte
  once \<open>ps2_ringbuffer_write\<close> has stopped waiting.\<close>

datatype ps2_event = Interrupt "u16 \<times> u16" | ReadByte port | StoreByte port u8

primrec ps2_after :: "ps2_event \<Rightarrow> ps2 \<Rightarrow> ps2" where
  "ps2_after (Interrupt regs) s = snd (PS2Handler regs s)"
| "ps2_after (ReadByte p) s = put_buffer p (snd (ps2_ringbuffer_read (port_buffer p s))) s"
| "ps2_after (StoreByte p x) s = put_buffer p (store_out x (port_buffer p s)) s"

text \<open>What the program reads from port \<open>p\<close>, and what the handler writes to its register.\<close>

primrec bytes_read :: "port \<Rightarrow> ps2_event \<Rightarrow> ps2 \<Rightarrow> bytes" where
  "bytes_read p (Interrupt regs) s = []"
| "bytes_read p (ReadByte q) s =
     (let c = fst (ps2_ringbuffer_read (port_buffer q s)) in if p = q \<and> c \<noteq> - 1 then [word_of_int c] else [])"
| "bytes_read p (StoreByte q x) s = []"

primrec bytes_sent :: "port \<Rightarrow> ps2_event \<Rightarrow> ps2 \<Rightarrow> bytes" where
  "bytes_sent p (Interrupt regs) s = written (port_reg p (fst (PS2Handler regs s)))"
| "bytes_sent p (ReadByte q) s = []"
| "bytes_sent p (StoreByte q x) s = []"

primrec bytes_in :: "port \<Rightarrow> ps2_event \<Rightarrow> bytes" where
  "bytes_in p (Interrupt regs) = received (port_reg p regs)"
| "bytes_in p (ReadByte q) = []"
| "bytes_in p (StoreByte q x) = []"

primrec bytes_stored :: "port \<Rightarrow> ps2_event \<Rightarrow> bytes" where
  "bytes_stored p (Interrupt regs) = []"
| "bytes_stored p (ReadByte q) = []"
| "bytes_stored p (StoreByte q x) = (if p = q then [x] else [])"

definition rx_step :: "port \<Rightarrow> ps2_event \<Rightarrow> ps2 \<Rightarrow> bytes \<times> ps2" where
  "rx_step p e s = (bytes_read p e s, ps2_after e s)"

definition tx_step :: "port \<Rightarrow> ps2_event \<Rightarrow> ps2 \<Rightarrow> bytes \<times> ps2" where
  "tx_step p e s = (bytes_sent p e s, ps2_after e s)"

lemma ps2_ok_after: "ps2_ok s \<Longrightarrow> ps2_ok (ps2_after e s)"
  by (cases e) (simp_all add: ring_ok_read ring_ok_store)

lemma uint_not_minus_one [simp]: "uint (x :: u8) \<noteq> - 1"
  by (metis uint_nonnegative neg_0_le_iff_le not_one_le_zero)

lemma rx_step_fifo:
  assumes "ps2_ok s" "length (unread (port_buffer p s) @ bytes_in p e) \<le> 31"
  shows "unread (port_buffer p s) @ bytes_in p e = bytes_read p e s @ unread (port_buffer p (ps2_after e s))"
proof (cases e)
  case (Interrupt regs)
  then show ?thesis using assms by (simp add: unread_handle)
next
  case (ReadByte q)
  moreover obtain c r where r: "ps2_ringbuffer_read (port_buffer q s) = (c, r)" by fastforce
  ultimately show ?thesis
    using ReadByte assms(1) r unread_read [of "port_buffer q s" c r] by (simp split: list.splits)
qed (simp add: unread_store)

lemma tx_step_fifo:
  assumes "ps2_ok s" "length (unsent (port_buffer p s) @ bytes_stored p e) \<le> 31"
  shows "unsent (port_buffer p s) @ bytes_stored p e = bytes_sent p e s @ unsent (port_buffer p (ps2_after e s))"
proof (cases e)
  case (Interrupt regs)
  then show ?thesis using assms(1) unsent_handle [of "port_buffer p s" "port_reg p regs"] by simp
next
  case (ReadByte q)
  then show ?thesis by (simp add: unsent_def ps2_ringbuffer_read_def)
next
  case (StoreByte q x)
  have "out_hw (port_buffer q s) \<noteq> next_index (out_cpu (port_buffer q s))" if "p = q"
    using assms StoreByte that unsent_full [of "port_buffer q s"] by simp
  then show ?thesis using StoreByte assms(1) by (simp add: unsent_store)
qed

interpretation rx: bounded_queue ps2_ok "\<lambda>s. unread (port_buffer p s)" 31 "bytes_in p" "rx_step p" for p
  by unfold_locales (use rx_step_fifo in \<open>auto simp: rx_step_def ps2_ok_after\<close>)

interpretation tx: bounded_queue ps2_ok "\<lambda>s. unsent (port_buffer p s)" 31 "bytes_stored p" "tx_step p" for p
  by unfold_locales (use tx_step_fifo in \<open>auto simp: tx_step_def ps2_ok_after\<close>)

lemma port_after: "snd (rx_step p e s) = ps2_after e s" "snd (tx_step p e s) = ps2_after e s"
  by (simp_all add: rx_step_def tx_step_def)

lemma same_run: "snd (run_steps (tx_step p) es s) = snd (run_steps (rx_step p) es s)"
  by (induction es arbitrary: s) (simp_all add: case_prod_unfold port_after)

section \<open>Waiting and writing\<close>

lemma write_ok:
  assumes "ps2_ringbuffer_write p x irqs s = Some (ws, rest, s')" "ps2_ok s"
  shows "ps2_ok s'"
  using assms
proof (induction irqs arbitrary: s ws)
  case (Cons regs irqs)
  then show ?case
    by (auto simp: Let_def case_prod_unfold ring_ok_store dest: Cons.IH split: if_splits)
qed simp

lemma write_fifo:
  assumes "ps2_ringbuffer_write p x irqs s = Some (ws, rest, s')" "ps2_ok s"
  shows "unsent (port_buffer q s) @ (if q = p then [x] else []) =
    concat (map (\<lambda>w. written (port_reg q w)) ws) @ unsent (port_buffer q s')"
  using assms
proof (induction irqs arbitrary: s ws)
  case (Cons regs irqs)
  have sent: "unsent (port_buffer q t) = written (port_reg q (fst (PS2Handler regs t))) @
      unsent (port_buffer q (snd (PS2Handler regs t)))" if "ps2_ok t" for t
    using unsent_handle [of "port_buffer q t" "port_reg q regs"] that by simp
  obtain w s1 where h: "PS2Handler regs s = (w, s1)" by fastforce
  show ?case
  proof (cases "out_hw (port_buffer p s) = next_index (out_cpu (port_buffer p s))")
    case True
    then obtain ws' where ws: "ws = w # ws'" "ps2_ringbuffer_write p x irqs s1 = Some (ws', rest, s')"
      using Cons.prems h by (auto simp: Let_def split: if_splits)
    have "ps2_ok s1" using Cons.prems(2) h ps2_ok_simps(2) [of s regs] by simp
    then show ?thesis
      using Cons.IH [OF ws(2)] sent [OF Cons.prems(2)] h ws(1) by (simp del: port_handler)
  next
    case False
    let ?t = "put_buffer p (store_out x (port_buffer p s)) s"
    have w: "ws = [fst (PS2Handler regs ?t)]" "s' = snd (PS2Handler regs ?t)"
      using False Cons.prems(1) by (auto simp: Let_def case_prod_unfold)
    have t: "ps2_ok ?t" using Cons.prems(2) by (simp add: ring_ok_store)
    have "unsent (port_buffer q ?t) = unsent (port_buffer q s) @ (if q = p then [x] else [])"
      using False Cons.prems(2) by (simp add: unsent_store)
    then show ?thesis using sent [OF t] w by (simp del: port_handler)
  qed
qed simp

lemma handler_makes_room:
  assumes "ps2_ok s" "out_hw (port_buffer p s) = next_index (out_cpu (port_buffer p s))"
    "port_reg p regs AND 0x0400 \<noteq> 0"
  shows "out_hw (port_buffer p (snd (PS2Handler regs s))) \<noteq> next_index (out_cpu (port_buffer p (snd (PS2Handler regs s))))"
proof -
  have "next_index i \<noteq> i" if "i < 32" for i
    using that by (simp add: next_index_mod mod_32_if)
  then show ?thesis
    using assms ps2_ok_simps(1) [OF assms(1), of p]
    by (auto simp: handle_port_def send_byte_def receive_byte_def ring_ok_def Let_def)
qed

section \<open>Properties\<close>

definition sample_ps2 :: ps2 where
  "sample_ps2 = (let r = \<lparr>in_hw = 31, in_cpu = 0, out_hw = 1, out_cpu = 0,
       inbuf = map of_nat [0..<32], outbuf = map of_nat [0..<32]\<rparr>
     in \<lparr>kbbuffer = r, mousebuffer = ps2_ringbuffer_init r\<rparr>)"

lemma sample_ps2_ok: "ps2_ok sample_ps2"
  by (simp add: sample_ps2_def ps2_ok_def ring_ok_def Let_def ps2_ringbuffer_init_def)

text \<open>
  C34. However interrupts, reads and writes of the two ports are interleaved: as long as there are
  never more than 31 unread bytes, the bytes received on a port are those the program reads from
  it, in order, followed by those still unread; and the bytes the program stores are those the
  handler writes to the register of that port, in order, followed by those still unsent.
\<close>
theorem ps2_ports_are_fifo:
  assumes "ps2_ok s"
    and "steps_fit 31 (\<lambda>s. unread (port_buffer p s)) (bytes_in p) (rx_step p) es s"
    and "steps_fit 31 (\<lambda>s. unsent (port_buffer p s)) (bytes_stored p) (tx_step p) es s"
  shows "\<exists>got sent s'. run_steps (rx_step p) es s = (got, s') \<and> run_steps (tx_step p) es s = (sent, s') \<and>
    ps2_ok s' \<and>
    unread (port_buffer p s) @ concat (map (bytes_in p) es) = got @ unread (port_buffer p s') \<and>
    unsent (port_buffer p s) @ concat (map (bytes_stored p) es) = sent @ unsent (port_buffer p s')"
  using rx.run_fifo [OF assms(1,2)] tx.run_fifo [OF assms(1,3)] same_run [of p es s]
  by (intro exI conjI) (auto simp: prod_eq_iff)

lemma ps2_ports_are_fifo_witness:
  "\<exists>got sent s'. run_steps (rx_step Mouse) [Interrupt (0, 0x0C41), StoreByte Mouse 7, ReadByte Mouse] sample_ps2 = (got, s') \<and>
    run_steps (tx_step Mouse) [Interrupt (0, 0x0C41), StoreByte Mouse 7, ReadByte Mouse] sample_ps2 = (sent, s') \<and>
    ps2_ok s' \<and> [0x41] = got @ unread (port_buffer Mouse s') \<and> [7] = sent @ unsent (port_buffer Mouse s')"
proof -
  let ?es = "[Interrupt (0, 0x0C41), StoreByte Mouse 7, ReadByte Mouse]"
  have e: "unread (port_buffer Mouse sample_ps2) = []" "unsent (port_buffer Mouse sample_ps2) = []"
    "concat (map (bytes_in Mouse) ?es) = [0x41]" "concat (map (bytes_stored Mouse) ?es) = [7]"
    by (simp_all add: sample_ps2_def Let_def port_buffer_def unread_def unsent_def ps2_ringbuffer_init_def
        ring_items_def received_def port_reg_def)
  have "steps_fit 31 (\<lambda>s. unread (port_buffer Mouse s)) (bytes_in Mouse) (rx_step Mouse) ?es sample_ps2"
    "steps_fit 31 (\<lambda>s. unsent (port_buffer Mouse s)) (bytes_stored Mouse) (tx_step Mouse) ?es sample_ps2"
    by code_simp+
  from ps2_ports_are_fifo [OF sample_ps2_ok this] show ?thesis unfolding e by simp
qed

text \<open>
  A write appends its byte to the bytes waiting to be sent to that port and to those of no
  other port; what was waiting and is sent meanwhile is written to the register in order.
\<close>
theorem ps2_write_appends:
  assumes "ps2_ringbuffer_write p x irqs s = Some (ws, rest, s')" "ps2_ok s"
  shows "ps2_ok s' \<and> unsent (port_buffer q s) @ (if q = p then [x] else []) =
    concat (map (\<lambda>w. written (port_reg q w)) ws) @ unsent (port_buffer q s')"
  using write_ok [OF assms] write_fifo [OF assms] by simp

lemma ps2_write_appends_witness:
  "\<exists>ws rest s'. ps2_ringbuffer_write Mouse 7 [(0, 0)] sample_ps2 = Some (ws, rest, s') \<and>
     ps2_ok s' \<and> [] @ [7] = concat (map (\<lambda>w. written (port_reg Mouse w)) ws) @ unsent (port_buffer Mouse s')"
proof -
  have e: "unsent (port_buffer Mouse sample_ps2) = []"
    by (simp add: sample_ps2_def Let_def port_buffer_def unsent_def ps2_ringbuffer_init_def ring_items_def)
  obtain ws rest s' where "ps2_ringbuffer_write Mouse 7 [(0, 0)] sample_ps2 = Some (ws, rest, s')"
    by (simp add: sample_ps2_def Let_def port_buffer_def ps2_ringbuffer_init_def next_index_mod case_prod_unfold)
  then show ?thesis using ps2_write_appends [OF _ sample_ps2_ok, where q = Mouse] e by fastforce
qed

text \<open>
  C35. A write does not wait for ever: it ends at the latest after the first interrupt at which the
  port is ready to send.
\<close>
theorem ps2_write_returns:
  assumes "ps2_ok s" "\<exists>regs \<in> set (butlast irqs). port_reg p regs AND 0x0400 \<noteq> 0"
  shows "\<exists>ws rest s'. ps2_ringbuffer_write p x irqs s = Some (ws, rest, s')"
  using assms
proof (induction irqs arbitrary: s)
  case (Cons regs irqs)
  then have "irqs \<noteq> []" by auto
  then obtain r irqs' where irqs: "irqs = r # irqs'" by (cases irqs) auto
  show ?case
  proof (cases "out_hw (port_buffer p s) = next_index (out_cpu (port_buffer p s))")
    case True
    have ok: "ps2_ok (snd (PS2Handler regs s))" using Cons.prems(1) by simp
    have "\<exists>ws rest s'. ps2_ringbuffer_write p x irqs (snd (PS2Handler regs s)) = Some (ws, rest, s')"
    proof (cases "port_reg p regs AND 0x0400 = 0")
      case True
      then show ?thesis using Cons.IH [OF ok] Cons.prems(2) irqs by auto
    next
      case False
      then show ?thesis
        using handler_makes_room [OF Cons.prems(1) True, of regs] irqs
        by (simp add: Let_def case_prod_unfold del: port_handler)
    qed
    then show ?thesis using True by (auto simp: Let_def case_prod_unfold)
  qed (simp add: Let_def case_prod_unfold)
qed simp

lemma ps2_write_returns_witness:
  "\<exists>ws rest s'. ps2_ringbuffer_write Keyboard 7 [(0, 0), (0x400, 0), (0, 0)] sample_ps2 = Some (ws, rest, s')"
  using ps2_write_returns [OF sample_ps2_ok, of "[(0, 0), (0x400, 0), (0, 0)]" Keyboard 7]
  by (simp add: port_reg_def)

text \<open>
  C36. The handler does not check for a full receive buffer: a byte that arrives while 31 are unread
  makes the buffer look empty, and all 32 are lost.
\<close>
theorem ps2_receive_overflow_loses_all:
  assumes "ps2_ok s" "ps2_ringbuffer_count (port_buffer p s) = 31" "port_reg p regs AND 0x0800 \<noteq> 0"
  shows "ps2_ringbuffer_count (port_buffer p (snd (PS2Handler regs s))) = 0 \<and>
    fst (ps2_ringbuffer_read (port_buffer p (snd (PS2Handler regs s)))) = - 1"
proof -
  have "next_index w = r" if "w < 32" "r < 32" "(w + 32 - r) mod 32 = 31" for w r
    using that by (simp add: next_index_mod ring_distance mod_32_if split: if_splits; arith)
  then have "next_index (in_hw (port_buffer p s)) = in_cpu (port_buffer p s)"
    using assms(2) ps2_ok_simps(1) [OF assms(1), of p] count_unread [of "port_buffer p s"]
    by (simp add: ring_ok_def unread_def length_ring_items)
  then show ?thesis
    using assms(3)
    by (simp add: handle_port_def receive_byte_def send_byte_def ps2_ringbuffer_count_def ps2_ringbuffer_read_def Let_def)
qed

lemma ps2_receive_overflow_loses_all_witness:
  "ps2_ringbuffer_count (port_buffer Keyboard (snd (PS2Handler (0x0841, 0) sample_ps2))) = 0"
  using ps2_receive_overflow_loses_all [OF sample_ps2_ok, of Keyboard "(0x0841, 0)"]
  by (simp add: port_reg_def sample_ps2_def Let_def port_buffer_def ps2_ringbuffer_count_def)

end
