(* ===== verification/Devices.thy ===== *)
theory Devices
  imports Prelude
begin

text \<open>
  Small drivers: the screen modes of \<^verbatim>\<open>Firmware_Common/vga.c\<close>, the serial port of
  \<^verbatim>\<open>Firmware_Common/uart.c\<close> and the table of interrupt handlers of
  \<^verbatim>\<open>Firmware_Common/interrupts.c\<close>. The registers of the video hardware are a map from offsets to the
  last value written; the serial port is the list of the values that reading its register gives.
\<close>

unbundle bit_operations_syntax

section \<open>Video\<close>

datatype VGA_ScreenModes = MODE_640_400_70HZ | MODE_640_480_60HZ | MODE_320_480_60HZ
  | MODE_800_600_52HZ | MODE_800_600_72HZ | MODE_768_576_57HZ

record vga =
  vga_regs :: "nat \<Rightarrow> u16"
  sprite_ptr :: u32
  screenmode :: u16

abbreviation (input) "REG_VGA_HTOTAL \<equiv> 0x08 :: nat"
abbreviation (input) "REG_VGA_HSIZE \<equiv> 0x0A :: nat"
abbreviation (input) "REG_VGA_HBSTART \<equiv> 0x0C :: nat"
abbreviation (input) "REG_VGA_HBSTOP \<equiv> 0x0E :: nat"
abbreviation (input) "REG_VGA_VTOTAL \<equiv> 0x10 :: nat"
abbreviation (input) "REG_VGA_VSIZE \<equiv> 0x12 :: nat"
abbreviation (input) "REG_VGA_VBSTART \<equiv> 0x14 :: nat"
abbreviation (input) "REG_VGA_VBSTOP \<equiv> 0x16 :: nat"
abbreviation (input) "REG_VGA_CONTROL \<equiv> 0x18 :: nat"

abbreviation (input) "FLAG_VGA_CONTROL_OVERLAY \<equiv> 0x80 :: u16"
abbreviation (input) "FLAG_VGA_CONTROL_VISIBLE \<equiv> 0x01 :: u16"
abbreviation (input) "MASK_VGA_CONTROL_PIXELCLOCK_2 \<equiv> 0x02 :: u16"
abbreviation (input) "MASK_VGA_CONTROL_PIXELCLOCK_3 \<equiv> 0x04 :: u16"
abbreviation (input) "MASK_VGA_CONTROL_PIXELCLOCK_4 \<equiv> 0x06 :: u16"
abbreviation (input) "MASK_VGA_CONTROL_PIXELCLOCK_8 \<equiv> 0x0E :: u16"

definition initial_screenmode :: u16 where
  "initial_screenmode = FLAG_VGA_CONTROL_OVERLAY OR FLAG_VGA_CONTROL_VISIBLE OR MASK_VGA_CONTROL_PIXELCLOCK_4"

definition hw_vga :: "nat \<Rightarrow> u16 \<Rightarrow> vga \<Rightarrow> vga" where
  "hw_vga r x v = v\<lparr>vga_regs := (vga_regs v)(r := x)\<rparr>"

text \<open>What every case of \<open>VGA_SetScreenMode\<close> does after its timings: the new pixel clock, with the
  overlay and the visibility kept.\<close>

definition set_clock :: "u16 \<Rightarrow> vga \<Rightarrow> vga" where
  "set_clock clk v =
     (let v = v\<lparr>screenmode := (screenmode v AND (FLAG_VGA_CONTROL_OVERLAY OR FLAG_VGA_CONTROL_VISIBLE)) OR clk\<rparr>
      in hw_vga REG_VGA_CONTROL (screenmode v) v)"

fun VGA_SetScreenMode :: "VGA_ScreenModes \<Rightarrow> vga \<Rightarrow> vga" where
  "VGA_SetScreenMode MODE_640_400_70HZ v =
     set_clock MASK_VGA_CONTROL_PIXELCLOCK_4
       (fold (\<lambda>(r, x). hw_vga r x)
         [(REG_VGA_HTOTAL, 800), (REG_VGA_HSIZE, 640), (REG_VGA_HBSTART, 656), (REG_VGA_HBSTOP, 752),
          (REG_VGA_VTOTAL, 449), (REG_VGA_VSIZE, 400), (REG_VGA_VBSTART, 412), (REG_VGA_VBSTOP, 414)] v)"
| "VGA_SetScreenMode MODE_640_480_60HZ v =
     set_clock MASK_VGA_CONTROL_PIXELCLOCK_4
       (fold (\<lambda>(r, x). hw_vga r x)
         [(REG_VGA_HTOTAL, 800), (REG_VGA_HSIZE, 640), (REG_VGA_HBSTART, 656), (REG_VGA_HBSTOP, 752),
          (REG_VGA_VTOTAL, 525), (REG_VGA_VSIZE, 480), (REG_VGA_VBSTART, 500), (REG_VGA_VBSTOP, 502)] v)"
| "VGA_SetScreenMode MODE_320_480_60HZ v =
     set_clock MASK_VGA_CONTROL_PIXELCLOCK_8
       (fold (\<lambda>(r, x). hw_vga r x)
         [(REG_VGA_HTOTAL, 400), (REG_VGA_HSIZE, 320), (REG_VGA_HBSTART, 328), (REG_VGA_HBSTOP, 376),
          (REG_VGA_VTOTAL, 525), (REG_VGA_VSIZE, 480), (REG_VGA_VBSTART, 490), (REG_VGA_VBSTOP, 492)] v)"
| "VGA_SetScreenMode MODE_800_600_52HZ v =
     set_clock MASK_VGA_CONTROL_PIXELCLOCK_3
       (fold (\<lambda>(r, x). hw_vga r x)
         [(REG_VGA_HTOTAL, 1024), (REG_VGA_HSIZE, 800), (REG_VGA_HBSTART, 824), (REG_VGA_HBSTOP, 896),
          (REG_VGA_VTOTAL, 625), (REG_VGA_VSIZE, 600), (REG_VGA_VBSTART, 601), (REG_VGA_VBSTOP, 602)] v)"
| "VGA_SetScreenMode MODE_800_600_72HZ v =
     set_clock MASK_VGA_CONTROL_PIXELCLOCK_2
       (fold (\<lambda>(r, x). hw_vga r x)
         [(REG_VGA_HTOTAL, 1040), (REG_VGA_HSIZE, 800), (REG_VGA_HBSTART, 856), (REG_VGA_HBSTOP, 976),
          (REG_VGA_VTOTAL, 666), (REG_VGA_VSIZE, 600), (REG_VGA_VBSTART, 637), (REG_VGA_VBSTOP, 643)] v)"
| "VGA_SetScreenMode MODE_768_576_57HZ v =
     set_clock MASK_VGA_CONTROL_PIXELCLOCK_3
       (fold (\<lambda>(r, x). hw_vga r x)
         [(REG_VGA_HTOTAL, 976), (REG_VGA_HSIZE, 768), (REG_VGA_HBSTART, 792), (REG_VGA_HBSTOP, 872),
          (REG_VGA_VTOTAL, 597), (REG_VGA_VSIZE, 576), (REG_VGA_VBSTART, 577), (REG_VGA_VBSTOP, 580)] v)"

definition VGA_SetSprite :: "u32 \<Rightarrow> vga \<Rightarrow> vga" where
  "VGA_SetSprite StandardPointer v = v\<lparr>sprite_ptr := StandardPointer\<rparr>"

definition VGA_ShowOverlay :: "vga \<Rightarrow> vga" where
  "VGA_ShowOverlay v =
     (let v = v\<lparr>screenmode := screenmode v OR FLAG_VGA_CONTROL_OVERLAY\<rparr>
      in hw_vga REG_VGA_CONTROL (screenmode v) v)"

definition VGA_HideOverlay :: "vga \<Rightarrow> vga" where
  "VGA_HideOverlay v =
     (let v = v\<lparr>screenmode := screenmode v AND NOT FLAG_VGA_CONTROL_OVERLAY\<rparr>
      in hw_vga REG_VGA_CONTROL (screenmode v) v)"

text \<open>The timings of a line or of a frame: the picture, then the sync pulse, then the total.\<close>

definition timing_ok :: "u16 \<Rightarrow> u16 \<Rightarrow> u16 \<Rightarrow> u16 \<Rightarrow> bool" where
  "timing_ok pic start stop all \<longleftrightarrow> 0 < pic \<and> pic < start \<and> start < stop \<and> stop < all"

definition vga_ok :: "vga \<Rightarrow> bool" where
  "vga_ok v \<longleftrightarrow> vga_regs v REG_VGA_CONTROL = screenmode v \<and>
     timing_ok (vga_regs v REG_VGA_HSIZE) (vga_regs v REG_VGA_HBSTART) (vga_regs v REG_VGA_HBSTOP) (vga_regs v REG_VGA_HTOTAL) \<and>
     timing_ok (vga_regs v REG_VGA_VSIZE) (vga_regs v REG_VGA_VBSTART) (vga_regs v REG_VGA_VBSTOP) (vga_regs v REG_VGA_VTOTAL)"

datatype vga_call = SetMode VGA_ScreenModes | SetSprite u32 | ShowOverlay | HideOverlay

primrec vga_do :: "vga_call \<Rightarrow> vga \<Rightarrow> vga" where
  "vga_do (SetMode m) v = VGA_SetScreenMode m v"
| "vga_do (SetSprite p) v = VGA_SetSprite p v"
| "vga_do ShowOverlay v = VGA_ShowOverlay v"
| "vga_do HideOverlay v = VGA_HideOverlay v"

definition overlay_after :: "vga_call \<Rightarrow> bool \<Rightarrow> bool" where
  "overlay_after c b = (case c of ShowOverlay \<Rightarrow> True | HideOverlay \<Rightarrow> False | _ \<Rightarrow> b)"

lemma set_mode_ok: "vga_ok (VGA_SetScreenMode m v)"
  by (cases m) (simp_all add: vga_ok_def timing_ok_def hw_vga_def set_clock_def Let_def)

lemma overlay_bit: "x AND 0x80 = 0 \<or> x AND 0x80 = 0x80" for x :: u16
proof -
  have e: "bit (0x80 :: u16) n \<longleftrightarrow> n = 7" for n
    using bit_exp_iff [where ?'a = "16 word", of 7 n] by auto
  have "x AND 0x80 = (if bit x 7 then 0x80 else 0)"
    by (rule bit_word_eqI) (cases "bit x 7"; auto simp only: if_True if_False bit_and_iff e bit_0_eq bot_apply bot_bool_def)
  then show ?thesis by simp
qed

lemma control_bits:
  "screenmode (vga_do c v) AND 0x80 = (if overlay_after c (screenmode v AND 0x80 \<noteq> 0) then 0x80 else 0)"
  "screenmode (vga_do c v) AND 1 = screenmode v AND 1"
proof -
  note d = bit.conj_disj_distrib2 and.assoc
  have m: "screenmode (VGA_SetScreenMode m v) AND 0x80 = screenmode v AND 0x80"
    "screenmode (VGA_SetScreenMode m v) AND 1 = screenmode v AND 1" for m
    by (cases m; simp add: hw_vga_def set_clock_def Let_def d)+
  show "screenmode (vga_do c v) AND 0x80 = (if overlay_after c (screenmode v AND 0x80 \<noteq> 0) then 0x80 else 0)"
    using overlay_bit [of "screenmode v"]
    by (cases c) (auto simp: m overlay_after_def VGA_SetSprite_def VGA_ShowOverlay_def VGA_HideOverlay_def hw_vga_def Let_def d)
  show "screenmode (vga_do c v) AND 1 = screenmode v AND 1"
    by (cases c) (simp_all add: m VGA_SetSprite_def VGA_ShowOverlay_def VGA_HideOverlay_def hw_vga_def Let_def d)
qed

lemma vga_do_ok: "vga_ok v \<Longrightarrow> vga_ok (vga_do c v)"
  by (cases c) (simp_all only: vga_do.simps set_mode_ok,
    simp_all add: vga_ok_def VGA_SetSprite_def VGA_ShowOverlay_def VGA_HideOverlay_def hw_vga_def Let_def)

section \<open>Serial port\<close>

text \<open>\<open>putchar\<close> waits for the port to be ready, bit 8; the list holds the values read from the
  register, and \<open>None\<close> means that the port is not ready at the last of them. The low half of what
  is written is the byte sent.\<close>

fun putchar :: "u32 \<Rightarrow> u16 list \<Rightarrow> (u32 \<times> u16 \<times> u16 list) option" where
  "putchar c [] = None"
| "putchar c (reg # regs) =
     (if reg AND 0x100 \<noteq> 0 then Some (c, ucast c, regs) else putchar c regs)"

text \<open>\<open>puts\<close> counts in a variable that it does not initialise; its value before is an argument.
  \<open>char\<close> is signed.\<close>

fun puts :: "u32 \<Rightarrow> bytes \<Rightarrow> u16 list \<Rightarrow> (u32 \<times> u16 list \<times> u16 list) option" where
  "puts result [] regs = Some (result, [], regs)"
| "puts result (c # msg) regs =
     (case putchar (scast c) regs of
        None \<Rightarrow> None
      | Some (_, x, regs) \<Rightarrow> map_option (\<lambda>(result, xs, regs). (result, x # xs, regs)) (puts (result + 1) msg regs))"

text \<open>\<open>getserial\<close> waits for a byte received, bit 9.\<close>

fun getserial :: "u16 list \<Rightarrow> (u8 \<times> u16 list) option" where
  "getserial [] = None"
| "getserial (reg # regs) = (if reg AND 0x200 \<noteq> 0 then Some (ucast reg, regs) else getserial regs)"

definition ready_count :: "u16 list \<Rightarrow> nat" where
  "ready_count regs = length (filter (\<lambda>reg. reg AND 0x100 \<noteq> 0) regs)"

lemma putchar_ready:
  "ready_count regs > 0 \<Longrightarrow> \<exists>regs'. putchar c regs = Some (c, ucast c, regs') \<and> Suc (ready_count regs') = ready_count regs"
  by (induction regs) (auto simp: ready_count_def)

lemma scast_byte: "ucast (ucast (scast c :: u32) :: u16) = (c :: u8)"
  by (rule bit_word_eqI) (simp add: bit_ucast_iff bit_signed_iff)

lemma puts_ready:
  "ready_count regs \<ge> length msg \<Longrightarrow>
   \<exists>xs regs'. puts n msg regs = Some (n + of_nat (length msg), xs, regs') \<and> map ucast xs = msg"
proof (induction msg arbitrary: n regs)
  case (Cons c msg)
  obtain regs1 where "putchar (scast c) regs = Some (scast c, ucast (scast c :: u32), regs1)"
    "Suc (ready_count regs1) = ready_count regs"
    using putchar_ready [of regs "scast c"] Cons.prems by auto
  then show ?case
    using Cons.IH [of regs1 "n + 1"] Cons.prems by (auto simp: scast_byte algebra_simps)
qed simp

section \<open>Interrupt handlers\<close>

text \<open>The seven words from \<open>IntHandler1\<close> on.\<close>

definition SetIntHandler :: "int \<Rightarrow> 'h \<Rightarrow> 'h list \<Rightarrow> 'h list" where
  "SetIntHandler interrupt handler h =
     (if interrupt > 0 \<and> interrupt \<le> 7 then h[nat (interrupt - 1) := handler] else h)"

section \<open>Properties\<close>

definition sample_vga :: vga where
  "sample_vga = VGA_SetScreenMode MODE_640_480_60HZ \<lparr>vga_regs = \<lambda>_. 0, sprite_ptr = 0, screenmode = initial_screenmode\<rparr>"

text \<open>
  Once a screen mode is set, every sequence of calls keeps the video registers consistent: in
  each direction the picture ends before the sync pulse, the pulse before the total, and the control
  register holds the mode kept in memory; its overlay bit is that of the last call that shows or
  hides the overlay, whatever modes are set in between, and the picture stays visible.
\<close>
theorem vga_calls_keep_mode:
  assumes "vga_ok v"
  shows "vga_ok (fold vga_do cs v) \<and>
    vga_regs (fold vga_do cs v) REG_VGA_CONTROL AND 0x80 = (if fold overlay_after cs (screenmode v AND 0x80 \<noteq> 0) then 0x80 else 0) \<and>
    vga_regs (fold vga_do cs v) REG_VGA_CONTROL AND 1 = screenmode v AND 1"
proof -
  have ok: "vga_ok (fold vga_do cs v)"
    using assms by (induction cs arbitrary: v) (simp_all add: vga_do_ok)
  have "screenmode (fold vga_do cs v) AND 0x80 = (if fold overlay_after cs (screenmode v AND 0x80 \<noteq> 0) then 0x80 else 0)"
    "screenmode (fold vga_do cs v) AND 1 = screenmode v AND 1"
    using overlay_bit by (induction cs arbitrary: v) (auto simp: control_bits)
  then show ?thesis using ok by (simp add: vga_ok_def)
qed

lemma vga_calls_keep_mode_witness:
  "vga_regs (fold vga_do [HideOverlay, SetMode MODE_800_600_72HZ, SetSprite 4] sample_vga) REG_VGA_CONTROL AND 0x80 = 0"
proof -
  have "vga_ok sample_vga" unfolding sample_vga_def by (rule set_mode_ok)
  from vga_calls_keep_mode [OF this, of "[HideOverlay, SetMode MODE_800_600_72HZ, SetSprite 4]"]
  show ?thesis by (simp add: overlay_after_def)
qed

text \<open>
  If the port becomes ready often enough, \<open>puts\<close> returns and has sent exactly the bytes of the
  message, in order; but what it returns is its length added to the initial value of a variable that
  is never set.
\<close>
theorem puts_sends_message:
  assumes "ready_count regs \<ge> length msg"
  shows "\<exists>xs regs'. puts uninitialised msg regs = Some (uninitialised + of_nat (length msg), xs, regs') \<and> map ucast xs = msg"
  by (rule puts_ready [OF assms])

lemma puts_sends_message_witness:
  "\<exists>xs regs'. puts 0x1234 [72, 105] [0, 0x100, 0x300] = Some (0x1236, xs, regs') \<and> map ucast xs = [72, 105 :: u8]"
  using puts_sends_message [of "[72, 105]" "[0, 0x100, 0x300]" "0x1234"] by (simp add: ready_count_def)

end
