(* ===== verification/Keyboard.thy ===== *)
theory Keyboard
  imports Ps2 Devices
begin

text \<open>
  The keyboard, \<^verbatim>\<open>Firmware_Common/keyboard.c\<close>: the raw codes read from the PS/2 port become
  characters, qualifiers, the states of the LEDs and the table of keys. The bytes that arrive while
  \<open>HandlePS2RawCodes\<close> runs are left for its next call. A write outside of
  \<open>keytable\<close> is a value of its own.
\<close>

section \<open>State and functions\<close>

definition kblookup :: "bytes list" where
  "kblookup =
    [[0, 0, 0, 0, 0, 0, 0, 0, 0, 0, 0, 0, 0, 9, 0, 0,
      0, 0, 0, 0, 0, 113, 49, 0, 0, 0, 122, 115, 97, 119, 50, 0,
      0, 99, 120, 100, 101, 52, 51, 0, 0, 32, 118, 102, 116, 114, 53, 0,
      0, 110, 98, 104, 103, 121, 54, 0, 0, 0, 109, 106, 117, 55, 56, 0,
      0, 44, 107, 105, 111, 48, 57, 0, 0, 46, 47, 108, 59, 112, 45, 0,
      0, 0, 39, 0, 91, 61, 0, 0, 0, 0, 10, 93, 0, 35, 0, 0,
      0, 0, 0, 0, 0, 0, 8, 0, 0, 49, 0, 52, 55, 0, 0, 0,
      48, 46, 50, 53, 54, 56, 27, 0, 0, 43, 51, 0, 42, 57, 0, 0],
     [0, 0, 0, 0, 0, 0, 0, 0, 0, 0, 0, 0, 0, 8, 0, 0,
      0, 0, 0, 0, 0, 81, 33, 0, 0, 0, 90, 83, 65, 87, 34, 0,
      0, 67, 88, 68, 69, 36, 163, 0, 0, 32, 86, 70, 84, 82, 37, 0,
      0, 78, 66, 72, 71, 89, 94, 0, 0, 0, 77, 74, 85, 38, 42, 0,
      0, 60, 75, 73, 79, 41, 40, 0, 0, 62, 63, 76, 58, 80, 95, 0,
      0, 0, 63, 0, 123, 43, 0, 0, 0, 0, 10, 125, 0, 126, 0, 0,
      0, 0, 0, 0, 0, 0, 9, 0, 0, 49, 0, 52, 55, 0, 0, 0,
      48, 46, 50, 53, 54, 56, 27, 0, 0, 43, 51, 0, 42, 57, 0, 0]]"

record keyboard =
  keytable :: bytes
  qualifiers :: u16
  leds :: u16
  keyup :: bool
  extkey :: bool

datatype keyboard_error = OutsideKeytable nat

text \<open>The entry of the table for a code below 128; caps lock, bit 2 of the LEDs, works as shift.\<close>

definition key_char :: "nat \<Rightarrow> keyboard \<Rightarrow> u8" where
  "key_char key kb = kblookup ! unat (if leds kb AND 4 \<noteq> 0 then qualifiers kb OR 1 else qualifiers kb) ! key"

text \<open>One code: the character to return, zero for none, and whether the LEDs have changed.\<close>

definition handle_code :: "nat \<Rightarrow> keyboard \<Rightarrow> keyboard_error + u8 \<times> bool \<times> keyboard" where
  "handle_code key kb =
     (if key = 0xF0 then Inr (0, False, kb\<lparr>keyup := True\<rparr>)
      else if key = 0xE0 then Inr (0, False, kb\<lparr>extkey := True\<rparr>)
      else
        (let keyidx = (if extkey kb then 128 + key else key)
         in if keyidx \<ge> 256 then Inl (OutsideKeytable keyidx)
         else if keyup kb then
           (let kb = kb\<lparr>keytable := (keytable kb)[keyidx := keytable kb ! keyidx AND 0xFE]\<rparr>;
                kb = (if key = 0x12 \<or> key = 0x59 then kb\<lparr>qualifiers := qualifiers kb AND NOT 1\<rparr> else kb)
            in Inr (0, False, kb\<lparr>keyup := False\<rparr>))
         else
           (let kb = kb\<lparr>keytable := (keytable kb)[keyidx := 3]\<rparr>;
                a = (if key < 128 then key_char key kb else 0)
            in if a \<noteq> 0 then Inr (a, False, kb)
            else
              (let kb = kb\<lparr>extkey := False\<rparr>
               in if key = 0x58 then Inr (0, True, kb\<lparr>leds := leds kb XOR 4\<rparr>)
               else if key = 0x7E then Inr (0, True, kb\<lparr>leds := leds kb XOR 1\<rparr>)
               else if key = 0x77 then Inr (0, True, kb\<lparr>leds := leds kb XOR 2\<rparr>)
               else if key = 0x12 \<or> key = 0x59 then Inr (0, False, kb\<lparr>qualifiers := qualifiers kb OR 1\<rparr>)
               else Inr (0, False, kb)))))"

text \<open>The loop of \<open>HandlePS2RawCodes\<close>, which a character ends; \<open>None\<close> would mean that it never
  ends. The flag is \<open>updateleds\<close>.\<close>

partial_function (option) raw_codes :: "ps2 \<Rightarrow> keyboard \<Rightarrow> bool \<Rightarrow> (keyboard_error + u8 \<times> bool \<times> ps2 \<times> keyboard) option" where
  [code]: "raw_codes s kb updateleds =
     (let (key, r) = ps2_ringbuffer_read (kbbuffer s); s = s\<lparr>kbbuffer := r\<rparr>
      in if \<not> key > - 1 then Some (Inr (0, updateleds, s, kb))
      else case handle_code (nat key) kb of
             Inl e \<Rightarrow> Some (Inl e)
           | Inr (a, upd, kb) \<Rightarrow>
               if a \<noteq> 0 then Some (Inr (a, False, s, kb))
               else raw_codes s kb (updateleds \<or> upd))"

text \<open>The list holds the register values at the calls of the interrupt handler, as for
  \<open>ps2_ringbuffer_write\<close>.\<close>

definition HandlePS2RawCodes :: "(u16 \<times> u16) list \<Rightarrow> ps2 \<Rightarrow> keyboard \<Rightarrow> (keyboard_error + u8 \<times> ps2 \<times> keyboard) option" where
  "HandlePS2RawCodes irqs s kb =
     (case raw_codes s kb False of
        None \<Rightarrow> None
      | Some (Inl e) \<Rightarrow> Some (Inl e)
      | Some (Inr (a, updateleds, s, kb)) \<Rightarrow>
          if updateleds then
            (case ps2_ringbuffer_write port.Keyboard 0xED irqs s of
               None \<Rightarrow> None
             | Some (_, irqs, s) \<Rightarrow>
                 map_option (\<lambda>(_, _, s). Inr (a, s, kb)) (ps2_ringbuffer_write port.Keyboard (ucast (leds kb)) irqs s))
          else Some (Inr (a, s, kb)))"

definition ClearKeyboard :: "keyboard \<Rightarrow> keyboard" where
  "ClearKeyboard kb = kb\<lparr>keytable := foldl (\<lambda>t i. t[i := 0]) (keytable kb) [0..<256]\<rparr>"

definition TestKey :: "nat \<Rightarrow> keyboard \<Rightarrow> u8 \<times> keyboard" where
  "TestKey rawcode kb =
     (keytable kb ! rawcode, kb\<lparr>keytable := (keytable kb)[rawcode := keytable kb ! rawcode AND 0xFD]\<rparr>)"

text \<open>\<open>PS2Init\<close>, with the handler that it installs and the table of handlers.\<close>

definition PS2Init :: "'h \<Rightarrow> ps2 \<Rightarrow> keyboard \<Rightarrow> 'h list \<Rightarrow> ps2 \<times> keyboard \<times> 'h list" where
  "PS2Init handler s kb h =
     (\<lparr>kbbuffer = ps2_ringbuffer_init (kbbuffer s), mousebuffer = ps2_ringbuffer_init (mousebuffer s)\<rparr>,
      ClearKeyboard kb, SetIntHandler 4 handler h)"

section \<open>The loop over the codes\<close>

text \<open>The same over the list of unread bytes.\<close>

primrec scan_codes :: "bytes \<Rightarrow> keyboard \<Rightarrow> bool \<Rightarrow> keyboard_error + u8 \<times> bool \<times> bytes \<times> keyboard" where
  "scan_codes [] kb upd = Inr (0, upd, [], kb)"
| "scan_codes (c # cs) kb upd =
     (case handle_code (unat c) kb of
        Inl e \<Rightarrow> Inl e
      | Inr (a, u, kb) \<Rightarrow> if a \<noteq> 0 then Inr (a, False, cs, kb) else scan_codes cs kb (upd \<or> u))"

lemma raw_codes_scan:
  assumes "ps2_ok s"
  shows "\<exists>s'. ps2_ok s' \<and> mousebuffer s' = mousebuffer s \<and> unsent (kbbuffer s') = unsent (kbbuffer s) \<and>
    raw_codes s kb upd =
      Some (map_sum id (\<lambda>(a, u, cs, kb). (a, u, s', kb)) (scan_codes (unread (kbbuffer s)) kb upd)) \<and>
    (\<forall>a u cs kb'. scan_codes (unread (kbbuffer s)) kb upd = Inr (a, u, cs, kb') \<longrightarrow> unread (kbbuffer s') = cs)"
  using assms
proof (induction "unread (kbbuffer s)" arbitrary: s kb upd)
  case Nil
  obtain c r where r: "ps2_ringbuffer_read (kbbuffer s) = (c, r)" by fastforce
  have ok: "ring_ok (kbbuffer s)" using Nil.prems by (simp add: ps2_ok_def)
  have "c = - 1 \<and> r = kbbuffer s"
    using r unread_read [OF ok r] Nil.hyps by (auto simp: ps2_ringbuffer_read_def split: if_splits)
  then have "raw_codes s kb upd = Some (Inr (0, upd, s, kb))"
    using r by (subst raw_codes.simps) simp
  then show ?case using Nil by (intro exI [of _ s]) (simp flip: Nil.hyps)
next
  case (Cons x xs)
  obtain c r where r: "ps2_ringbuffer_read (kbbuffer s) = (c, r)" by fastforce
  let ?s = "s\<lparr>kbbuffer := r\<rparr>"
  have ok: "ring_ok (kbbuffer s)" using Cons.prems by (simp add: ps2_ok_def)
  have c: "c = uint x" "unread r = xs"
    using unread_read [OF ok r] Cons.hyps(2) [symmetric] by simp_all
  have s: "ps2_ok ?s" "unsent r = unsent (kbbuffer s)"
    using Cons.prems ring_ok_read [OF ok] r
    by (auto simp: ps2_ok_def unsent_def ps2_ringbuffer_read_def split: if_splits)
  have u: "- 1 < uint x" "nat (uint x) = unat x"
    using uint_nonnegative [of x] by (linarith, simp)
  have step: "raw_codes s kb upd =
      (case handle_code (unat x) kb of Inl e \<Rightarrow> Some (Inl e)
       | Inr (a, u, kb) \<Rightarrow> if a \<noteq> 0 then Some (Inr (a, False, ?s, kb)) else raw_codes ?s kb (upd \<or> u))"
    using r c(1) by (subst raw_codes.simps) (simp add: u Let_def)
  show ?case
  proof (cases "handle_code (unat x) kb")
    case (Inl e)
    then show ?thesis
      using step s by (intro exI [of _ ?s]) (simp flip: Cons.hyps(2))
  next
    case (Inr h)
    then obtain a u kb' where h: "handle_code (unat x) kb = Inr (a, u, kb')" by (cases h) auto
    show ?thesis
    proof (cases "a = 0")
      case False
      then show ?thesis
        using step s h c(2) by (intro exI [of _ ?s]) (simp flip: Cons.hyps(2))
    next
      case True
      then show ?thesis
        using Cons.hyps(1) [of ?s kb' "upd \<or> u"] step s h c(2) by (simp flip: Cons.hyps(2))
    qed
  qed
qed

lemma scan_codes_no_leds:
  "scan_codes cs kb upd = Inr (a, u, rest, kb') \<Longrightarrow> a \<noteq> 0 \<Longrightarrow> \<not> u"
  by (induction cs arbitrary: kb upd) (auto split: sum.splits prod.splits if_splits)

lemma HandlePS2RawCodes_scan:
  assumes "ps2_ok s"
  shows "scan_codes (unread (kbbuffer s)) kb False = Inl e \<Longrightarrow> HandlePS2RawCodes irqs s kb = Some (Inl e)"
    "scan_codes (unread (kbbuffer s)) kb False = Inr (a, False, cs, kb') \<Longrightarrow>
       \<exists>s'. HandlePS2RawCodes irqs s kb = Some (Inr (a, s', kb')) \<and> ps2_ok s' \<and>
         unread (kbbuffer s') = cs \<and> unsent (kbbuffer s') = unsent (kbbuffer s)"
    "scan_codes (unread (kbbuffer s)) kb False = Inr (a, True, cs, kb') \<Longrightarrow>
       HandlePS2RawCodes irqs s kb = Some r \<Longrightarrow>
       \<exists>sent s'. r = Inr (a, s', kb') \<and> ps2_ok s' \<and>
         unsent (kbbuffer s) @ [0xED, ucast (leds kb')] = sent @ unsent (kbbuffer s')"
proof -
  obtain s1 where s1: "ps2_ok s1" "unsent (kbbuffer s1) = unsent (kbbuffer s)"
    and raw: "raw_codes s kb False =
      Some (map_sum id (\<lambda>(a, u, cs, kb). (a, u, s1, kb)) (scan_codes (unread (kbbuffer s)) kb False))"
    and rest: "\<forall>a u cs kb'. scan_codes (unread (kbbuffer s)) kb False = Inr (a, u, cs, kb') \<longrightarrow> unread (kbbuffer s1) = cs"
    using raw_codes_scan [OF assms, of kb False] by blast
  show "HandlePS2RawCodes irqs s kb = Some (Inl e)"
    if "scan_codes (unread (kbbuffer s)) kb False = Inl e"
    using raw that by (simp add: HandlePS2RawCodes_def)
  show "\<exists>s'. HandlePS2RawCodes irqs s kb = Some (Inr (a, s', kb')) \<and> ps2_ok s' \<and>
      unread (kbbuffer s') = cs \<and> unsent (kbbuffer s') = unsent (kbbuffer s)"
    if "scan_codes (unread (kbbuffer s)) kb False = Inr (a, False, cs, kb')"
    using raw that s1 rest [rule_format, OF that] by (simp add: HandlePS2RawCodes_def)
  show "\<exists>sent s'. r = Inr (a, s', kb') \<and> ps2_ok s' \<and>
      unsent (kbbuffer s) @ [0xED, ucast (leds kb')] = sent @ unsent (kbbuffer s')"
    if u: "scan_codes (unread (kbbuffer s)) kb False = Inr (a, True, cs, kb')"
      and h: "HandlePS2RawCodes irqs s kb = Some r"
  proof -
    obtain ws irqs2 s2 ws' irqs3 s3
      where w: "ps2_ringbuffer_write port.Keyboard 0xED irqs s1 = Some (ws, irqs2, s2)"
        "ps2_ringbuffer_write port.Keyboard (ucast (leds kb')) irqs2 s2 = Some (ws', irqs3, s3)"
        "r = Inr (a, s3, kb')"
      using raw u h by (auto simp: HandlePS2RawCodes_def split: option.splits)
    have ok: "ps2_ok s2" "ps2_ok s3"
      using write_ok [OF w(1) s1(1)] write_ok [OF w(2)] by simp_all
    have "unsent (kbbuffer s1) @ [0xED] = concat (map (\<lambda>w. written (fst w)) ws) @ unsent (kbbuffer s2)"
      "unsent (kbbuffer s2) @ [ucast (leds kb')] = concat (map (\<lambda>w. written (fst w)) ws') @ unsent (kbbuffer s3)"
      using write_fifo [OF w(1) s1(1), of port.Keyboard] write_fifo [OF w(2) ok(1), of port.Keyboard]
      by (simp_all add: port_buffer_def port_reg_def)
    then have "unsent (kbbuffer s) @ [0xED, ucast (leds kb')] =
        (concat (map (\<lambda>w. written (fst w)) ws) @ concat (map (\<lambda>w. written (fst w)) ws')) @ unsent (kbbuffer s3)"
      using s1(2) by (metis append_assoc append_Cons append_Nil)
    then show ?thesis using w(3) ok(2) by blast
  qed
qed

section \<open>The table of keys\<close>

text \<open>The keys held down, and those pressed since they were last tested.\<close>

definition keys_down :: "keyboard \<Rightarrow> nat set" where
  "keys_down kb = {i. i < length (keytable kb) \<and> keytable kb ! i AND 1 \<noteq> 0}"

definition keys_fresh :: "keyboard \<Rightarrow> nat set" where
  "keys_fresh kb = {i. i < length (keytable kb) \<and> keytable kb ! i AND 2 \<noteq> 0}"

definition keyboard_ok :: "keyboard \<Rightarrow> bool" where
  "keyboard_ok kb \<longleftrightarrow> length (keytable kb) = 256 \<and> (\<forall>x \<in> set (keytable kb). x \<in> {0, 1, 2, 3}) \<and>
     qualifiers kb \<in> {0, 1}"

lemma keytable_update:
  assumes "keyboard_ok kb" "i < 256" "x \<in> {0, 1, 2, 3}"
  shows "keyboard_ok (kb\<lparr>keytable := (keytable kb)[i := x]\<rparr>)"
    "keys_down (kb\<lparr>keytable := (keytable kb)[i := x]\<rparr>) =
       (if x AND 1 \<noteq> 0 then insert i (keys_down kb) else keys_down kb - {i})"
    "keys_fresh (kb\<lparr>keytable := (keytable kb)[i := x]\<rparr>) =
       (if x AND 2 \<noteq> 0 then insert i (keys_fresh kb) else keys_fresh kb - {i})"
  using assms set_update_subset_insert [of "keytable kb" i x]
  by (auto simp: keyboard_ok_def keys_down_def keys_fresh_def nth_list_update split: if_splits)

lemma keytable_entry: "keyboard_ok kb \<Longrightarrow> i < 256 \<Longrightarrow> keytable kb ! i \<in> {0, 1, 2, 3}"
  by (simp add: keyboard_ok_def)

lemma keys_other_fields [simp]:
  "keys_down (kb\<lparr>qualifiers := q\<rparr>) = keys_down kb" "keys_down (kb\<lparr>leds := l\<rparr>) = keys_down kb"
  "keys_down (kb\<lparr>keyup := b\<rparr>) = keys_down kb" "keys_down (kb\<lparr>extkey := b\<rparr>) = keys_down kb"
  "keys_fresh (kb\<lparr>qualifiers := q\<rparr>) = keys_fresh kb" "keys_fresh (kb\<lparr>leds := l\<rparr>) = keys_fresh kb"
  "keys_fresh (kb\<lparr>keyup := b\<rparr>) = keys_fresh kb" "keys_fresh (kb\<lparr>extkey := b\<rparr>) = keys_fresh kb"
  "keyboard_ok (kb\<lparr>leds := l\<rparr>) = keyboard_ok kb"
  "keyboard_ok (kb\<lparr>keyup := b\<rparr>) = keyboard_ok kb" "keyboard_ok (kb\<lparr>extkey := b\<rparr>) = keyboard_ok kb"
  by (simp_all add: keys_down_def keys_fresh_def keyboard_ok_def)

lemma handle_code_fields:
  assumes "key \<notin> {0xE0, 0xF0}" "handle_code key kb = Inr (a, u, kb')"
    and "i = (if extkey kb then 128 + key else key)"
  shows "i < 256" "\<not> keyup kb'"
    "keytable kb' = (keytable kb)[i := if keyup kb then keytable kb ! i AND 0xFE else 3]"
    "qualifiers kb' \<in> {qualifiers kb, qualifiers kb AND NOT 1, qualifiers kb OR 1}"
  using assms by (auto simp: handle_code_def Let_def split: if_splits)

lemma handle_code_table:
  assumes "keyboard_ok kb" "key \<notin> {0xE0, 0xF0}" "handle_code key kb = Inr (a, u, kb')"
    and "i = (if extkey kb then 128 + key else key)"
  shows "i < 256" "keyboard_ok kb'" "\<not> keyup kb'"
    "keys_down kb' = (if keyup kb then keys_down kb - {i} else insert i (keys_down kb))"
    "keys_fresh kb' = (if keyup kb then keys_fresh kb else insert i (keys_fresh kb))"
proof -
  note f = handle_code_fields [OF assms(2-4)]
  define x where "x = (if keyup kb then keytable kb ! i AND 0xFE else 3)"
  let ?kb = "kb\<lparr>keytable := (keytable kb)[i := x]\<rparr>"
  note entry = keytable_entry [OF assms(1) f(1)]
  have x: "x \<in> {0, 1, 2, 3}" "x AND 1 \<noteq> 0 \<longleftrightarrow> \<not> keyup kb"
    "x AND 2 \<noteq> 0 \<longleftrightarrow> \<not> keyup kb \<or> keytable kb ! i AND 2 \<noteq> 0"
    using entry by (auto simp: x_def)
  have t: "keytable kb' = keytable ?kb" using f(3) by (simp add: x_def)
  note upd = keytable_update [OF assms(1) f(1) x(1)]
  have d: "keys_down kb' = keys_down ?kb" "keys_fresh kb' = keys_fresh ?kb"
    using t by (simp_all add: keys_down_def keys_fresh_def)
  have i: "i \<in> keys_fresh kb \<longleftrightarrow> keytable kb ! i AND 2 \<noteq> 0"
    using f(1) assms(1) by (simp add: keys_fresh_def keyboard_ok_def)
  show "i < 256" "\<not> keyup kb'" using f by simp_all
  show "keyboard_ok kb'"
    using upd(1) t f(4) assms(1) by (auto simp: keyboard_ok_def)
  show "keys_down kb' = (if keyup kb then keys_down kb - {i} else insert i (keys_down kb))"
    using d(1) upd(2) x(2) by simp
  show "keys_fresh kb' = (if keyup kb then keys_fresh kb else insert i (keys_fresh kb))"
    using d(2) upd(3) x(3) i by auto
qed

lemma TestKey_table:
  assumes "keyboard_ok kb" "i < 256"
  shows "keyboard_ok (snd (TestKey i kb))"
    "fst (TestKey i kb) = (if i \<in> keys_down kb then 1 else 0) + (if i \<in> keys_fresh kb then 2 else 0)"
    "keys_down (snd (TestKey i kb)) = keys_down kb" "keys_fresh (snd (TestKey i kb)) = keys_fresh kb - {i}"
proof -
  define x where "x = keytable kb ! i AND 0xFD"
  note entry = keytable_entry [OF assms]
  have x: "x \<in> {0, 1, 2, 3}" "x AND 1 = keytable kb ! i AND 1" "x AND 2 = 0"
    using entry by (auto simp: x_def)
  note upd = keytable_update [OF assms x(1)]
  have i: "i \<in> keys_down kb \<longleftrightarrow> keytable kb ! i AND 1 \<noteq> 0" "i \<in> keys_fresh kb \<longleftrightarrow> keytable kb ! i AND 2 \<noteq> 0"
    using assms by (simp_all add: keys_fresh_def keys_down_def keyboard_ok_def)
  show "keyboard_ok (snd (TestKey i kb))" using upd(1) by (simp add: TestKey_def x_def)
  show "fst (TestKey i kb) = (if i \<in> keys_down kb then 1 else 0) + (if i \<in> keys_fresh kb then 2 else 0)"
    using entry i by (auto simp: TestKey_def)
  show "keys_down (snd (TestKey i kb)) = keys_down kb"
    using upd(2) x(2) i(1) by (auto simp: TestKey_def x_def [symmetric])
  show "keys_fresh (snd (TestKey i kb)) = keys_fresh kb - {i}"
    using upd(3) x(3) by (simp add: TestKey_def x_def [symmetric])
qed

text \<open>Without extended keys no write leaves the table.\<close>

lemma handle_code_total:
  assumes "\<not> extkey kb" "key < 256"
  shows "\<exists>r. handle_code key kb = Inr r"
  using assms by (simp add: handle_code_def Let_def del: split_paired_Ex)

lemma scan_codes_in_table:
  assumes "keyboard_ok kb" "\<not> extkey kb" "0xE0 \<notin> set cs"
  shows "\<exists>a u rest kb'. scan_codes cs kb upd = Inr (a, u, rest, kb') \<and> keyboard_ok kb' \<and> \<not> extkey kb'"
  using assms
proof (induction cs arbitrary: kb upd)
  case (Cons c cs)
  have c: "unat c \<noteq> 0xE0" "unat c < 256"
    using Cons.prems(3) unsigned_less [of c, where ?'a = nat] by (auto simp: word_unat_eq_iff)
  obtain a u kb' where h: "handle_code (unat c) kb = Inr (a, u, kb')"
    using handle_code_total [OF Cons.prems(2) c(2)] by (auto simp: split_paired_Ex)
  have "keyboard_ok kb' \<and> \<not> extkey kb'"
  proof (cases "unat c = 0xF0")
    case True
    then show ?thesis using h Cons.prems by (auto simp: handle_code_def)
  next
    case False
    then show ?thesis
      using handle_code_table(2) [OF Cons.prems(1) _ h] h c(1) Cons.prems(2)
      by (auto simp: handle_code_def Let_def split: if_splits)
  qed
  then show ?case using h Cons by (auto split: if_splits)
qed simp

section \<open>Properties\<close>

definition sample_keyboard :: keyboard where
  "sample_keyboard = \<lparr>keytable = replicate 256 0, qualifiers = 0, leds = 0, keyup = False, extkey = False\<rparr>"

text \<open>Both ports empty but for the given bytes from the keyboard.\<close>

definition keyboard_sends :: "bytes \<Rightarrow> ps2" where
  "keyboard_sends cs =
     (let r = \<lparr>in_hw = 0, in_cpu = 0, out_hw = 0, out_cpu = 0, inbuf = replicate 32 0, outbuf = replicate 32 0\<rparr>
      in \<lparr>kbbuffer = fold receive_byte cs r, mousebuffer = r\<rparr>)"

lemma sample_keyboard_ok: "keyboard_ok sample_keyboard" "\<not> extkey sample_keyboard"
  by (simp_all add: sample_keyboard_def keyboard_ok_def)

text \<open>
  C37. The table of keys is the abstract keyboard: a press puts its key into the keys held down and
  into those pressed since the last test, a release takes it out of the keys held down only, and
  \<open>TestKey\<close> reports both as bits 0 and 1 and takes the key out of those pressed since the last test.
\<close>
theorem keytable_tracks_keys:
  assumes "keyboard_ok kb" "key \<notin> {0xE0, 0xF0}" "handle_code key kb = Inr (a, u, kb')"
    and "i = (if extkey kb then 128 + key else key)"
  shows "keyboard_ok kb' \<and>
    keys_down kb' = (if keyup kb then keys_down kb - {i} else insert i (keys_down kb)) \<and>
    keys_fresh kb' = (if keyup kb then keys_fresh kb else insert i (keys_fresh kb)) \<and>
    (\<exists>kb''. TestKey i kb' = ((if keyup kb then 0 else 1) + (if i \<in> keys_fresh kb' then 2 else 0), kb'') \<and>
      keyboard_ok kb'' \<and> keys_down kb'' = keys_down kb' \<and> keys_fresh kb'' = keys_fresh kb' - {i})"
proof -
  note t = handle_code_table [OF assms]
  have "\<exists>kb''. TestKey i kb' = ((if keyup kb then 0 else 1) + (if i \<in> keys_fresh kb' then 2 else 0), kb'') \<and>
      keyboard_ok kb'' \<and> keys_down kb'' = keys_down kb' \<and> keys_fresh kb'' = keys_fresh kb' - {i}"
    using TestKey_table [OF t(2,1)] t(4)
    by (intro exI [of _ "snd (TestKey i kb')"]) (simp add: prod_eq_iff)
  with t(2,4,5) show ?thesis by blast
qed

lemma keytable_tracks_keys_witness:
  "keys_down (sample_keyboard\<lparr>keytable := (replicate 256 0)[0x1C := 3]\<rparr>) = {0x1C}"
proof -
  have "handle_code 0x1C sample_keyboard = Inr (97, False, sample_keyboard\<lparr>keytable := (replicate 256 0)[0x1C := 3]\<rparr>)"
    by (simp add: handle_code_def key_char_def sample_keyboard_def kblookup_def Let_def)
  from keytable_tracks_keys [OF sample_keyboard_ok(1) _ this refl]
  have "keys_down (sample_keyboard\<lparr>keytable := (replicate 256 0)[0x1C := 3]\<rparr>) = insert 0x1C (keys_down sample_keyboard)"
    by (simp add: sample_keyboard_def)
  then show ?thesis by (simp add: sample_keyboard_def keys_down_def cong: conj_cong)
qed

text \<open>
  C38. As long as the keyboard sends no extended codes, \<open>HandlePS2RawCodes\<close> writes only inside of
  the table of keys and keeps the invariants of the keyboard and of the ports.
\<close>
theorem plain_codes_stay_in_keytable:
  assumes "ps2_ok s" "keyboard_ok kb" "\<not> extkey kb" "0xE0 \<notin> set (unread (kbbuffer s))"
    and "HandlePS2RawCodes irqs s kb = Some r"
  shows "\<exists>a s' kb'. r = Inr (a, s', kb') \<and> ps2_ok s' \<and> keyboard_ok kb' \<and> \<not> extkey kb'"
proof -
  obtain a u rest kb' where "scan_codes (unread (kbbuffer s)) kb False = Inr (a, u, rest, kb')"
    and kb: "keyboard_ok kb'" "\<not> extkey kb'"
    using scan_codes_in_table [OF assms(2-4), of False] by blast
  then show ?thesis
    using HandlePS2RawCodes_scan(2) [OF assms(1), of kb a rest kb' irqs]
      HandlePS2RawCodes_scan(3) [OF assms(1), of kb a rest kb' irqs r] assms(5)
    by (cases u) auto
qed

lemma plain_codes_stay_in_keytable_witness:
  "\<exists>r a s' kb'. HandlePS2RawCodes [] (keyboard_sends [0x12, 0x1C]) sample_keyboard = Some r \<and>
     r = Inr (a, s', kb') \<and> ps2_ok s' \<and> keyboard_ok kb' \<and> \<not> extkey kb'"
proof -
  let ?s = "keyboard_sends [0x12, 0x1C]"
  have s: "ps2_ok ?s" "0xE0 \<notin> set (unread (kbbuffer ?s))" by code_simp+
  have "HandlePS2RawCodes [] ?s sample_keyboard \<noteq> None" by code_simp
  then obtain r where r: "HandlePS2RawCodes [] ?s sample_keyboard = Some r" by blast
  from plain_codes_stay_in_keytable [OF s(1) sample_keyboard_ok s(2) r] r show ?thesis by blast
qed

text \<open>
  When the scanned codes change the LEDs and the call returns, it has appended the command
  0xED and the new state of the LEDs to the bytes to send to the keyboard; otherwise it returns
  without waiting, sends nothing and leaves the codes after the character for the next call.
\<close>
theorem keyboard_call_effect:
  assumes "ps2_ok s" "scan_codes (unread (kbbuffer s)) kb False = Inr (a, updateleds, cs, kb')"
  shows "(\<not> updateleds \<longrightarrow> (\<exists>s'. HandlePS2RawCodes irqs s kb = Some (Inr (a, s', kb')) \<and>
      unread (kbbuffer s') = cs \<and> unsent (kbbuffer s') = unsent (kbbuffer s))) \<and>
    (updateleds \<longrightarrow> HandlePS2RawCodes irqs s kb = Some r \<longrightarrow> (\<exists>sent s'. r = Inr (0, s', kb') \<and>
      unsent (kbbuffer s) @ [0xED, ucast (leds kb')] = sent @ unsent (kbbuffer s')))"
proof (cases updateleds)
  case True
  then have "a = 0" using scan_codes_no_leds [OF assms(2)] by blast
  then show ?thesis
    using HandlePS2RawCodes_scan(3) [OF assms(1), of kb a cs kb' irqs r] assms(2) True by auto
next
  case False
  then show ?thesis
    using HandlePS2RawCodes_scan(2) [OF assms(1), of kb a cs kb' irqs] assms(2) by auto
qed

lemma keyboard_call_effect_witness:
  "\<exists>s'. HandlePS2RawCodes [] (keyboard_sends [0x1C, 0x58]) sample_keyboard =
      Some (Inr (97, s', sample_keyboard\<lparr>keytable := (replicate 256 0)[0x1C := 3]\<rparr>)) \<and> unread (kbbuffer s') = [0x58]"
proof -
  let ?s = "keyboard_sends [0x1C, 0x58]"
  have s: "ps2_ok ?s" "unread (kbbuffer ?s) = [0x1C, 0x58]" by code_simp+
  have "scan_codes (unread (kbbuffer ?s)) sample_keyboard False =
      Inr (97, False, [0x58], sample_keyboard\<lparr>keytable := (replicate 256 0)[0x1C := 3]\<rparr>)"
    unfolding s(2) by (simp add: handle_code_def key_char_def sample_keyboard_def kblookup_def Let_def)
  from keyboard_call_effect [OF s(1) this, of "[]"] show ?thesis by simp blast
qed

text \<open>
  C39. The prefix of an extended key that yields a character (the cursor keys do, as the digits of
  the keypad) is not forgotten when the character is returned nor at the release of the key: the
  next code counts as extended, and that of F7 is then written to index 259 of a table of 256.
\<close>
theorem sticky_extension_leaves_keytable:
  assumes "keyboard_ok kb" "\<not> keyup kb" "k < 128"
    and "a = key_char k kb" "a \<noteq> 0"
    and "ps2_ok s" "unread (kbbuffer s) = [0xE0, of_nat k]"
    and "ps2_ok t" "unread (kbbuffer t) = [0xE0, 0xF0, of_nat k, 0x83]"
  shows "\<exists>s' kb'. HandlePS2RawCodes irqs s kb = Some (Inr (a, s', kb')) \<and>
    HandlePS2RawCodes irqs t kb' = Some (Inl (OutsideKeytable 259))"
proof -
  let ?kb = "kb\<lparr>extkey := True, keytable := (keytable kb)[128 + k := 3]\<rparr>"
  have k: "unat (of_nat k :: u8) = k"
    using assms(3) by (simp add: unat_of_nat)
  have "key_char k (kb\<lparr>extkey := True, keytable := kt\<rparr>) = a" for kt
    using assms(4) by (simp add: key_char_def)
  then have "handle_code k (kb\<lparr>extkey := True\<rparr>) = Inr (a, False, ?kb)"
    using assms(2,3,5) by (simp add: handle_code_def Let_def)
  then have "scan_codes (unread (kbbuffer s)) kb False = Inr (a, False, [], ?kb)"
    unfolding assms(7) using assms(5) k by (simp add: handle_code_def [of "0xE0"])
  moreover have "scan_codes (unread (kbbuffer t)) ?kb False = Inl (OutsideKeytable 259)"
    unfolding assms(9) using assms(2,3) k by (simp add: handle_code_def Let_def)
  ultimately show ?thesis
    using HandlePS2RawCodes_scan(2) [OF assms(6), of kb a "[]" ?kb irqs]
      HandlePS2RawCodes_scan(1) [OF assms(8), of ?kb _ irqs] by blast
qed

lemma sticky_extension_leaves_keytable_witness:
  "\<exists>s' kb'. HandlePS2RawCodes [] (keyboard_sends [0xE0, 0x75]) sample_keyboard = Some (Inr (56, s', kb')) \<and>
    HandlePS2RawCodes [] (keyboard_sends [0xE0, 0xF0, 0x75, 0x83]) kb' = Some (Inl (OutsideKeytable 259))"
proof -
  have s: "ps2_ok (keyboard_sends [0xE0, 0x75])" "unread (kbbuffer (keyboard_sends [0xE0, 0x75])) = [0xE0, of_nat 0x75]"
    "ps2_ok (keyboard_sends [0xE0, 0xF0, 0x75, 0x83])"
    "unread (kbbuffer (keyboard_sends [0xE0, 0xF0, 0x75, 0x83])) = [0xE0, 0xF0, of_nat 0x75, 0x83]"
    by code_simp+
  show ?thesis
    by (rule sticky_extension_leaves_keytable [OF sample_keyboard_ok(1) _ _ _ _ s])
      (simp_all add: sample_keyboard_def key_char_def kblookup_def)
qed

end
