(* ===== verification/TextBuffer.thy ===== *)
theory TextBuffer
  imports Prelude
begin

text \<open>
  The text screen, \<^verbatim>\<open>Firmware_Common/textbuffer.c\<close>: a character buffer of 2048 bytes that shows
  25 rows of 76, a cursor, and scrolling. The code is shown to implement a list of lines, and that
  in turn to show the end of the text written so far.
\<close>

section \<open>State and functions\<close>

record textbuffer =
  vgachars :: bytes
  cursor_row :: nat
  cursor_col :: nat

definition text_rows :: nat where "text_rows = 25"
definition text_cols :: nat where "text_cols = 76"

definition toaddr :: "nat \<Rightarrow> nat \<Rightarrow> nat" where
  "toaddr r c = text_cols * r + c"

text \<open>The two loops of \<open>scroll\<close> over halfwords, as pairs of bytes.\<close>

definition copy_halfword :: "nat \<Rightarrow> nat \<Rightarrow> bytes \<Rightarrow> bytes" where
  "copy_halfword d s b = b[d := b ! s, d + 1 := b ! (s + 1)]"

definition scroll :: "textbuffer \<Rightarrow> textbuffer" where
  "scroll tb =
     (let b = fold (\<lambda>i. copy_halfword (toaddr 0 0 + 2 * i) (toaddr 1 0 + 2 * i)) [0..<text_rows * text_cols div 2] (vgachars tb);
          d = toaddr 0 0 + 2 * (text_rows * text_cols div 2);
          b = fold (\<lambda>i b. b[d + 2 * i := 0, d + 2 * i + 1 := 0]) [0..<text_cols div 2] b
      in tb\<lparr>vgachars := b, cursor_col := 0, cursor_row := text_rows - 1\<rparr>)"

text \<open>One turn of the inner loop of \<open>charbuffer_write\<close>, with its pointer as an offset.\<close>

definition write_char :: "u8 \<Rightarrow> nat \<times> textbuffer \<Rightarrow> nat \<times> textbuffer" where
  "write_char c = (\<lambda>(p, tb).
     (let (p, tb) =
        (if c = 8 \<and> cursor_col tb > 0 then
           (p - 1, tb\<lparr>vgachars := (vgachars tb)[p - 1 := 32], cursor_col := cursor_col tb - 1\<rparr>)
         else if c = 10 then
           (toaddr (cursor_row tb + 1) 0, tb\<lparr>cursor_row := cursor_row tb + 1, cursor_col := 0\<rparr>)
         else
           (let tb = tb\<lparr>vgachars := (vgachars tb)[p := c], cursor_col := cursor_col tb + 1\<rparr>
            in (p + 1, if cursor_col tb = text_cols then tb\<lparr>cursor_col := 0, cursor_row := cursor_row tb + 1\<rparr> else tb)))
      in if cursor_row tb \<ge> text_rows then
           (let tb = (scroll tb)\<lparr>cursor_row := text_rows - 1\<rparr>
            in (toaddr (cursor_row tb) (cursor_col tb), tb))
         else (p, tb)))"

text \<open>The inner loop ends at the end of the string; with the cursor below the screen, where the
  code never leaves it, it would not be entered and the outer loop would never end, \<open>None\<close>.\<close>

definition charbuffer_write :: "bytes \<Rightarrow> textbuffer \<Rightarrow> textbuffer option" where
  "charbuffer_write msg tb =
     (if msg = [] then Some tb
      else if cursor_row tb < text_rows then
        Some (snd (fold write_char msg (toaddr (cursor_row tb) (cursor_col tb), tb)))
      else None)"

definition tb_putchar :: "u32 \<Rightarrow> textbuffer \<Rightarrow> (u32 \<times> textbuffer) option" where
  "tb_putchar c tb =
     map_option (\<lambda>tb. (1, tb)) (charbuffer_write (takeWhile (\<lambda>c. c \<noteq> 0) [ucast c]) tb)"

definition tb_puts :: "bytes \<Rightarrow> textbuffer \<Rightarrow> (u32 \<times> textbuffer) option" where
  "tb_puts str tb = map_option (\<lambda>tb. (0, tb)) (charbuffer_write str tb)"

definition ClearTextBuffer :: "textbuffer \<Rightarrow> textbuffer" where
  "ClearTextBuffer tb =
     tb\<lparr>vgachars := fold (\<lambda>i b. b[4 * i := 0, 4 * i + 1 := 0, 4 * i + 2 := 0, 4 * i + 3 := 0]) [0..<2048 div 4] (vgachars tb)\<rparr>"

section \<open>Scrolling\<close>

lemma copy_halfwords:
  "76 + 2 * n \<le> length b \<Longrightarrow>
   fold (\<lambda>i. copy_halfword (2 * i) (76 + 2 * i)) [0..<n] b =
     map (\<lambda>j. if j < 2 * n then b ! (76 + j) else b ! j) [0..<length b]"
proof (induction n)
  case 0
  then show ?case by (simp add: map_nth)
next
  case (Suc n)
  then show ?case
    by (auto simp: copy_halfword_def nth_list_update less_Suc_eq intro!: nth_equalityI)
qed

lemma clear_halfwords:
  "d + 2 * n \<le> length b \<Longrightarrow>
   fold (\<lambda>i b. b[d + 2 * i := 0, Suc (d + 2 * i) := 0]) [0..<n] b =
     map (\<lambda>j. if d \<le> j \<and> j < d + 2 * n then 0 else b ! j) [0..<length b]" for b :: bytes
proof (induction n)
  case 0
  then show ?case by (auto intro!: nth_equalityI)
next
  case (Suc n)
  then show ?case
    by (auto simp: nth_list_update intro!: nth_equalityI)
qed

lemma clear_words:
  "4 * n \<le> length b \<Longrightarrow>
   fold (\<lambda>i b. b[4 * i := 0, Suc (4 * i) := 0, Suc (Suc (4 * i)) := 0, Suc (Suc (Suc (4 * i))) := 0]) [0..<n] b =
     map (\<lambda>j. if j < 4 * n then 0 else b ! j) [0..<length b]" for b :: bytes
proof (induction n)
  case 0
  then show ?case by (simp add: map_nth)
next
  case (Suc n)
  then show ?case
    by (auto simp: nth_list_update intro!: nth_equalityI)
qed

lemma scroll_chars:
  assumes "length (vgachars tb) = 2048"
  shows "vgachars (scroll tb) = map (\<lambda>j. if j < 1900 then vgachars tb ! (76 + j)
     else if j < 1976 then 0 else vgachars tb ! j) [0..<2048]"
proof -
  let ?b = "map (\<lambda>j. if j < 1900 then vgachars tb ! (76 + j) else vgachars tb ! j) [0..<2048]"
  have "vgachars (scroll tb) = map (\<lambda>j. if 1900 \<le> j \<and> j < 1976 then 0 else ?b ! j) [0..<2048]"
    using assms copy_halfwords [of 950 "vgachars tb"] clear_halfwords [of 1900 38 ?b]
    by (simp add: scroll_def toaddr_def text_cols_def text_rows_def Let_def del: upt_Suc)
  then show ?thesis by auto
qed

lemma ClearTextBuffer_zero:
  assumes "length (vgachars tb) = 2048"
  shows "vgachars (ClearTextBuffer tb) = replicate 2048 0"
proof -
  have "vgachars (ClearTextBuffer tb) = map (\<lambda>j. 0) [0..<2048]"
    using assms clear_words [of 512 "vgachars tb"]
    by (simp add: ClearTextBuffer_def numeral_3_eq_3 del: upt_Suc)
  then show ?thesis by (simp add: map_replicate_const)
qed

section \<open>The screen as a list of lines\<close>

definition screen_line :: "nat \<Rightarrow> bytes \<Rightarrow> bytes" where
  "screen_line r b = map (\<lambda>k. b ! (76 * r + k)) [0..<76]"

definition screen_lines :: "textbuffer \<Rightarrow> bytes list" where
  "screen_lines tb = map (\<lambda>r. screen_line r (vgachars tb)) [0..<25]"

definition blank_line :: bytes where
  "blank_line = replicate 76 0"

text \<open>The row below the screen, which scrolling brings up, is blank.\<close>

definition textbuffer_ok :: "textbuffer \<Rightarrow> bool" where
  "textbuffer_ok tb \<longleftrightarrow> length (vgachars tb) = 2048 \<and> cursor_row tb < 25 \<and> cursor_col tb < 76 \<and>
     screen_line 25 (vgachars tb) = blank_line"

type_synonym screen = "bytes list \<times> nat \<times> nat"

definition screen_of :: "textbuffer \<Rightarrow> screen" where
  "screen_of tb = (screen_lines tb, cursor_row tb, cursor_col tb)"

definition scroll_screen :: "screen \<Rightarrow> screen" where
  "scroll_screen = (\<lambda>(ls, r, k). if r < 25 then (ls, r, k) else (tl ls @ [blank_line], 24, 0))"

definition put_char :: "u8 \<Rightarrow> screen \<Rightarrow> screen" where
  "put_char c = (\<lambda>(ls, r, k).
     if c = 8 \<and> k > 0 then (ls[r := (ls ! r)[k - 1 := 32]], r, k - 1)
     else if c = 10 then scroll_screen (ls, r + 1, 0)
     else if k < 75 then (ls[r := (ls ! r)[k := c]], r, k + 1)
     else scroll_screen (ls[r := (ls ! r)[k := c]], r + 1, 0))"

lemma screen_line_update:
  assumes "length b = 2048" "r < 26" "k < 76"
  shows "screen_line i (b[76 * r + k := c]) = (if i = r then (screen_line r b)[k := c] else screen_line i b)"
proof -
  have "76 * r + k < 2048" using assms by linarith
  moreover have eq: "76 * r + k = 76 * i + j \<longleftrightarrow> i = r \<and> j = k" if "j < 76" for i j
  proof
    assume e: "76 * r + k = 76 * i + j"
    have "i = (76 * i + j) div 76" "r = (76 * r + k) div 76" using that assms(3) by simp_all
    then show "i = r \<and> j = k" using e by simp
  qed simp
  ultimately show ?thesis
    using assms(1) by (auto simp: screen_line_def nth_list_update eq intro!: nth_equalityI)
qed

lemma screen_lines_update:
  assumes "length (vgachars tb) = 2048" "r < 25" "k < 76"
  shows "screen_lines (tb\<lparr>vgachars := (vgachars tb)[76 * r + k := c]\<rparr>) =
    (screen_lines tb)[r := (screen_lines tb ! r)[k := c]]"
  using assms by (auto simp: screen_lines_def screen_line_update nth_list_update simp del: upt_Suc intro!: nth_equalityI)

lemma textbuffer_ok_update:
  assumes "textbuffer_ok tb" "r < 25" "k < 76"
  shows "textbuffer_ok (tb\<lparr>vgachars := (vgachars tb)[76 * r + k := c]\<rparr>)"
  using assms by (simp add: textbuffer_ok_def screen_line_update)

lemma scroll_lines:
  assumes "length (vgachars tb) = 2048" "screen_line 25 (vgachars tb) = blank_line"
  shows "textbuffer_ok (scroll tb)" "screen_of (scroll tb) = (tl (screen_lines tb) @ [blank_line], 24, 0)"
proof -
  let ?b = "vgachars (scroll tb)"
  have up: "screen_line r ?b = screen_line (r + 1) (vgachars tb)" if "r < 25" for r
    using that assms(1) by (auto simp: screen_line_def scroll_chars algebra_simps simp del: upt_Suc)
  have bottom: "screen_line 25 ?b = blank_line"
    using assms(1) by (auto simp: screen_line_def scroll_chars blank_line_def simp del: upt_Suc intro!: nth_equalityI)
  have lines: "screen_lines (scroll tb) = tl (screen_lines tb) @ [blank_line]"
  proof (rule nth_equalityI)
    fix i assume "i < length (screen_lines (scroll tb))"
    then have i: "i < 25" by (simp add: screen_lines_def)
    show "screen_lines (scroll tb) ! i = (tl (screen_lines tb) @ [blank_line]) ! i"
    proof (cases "i = 24")
      case True
      then show ?thesis using up [of 24] assms(2) by (simp add: screen_lines_def nth_append del: upt_Suc)
    next
      case False
      then show ?thesis using i up [of i] by (simp add: screen_lines_def nth_append nth_tl del: upt_Suc)
    qed
  qed (simp add: screen_lines_def)
  show "textbuffer_ok (scroll tb)"
    using assms(1) bottom by (simp add: textbuffer_ok_def scroll_chars)
      (simp add: scroll_def text_rows_def Let_def)
  show "screen_of (scroll tb) = (tl (screen_lines tb) @ [blank_line], 24, 0)"
    by (simp add: screen_of_def lines) (simp add: scroll_def text_rows_def Let_def)
qed

definition char_related :: "nat \<times> textbuffer \<Rightarrow> bool" where
  "char_related = (\<lambda>(p, tb). textbuffer_ok tb \<and> p = toaddr (cursor_row tb) (cursor_col tb))"

lemma write_char_refines:
  assumes "char_related (p, tb)" "write_char c (p, tb) = (p', tb')"
  shows "char_related (p', tb')" "screen_of tb' = put_char c (screen_of tb)"
proof -
  define r where "r = cursor_row tb"
  define k where "k = cursor_col tb"
  have ok: "length (vgachars tb) = 2048" "screen_line 25 (vgachars tb) = blank_line" "r < 25" "k < 76"
    "textbuffer_ok tb" "p = 76 * r + k"
    using assms(1) by (simp_all add: char_related_def textbuffer_ok_def r_def k_def toaddr_def text_cols_def)
  note defs = char_related_def toaddr_def text_cols_def text_rows_def screen_of_def put_char_def scroll_screen_def
    r_def [symmetric] k_def [symmetric]
  have next_row: "char_related q \<and> screen_of (snd q) = scroll_screen (screen_lines t, r + 1, 0)"
    if t: "length (vgachars t) = 2048" "screen_line 25 (vgachars t) = blank_line"
      "cursor_row t = r + 1" "cursor_col t = 0"
      and q: "q = (if text_rows \<le> cursor_row t
        then (toaddr (cursor_row ((scroll t)\<lparr>cursor_row := text_rows - 1\<rparr>)) (cursor_col ((scroll t)\<lparr>cursor_row := text_rows - 1\<rparr>)),
              (scroll t)\<lparr>cursor_row := text_rows - 1\<rparr>)
        else (76 * (r + 1), t))" for t q
  proof (cases "r + 1 < 25")
    case True
    then show ?thesis using t q by (simp add: defs textbuffer_ok_def)
  next
    case False
    have "(scroll t)\<lparr>cursor_row := 24\<rparr> = scroll t" by (simp add: scroll_def text_rows_def Let_def)
    then show ?thesis
      using False q t(3) scroll_lines [OF t(1,2)] ok(3) by (simp add: defs)
  qed
  have "char_related (p', tb') \<and> screen_of tb' = put_char c (screen_of tb)"
  proof (cases "c = 8 \<and> k > 0")
    case True
    then have "write_char c (p, tb) = (76 * r + (k - 1), tb\<lparr>vgachars := (vgachars tb)[76 * r + (k - 1) := 32], cursor_col := k - 1\<rparr>)"
      using ok(3,6) by (simp add: write_char_def defs)
    then show ?thesis
      using assms(2) True ok(1,3,4) textbuffer_ok_update [OF ok(5,3), of "k - 1" 32]
        screen_lines_update [OF ok(1,3), of "k - 1" 32]
      by (auto simp: defs textbuffer_ok_def screen_lines_def)
  next
    case False
    note no_backspace = False
    show ?thesis
    proof (cases "c = 10")
      case True
      let ?t = "tb\<lparr>cursor_row := r + 1, cursor_col := 0\<rparr>"
      show ?thesis
        using next_row [of ?t "(p', tb')"] ok(1,2) assms(2) True
        by (auto simp: write_char_def defs Let_def screen_lines_def split: if_splits)
    next
      case False
      let ?b = "(vgachars tb)[76 * r + k := c]"
      have b: "length ?b = 2048" "screen_line 25 ?b = blank_line"
        "screen_lines (tb\<lparr>vgachars := ?b\<rparr>) = (screen_lines tb)[r := (screen_lines tb ! r)[k := c]]"
        using ok(1-4) screen_lines_update [OF ok(1,3,4)] by (simp_all add: screen_line_update)
      show ?thesis
      proof (cases "k < 75")
        case True
        then show ?thesis
          using False no_backspace ok(3,6) assms(2) b
          by (auto simp: write_char_def defs Let_def textbuffer_ok_def screen_lines_def split: if_splits)
      next
        case k: False
        let ?t = "tb\<lparr>vgachars := ?b, cursor_col := 0, cursor_row := r + 1\<rparr>"
        have "k = 75" using k ok(4) by simp
        then show ?thesis
          using next_row [of ?t "(p', tb')"] b False no_backspace ok(3,6) assms(2)
          by (auto simp: write_char_def defs Let_def screen_lines_def split: if_splits)
      qed
    qed
  qed
  then show "char_related (p', tb')" "screen_of tb' = put_char c (screen_of tb)" by auto
qed

lemma write_chars_refine:
  assumes "char_related x"
  shows "char_related (fold write_char msg x) \<and> screen_of (snd (fold write_char msg x)) = fold put_char msg (screen_of (snd x))"
  using assms
proof (induction msg arbitrary: x)
  case (Cons c msg)
  obtain p tb p' tb' where "x = (p, tb)" "write_char c x = (p', tb')" by (metis surj_pair)
  then show ?case
    using Cons.IH [of "(p', tb')"] write_char_refines [of p tb c p' tb'] Cons.prems by auto
qed simp

lemma charbuffer_write_refines:
  assumes "textbuffer_ok tb"
  obtains tb' where "charbuffer_write msg tb = Some tb'" "textbuffer_ok tb'"
    "screen_of tb' = fold put_char msg (screen_of tb)"
proof -
  let ?x = "fold write_char msg (toaddr (cursor_row tb) (cursor_col tb), tb)"
  have "char_related ?x \<and> screen_of (snd ?x) = fold put_char msg (screen_of tb)"
    using write_chars_refine [of "(toaddr (cursor_row tb) (cursor_col tb), tb)" msg] assms
    by (simp add: char_related_def)
  moreover have "charbuffer_write msg tb = Some (snd ?x)"
    using assms by (simp add: charbuffer_write_def textbuffer_ok_def text_rows_def)
  ultimately show ?thesis using that by (cases ?x) (auto simp: char_related_def)
qed

section \<open>The text on the screen\<close>

text \<open>A text is broken into lines at newlines and after 76 characters; \<open>cur\<close> is the line begun.\<close>

fun text_lines :: "bytes \<Rightarrow> bytes \<Rightarrow> bytes list" where
  "text_lines cur [] = [cur]"
| "text_lines cur (c # cs) =
     (if c = 10 then cur # text_lines [] cs
      else if length cur = 75 then (cur @ [c]) # text_lines [] cs
      else text_lines (cur @ [c]) cs)"

text \<open>The screen that shows the last 25 of a list of lines, with the cursor after the last.\<close>

definition full_line :: "bytes \<Rightarrow> bytes" where
  "full_line l = l @ replicate (76 - length l) 0"

definition last_lines :: "bytes list \<Rightarrow> screen" where
  "last_lines ls =
     (map full_line (drop (length ls - 25) ls) @ replicate (25 - length ls) blank_line,
      min (length ls - 1) 24, length (last ls))"

lemma last_lines_newline:
  assumes "ls \<noteq> []"
  shows "scroll_screen (fst (last_lines ls), min (length ls - 1) 24 + 1, 0) = last_lines (ls @ [[]])"
proof (cases "length ls < 25")
  case True
  then have "replicate (25 - length ls) blank_line = blank_line # replicate (25 - Suc (length ls)) blank_line"
    by (metis Suc_diff_Suc replicate_Suc)
  then show ?thesis using True assms
    by (auto simp: scroll_screen_def last_lines_def full_line_def blank_line_def min_def)
next
  case False
  then have "Suc (length ls) - 25 = Suc (length ls - 25)" by simp
  then have "tl (drop (length ls - 25) ls) = drop (Suc (length ls) - 25) ls"
    by (simp only: drop_Suc tl_drop)
  then show ?thesis using False
    by (simp add: scroll_screen_def last_lines_def full_line_def blank_line_def min_def flip: map_tl; arith)
qed

lemma last_lines_char:
  assumes "length cur < 76" "ls = ls1 @ [cur]"
  shows "(fst (last_lines ls))[min (length ls - 1) 24 := (fst (last_lines ls) ! min (length ls - 1) 24)[length cur := c]] =
    fst (last_lines (ls1 @ [cur @ [c]]))"
proof -
  define m where "m = length ls - 25"
  have pad: "(full_line cur)[length cur := c] = full_line (cur @ [c])"
  proof -
    obtain j where "76 - length cur = Suc j" using assms(1) by (cases "76 - length cur") auto
    moreover from this have "76 - Suc (length cur) = j" by simp
    ultimately show ?thesis by (simp add: full_line_def)
  qed
  have u: "(xs @ full_line cur # ys)[length xs := ((xs @ full_line cur # ys) ! length xs)[length cur := c]] =
      xs @ full_line (cur @ [c]) # ys" for xs ys
    using pad by simp
  have len: "min (length ls - 1) 24 = length (map full_line (drop m ls1))"
    using assms(2) by (simp add: m_def; arith)
  have ls: "drop m ls = drop m ls1 @ [cur]" "length (ls1 @ [cur @ [c]]) = length ls"
    "drop m (ls1 @ [cur @ [c]]) = drop m ls1 @ [cur @ [c]]"
    using assms(2) by (simp_all add: m_def)
  show ?thesis
    unfolding last_lines_def fst_conv len ls(2) m_def [symmetric] ls(1,3)
    using u [of "map full_line (drop m ls1)" "replicate (25 - length ls) blank_line"] by simp
qed

lemma last_lines_put:
  assumes "ls = ls1 @ [cur]" "length cur < 76" "c \<noteq> 8"
  shows "put_char c (last_lines ls) =
    last_lines (if c = 10 then ls @ [[]] else if length cur = 75 then ls1 @ [cur @ [c], []] else ls1 @ [cur @ [c]])"
proof -
  have ne: "ls \<noteq> []" "length (last ls) = length cur" using assms(1) by simp_all
  define L where "L = fst (last_lines ls)"
  have ll: "last_lines ls = (L, min (length ls - 1) 24, length cur)"
    using ne(2) by (simp add: L_def last_lines_def)
  note char = last_lines_char [OF assms(2,1), of c, folded L_def]
  let ?ls = "ls1 @ [cur @ [c]]"
  have len: "length ?ls = length ls" and len': "length ls - Suc 0 = length ls1" using assms(1) by simp_all
  show ?thesis
  proof (cases "c = 10")
    case True
    then show ?thesis
      using last_lines_newline [OF ne(1), folded L_def] by (simp add: put_char_def ll)
  next
    case False
    show ?thesis
    proof (cases "length cur = 75")
      case True
      then show ?thesis
        using False assms(3) char last_lines_newline [of ?ls] len' by (simp add: put_char_def ll)
    next
      case k: False
      have "last_lines ?ls = (fst (last_lines ?ls), min (length ls - 1) 24, length cur + 1)"
        unfolding last_lines_def len by simp
      then show ?thesis
        using False k assms(2,3) char by (simp add: put_char_def ll)
    qed
  qed
qed

lemma put_chars_last_lines:
  assumes "length cur < 76" "8 \<notin> set msg"
  shows "fold put_char msg (last_lines (ls @ [cur])) = last_lines (ls @ text_lines cur msg)"
  using assms
proof (induction msg arbitrary: ls cur)
  case (Cons c msg)
  note step = last_lines_put [OF refl Cons.prems(1), of c ls]
  consider "c = 10" | "c \<noteq> 10" "length cur = 75" | "c \<noteq> 10" "length cur \<noteq> 75" by blast
  then show ?case
  proof cases
    case 1
    then show ?thesis using step Cons.prems Cons.IH [of "[]" "ls @ [cur]"] by simp
  next
    case 2
    then show ?thesis using step Cons.prems Cons.IH [of "[]" "ls @ [cur @ [c]]"] by simp
  next
    case 3
    then show ?thesis using step Cons.prems Cons.IH [of "cur @ [c]" ls] by simp
  qed
qed simp

section \<open>Properties\<close>

definition sample_textbuffer :: textbuffer where
  "sample_textbuffer = \<lparr>vgachars = replicate 2048 0, cursor_row = 0, cursor_col = 0\<rparr>"

lemma blank_screen_line: "r < 26 \<Longrightarrow> screen_line r (replicate 2048 0) = blank_line"
  by (auto simp: screen_line_def blank_line_def simp del: upt_Suc intro!: nth_equalityI)

lemma sample_textbuffer_ok: "textbuffer_ok sample_textbuffer"
  by (simp add: sample_textbuffer_def textbuffer_ok_def blank_screen_line)

text \<open>
  C40. Writing a string always returns, and does to the 25 lines shown and the cursor what the
  abstract screen does, character by character: a printable character replaces one cell, a newline
  moves the cursor, and below the last row the top line is dropped and a blank one comes in; the
  invariant (cursor on the screen, blank row below it) is kept.
\<close>
theorem charbuffer_write_refines_screen:
  assumes "textbuffer_ok tb"
  shows "\<exists>tb'. charbuffer_write msg tb = Some tb' \<and> textbuffer_ok tb' \<and>
    screen_of tb' = fold put_char msg (screen_of tb)"
  using charbuffer_write_refines [OF assms, of msg] by blast

lemma charbuffer_write_refines_screen_witness:
  "\<exists>tb'. charbuffer_write [72, 105, 10] sample_textbuffer = Some tb' \<and> textbuffer_ok tb' \<and>
    screen_of tb' = fold put_char [72, 105, 10] (screen_of sample_textbuffer)"
  by (rule charbuffer_write_refines_screen [OF sample_textbuffer_ok])

text \<open>
  After the buffer is cleared with the cursor in the corner, a text without backspaces is
  shown as it should be: its last 25 lines, where lines end at newlines and after 76 characters,
  filled up with blanks, and the cursor is behind its last character.
\<close>
theorem cleared_screen_shows_text:
  assumes "length (vgachars tb) = 2048" "cursor_row tb = 0" "cursor_col tb = 0" "8 \<notin> set msg"
  shows "\<exists>tb'. charbuffer_write msg (ClearTextBuffer tb) = Some tb' \<and>
    screen_of tb' = last_lines (text_lines [] msg)"
proof -
  let ?t = "ClearTextBuffer tb"
  have t: "vgachars ?t = replicate 2048 0" "cursor_row ?t = 0" "cursor_col ?t = 0"
    using assms(1-3) ClearTextBuffer_zero [OF assms(1)] by (simp_all add: ClearTextBuffer_def)
  have ok: "textbuffer_ok ?t" using t by (simp add: textbuffer_ok_def blank_screen_line)
  have "screen_lines ?t = replicate 25 blank_line"
    using t(1) by (auto simp: screen_lines_def blank_screen_line simp del: upt_Suc intro!: nth_equalityI)
  moreover have "replicate 25 blank_line = blank_line # replicate 24 blank_line"
    by (simp flip: replicate_Suc)
  ultimately have "screen_of ?t = last_lines [[]]"
    using t(2,3) by (simp add: screen_of_def last_lines_def full_line_def blank_line_def)
  then show ?thesis
    using charbuffer_write_refines [OF ok, of msg] put_chars_last_lines [of "[]" msg "[]"] assms(4)
    by (metis append_Nil list.size(3) zero_less_numeral)
qed

lemma cleared_screen_shows_text_witness:
  "\<exists>tb'. charbuffer_write [72, 105, 10, 33] (ClearTextBuffer sample_textbuffer) = Some tb' \<and>
    screen_of tb' = (full_line [72, 105] # full_line [33] # replicate 23 blank_line, 1, 1)"
  using cleared_screen_shows_text [of sample_textbuffer "[72, 105, 10, 33]"]
  by (simp add: sample_textbuffer_def last_lines_def)

end
