(* ===== verification/RaFile.thy ===== *)
theory RaFile
  imports FatDir
begin

text \<open>
  Byte-granular access to files, \<^verbatim>\<open>Firmware_Common/rafile.c\<close>: \<open>RARead\<close>, \<open>RASeek\<close>,
  \<open>RAOpen\<close> over the sector-wise functions of \<^verbatim>\<open>fat.c\<close>. The bytes a read stores through
  \<open>pBuffer\<close> are a list in the order of the addresses; \<open>None\<close> stands for a byte of the caller's
  buffer that the code steps over without writing it, which happens when a sector cannot be read.
\<close>

section \<open>State and functions\<close>

record RAFile =
  ra_file :: fileTYPE
  ra_size :: u32
  ra_ptr :: u32
  ra_buffer :: bytes

type_synonym stored = "u8 option list"

text \<open>Copying what is left of the buffered sector. \<open>l\<close> is a signed \<open>int\<close>.\<close>

definition ra_drain :: "u32 \<Rightarrow> RAFile \<Rightarrow> stored \<times> u32 \<times> RAFile" where
  "ra_drain n r =
     (let blockoffset = ra_ptr r AND 511
      in if blockoffset \<noteq> 0 then
           (let l = (if 512 <s n then 512 else n)
            in (if l \<le>s blockoffset then []
                else map Some (drop (unat blockoffset) (take (unat l) (ra_buffer r))),
                n - (l - blockoffset), r\<lparr>ra_ptr := ra_ptr r + (l - blockoffset)\<rparr>))
         else ([], n, r))"

text \<open>One sector through the position of the file: read it, then step on. The result of
  \<open>FileNextSector\<close> is ignored.\<close>

definition ra_sector :: "'d sd_ops \<Rightarrow> RAFile \<Rightarrow> 'd fatst \<Rightarrow> bytes option \<times> RAFile \<times> 'd fatst" where
  "ra_sector io r s =
     (case FileRead io (ra_file r) s of
        (b, s) \<Rightarrow> (case FileNextSector io (ra_file r) s of
           (_, f, s) \<Rightarrow> (b, r\<lparr>ra_file := f\<rparr>, s)))"

definition stored_block :: "bytes option \<Rightarrow> stored" where
  "stored_block b = (case b of None \<Rightarrow> replicate 512 None | Some b \<Rightarrow> map Some b)"

function ra_blocks ::
  "'d sd_ops \<Rightarrow> u32 \<Rightarrow> RAFile \<Rightarrow> 'd fatst \<Rightarrow> bool \<times> stored \<times> u32 \<times> RAFile \<times> 'd fatst" where
  "ra_blocks io n r s =
     (if n > 511 then
        (case ra_sector io r s of (b, r, s) \<Rightarrow>
           (case ra_blocks io (n - 512) (r\<lparr>ra_ptr := ra_ptr r + 512\<rparr>) s of
              (ok, out, rest) \<Rightarrow> (b \<noteq> None \<and> ok, stored_block b @ out, rest)))
      else (True, [], n, r, s))"
  by auto
termination
  by (relation "measure (\<lambda>(io, n, r, s). unat n)")
     (auto simp: word_less_nat_alt unat_sub_if')

declare ra_blocks.simps [simp del]

definition ra_tail ::
  "'d sd_ops \<Rightarrow> u32 \<Rightarrow> RAFile \<Rightarrow> 'd fatst \<Rightarrow> bool \<times> stored \<times> RAFile \<times> 'd fatst" where
  "ra_tail io n r s =
     (if n \<noteq> 0 then
        (case ra_sector io r s of (b, r, s) \<Rightarrow>
           (let buf = (case b of None \<Rightarrow> ra_buffer r | Some b \<Rightarrow> overlay b (ra_buffer r))
            in (b \<noteq> None, map Some (take (unat n) buf),
                r\<lparr>ra_buffer := buf, ra_ptr := ra_ptr r + n\<rparr>, s)))
      else (True, [], r, s))"

definition RARead ::
  "'d sd_ops \<Rightarrow> RAFile \<Rightarrow> u32 \<Rightarrow> 'd fatst \<Rightarrow> bool \<times> stored \<times> RAFile \<times> 'd fatst" where
  "RARead io r n s =
     (case ra_drain n r of (out0, n, r) \<Rightarrow>
        (case ra_blocks io n r s of (ok1, out1, n, r, s) \<Rightarrow>
           (case ra_tail io n r s of (ok2, out2, r, s) \<Rightarrow>
              (ok1 \<and> ok2, out0 @ out1 @ out2, r, s))))"

definition RASeek ::
  "'d sd_ops \<Rightarrow> RAFile \<Rightarrow> u32 \<Rightarrow> u32 \<Rightarrow> 'd fatst \<Rightarrow> (bool \<times> RAFile \<times> 'd fatst) option" where
  "RASeek io r offset origin s =
     (let offset = (if origin = SEEK_CUR then offset + ra_ptr r else offset);
          blockoffset = offset AND 511;
          blockaddress = offset - blockoffset
      in case FileSeek io (ra_file r) blockaddress SEEK_SET s of
           None \<Rightarrow> None
         | Some (ok, f, s) \<Rightarrow>
             (let r = r\<lparr>ra_file := f\<rparr>
              in if ok \<and> blockoffset \<noteq> 0 then
                   (case ra_sector io r s of (b, r, s) \<Rightarrow>
                      Some (b \<noteq> None,
                        r\<lparr>ra_buffer := (case b of None \<Rightarrow> ra_buffer r
                                          | Some b \<Rightarrow> overlay b (ra_buffer r)), ra_ptr := offset\<rparr>, s))
                 else Some (ok, r\<lparr>ra_ptr := offset\<rparr>, s)))"

text \<open>A null \<open>file\<close> is \<open>None\<close>.\<close>

definition RAOpen ::
  "'d sd_ops \<Rightarrow> RAFile option \<Rightarrow> reader \<Rightarrow> 'd fatst \<Rightarrow> (bool \<times> RAFile option \<times> 'd fatst) option" where
  "RAOpen io file name s =
     (case file of
        None \<Rightarrow> Some (False, None, s)
      | Some r \<Rightarrow>
          (case FileOpen io (ra_file r) name s of
             None \<Rightarrow> None
           | Some (ok, f, s) \<Rightarrow>
               Some (ok, Some (r\<lparr>ra_file := f, ra_size := fsize f, ra_ptr := 0\<rparr>), s)))"

section \<open>Reference: the bytes of a file\<close>

definition file_sector :: "image \<Rightarrow> nat \<Rightarrow> 'd fatst \<Rightarrow> fileTYPE \<Rightarrow> nat \<Rightarrow> bytes option" where
  "file_sector img k s f q =
     Option.bind (chain img s (start_cluster f) (q div 2 ^ k))
       (\<lambda>c. img (data_start s + ucast (cluster_size s) * (c - 2) + of_nat (q mod 2 ^ k)))"

definition file_bytes :: "image \<Rightarrow> nat \<Rightarrow> 'd fatst \<Rightarrow> fileTYPE \<Rightarrow> nat \<Rightarrow> nat \<Rightarrow> bytes" where
  "file_bytes img k s f a b =
     map (\<lambda>i. the (file_sector img k s f (i div 512)) ! (i mod 512)) [a..<b]"

text \<open>The sectors \<open>a\<close> to \<open>b - 1\<close> can be read and the table gives the cluster after each.\<close>

definition readable :: "image \<Rightarrow> nat \<Rightarrow> 'd fatst \<Rightarrow> fileTYPE \<Rightarrow> nat \<Rightarrow> nat \<Rightarrow> bool" where
  "readable img k s f a b \<longleftrightarrow>
     (\<forall>q \<in> {a..<b}. file_sector img k s f q \<noteq> None \<and>
        chain img s (start_cluster f) (Suc q div 2 ^ k) \<noteq> None)"

text \<open>The file is positioned at sector \<open>q\<close>, which may be one past the end of the file.\<close>

definition at_sector :: "image \<Rightarrow> nat \<Rightarrow> 'd fatst \<Rightarrow> fileTYPE \<Rightarrow> nat \<Rightarrow> bool" where
  "at_sector img k s f q \<longleftrightarrow> unat (fsector f) = q \<and>
     chain img s (start_cluster f) (q div 2 ^ k) = Some (fcluster f)"

text \<open>Between reads: inside a sector the buffer holds it and the file is at the next one.\<close>

definition ra_ok :: "image \<Rightarrow> nat \<Rightarrow> 'd fatst \<Rightarrow> RAFile \<Rightarrow> bool" where
  "ra_ok img k s r \<longleftrightarrow> length (ra_buffer r) = 512 \<and>
     (let q = unat (ra_ptr r) div 512
      in if unat (ra_ptr r) mod 512 = 0 then at_sector img k s (ra_file r) q
         else at_sector img k s (ra_file r) (Suc q) \<and>
              file_sector img k s (ra_file r) q = Some (ra_buffer r))"

definition mounted :: "('d \<Rightarrow> bool) \<Rightarrow> image \<Rightarrow> nat \<Rightarrow> 'd fatst \<Rightarrow> bool" where
  "mounted P img k s \<longleftrightarrow> P (dev s) \<and> cache_ok img s \<and> k \<le> 7 \<and>
     unat (cluster_size s) = 2 ^ k \<and> cluster_mask s = NOT (mask k)"

lemma file_sector_same_volume:
  assumes "same_volume s s'"
  shows "file_sector img k s' = file_sector img k s"
  by (simp add: file_sector_def fun_eq_iff chain_same_volume [OF assms] same_volumeD [OF assms])

lemma same_volume_reference:
  assumes "same_volume s s'"
  shows "file_bytes img k s' = file_bytes img k s" "readable img k s' = readable img k s"
    "at_sector img k s' = at_sector img k s" "ra_ok img k s' = ra_ok img k s"
  using assms by (simp_all add: file_bytes_def readable_def at_sector_def ra_ok_def fun_eq_iff
      file_sector_same_volume chain_same_volume)

lemma file_sector_cong: "start_cluster f' = start_cluster f \<Longrightarrow> file_sector img k s f' = file_sector img k s f"
  by (simp add: file_sector_def fun_eq_iff)

lemma same_start_reference:
  assumes "start_cluster f' = start_cluster f"
  shows "file_bytes img k s f' = file_bytes img k s f" "readable img k s f' = readable img k s f"
  using assms file_sector_cong [OF assms, of img k s]
  by (simp_all add: file_bytes_def readable_def fun_eq_iff)

lemma file_bytes_append:
  "a \<le> b \<Longrightarrow> b \<le> c \<Longrightarrow> file_bytes img k s f a b @ file_bytes img k s f b c = file_bytes img k s f a c"
  using upt_add_eq_append [of a b "c - b"] by (simp add: file_bytes_def flip: map_append)

lemma length_file_bytes [simp]: "length (file_bytes img k s f a b) = b - a"
  by (simp add: file_bytes_def)

text \<open>Part of one sector.\<close>

lemma file_bytes_sector:
  assumes "file_sector img k s f q = Some b" "length b = 512" "i \<le> j" "j \<le> 512"
  shows "file_bytes img k s f (512 * q + i) (512 * q + j) = drop i (take j b)"
proof (rule nth_equalityI)
  fix n
  assume "n < length (file_bytes img k s f (512 * q + i) (512 * q + j))"
  then have n: "n < j - i" by simp
  then have "(512 * q + i + n) div 512 = q" "(512 * q + i + n) mod 512 = i + n"
    using assms(3,4) by (simp_all add: add.assoc)
  with n show "file_bytes img k s f (512 * q + i) (512 * q + j) ! n = drop i (take j b) ! n"
    using assms by (simp add: file_bytes_def)
qed (use assms in simp)

context block_device
begin

lemma ra_sector_correct:
  assumes m: "mounted (serves img) img k s" and pos: "at_sector img k s (ra_file r) q"
    and rd: "readable img k s (ra_file r) q (Suc q)" and bound: "Suc q < 2 ^ 32"
  obtains b f' s' where "ra_sector io r s = (Some b, r\<lparr>ra_file := f'\<rparr>, s')"
    "file_sector img k s (ra_file r) q = Some b" "length b = 512"
    "mounted (serves img) img k s'" "same_volume s s'" "at_sector img k s f' (Suc q)"
    "start_cluster f' = start_cluster (ra_file r)"
proof -
  let ?f = "ra_file r"
  have *: "serves img (dev s)" "cache_ok img s" "k \<le> 7" "unat (cluster_size s) = 2 ^ k"
    "cluster_mask s = NOT (mask k)"
    using m by (simp_all add: mounted_def)
  have q: "unat (fsector ?f) = q" "chain img s (start_cluster ?f) (unat (fsector ?f) div 2 ^ k) = Some (fcluster ?f)"
    using pos by (simp_all add: at_sector_def)
  have "fsector ?f AND mask k = of_nat (q mod 2 ^ k)"
    using arg_cong [OF unat_and_mask [of "fsector ?f" k], of "of_nat :: nat \<Rightarrow> u32"] q(1) by simp
  then have lba: "img (file_lba s ?f) = file_sector img k s ?f q"
    using q *(5) by (simp add: file_lba_def file_sector_def)
  obtain b where b: "file_sector img k s ?f q = Some b"
    using rd by (auto simp: readable_def)
  obtain s1 where s1: "FileRead io ?f s = (Some b, s1)" "same_volume s s1" "serves img (dev s1)" "cache_ok img s1"
    using FileRead_correct [OF *(1), of ?f] lba b *(2) by (cases "FileRead io ?f s") auto
  note vol = same_volumeD [OF s1(2)]
  have last: "fsector ?f \<noteq> -1"
    using bound q(1) by (auto simp: unsigned_minus_1_eq_mask mask_eq_exp_minus_1)
  have suc: "unat (fsector ?f + 1) = Suc q"
    using last q(1) by (simp add: unatSuc add_eq_0_iff add.commute)
  have "k \<le> 7" "unat (cluster_size s1) = 2 ^ k" "cluster_mask s1 = NOT (mask k)"
    "chain img s1 (start_cluster ?f) (unat (fsector ?f) div 2 ^ k) = Some (fcluster ?f)"
    using * q vol chain_same_volume [OF s1(2)] by simp_all
  from s1(3,4) this last show thesis
  proof (rule FileNextSector_correct)
    fix ok f' s'
    assume n: "FileNextSector io ?f s1 = (ok, f', s')" "same_volume s1 s'" "serves img (dev s')"
      "cache_ok img s'" "fsector f' = fsector ?f + 1" "start_cluster f' = start_cluster ?f"
      "ok \<longleftrightarrow> chain img s1 (start_cluster ?f) (unat (fsector ?f + 1) div 2 ^ k) \<noteq> None"
      "ok \<Longrightarrow> chain img s1 (start_cluster ?f) (unat (fsector ?f + 1) div 2 ^ k) = Some (fcluster f')"
    have ok: ok
      using n(7) rd chain_same_volume [OF s1(2)] suc by (auto simp: readable_def)
    have at: "at_sector img k s f' (Suc q)"
      using n(5,6) n(8) [OF ok] suc chain_same_volume [OF s1(2)] by (simp add: at_sector_def)
    have "same_volume s s'" using s1(2) n(2) by (rule same_volume_trans)
    moreover from this have "mounted (serves img) img k s'"
      using * n(3,4) by (simp add: mounted_def same_volumeD)
    moreover have "length b = 512"
      using b lba sector_length [OF *(1)] by simp
    ultimately show thesis
      using s1(1) n(1,6) b at by (intro that [of b f' s']) (simp_all add: ra_sector_def)
  qed
qed

lemma ra_blocks_correct:
  assumes "mounted (serves img) img k s" "at_sector img k s (ra_file r) q"
    and "readable img k s (ra_file r) q (q + unat n div 512)" "q + unat n div 512 < 2 ^ 32"
  shows "\<exists>f' s'. ra_blocks io n r s =
      (True, map Some (file_bytes img k s (ra_file r) (512 * q) (512 * (q + unat n div 512))),
       of_nat (unat n mod 512),
       r\<lparr>ra_file := f', ra_ptr := ra_ptr r + of_nat (512 * (unat n div 512))\<rparr>, s') \<and>
    mounted (serves img) img k s' \<and> same_volume s s' \<and>
    at_sector img k s f' (q + unat n div 512) \<and> start_cluster f' = start_cluster (ra_file r)"
  using assms
proof (induction "unat n div 512" arbitrary: n q r s)
  case 0
  then have "unat n < 512" by (simp add: div_eq_0_iff)
  then have "\<not> n > 511" by (simp add: word_less_nat_alt)
  then show ?case
    using 0 \<open>unat n < 512\<close>
    by (intro exI [of _ "ra_file r"] exI [of _ s])
       (simp add: ra_blocks.simps [of io n] file_bytes_def)
next
  case (Suc m)
  have big: "n > 511" and n': "unat (n - 512) = unat n - 512" and ge: "512 \<le> unat n"
    using Suc.hyps(2) by (auto simp: word_less_nat_alt unat_sub_if' Suc_le_eq div_eq_0_iff dest: div_less)
  have m: "unat (n - 512) div 512 = m" and rem: "unat (n - 512) mod 512 = unat n mod 512"
    using n' ge Suc.hyps(2) by (simp_all add: le_div_geq le_mod_geq [of 512 "unat n"])
  let ?f = "ra_file r"
  have rd1: "readable img k s ?f q (Suc q)" and rd2: "readable img k s ?f (Suc q) (Suc q + m)"
    using Suc.prems(3) Suc.hyps(2) by (auto simp: readable_def)
  have "Suc q < 2 ^ 32" using Suc.prems(4) Suc.hyps(2) by simp
  then show ?case
  proof (rule ra_sector_correct [OF Suc.prems(1,2) rd1])
    fix b f1 s1
    assume s1: "ra_sector io r s = (Some b, r\<lparr>ra_file := f1\<rparr>, s1)"
      "file_sector img k s ?f q = Some b" "length b = 512" "mounted (serves img) img k s1"
      "same_volume s s1" "at_sector img k s f1 (Suc q)" "start_cluster f1 = start_cluster ?f"
    note ref = same_volume_reference [OF s1(5)] same_start_reference [OF s1(7)]
    let ?r1 = "r\<lparr>ra_file := f1, ra_ptr := ra_ptr r + 512\<rparr>"
    obtain f' s' where rec: "ra_blocks io (n - 512) ?r1 s1 =
        (True, map Some (file_bytes img k s ?f (512 * Suc q) (512 * (Suc q + m))),
         of_nat (unat n mod 512), ?r1\<lparr>ra_file := f', ra_ptr := ra_ptr ?r1 + of_nat (512 * m)\<rparr>, s')"
      "mounted (serves img) img k s'" "same_volume s1 s'" "at_sector img k s f' (Suc q + m)"
      "start_cluster f' = start_cluster ?f"
      using Suc.hyps(1) [OF m [symmetric], of s1 ?r1 "Suc q"] s1(4,6,7) rd2 Suc.prems(4) Suc.hyps(2)
      unfolding m rem ref by (auto simp: ref)
    have "file_bytes img k s ?f (512 * q) (512 * Suc q) = b"
      using file_bytes_sector [OF s1(2,3), of 0 512] s1(3) by (simp add: add.commute)
    then have out: "b @ file_bytes img k s ?f (512 * Suc q) (512 * (Suc q + m)) =
        file_bytes img k s ?f (512 * q) (512 * (q + Suc m))"
      using file_bytes_append [of "512 * q" "512 * Suc q" "512 * (Suc q + m)" img k s ?f] by simp
    have "ra_blocks io n r s =
      (True, map Some (file_bytes img k s ?f (512 * q) (512 * (q + unat n div 512))),
       of_nat (unat n mod 512),
       r\<lparr>ra_file := f', ra_ptr := ra_ptr r + of_nat (512 * (unat n div 512))\<rparr>, s')"
      unfolding ra_blocks.simps [of io n r s] if_P [OF big] s1(1) prod.case
      using rec(1) Suc.hyps(2) [symmetric] out
      by (simp add: stored_block_def algebra_simps flip: map_append)
    then show ?thesis
      using rec same_volume_trans [OF s1(5) rec(3)] Suc.hyps(2) [symmetric] by auto
  qed
qed

text \<open>
  Reading from the start of a sector, or reading at least 512 bytes, gives the bytes of the
  file and moves the position by as many.
\<close>

lemma ra_tail_correct:
  assumes "mounted (serves img) img k s" "at_sector img k s (ra_file r) q"
    and "length (ra_buffer r) = 512" "unat n < 512" "n \<noteq> 0 \<Longrightarrow> readable img k s (ra_file r) q (Suc q)"
    and "Suc q < 2 ^ 32" "unat (ra_ptr r) = 512 * q"
  obtains r' s' where "ra_tail io n r s =
      (True, map Some (file_bytes img k s (ra_file r) (512 * q) (512 * q + unat n)), r', s')"
    "mounted (serves img) img k s'" "same_volume s s'" "ra_ptr r' = ra_ptr r + n"
    "start_cluster (ra_file r') = start_cluster (ra_file r)" "ra_ok img k s r'"
proof (cases "n = 0")
  case True
  then show thesis
    using assms by (intro that [of r s]) (auto simp: ra_tail_def file_bytes_def ra_ok_def)
next
  case False
  from assms(1,2) assms(5) [OF False] assms(6) show thesis
  proof (rule ra_sector_correct)
    fix b f' s'
    assume s': "ra_sector io r s = (Some b, r\<lparr>ra_file := f'\<rparr>, s')"
      "file_sector img k s (ra_file r) q = Some b" "length b = 512" "mounted (serves img) img k s'"
      "same_volume s s'" "at_sector img k s f' (Suc q)" "start_cluster f' = start_cluster (ra_file r)"
    let ?r = "r\<lparr>ra_file := f', ra_buffer := b, ra_ptr := ra_ptr r + n\<rparr>"
    have buf: "overlay b (ra_buffer r) = b"
      using s'(3) assms(3) by (simp add: overlay_def)
    have bytes: "file_bytes img k s (ra_file r) (512 * q) (512 * q + unat n) = take (unat n) b"
      using file_bytes_sector [OF s'(2,3), of 0 "unat n"] assms(4) by simp
    have "512 * q + unat n < 2 ^ 32"
    proof -
      have "512 * Suc q \<le> 2 ^ 32"
      proof -
        have "512 * q < 512 * 8388608" using assms(7) unat_u32_less [of "ra_ptr r"] by simp
        then show ?thesis by simp
      qed
      then show ?thesis using assms(4) by simp
    qed
    then have ptr: "unat (ra_ptr r + n) = 512 * q + unat n"
      using assms(7) by (simp add: unat_word_ariths)
    have "unat n \<noteq> 0" using False by (simp add: unat_eq_0)
    then have "ra_ok img k s ?r"
      using s' assms(4) file_sector_cong [OF s'(7), of img k s] by (simp add: ra_ok_def ptr Let_def)
    then show thesis
      using s' False bytes buf by (intro that [of ?r s']) (simp_all add: ra_tail_def Let_def)
  qed
qed

lemma ra_aligned_correct:
  assumes "mounted (serves img) img k s" "at_sector img k s (ra_file r) q"
    and "length (ra_buffer r) = 512" "unat (ra_ptr r) = 512 * q" "512 * q + unat n < 2 ^ 32"
    and "readable img k s (ra_file r) q ((512 * q + unat n + 511) div 512)"
  obtains n' r1 s1 r2 s2 out1 out2 where "ra_blocks io n r s = (True, out1, n', r1, s1)"
    "ra_tail io n' r1 s1 = (True, out2, r2, s2)"
    "out1 @ out2 = map Some (file_bytes img k s (ra_file r) (512 * q) (512 * q + unat n))"
    "mounted (serves img) img k s2" "same_volume s s2" "ra_ptr r2 = ra_ptr r + n"
    "start_cluster (ra_file r2) = start_cluster (ra_file r)" "ra_ok img k s r2"
proof -
  let ?m = "unat n div 512" and ?n' = "of_nat (unat n mod 512) :: u32"
  have n: "unat n = 512 * ?m + unat n mod 512" by simp
  have up: "(512 * q + unat n + 511) div 512 = (if unat n mod 512 = 0 then q + ?m else Suc (q + ?m))"
    using ceil_div_512 [of "unat n"] by (simp add: add.assoc)
  have bound: "q + ?m < 2 ^ 32" using assms(5) by linarith
  have rd: "readable img k s (ra_file r) q (q + ?m)"
    and rd': "of_nat (unat n mod 512) \<noteq> (0 :: u32) \<Longrightarrow> readable img k s (ra_file r) (q + ?m) (Suc (q + ?m))"
  proof -
    show "readable img k s (ra_file r) q (q + ?m)"
      using assms(6) unfolding up by (auto simp: readable_def split: if_splits)
    assume "of_nat (unat n mod 512) \<noteq> (0 :: u32)"
    then have "unat n mod 512 \<noteq> 0" by (intro notI) simp
    then show "readable img k s (ra_file r) (q + ?m) (Suc (q + ?m))"
      using assms(6) unfolding up by (auto simp: readable_def)
  qed
  obtain f' s1 where b: "ra_blocks io n r s =
      (True, map Some (file_bytes img k s (ra_file r) (512 * q) (512 * (q + ?m))), ?n',
       r\<lparr>ra_file := f', ra_ptr := ra_ptr r + of_nat (512 * ?m)\<rparr>, s1)"
    "mounted (serves img) img k s1" "same_volume s s1" "at_sector img k s f' (q + ?m)"
    "start_cluster f' = start_cluster (ra_file r)"
    using ra_blocks_correct [OF assms(1,2) rd bound] by blast
  let ?r1 = "r\<lparr>ra_file := f', ra_ptr := ra_ptr r + of_nat (512 * ?m)\<rparr>"
  note ref = same_volume_reference [OF b(3)] same_start_reference [OF b(5)]
  have "512 * ?m < 4294967296" using unat_u32_less [of n] by linarith
  then have ptr: "unat (ra_ptr ?r1) = 512 * (q + ?m)"
    using assms(4,5) by (simp add: unat_word_ariths unat_of_nat_u32)
  show thesis
  proof (rule ra_tail_correct [of img k s1 ?r1 "q + ?m" ?n'])
    fix r2 s2
    assume t: "ra_tail io ?n' ?r1 s1 = (True, map Some (file_bytes img k s1 (ra_file ?r1)
        (512 * (q + ?m)) (512 * (q + ?m) + unat ?n')), r2, s2)"
      "mounted (serves img) img k s2" "same_volume s1 s2" "ra_ptr r2 = ra_ptr ?r1 + ?n'"
      "start_cluster (ra_file r2) = start_cluster (ra_file ?r1)" "ra_ok img k s1 r2"
    have "ra_ptr r2 = ra_ptr r + of_nat (512 * ?m + unat n mod 512)"
      unfolding t(4) of_nat_add add.assoc [symmetric] by simp
    then have ptr2: "ra_ptr r2 = ra_ptr r + n" unfolding n [symmetric] by simp
    have e: "512 * (q + ?m) + unat n mod 512 = 512 * q + unat n" by simp
    have out: "map Some (file_bytes img k s (ra_file r) (512 * q) (512 * (q + ?m))) @
        map Some (file_bytes img k s1 (ra_file ?r1) (512 * (q + ?m)) (512 * (q + ?m) + unat ?n')) =
        map Some (file_bytes img k s (ra_file r) (512 * q) (512 * q + unat n))"
      unfolding unat_of_nat_mod_512 e map_append [symmetric]
      using file_bytes_append [of "512 * q" "512 * (q + ?m)" "512 * q + unat n" img k s "ra_file r"]
      by (simp add: ref)
    show thesis
      using b t ptr2 same_volume_trans [OF b(3) t(3)]
      by (intro that [OF b(1) t(1) out t(2)]) (simp_all add: ref)
  qed (use assms(3,5) b(2,4) ptr rd' in \<open>simp_all add: ref, linarith?\<close>)
qed

lemma RARead_correct:
  assumes "mounted (serves img) img k s" "ra_ok img k s r"
    and "unat (ra_ptr r) mod 512 = 0 \<or> 512 \<le> unat n"
    and "unat n < 2 ^ 31" "unat (ra_ptr r) + unat n < 2 ^ 32"
    and "readable img k s (ra_file r) (unat (ra_ptr r) div 512) ((unat (ra_ptr r) + unat n + 511) div 512)"
  shows "\<exists>r' s'. RARead io r n s =
      (True, map Some (file_bytes img k s (ra_file r) (unat (ra_ptr r)) (unat (ra_ptr r) + unat n)), r', s') \<and>
    ra_ptr r' = ra_ptr r + n \<and> start_cluster (ra_file r') = start_cluster (ra_file r) \<and>
    ra_ok img k s' r' \<and> mounted (serves img) img k s' \<and> same_volume s s'"
proof -
  define off where "off = unat (ra_ptr r) mod 512"
  define q where "q = unat (ra_ptr r) div 512"
  have ptr: "unat (ra_ptr r) = 512 * q + off" by (simp add: off_def q_def)
  have off_w: "unat (ra_ptr r AND 511) = off" by (simp add: off_def word_nat)
  have len: "length (ra_buffer r) = 512" using assms(2) by (simp add: ra_ok_def)
  show ?thesis
  proof (cases "off = 0")
    case True
    then have drain: "ra_drain n r = ([], n, r)"
      using off_w by (simp add: ra_drain_def unat_eq_zero)
    have at: "at_sector img k s (ra_file r) q" and rd: "readable img k s (ra_file r) q ((512 * q + unat n + 511) div 512)"
      and ptr0: "unat (ra_ptr r) = 512 * q" and b: "512 * q + unat n < 2 ^ 32"
      using True assms(2,5,6) ptr by (simp_all add: ra_ok_def q_def [symmetric] off_def [symmetric])
    from assms(1) at len ptr0 b rd show ?thesis
    proof (rule ra_aligned_correct)
      fix n' r1 s1 r2 s2 out1 out2
      assume *: "ra_blocks io n r s = (True, out1, n', r1, s1)" "ra_tail io n' r1 s1 = (True, out2, r2, s2)"
        "out1 @ out2 = map Some (file_bytes img k s (ra_file r) (512 * q) (512 * q + unat n))"
        "mounted (serves img) img k s2" "same_volume s s2" "ra_ptr r2 = ra_ptr r + n"
        "start_cluster (ra_file r2) = start_cluster (ra_file r)" "ra_ok img k s r2"
      then show ?thesis
        using drain ptr0 same_volume_reference [OF *(5)] by (simp add: RARead_def)
    qed
  next
    case False
    then have big: "512 \<le> unat n" using assms(3) off_def by simp
    have o: "off < 512" "off \<noteq> 0" using False by (simp_all add: off_def)
    have signed: "sint n = int (unat n)"
      using assms(4) by (simp add: sint_u32_small)
    define d :: u32 where "d = 512 - (ra_ptr r AND 511)"
    have d: "unat d = 512 - off" using o off_w by (simp add: d_def unat_sub_if')
    have l: "(if 512 <s n then 512 else n) = 512"
      using big signed by (auto simp: word_sless_alt word_unat_eq_iff uint_nat simp del: of_nat_unat)
    let ?r = "r\<lparr>ra_ptr := ra_ptr r + d\<rparr>"
    have "sint (ra_ptr r AND 511) = int off"
      using off_w o by (simp add: sint_u32_small)
    then have "\<not> 512 \<le>s ra_ptr r AND 511"
      using o by (simp add: word_sle_eq)
    moreover have "ra_ptr r AND 511 \<noteq> 0"
      using off_w o by (metis unat_0)
    ultimately have drain: "ra_drain n r = (map Some (drop off (ra_buffer r)), n - d, ?r)"
      using off_w len unfolding ra_drain_def Let_def l d_def by simp
    have at: "at_sector img k s (ra_file ?r) (Suc q)" and buf: "file_sector img k s (ra_file r) q = Some (ra_buffer r)"
      using False assms(2) by (simp_all add: ra_ok_def q_def [symmetric] off_def [symmetric])
    have ptr1: "unat (ra_ptr ?r) = 512 * Suc q"
      using d o ptr assms(5) big by (simp add: unat_word_ariths)
    have n1: "512 * Suc q + unat (n - d) = unat (ra_ptr r) + unat n"
      using d o ptr big by (simp add: unat_sub_if')
    have rd: "readable img k s (ra_file ?r) (Suc q) ((512 * Suc q + unat (n - d) + 511) div 512)"
      using assms(6) unfolding n1 by (auto simp: readable_def q_def)
    have b: "512 * Suc q + unat (n - d) < 2 ^ 32" unfolding n1 by (rule assms(5))
    have len': "length (ra_buffer ?r) = 512" using len by simp
    from assms(1) at len' ptr1 b rd show ?thesis
    proof (rule ra_aligned_correct)
      fix n' r1 s1 r2 s2 out1 out2
      assume *: "ra_blocks io (n - d) ?r s = (True, out1, n', r1, s1)" "ra_tail io n' r1 s1 = (True, out2, r2, s2)"
        "out1 @ out2 = map Some (file_bytes img k s (ra_file ?r) (512 * Suc q) (512 * Suc q + unat (n - d)))"
        "mounted (serves img) img k s2" "same_volume s s2" "ra_ptr r2 = ra_ptr ?r + (n - d)"
        "start_cluster (ra_file r2) = start_cluster (ra_file ?r)" "ra_ok img k s r2"
      have "file_bytes img k s (ra_file r) (unat (ra_ptr r)) (512 * Suc q) = drop off (ra_buffer r)"
        using file_bytes_sector [OF buf len, of off 512] o len by (simp add: ptr add.commute)
      then have "map Some (drop off (ra_buffer r)) @ out1 @ out2 =
          map Some (file_bytes img k s (ra_file r) (unat (ra_ptr r)) (unat (ra_ptr r) + unat n))"
        using file_bytes_append [of "unat (ra_ptr r)" "512 * Suc q" "unat (ra_ptr r) + unat n" img k s "ra_file r"] ptr o big
        unfolding *(3) n1 by (simp flip: map_append)
      then show ?thesis
        using * drain same_volume_reference [OF *(5)] by (simp add: RARead_def)
    qed
  qed
qed

text \<open>
  The remaining case, a read that starts inside a sector and is shorter than 512 bytes: the
  loop that drains the buffer stops at index \<open>bytes\<close> instead of at the end of the sector, and
  the rest is taken from the start of the next sector.
\<close>

lemma RARead_unaligned_short:
  assumes "mounted (serves img) img k s" "ra_ok img k s r"
    and off: "unat (ra_ptr r) mod 512 = off" "off \<noteq> 0" and short: "unat n < 512"
    and rd: "readable img k s (ra_file r) (Suc (unat (ra_ptr r) div 512)) (Suc (Suc (unat (ra_ptr r) div 512)))"
  obtains b r' s' where "file_sector img k s (ra_file r) (Suc (unat (ra_ptr r) div 512)) = Some b"
    "length b = 512"
    "RARead io r n s = (True, map Some (drop off (take (unat n) (ra_buffer r)) @ take off b), r', s')"
    "ra_ptr r' = ra_ptr r + n"
proof -
  define q where "q = unat (ra_ptr r) div 512"
  let ?o = "ra_ptr r AND 511"
  have off_w: "unat ?o = off" "?o = of_nat off" using off
    by (simp_all add: word_nat word_unat_eq_iff flip: off(1))
  have "off < 512" using off(1) by (metis mod_less_divisor zero_less_numeral)
  then have signed: "sint n = int (unat n)" "sint ?o = int off"
    using short off_w by (simp_all add: sint_u32_small)
  have l: "(if 512 <s n then 512 else n) = n"
    using short signed by (auto simp: word_sless_alt uint_nat simp del: of_nat_unat)
  have "?o \<noteq> 0" using off_w off(2) by (metis unat_0)
  let ?r = "r\<lparr>ra_ptr := ra_ptr r + (n - ?o)\<rparr>"
  have "n \<le>s ?o \<Longrightarrow> drop off (take (unat n) (ra_buffer r)) = []"
    using signed by (simp add: word_sle_eq uint_nat del: of_nat_unat)
  then have drain: "ra_drain n r = (map Some (drop off (take (unat n) (ra_buffer r))), ?o, ?r)"
    using \<open>?o \<noteq> 0\<close> off_w(1) unfolding ra_drain_def Let_def l by simp
  have none: "ra_blocks io ?o ?r s = (True, [], ?o, ?r, s)"
    using \<open>off < 512\<close> off_w(1) by (simp add: ra_blocks.simps [of io ?o] word_less_nat_alt)
  have at: "at_sector img k s (ra_file ?r) (Suc q)"
    using assms(2) off by (simp add: ra_ok_def q_def Let_def)
  have rd': "readable img k s (ra_file ?r) (Suc q) (Suc (Suc q))" using rd by (simp add: q_def)
  have "Suc (Suc q) < 2 ^ 32"
  proof -
    have "q < 8388608" using unat_u32_less [of "ra_ptr r"] unfolding q_def by linarith
    then show ?thesis by simp
  qed
  then show thesis
  proof (rule ra_sector_correct [OF assms(1) at rd'])
    fix b f' s'
    assume s': "ra_sector io ?r s = (Some b, ?r\<lparr>ra_file := f'\<rparr>, s')"
      "file_sector img k s (ra_file ?r) (Suc q) = Some b" "length b = 512"
    have "overlay b (ra_buffer r) = b"
      using s'(3) assms(2) by (simp add: overlay_def ra_ok_def)
    then have "ra_tail io ?o ?r s = (True, map Some (take off b),
        ?r\<lparr>ra_file := f', ra_buffer := b, ra_ptr := ra_ptr ?r + ?o\<rparr>, s')"
      using s'(1) \<open>?o \<noteq> 0\<close> off_w(1) by (simp add: ra_tail_def Let_def)
    then show thesis
      using s' drain none
      by (intro that [of b "?r\<lparr>ra_file := f', ra_buffer := b, ra_ptr := ra_ptr ?r + ?o\<rparr>" s'])
         (simp_all add: RARead_def q_def)
  qed
qed

text \<open>\<open>RASeek\<close> passes the byte address of the sector to \<open>FileSeek\<close>, which counts sectors.\<close>

lemma RASeek_sector:
  assumes "mounted (serves img) img k s" "positioned img k s (ra_file r)"
    and "RASeek io r offset origin s = Some (True, r', s')"
    and t: "t = (if origin = SEEK_CUR then offset + ra_ptr r else offset)" "t AND 511 = 0"
  shows "ra_ptr r' = t" "fsector (ra_file r') = t"
proof -
  have "serves img (dev s)" "cache_ok img s" "k \<le> 7" "unat (cluster_size s) = 2 ^ k"
    "cluster_mask s = NOT (mask k)"
    using assms(1) by (simp_all add: mounted_def)
  from this assms(2) show "ra_ptr r' = t" "fsector (ra_file r') = t"
  proof (atomize (full), rule FileSeek_correct [where origin = SEEK_SET and offset = t])
    fix ok f' s''
    assume "FileSeek io (ra_file r) t SEEK_SET s = Some (ok, f', s'')"
      "ok \<Longrightarrow> fsector f' = (if SEEK_SET = SEEK_CUR then t + fsector (ra_file r) else t) \<and>
         positioned img k s f'"
    then show "ra_ptr r' = t \<and> fsector (ra_file r') = t"
      using assms(3) t(2) unfolding RASeek_def Let_def t(1) [symmetric] by auto
  qed
qed

end

end
