(* ===== verification/RaVolume.thy ===== *)
theory RaVolume
  imports RaFile Directory
begin

text \<open>
  Byte-granular reading over the SD card driver: the lemmas of theory \<open>RaFile\<close> for a card that
  serves an image, with the sample volume as witness.
\<close>

text \<open>
  C16. A read through \<open>RARead\<close> that starts at a sector boundary, or asks for at least 512 bytes,
  returns 1, stores exactly the next bytes of the file, moves the position by their number and
  leaves the file ready for the next read, when the sectors it covers can be read.
\<close>

theorem RARead_reads_file:
  assumes "mounted (spi_serves x img) img k s" "ra_ok img k s r"
    and "unat (ra_ptr r) mod 512 = 0 \<or> 512 \<le> unat n"
    and "unat n < 2 ^ 31" "unat (ra_ptr r) + unat n < 2 ^ 32"
    and "readable img k s (ra_file r) (unat (ra_ptr r) div 512) ((unat (ra_ptr r) + unat n + 511) div 512)"
  shows "\<exists>r' s'. RARead (spi_ops x) r n s =
      (True, map Some (file_bytes img k s (ra_file r) (unat (ra_ptr r)) (unat (ra_ptr r) + unat n)), r', s') \<and>
    ra_ptr r' = ra_ptr r + n \<and> ra_ok img k s' r' \<and> mounted (spi_serves x img) img k s'"
  using spi.RARead_correct [OF assms] by blast

definition sample_ra :: RAFile where
  "sample_ra = \<lparr>ra_file = sample_file, ra_size = 1100, ra_ptr = 0, ra_buffer = replicate 512 0\<rparr>"

lemma sample_mounted: "mounted (spi_serves (sample_bus sample_image) sample_image) sample_image 0 sample_volume"
  using sample_facts by (simp add: mounted_def)

lemma sample_chain:
  "chain sample_image sample_volume 2 (Suc 0) = Some 3"
  "chain sample_image sample_volume 2 (Suc (Suc 0)) = Some 5"
  "chain sample_image sample_volume 2 (Suc (Suc (Suc 0))) = Some 0xFFFF"
  using sample_links by simp_all

lemma sample_sector:
  "file_sector sample_image 0 sample_volume sample_file 0 = Some (replicate 512 4)"
  "file_sector sample_image 0 sample_volume sample_file (Suc 0) = Some (replicate 512 5)"
  "file_sector sample_image 0 sample_volume sample_file (Suc (Suc 0)) = Some (replicate 512 7)"
  using sample_chain
  by (simp_all add: file_sector_def sample_file_def sample_volume_def sample_image_def del: chain.simps(2))

lemma sample_start: "start_cluster sample_file = 2"
  by (simp add: sample_file_def)

lemma sample_readable:
  assumes "b \<le> 3"
  shows "readable sample_image 0 sample_volume sample_file a b"
  unfolding readable_def
proof
  fix q
  assume "q \<in> {a..<b}"
  then have "q = 0 \<or> q = Suc 0 \<or> q = Suc (Suc 0)" using assms by auto
  then show "file_sector sample_image 0 sample_volume sample_file q \<noteq> None \<and>
      chain sample_image sample_volume (start_cluster sample_file) (Suc q div 2 ^ 0) \<noteq> None"
    using sample_sector sample_chain by (auto simp: sample_start simp del: chain.simps(2))
qed

lemma sample_ra_ok: "ra_ok sample_image 0 sample_volume sample_ra"
  by (simp add: ra_ok_def sample_ra_def at_sector_def sample_file_def)

lemma RARead_reads_file_witness:
  "\<exists>r' s'. RARead (spi_ops (sample_bus sample_image)) sample_ra 700 sample_volume =
     (True, replicate 512 (Some 4) @ replicate 188 (Some 5), r', s') \<and> ra_ptr r' = 700"
proof -
  have "file_bytes sample_image 0 sample_volume sample_file 0 512 = replicate 512 4"
    using file_bytes_sector [OF sample_sector(1), of 0 512] by simp
  moreover have "file_bytes sample_image 0 sample_volume sample_file 512 700 = replicate 188 5"
    using file_bytes_sector [OF sample_sector(2), of 0 188] by (simp add: take_replicate)
  ultimately have "file_bytes sample_image 0 sample_volume sample_file 0 700 =
      replicate 512 4 @ replicate 188 5"
    using file_bytes_append [of 0 512 700 sample_image 0 sample_volume sample_file] by simp
  then show ?thesis
    using RARead_reads_file [OF sample_mounted sample_ra_ok, of 700] sample_readable [of 2 0]
    by (auto simp: sample_ra_def)
qed

text \<open>
  C23. A read that starts inside a sector, at offset \<open>off\<close>, and asks for fewer than 512 bytes is
  wrong: it stores the buffered bytes from \<open>off\<close> up to index \<open>bytes\<close> and then the first \<open>off\<close>
  bytes of the next sector, although it returns 1 and moves the position by \<open>bytes\<close>; when
  \<open>bytes < off\<close> it stores \<open>off\<close> bytes, more than the caller asked for.
\<close>

theorem RARead_short_unaligned_wrong:
  assumes "mounted (spi_serves x img) img k s" "ra_ok img k s r"
    and "unat (ra_ptr r) mod 512 = off" "off \<noteq> 0" "unat n < 512"
    and "readable img k s (ra_file r) (Suc (unat (ra_ptr r) div 512)) (Suc (Suc (unat (ra_ptr r) div 512)))"
  shows "\<exists>b out r' s'. file_sector img k s (ra_file r) (Suc (unat (ra_ptr r) div 512)) = Some b \<and>
    RARead (spi_ops x) r n s = (True, out, r', s') \<and>
    out = map Some (drop off (take (unat n) (ra_buffer r)) @ take off b) \<and>
    length out = max off (unat n) \<and> ra_ptr r' = ra_ptr r + n"
proof (rule spi.RARead_unaligned_short [OF assms])
  fix b r' s'
  assume *: "file_sector img k s (ra_file r) (Suc (unat (ra_ptr r) div 512)) = Some b"
    "length b = 512"
    "RARead (spi_ops x) r n s =
      (True, map Some (drop off (take (unat n) (ra_buffer r)) @ take off b), r', s')"
    "ra_ptr r' = ra_ptr r + n"
  have "length (ra_buffer r) = 512" "off < 512" using assms(2,3) by (auto simp: ra_ok_def)
  then have "length (drop off (take (unat n) (ra_buffer r)) @ take off b) = max off (unat n)"
    using *(2) assms(5) by auto
  with * show ?thesis by auto
qed

definition sample_ra_inside :: RAFile where
  "sample_ra_inside = \<lparr>ra_file = sample_file\<lparr>fsector := 1, fcluster := 3\<rparr>, ra_size = 1100,
     ra_ptr = 100, ra_buffer = replicate 512 4\<rparr>"

lemma RARead_short_unaligned_wrong_witness:
  "\<exists>r' s'. RARead (spi_ops (sample_bus sample_image)) sample_ra_inside 20 sample_volume =
     (True, replicate 100 (Some 5), r', s') \<and> ra_ptr r' = 120"
proof -
  have start: "start_cluster (sample_file\<lparr>fsector := 1, fcluster := 3\<rparr>) = start_cluster sample_file"
    by simp
  note sector = file_sector_cong [OF start] same_start_reference [OF start]
  have ok: "ra_ok sample_image 0 sample_volume sample_ra_inside"
    using sample_sector(1) sample_chain(1)
    by (simp add: ra_ok_def sample_ra_inside_def Let_def at_sector_def sector sample_start
        del: chain.simps(2))
  have "readable sample_image 0 sample_volume (ra_file sample_ra_inside) (Suc 0) (Suc (Suc 0))"
    using sample_readable [of "Suc (Suc 0)" "Suc 0"] by (simp add: sample_ra_inside_def sector)
  then show ?thesis
    using RARead_short_unaligned_wrong [OF sample_mounted ok, of 100 20] sample_sector(2)
    by (auto simp: sample_ra_inside_def sector take_replicate)
qed

text \<open>
  C24. \<open>RASeek\<close> to a sector boundary leaves the file at the sector whose number is the byte
  position, so after any successful seek to a boundary other than 0 the file is not at the
  sector the position lies in, and the next read is taken from elsewhere.
\<close>

theorem RASeek_seeks_wrong_sector:
  assumes "mounted (spi_serves x img) img k s" "positioned img k s (ra_file r)"
    and "RASeek (spi_ops x) r t SEEK_SET s = Some (True, r', s')"
    and "t AND 511 = 0" "t \<noteq> 0"
  shows "ra_ptr r' = t \<and> fsector (ra_file r') = t \<and> unat (fsector (ra_file r')) \<noteq> unat t div 512 \<and>
    \<not> ra_ok img k s' r'"
proof -
  have *: "ra_ptr r' = t" "fsector (ra_file r') = t"
    using spi.RASeek_sector [OF assms(1-3), of t] assms(4) by simp_all
  have "unat t \<noteq> 0" using assms(5) by (simp add: unat_eq_0)
  then have "unat t \<noteq> unat t div 512" by (intro notI) (metis div_less_dividend less_irrefl one_less_numeral_iff semiring_norm(76) neq0_conv)
  moreover have "unat t mod 512 = 0"
    using assms(4) by (metis unat_0 unat_and_numerals(6))
  ultimately show ?thesis
    using * by (simp add: ra_ok_def Let_def at_sector_def)
qed

text \<open>A card whose chain from cluster 2 loops, so that every seek succeeds.\<close>

definition loop_image :: image where
  "loop_image lba = Some (map (\<lambda>i. if even i then 2 else 0) [0..<512])"

lemma loop_mounted: "mounted (spi_serves (sample_bus loop_image) loop_image) loop_image 0 sample_volume"
proof -
  have "spi_serves (sample_bus loop_image) loop_image sample_spi"
    by (rule sample_spi_serves) (auto simp: loop_image_def)
  then show ?thesis
    using sample_volume_geometry sample_volume_cache [of loop_image]
    by (simp add: mounted_def) (simp add: sample_volume_def)
qed

lemma loop_live: "live_chain loop_image sample_volume 2 n = Some 2"
proof (induction n)
  case (Suc n)
  have "chain_link loop_image sample_volume 2 = Some 2"
    by (simp add: chain_link_def sample_volume_def loop_image_def link_sector_def
        table_entry_def le16_def word_cat_eq')
  with Suc show ?case by (simp add: is_eoc_def sample_volume_def)
qed simp

lemma loop_seek: "\<exists>r' s'. RASeek (spi_ops (sample_bus loop_image)) sample_ra 512 SEEK_SET sample_volume =
    Some (True, r', s')"
proof -
  have m: "spi_serves (sample_bus loop_image) loop_image (dev sample_volume)" "cache_ok loop_image sample_volume"
    using loop_mounted by (simp_all add: mounted_def)
  show ?thesis
  proof (rule spi.FileSeek_correct [OF m sample_volume_geometry sample_file_positioned,
        where offset = 512 and origin = SEEK_SET])
    fix ok f' s'
    assume "FileSeek (spi_ops (sample_bus loop_image)) sample_file 512 SEEK_SET sample_volume = Some (ok, f', s')"
      "ok \<longleftrightarrow> live_chain loop_image sample_volume (start_cluster sample_file)
         (unat (if SEEK_SET = SEEK_CUR then 512 + fsector sample_file else 512) div 2 ^ 0) \<noteq> None"
    then show ?thesis
      by (simp add: RASeek_def sample_ra_def sample_start loop_live)
  qed
qed

lemma RASeek_seeks_wrong_sector_witness:
  "\<exists>r' s'. RASeek (spi_ops (sample_bus loop_image)) sample_ra 512 SEEK_SET sample_volume =
     Some (True, r', s') \<and> ra_ptr r' = 512 \<and> fsector (ra_file r') = 512 \<and>
     \<not> ra_ok loop_image 0 s' r'"
proof -
  obtain r' s' where *: "RASeek (spi_ops (sample_bus loop_image)) sample_ra 512 SEEK_SET sample_volume =
      Some (True, r', s')"
    using loop_seek by blast
  have "positioned loop_image 0 sample_volume (ra_file sample_ra)"
    using sample_file_positioned by (simp add: sample_ra_def)
  from RASeek_seeks_wrong_sector [OF loop_mounted this *] * show ?thesis by auto
qed

end
