(* ===== verification/Syscalls.thy ===== *)
theory Syscalls
  imports RaVolume Malloc Cmem Devices
begin

text \<open>
  The file descriptors of \<^verbatim>\<open>Firmware_Common/syscalls.c\<close>: a table of pointers to \<open>RAFile\<close>
  objects on the heap, over the allocator, the random-access files and the serial port. The
  \<open>RAFile\<close> objects are a function from their addresses; the buffers of the callers are in the
  memory. A descriptor outside of the table is an error, since the C code reads beside the array;
  \<open>None\<close> stands for a call that does not return.
\<close>

section \<open>State\<close>

datatype errno_value = No_error | ENOENT | EIO | EBADF | EACCES | EINVAL | ESPIPE

datatype sys_error = OutsideFiles int

definition MAX_FILES :: nat where "MAX_FILES = 8"

text \<open>\<open>sizeof(RAFile)\<close> with the alignment of the 68000, two bytes.\<close>

definition RAFile_size :: u32 where "RAFile_size = 818"

record 'd sys =
  fs :: "'d fatst"
  Files :: "u32 list"
  rafiles :: "u32 \<Rightarrow> RAFile"
  heap :: arena
  memory :: mem
  errno :: errno_value
  sdcard_present :: bool
  filesystem_present :: bool

type_synonym ('d, 'a) outcome = "(sys_error + 'a \<times> 'd sys) option"

text \<open>The macro \<open>File(x)\<close>, \<open>Files[(x)-2]\<close>.\<close>

definition File :: "u32 \<Rightarrow> 'd sys \<Rightarrow> sys_error + u32" where
  "File fd s =
     (let i = sint fd - 2
      in if 0 \<le> i \<and> i < int MAX_FILES then Inr (Files s ! nat i) else Inl (OutsideFiles i))"

definition set_File :: "u32 \<Rightarrow> u32 \<Rightarrow> 'd sys \<Rightarrow> 'd sys" where
  "set_File fd p s = s\<lparr>Files := (Files s)[nat (sint fd - 2) := p]\<rparr>"

text \<open>The bytes a read stores from \<open>p\<close> on; it steps over \<open>None\<close>.\<close>

primrec store_bytes :: "stored \<Rightarrow> u32 \<Rightarrow> mem \<Rightarrow> mem" where
  "store_bytes [] p m = m"
| "store_bytes (x # xs) p m = store_bytes xs (p + 1) (case x of None \<Rightarrow> m | Some b \<Rightarrow> m(p := b))"

section \<open>Reading and writing\<close>

text \<open>The loops over the serial port, \<open>nbytes\<close> times; the lists are the values of its register.\<close>

primrec send_loop :: "nat \<Rightarrow> u32 \<Rightarrow> mem \<Rightarrow> u16 list \<Rightarrow> (u16 list \<times> u16 list) option" where
  "send_loop 0 buf m regs = Some ([], regs)"
| "send_loop (Suc n) buf m regs =
     (case putchar (scast (m buf)) regs of
        None \<Rightarrow> None
      | Some (_, x, regs) \<Rightarrow> map_option (\<lambda>(xs, regs). (x # xs, regs)) (send_loop n (buf + 1) m regs))"

primrec receive_loop :: "nat \<Rightarrow> u32 \<Rightarrow> mem \<Rightarrow> u16 list \<Rightarrow> (mem \<times> u16 list) option" where
  "receive_loop 0 buf m regs = Some (m, regs)"
| "receive_loop (Suc n) buf m regs =
     (case getserial regs of
        None \<Rightarrow> None
      | Some (x, regs) \<Rightarrow> receive_loop n (buf + 1) (m(buf := x)) regs)"

text \<open>\<open>write\<close> returns its counter, which the loop leaves at -1, and the values written to the port.\<close>

definition sys_write :: "u32 \<Rightarrow> u32 \<Rightarrow> u32 \<Rightarrow> u16 list \<Rightarrow> 'd sys \<Rightarrow> ('d, u32 \<times> u16 list \<times> u16 list) outcome" where
  "sys_write fd buf nbytes regs s =
     (if fd = 1 \<or> fd = 2 then
        map_option (\<lambda>(xs, regs). Inr ((- 1, xs, regs), s)) (send_loop (unat nbytes) buf (memory s) regs)
      else case File fd s of
        Inl e \<Rightarrow> Some (Inl e)
      | Inr p \<Rightarrow>
          (let s = (if p \<noteq> 0 then s\<lparr>errno := EACCES\<rparr> else s); s = s\<lparr>errno := EBADF\<rparr>
           in Some (Inr ((nbytes, [], regs), s))))"

definition sys_read :: "'d sd_ops \<Rightarrow> u32 \<Rightarrow> u32 \<Rightarrow> u32 \<Rightarrow> u16 list \<Rightarrow> 'd sys \<Rightarrow> ('d, u32 \<times> u16 list) outcome" where
  "sys_read io fd buf nbytes regs s =
     (if fd = 0 then
        map_option (\<lambda>(m, regs). Inr ((- 1, regs), s\<lparr>memory := m\<rparr>)) (receive_loop (unat nbytes) buf (memory s) regs)
      else case File fd s of
        Inl e \<Rightarrow> Some (Inl e)
      | Inr p \<Rightarrow>
          if p \<noteq> 0 then
            (case RARead io (rafiles s p) nbytes (fs s) of (ok, out, r, f) \<Rightarrow>
               let s = s\<lparr>fs := f, rafiles := (rafiles s)(p := r), memory := store_bytes out buf (memory s)\<rparr>
               in if ok then Some (Inr ((nbytes, regs), s)) else Some (Inr ((0, regs), s\<lparr>errno := EIO\<rparr>)))
          else Some (Inr ((0, regs), s\<lparr>errno := EBADF\<rparr>)))"

section \<open>Opening, closing, seeking\<close>

text \<open>The loop of \<open>open\<close> over the descriptors. A free one takes the pointer from \<open>malloc\<close>; when
  that is NULL the loop goes on.\<close>

primrec open_fds :: "'d sd_ops \<Rightarrow> u32 \<Rightarrow> u32 list \<Rightarrow> 'd sys \<Rightarrow> ('d, u32) outcome" where
  "open_fds io name [] s = Some (Inr (- 1, s))"
| "open_fds io name (fd # fds) s =
     (case File fd s of
        Inl e \<Rightarrow> Some (Inl e)
      | Inr p \<Rightarrow>
          if p = 0 then
            (case malloc RAFile_size (heap s) of
               None \<Rightarrow> None
             | Some (p, h) \<Rightarrow>
                 (let s = set_File fd p (s\<lparr>heap := h\<rparr>)
                  in if p \<noteq> 0 then
                       (case RAOpen io (Some (rafiles s p)) (\<lambda>i. memory s (name + of_nat i)) (fs s) of
                          None \<Rightarrow> None
                        | Some (ok, r, f) \<Rightarrow>
                            (let s = s\<lparr>fs := f, rafiles := (rafiles s)(p := the r)\<rparr>
                             in if ok then Some (Inr (fd, s))
                                else Some (Inr (- 1, s\<lparr>heap := free p (heap s), errno := ENOENT\<rparr>))))
                     else open_fds io name fds s))
          else open_fds io name fds s)"

definition sys_open :: "'d sd_ops \<Rightarrow> u32 \<Rightarrow> 'd sys \<Rightarrow> ('d, u32) outcome" where
  "sys_open io name s =
     (if filesystem_present s then open_fds io name (map of_nat [3..<MAX_FILES + 2]) s
      else Some (Inr (- 1, s\<lparr>errno := EIO\<rparr>)))"

definition sys_close :: "u32 \<Rightarrow> 'd sys \<Rightarrow> ('d, u32) outcome" where
  "sys_close fd s =
     (if 2 <s fd then
        (case File fd s of
           Inl e \<Rightarrow> Some (Inl e)
         | Inr p \<Rightarrow> Some (Inr (0, if p \<noteq> 0 then s\<lparr>heap := free p (heap s)\<rparr> else s)))
      else Some (Inr (0, s)))"

text \<open>\<open>lseek\<close> ends without a \<open>return\<close> for a descriptor that is not open and for an unknown
  \<open>whence\<close>: no value.\<close>

definition sys_lseek :: "'d sd_ops \<Rightarrow> u32 \<Rightarrow> u32 \<Rightarrow> u32 \<Rightarrow> 'd sys \<Rightarrow> ('d, u32 option) outcome" where
  "sys_lseek io fd offset whence s =
     (if fd <s 3 then Some (Inr (Some (- 1), s\<lparr>errno := ESPIPE\<rparr>))
      else case File fd s of
        Inl e \<Rightarrow> Some (Inl e)
      | Inr p \<Rightarrow>
          if p \<noteq> 0 then
            (if whence = SEEK_SET \<or> whence = SEEK_CUR then
               (case RASeek io (rafiles s p) offset whence (fs s) of
                  None \<Rightarrow> None
                | Some (_, r, f) \<Rightarrow> Some (Inr (Some (ra_ptr r), s\<lparr>fs := f, rafiles := (rafiles s)(p := r)\<rparr>)))
             else if whence = 2 then Some (Inr (Some (- 1), s\<lparr>errno := EINVAL\<rparr>))
             else Some (Inr (None, s)))
          else Some (Inr (None, s)))"

section \<open>Status\<close>

text \<open>The fields of \<open>struct stat\<close> that \<open>fstat\<close> sets after clearing the whole of it.\<close>

record stat_buf =
  st_mode :: u32
  st_blksize :: u32
  st_size :: u32

abbreviation (input) "S_IFCHR \<equiv> (0x2000 :: u32)"

definition sys_fstat :: "u32 \<Rightarrow> 'd sys \<Rightarrow> ('d, u32 \<times> stat_buf) outcome" where
  "sys_fstat fd s =
     (let buf = \<lparr>st_mode = 0, st_blksize = 0, st_size = 0\<rparr>
      in if fd <s 3 then Some (Inr ((0, buf\<lparr>st_mode := S_IFCHR, st_blksize := 0\<rparr>), s))
         else case File fd s of
           Inl e \<Rightarrow> Some (Inl e)
         | Inr p \<Rightarrow> Some (Inr ((0, if p \<noteq> 0 then buf\<lparr>st_size := ra_size (rafiles s p)\<rparr> else buf), s)))"

definition sys_stat :: "'d sys \<Rightarrow> u32 \<times> 'd sys" where
  "sys_stat s = (- 1, s\<lparr>errno := EIO\<rparr>)"

definition sys_unlink :: "'d sys \<Rightarrow> u32 \<times> 'd sys" where
  "sys_unlink s = (- 1, s\<lparr>errno := EIO\<rparr>)"

section \<open>Start-up\<close>

definition init_sd :: "'c bus \<Rightarrow> u16 \<Rightarrow> 'c spi sys \<Rightarrow> bool \<times> 'c spi sys" where
  "init_sd x spispeed s =
     (case spi_init x spispeed (dev (fs s)) of (ok, d) \<Rightarrow>
        let s = s\<lparr>fs := (fs s)\<lparr>dev := d\<rparr>, sdcard_present := ok, filesystem_present := False\<rparr>;
            s = (if ok then (case FindDrive (spi_ops x) (fs s) of (p, f) \<Rightarrow> s\<lparr>fs := f, filesystem_present := p\<rparr>) else s)
        in (filesystem_present s, s))"

text \<open>The heap of \<open>_premain\<close>: from the end of the program, aligned, to the end of the RAM less
  4 KB for the stack.\<close>

definition heap_low :: "u32 \<Rightarrow> u32" where
  "heap_low romend = (romend + 15) AND 0xFFFFFFF0"

definition heap_size :: "u32 \<Rightarrow> u16 \<Rightarrow> u32" where
  "heap_size romend ramsize = push_bit (unat ramsize) 1 - heap_low romend - 0x1000"

definition premain :: "'c bus \<Rightarrow> u16 \<Rightarrow> u16 \<Rightarrow> u32 \<Rightarrow> 'c spi sys \<Rightarrow> 'c spi sys option" where
  "premain x spispeed ramsize romend s =
     (let s = snd (init_sd x spispeed s);
          s = s\<lparr>Files := foldl (\<lambda>fs t. fs[t := 0]) (Files s) [0..<MAX_FILES]\<rparr>
      in map_option (\<lambda>h. s\<lparr>heap := h\<rparr>) (malloc_add (heap_low romend) (heap_size romend ramsize) (heap s)))"


section \<open>The table of descriptors\<close>

definition sys_ok :: "'d sys \<Rightarrow> bool" where
  "sys_ok s \<longleftrightarrow> length (Files s) = MAX_FILES \<and> (\<forall>p. length (ra_buffer (rafiles s p)) = 512)"

text \<open>The descriptors that \<open>open\<close> hands out, and how many of them are unused.\<close>

definition open_range :: "u32 list" where
  "open_range = map of_nat [3..<MAX_FILES + 2]"

definition free_fds :: "'d sys \<Rightarrow> nat" where
  "free_fds s = length (filter (\<lambda>p. p = 0) (tl (Files s)))"

lemma open_range_eq: "open_range = [3, 4, 5, 6, 7, 8, 9]"
  by (simp add: open_range_def MAX_FILES_def upt_rec)

lemma open_rangeD:
  assumes "fd \<in> set open_range"
  shows "\<exists>i < 7. nat (sint fd - 2) = Suc i" "2 <s fd" "0 <s fd" "fd \<noteq> - 1"
    "File fd s = Inr (Files s ! nat (sint fd - 2))"
  using assms by (auto simp: open_range_eq File_def MAX_FILES_def word_sless_alt)

lemma set_File_simps [simp]:
  "Files (set_File fd p s) = (Files s)[nat (sint fd - 2) := p]" "heap (set_File fd p s) = heap s"
  "fs (set_File fd p s) = fs s" "memory (set_File fd p s) = memory s" "rafiles (set_File fd p s) = rafiles s"
  "filesystem_present (set_File fd p s) = filesystem_present s"
  by (simp_all add: set_File_def)

lemma File_cong: "Files s' = Files s \<Longrightarrow> File fd s' = File fd s"
  by (simp add: File_def Let_def)

lemma count_update:
  "i < length xs \<Longrightarrow> P (xs ! i) \<Longrightarrow> \<not> P y \<Longrightarrow> Suc (length (filter P (xs[i := y]))) = length (filter P xs)"
  by (induction xs arbitrary: i) (auto split: nat.split)

lemma free_fds_set_File:
  assumes "fd \<in> set open_range" "length (Files s) = 8" "File fd s = Inr 0" "p \<noteq> 0"
  shows "Suc (free_fds (set_File fd p s)) = free_fds s"
proof -
  obtain i where i: "i < 7" "nat (sint fd - 2) = Suc i" using open_rangeD(1) [OF assms(1)] by blast
  obtain x xs where f: "Files s = x # xs" using assms(2) by (cases "Files s") auto
  then show ?thesis
    using count_update [of i xs "\<lambda>p. p = 0" p] open_rangeD(5) [OF assms(1), of s] assms(2-4) i
    by (simp add: free_fds_def)
qed

text \<open>What \<open>open\<close> does to the table: nothing, or one unused descriptor gets a block.\<close>

lemma open_fds_cases:
  assumes "open_fds io name fds s = Some (Inr (r, s'))" "set fds \<subseteq> set open_range" "length (Files s) = 8"
  shows "Files s' = Files s \<and> r = - 1 \<or>
    (\<exists>fd p. fd \<in> set fds \<and> File fd s = Inr 0 \<and> p \<noteq> 0 \<and> Files s' = Files (set_File fd p s) \<and> (r = - 1 \<or> r = fd) \<and>
      (\<forall>q h. malloc RAFile_size (heap s) = Some (q, h) \<longrightarrow> q \<noteq> 0 \<longrightarrow> p = q))"
  using assms
proof (induction fds arbitrary: s)
  case (Cons fd fds)
  have fd: "fd \<in> set open_range" and fds: "set fds \<subseteq> set open_range" using Cons.prems(2) by simp_all
  note fd_entry = open_rangeD(5) [OF fd]
  define i where "i = nat (sint fd - 2)"
  show ?case
  proof (cases "File fd s = Inr 0")
    case False
    then have "open_fds io name fds s = Some (Inr (r, s'))"
      using Cons.prems(1) by (simp add: fd_entry)
    from Cons.IH [OF this fds Cons.prems(3)] show ?thesis by auto
  next
    case True
    obtain p h where m: "malloc RAFile_size (heap s) = Some (p, h)"
      using Cons.prems(1) True by (auto split: option.splits)
    show ?thesis
    proof (cases "p = 0")
      case True
      let ?s = "set_File fd 0 (s\<lparr>heap := h\<rparr>)"
      have same: "Files ?s = Files s"
        using \<open>File fd s = Inr 0\<close> by (simp add: fd_entry) (metis list_update_id)
      have "open_fds io name fds ?s = Some (Inr (r, s'))"
        using Cons.prems(1) \<open>File fd s = Inr 0\<close> m True by simp
      from Cons.IH [OF this fds] show ?thesis
        using same m True Cons.prems(3) by (fastforce simp: File_cong [OF same])
    next
      case False
      then have "Files s' = Files (set_File fd p s) \<and> (r = - 1 \<or> r = fd)"
        using Cons.prems(1) \<open>File fd s = Inr 0\<close> m
        by (auto simp: Let_def split: option.splits prod.splits if_splits)
      then show ?thesis using \<open>File fd s = Inr 0\<close> m False by auto
    qed
  qed
qed simp

lemma sys_open_fds: "filesystem_present s \<Longrightarrow> sys_open io name s = open_fds io name open_range s"
  by (simp add: sys_open_def open_range_def)

section \<open>Histories of calls\<close>

datatype syscall = Open u32 | Close u32 | Read u32 u32 u32 "u16 list" | Write u32 u32 u32 "u16 list" | Lseek u32 u32 u32

text \<open>A call, and whether it has opened a file.\<close>

primrec sys_do :: "'d sd_ops \<Rightarrow> syscall \<Rightarrow> 'd sys \<Rightarrow> ('d, bool) outcome" where
  "sys_do io (Open name) s = map_option (map_sum id (map_prod (\<lambda>r. r \<noteq> - 1) id)) (sys_open io name s)"
| "sys_do io (Close fd) s = map_option (map_sum id (map_prod (\<lambda>_. False) id)) (sys_close fd s)"
| "sys_do io (Read fd buf n regs) s = map_option (map_sum id (map_prod (\<lambda>_. False) id)) (sys_read io fd buf n regs s)"
| "sys_do io (Write fd buf n regs) s = map_option (map_sum id (map_prod (\<lambda>_. False) id)) (sys_write fd buf n regs s)"
| "sys_do io (Lseek fd off whence) s = map_option (map_sum id (map_prod (\<lambda>_. False) id)) (sys_lseek io fd off whence s)"

text \<open>The number of files opened in a history.\<close>

primrec sys_run :: "'d sd_ops \<Rightarrow> syscall list \<Rightarrow> 'd sys \<Rightarrow> ('d, nat) outcome" where
  "sys_run io [] s = Some (Inr (0, s))"
| "sys_run io (c # calls) s =
     (case sys_do io c s of
        None \<Rightarrow> None
      | Some (Inl e) \<Rightarrow> Some (Inl e)
      | Some (Inr (b, s)) \<Rightarrow> map_option (map_sum id (map_prod (\<lambda>n. if b then Suc n else n) id)) (sys_run io calls s))"

lemma map_outcome_eq:
  "map_sum id (map_prod f id) z = Inr (b, s) \<longleftrightarrow> (\<exists>a. z = Inr (a, s) \<and> b = f a)"
  by (cases z) (auto simp: prod_eq_iff)

lemma sys_open_free_fds:
  assumes "sys_open io name s = Some (Inr (r, s'))" "length (Files s) = 8"
  shows "length (Files s') = 8 \<and> (if r \<noteq> - 1 then 1 else 0) + free_fds s' \<le> free_fds s"
proof (cases "filesystem_present s")
  case False
  then show ?thesis using assms by (auto simp: sys_open_def free_fds_def)
next
  case True
  have "open_fds io name open_range s = Some (Inr (r, s'))" using assms(1) True by (simp add: sys_open_fds)
  then consider "Files s' = Files s" "r = - 1"
    | fd p where "fd \<in> set open_range" "File fd s = Inr 0" "p \<noteq> 0" "Files s' = Files (set_File fd p s)"
    using open_fds_cases [OF _ order_refl assms(2)] by blast
  then show ?thesis
  proof cases
    case 1
    then show ?thesis using assms(2) by (simp add: free_fds_def)
  next
    case 2
    have "free_fds s' = free_fds (set_File fd p s)" "length (Files s') = 8"
      using 2(4) assms(2) by (simp_all add: free_fds_def)
    then show ?thesis using free_fds_set_File [OF 2(1) assms(2) 2(2,3)] by simp
  qed
qed

lemma sys_do_free_fds:
  assumes "sys_do io c s = Some (Inr (b, s'))" "length (Files s) = 8"
  shows "length (Files s') = 8 \<and> (if b then 1 else 0) + free_fds s' \<le> free_fds s"
proof (cases c)
  case (Open name)
  then obtain r where "sys_open io name s = Some (Inr (r, s'))" "b \<longleftrightarrow> r \<noteq> - 1"
    using assms(1) by (auto simp: map_outcome_eq)
  then show ?thesis using sys_open_free_fds assms(2) by fastforce
next
  case (Close fd)
  then have "Files s' = Files s \<and> \<not> b"
    using assms(1) by (auto simp: map_outcome_eq sys_close_def split: if_splits sum.splits)
  then show ?thesis using assms(2) by (simp add: free_fds_def)
next
  case (Read fd buf n regs)
  then have "Files s' = Files s \<and> \<not> b"
    using assms(1) by (auto simp: map_outcome_eq sys_read_def Let_def split: if_splits sum.splits option.splits prod.splits)
  then show ?thesis using assms(2) by (simp add: free_fds_def)
next
  case (Write fd buf n regs)
  then have "Files s' = Files s \<and> \<not> b"
    using assms(1) by (auto simp: map_outcome_eq sys_write_def Let_def split: if_splits sum.splits option.splits prod.splits)
  then show ?thesis using assms(2) by (simp add: free_fds_def)
next
  case (Lseek fd off whence)
  then have "Files s' = Files s \<and> \<not> b"
    using assms(1) by (auto simp: map_outcome_eq sys_lseek_def Let_def split: if_splits sum.splits option.splits prod.splits)
  then show ?thesis using assms(2) by (simp add: free_fds_def)
qed

lemma sys_run_free_fds:
  "sys_run io calls s = Some (Inr (n, s')) \<Longrightarrow> length (Files s) = 8 \<Longrightarrow> n + free_fds s' \<le> free_fds s"
proof (induction calls arbitrary: s n)
  case (Cons c calls)
  obtain b s1 m where 1: "sys_do io c s = Some (Inr (b, s1))" "sys_run io calls s1 = Some (Inr (m, s'))"
    "n = (if b then Suc m else m)"
    using Cons.prems(1) by (auto simp: map_outcome_eq split: option.splits sum.splits)
  show ?case
    using Cons.IH [OF 1(2)] sys_do_free_fds [OF 1(1) Cons.prems(2)] 1(3) by (auto split: if_splits)
qed simp


section \<open>Properties\<close>

text \<open>A sample: the volume of the witnesses, nothing open, 64 KB of heap.\<close>

definition sample_sys :: "(bytes \<times> bytes) spi sys" where
  "sample_sys = \<lparr>fs = sample_volume, Files = replicate 8 0, rafiles = (\<lambda>_. sample_ra), heap = sample_arena,
     memory = (\<lambda>_. 2), errno = No_error, sdcard_present = True, filesystem_present = True\<rparr>"

abbreviation (input) "sample_io \<equiv> spi_ops (sample_bus sample_image)"

definition sample_opened :: arena where
  "sample_opened = snd (the (malloc RAFile_size sample_arena))"

lemma sample_opened: "malloc RAFile_size sample_arena = Some (0x10010, sample_opened)"
  "sample_opened = snd (malloc_from_block 0x10000 848 sample_arena)"
proof -
  have "malloc 818 sample_arena = Some (malloc_from_block 0x10000 848 sample_arena)"
    using malloc_first_fit [of sample_arena "[0x10000]" "[0x10000]" 818] sample_arena_ok sample_arena
    by (simp add: arena_ok_def arena_round_def)
  then show "malloc RAFile_size sample_arena = Some (0x10010, sample_opened)"
    "sample_opened = snd (malloc_from_block 0x10000 848 sample_arena)"
    by (simp_all add: sample_opened_def malloc_from_block_def Let_def sample_arena RAFile_size_def)
qed

lemma find_first: "xs = y # ys \<Longrightarrow> P y \<Longrightarrow> find P xs = Some y"
  by simp

lemma sample_open:
  assumes "File 3 s = Inr 0" "malloc RAFile_size (heap s) = Some (p, h)" "p \<noteq> 0" "filesystem_present s"
    "fs s = sample_volume" "memory s = (\<lambda>_. 2)"
  shows "\<exists>s'. sys_open sample_io name s = Some (Inr (3, s')) \<and> heap s' = h \<and> Files s' = Files (set_File 3 p s) \<and>
    filesystem_present s'"
proof -
  have slots: "root_slots sample_image sample_volume (run_slots 2 2)" "\<forall>e \<in> set (run_slots 2 2). sample_image (fst e) \<noteq> None"
    by (simp_all add: root_slots_def sample_volume_def sample_image_def)
  have run: "run_slots 2 2 = (2, 0) # tl (run_slots 2 2)" by (simp add: run_slots_def upt_conv_Cons)
  have "find (slot_matches sample_image sample_volume (\<lambda>i. 2)) (run_slots 2 2) = Some (2, 0)"
    by (rule find_first [OF run]) (use sample_slot in \<open>simp add: sample_name_def\<close>)
  then obtain f v where "FileOpen sample_io (ra_file (rafiles s p)) (\<lambda>i. 2) sample_volume = Some (True, f, v)"
    using spi.FileOpen_correct [OF sample_volume_serves sample_volume_cache slots, of "ra_file (rafiles s p)" "\<lambda>i. 2"]
    by auto
  then show ?thesis
    using assms by (simp add: sys_open_fds open_range_eq RAOpen_def Let_def)
qed

text \<open>
  C12. A closed descriptor is never used again: \<open>close\<close> leaves the pointer in the table, and \<open>open\<close>
  takes empty entries only. Whatever calls are made, at most seven files are ever opened, and each
  one leaves one entry less.
\<close>
theorem descriptors_are_used_once:
  assumes "sys_run io calls s = Some (Inr (n, s'))" "length (Files s) = MAX_FILES"
  shows "n + free_fds s' \<le> free_fds s \<and> n \<le> 7"
proof -
  have "free_fds s \<le> length (tl (Files s))" unfolding free_fds_def by (rule length_filter_le)
  then show ?thesis using sys_run_free_fds [OF assms(1)] assms(2) by (simp add: MAX_FILES_def)
qed

lemma descriptors_are_used_once_witness:
  "\<exists>s'. sys_run sample_io [Open 0, Close 3] sample_sys = Some (Inr (1, s')) \<and> 1 + free_fds s' \<le> 7"
proof -
  have s: "File 3 sample_sys = Inr 0" "length (Files sample_sys) = MAX_FILES" "free_fds sample_sys = 7"
    by (simp_all add: sample_sys_def File_def MAX_FILES_def free_fds_def)
  obtain s1 where s1: "sys_open sample_io 0 sample_sys = Some (Inr (3, s1))"
    using sample_open [OF s(1)] sample_opened(1) by (auto simp: sample_sys_def)
  obtain s2 where "sys_close 3 s1 = Some (Inr (0, s2))"
    by (simp add: sys_close_def File_def MAX_FILES_def word_sless_alt)
  then have r: "sys_run sample_io [Open 0, Close 3] sample_sys = Some (Inr (1, s2))"
    using s1 by simp
  then show ?thesis using descriptors_are_used_once [OF r s(2)] s(3) by auto
qed

text \<open>
  C13. After \<open>close\<close> the next file opened gets the same block of the heap, unless the release merged
  that block into a free one before it. The closed descriptor still points to it, so it now reads
  the new file, and both descriptors move the same position.
\<close>
theorem closed_descriptor_reads_next_file:
  assumes "arena_ok (heap s) as fl" "fd \<in> set open_range" "File fd s = Inr p"
    and "used_blocks (heap s) as (p - 16) = Some k" "848 \<le> k"
    and "\<not> (atype (heap s) (aprev (heap s) (p - 16)) = ARENA_TYPE_FREE \<and>
      aprev (heap s) (p - 16) + asize (heap s) (aprev (heap s) (p - 16)) = p - 16)"
    and "length (Files s) = MAX_FILES" "filesystem_present s"
  shows "\<exists>s1. sys_close fd s = Some (Inr (0, s1)) \<and>
    (\<forall>name fd' s2. sys_open io name s1 = Some (Inr (fd', s2)) \<and> fd' \<noteq> - 1 \<longrightarrow>
      fd' \<noteq> fd \<and> File fd' s2 = Inr p \<and> File fd s2 = Inr p)"
proof -
  have inv: "arena_inv (heap s) as fl" using assms(1) by (simp add: arena_ok_def)
  have "unat (arena_round RAFile_size) \<le> unat (asize (heap s) (p - 16))"
    using used_blockD(3) [OF inv assms(4)] assms(5) by (simp add: RAFile_size_def arena_round_def)
  then have fits: "RAFile_size \<noteq> 0" "arena_round RAFile_size \<le> asize (heap s) (p - 16)"
    by (simp_all only: word_le_nat_alt) (simp add: RAFile_size_def)
  obtain h where p: "p \<noteq> 0" and h: "malloc RAFile_size (free p (heap s)) = Some (p, h)"
    using malloc_reuses_block [OF assms(1,4) fits assms(6)] by blast
  let ?s = "s\<lparr>heap := free p (heap s)\<rparr>"
  have F: "File i ?s = File i s" for i by (rule File_cong) simp
  have close: "sys_close fd s = Some (Inr (0, ?s))"
    using open_rangeD(2) [OF assms(2)] assms(3) p by (simp add: sys_close_def)
  have "fd' \<noteq> fd \<and> File fd' s2 = Inr p \<and> File fd s2 = Inr p"
    if o: "sys_open io name ?s = Some (Inr (fd', s2))" and ne: "fd' \<noteq> - 1" for name fd' s2
  proof -
    have "open_fds io name open_range ?s = Some (Inr (fd', s2))"
      using o assms(8) by (simp add: sys_open_fds)
    then have n: "fd' \<in> set open_range" "File fd' s = Inr 0" "Files s2 = Files (set_File fd' p s)"
      using open_fds_cases [OF _ order_refl, of io name ?s fd' s2] assms(7) ne h p by (auto simp: F MAX_FILES_def)
    have "fd' \<noteq> fd" using n(2) assms(3) p by auto
    moreover have "nat (sint fd' - 2) \<noteq> nat (sint fd - 2)"
      using \<open>fd' \<noteq> fd\<close> n(1) assms(2) by (auto simp: open_range_eq)
    ultimately show ?thesis
      using n(3) assms(3,7) open_rangeD(1) [OF n(1)] open_rangeD(5) [OF n(1), of s2]
        open_rangeD(5) [OF assms(2), of s2] open_rangeD(5) [OF assms(2), of s]
      by (auto simp: MAX_FILES_def)
  qed
  then show ?thesis using close by blast
qed

lemma closed_descriptor_reads_next_file_witness:
  "\<exists>s0 s1 s2. sys_open sample_io 0 sample_sys = Some (Inr (3, s0)) \<and> sys_close 3 s0 = Some (Inr (0, s1)) \<and>
    (\<forall>name fd'. sys_open sample_io name s1 = Some (Inr (fd', s2)) \<and> fd' \<noteq> - 1 \<longrightarrow> File fd' s2 = File 3 s2)"
proof -
  have "File 3 sample_sys = Inr 0" by (simp add: sample_sys_def File_def MAX_FILES_def)
  then obtain s0 where s0: "sys_open sample_io 0 sample_sys = Some (Inr (3, s0))" "heap s0 = sample_opened"
    "Files s0 = Files (set_File 3 0x10010 sample_sys)" "filesystem_present s0"
    using sample_open [of sample_sys "0x10010" sample_opened 0] sample_opened(1) by (auto simp: sample_sys_def)
  have "session sample_opened [0x10000 \<mapsto> 848] {0x10000..<0x20000}"
    using session.alloc [OF sample_session _ sample_opened(1)]
    by (simp add: RAFile_size_def sample_opened(2) malloc_from_block_def Let_def sample_arena)
  then obtain as fl where ok: "arena_ok (heap s0) as fl" "used_blocks (heap s0) as = [0x10000 \<mapsto> 848]"
    using session_arena_ok s0(2) by metis
  have prev: "atype (heap s0) (aprev (heap s0) 0x10000) \<noteq> ARENA_TYPE_FREE"
    unfolding s0(2) sample_opened(2)
    by (simp add: malloc_from_block_def Let_def sample_arena_def malloc_add_def empty_arena_def
        malloc_add_pred_head free_block_def free_into_prev_def)
  have "File 3 s0 = Inr 0x10010" "length (Files s0) = MAX_FILES" "3 \<in> set open_range"
    using s0(3) by (simp_all add: sample_sys_def File_def MAX_FILES_def open_range_eq)
  from closed_descriptor_reads_next_file [OF ok(1) this(3,1), of 848 sample_io] ok(2) prev this(2) s0(1,4)
  show ?thesis by (simp; metis)
qed

text \<open>
  \<open>write\<close> to the standard output sends exactly the bytes of the buffer when the port becomes
  ready often enough, and then returns -1, which for the caller is an error; \<open>write\<close> to an open
  file stores nothing and returns the number of bytes, which for the caller is success.
\<close>
theorem write_reports_the_opposite:
  assumes "fd = 1 \<or> fd = 2" "unat n \<le> ready_count regs" "\<forall>i < unat n. xs ! i = memory s (buf + of_nat i)"
    "length xs = unat n" and "fd' \<in> set open_range"
  shows "(\<exists>sent regs'. sys_write fd buf n regs s = Some (Inr ((- 1, sent, regs'), s)) \<and> map ucast sent = xs) \<and>
    sys_write fd' buf n regs s = Some (Inr ((n, [], regs), s\<lparr>errno := EBADF\<rparr>))"
proof -
  have "\<exists>sent regs'. send_loop k b m regs = Some (sent, regs') \<and> map ucast sent = xs"
    if "k \<le> ready_count regs" "length xs = k" "\<forall>i < k. xs ! i = m (b + of_nat i)" for k b m regs xs
    using that
  proof (induction k arbitrary: b regs xs)
    case (Suc k)
    obtain y ys where xs: "xs = y # ys" "length ys = k" using Suc.prems(2) by (cases xs) auto
    have y: "m b = y" using Suc.prems(3) xs(1) by (auto dest: spec [of _ 0])
    obtain regs1 where r: "putchar (scast y) regs = Some (scast y, ucast (scast y :: u32), regs1)"
      "Suc (ready_count regs1) = ready_count regs"
      using putchar_ready [of regs "scast y"] Suc.prems(1) by auto
    have "\<forall>i < k. ys ! i = m (b + 1 + of_nat i)"
    proof (intro allI impI)
      fix i assume "i < k"
      then show "ys ! i = m (b + 1 + of_nat i)"
        using Suc.prems(3) [rule_format, of "Suc i"] xs(1) by (simp add: add.assoc)
    qed
    then show ?case
      using Suc.IH [of regs1 ys "b + 1"] r y xs Suc.prems(1) by (auto simp: scast_byte)
  qed simp
  from this [OF assms(2,4,3)] have "\<exists>sent regs'. sys_write fd buf n regs s = Some (Inr ((- 1, sent, regs'), s)) \<and> map ucast sent = xs"
    using assms(1) by (auto simp: sys_write_def)
  moreover have "sys_write fd' buf n regs s = Some (Inr ((n, [], regs), s\<lparr>errno := EBADF\<rparr>))"
    using open_rangeD(5) [OF assms(5), of s] assms(5) by (auto simp: sys_write_def open_range_eq Let_def)
  ultimately show ?thesis ..
qed

lemma write_reports_the_opposite_witness:
  "\<exists>sent regs'. sys_write 1 0x100 2 [0, 0x100, 0x300] sample_sys = Some (Inr ((- 1, sent, regs'), sample_sys)) \<and>
    map ucast sent = [2, 2 :: u8]"
  using write_reports_the_opposite [of 1 2 "[0, 0x100, 0x300]" "[2, 2]" sample_sys "0x100" 3]
  by (simp add: ready_count_def sample_sys_def nth_Cons' open_range_eq)

end
