(* ===== verification/Replay.thy ===== *)
theory Replay
  imports Cmem "HOL-Library.Signed_Division"
begin

text \<open>
  The ProTracker player, \<^verbatim>\<open>Apps/Modplayer/replay.c\<close>. A step works on a channel and on the globals;
  the writes to the sound channels and to the timer are a list, in their order. The module and its
  samples are in the memory, which an effect may change. Reads outside of a table and divisions by
  zero are errors. All integers have the 32 bits of the target, and \<open>\<le>s\<close> compares the signed ones.
\<close>

unbundle bit_operations_syntax

section \<open>Tables and state\<close>

definition mt_FunkTable :: bytes where
  "mt_FunkTable =
    [0, 5, 6, 7, 8, 10, 11, 13, 16, 19, 22, 26, 32, 43, 64, 128]"

definition mt_VibratoTable :: bytes where
  "mt_VibratoTable =
    [0, 24, 49, 74, 97, 120, 141, 161, 180, 197, 212, 224, 235, 244, 250, 253,
     255, 253, 250, 244, 235, 224, 212, 197, 180, 161, 141, 120, 97, 74, 49, 24]"

definition mt_PeriodTable :: "u32 list" where
  "mt_PeriodTable =
    [856, 808, 762, 720, 678, 640, 604, 570, 538, 508, 480, 453, 428, 404, 381, 360, 339, 320, 302,
     285, 269, 254, 240, 226, 214, 202, 190, 180, 170, 160, 151, 143, 135, 127, 120, 113, 0,
     850, 802, 757, 715, 674, 637, 601, 567, 535, 505, 477, 450, 425, 401, 379, 357, 337, 318, 300,
     284, 268, 253, 239, 225, 213, 201, 189, 179, 169, 159, 150, 142, 134, 126, 119, 113, 0,
     844, 796, 752, 709, 670, 632, 597, 563, 532, 502, 474, 447, 422, 398, 376, 355, 335, 316, 298,
     282, 266, 251, 237, 224, 211, 199, 188, 177, 167, 158, 149, 141, 133, 125, 118, 112, 0,
     838, 791, 746, 704, 665, 628, 592, 559, 528, 498, 470, 444, 419, 395, 373, 352, 332, 314, 296,
     280, 264, 249, 235, 222, 209, 198, 187, 176, 166, 157, 148, 140, 132, 125, 118, 111, 0,
     832, 785, 741, 699, 660, 623, 588, 555, 524, 495, 467, 441, 416, 392, 370, 350, 330, 312, 294,
     278, 262, 247, 233, 220, 208, 196, 185, 175, 165, 156, 147, 139, 131, 124, 117, 110, 0,
     826, 779, 736, 694, 655, 619, 584, 551, 520, 491, 463, 437, 413, 390, 368, 347, 328, 309, 292,
     276, 260, 245, 232, 219, 206, 195, 184, 174, 164, 155, 146, 138, 130, 123, 116, 109, 0,
     820, 774, 730, 689, 651, 614, 580, 547, 516, 487, 460, 434, 410, 387, 365, 345, 325, 307, 290,
     274, 258, 244, 230, 217, 205, 193, 183, 172, 163, 154, 145, 137, 129, 122, 115, 109, 0,
     814, 768, 725, 684, 646, 610, 575, 543, 513, 484, 457, 431, 407, 384, 363, 342, 323, 305, 288,
     272, 256, 242, 228, 216, 204, 192, 181, 171, 161, 152, 144, 136, 128, 121, 114, 108, 0,
     907, 856, 808, 762, 720, 678, 640, 604, 570, 538, 508, 480, 453, 428, 404, 381, 360, 339, 320,
     302, 285, 269, 254, 240, 226, 214, 202, 190, 180, 170, 160, 151, 143, 135, 127, 120, 0,
     900, 850, 802, 757, 715, 675, 636, 601, 567, 535, 505, 477, 450, 425, 401, 379, 357, 337, 318,
     300, 284, 268, 253, 238, 225, 212, 200, 189, 179, 169, 159, 150, 142, 134, 126, 119, 0,
     894, 844, 796, 752, 709, 670, 632, 597, 563, 532, 502, 474, 447, 422, 398, 376, 355, 335, 316,
     298, 282, 266, 251, 237, 223, 211, 199, 188, 177, 167, 158, 149, 141, 133, 125, 118, 0,
     887, 838, 791, 746, 704, 665, 628, 592, 559, 528, 498, 470, 444, 419, 395, 373, 352, 332, 314,
     296, 280, 264, 249, 235, 222, 209, 198, 187, 176, 166, 157, 148, 140, 132, 125, 118, 0,
     881, 832, 785, 741, 699, 660, 623, 588, 555, 524, 494, 467, 441, 416, 392, 370, 350, 330, 312,
     294, 278, 262, 247, 233, 220, 208, 196, 185, 175, 165, 156, 147, 139, 131, 123, 117, 0,
     875, 826, 779, 736, 694, 655, 619, 584, 551, 520, 491, 463, 437, 413, 390, 368, 347, 328, 309,
     292, 276, 260, 245, 232, 219, 206, 195, 184, 174, 164, 155, 146, 138, 130, 123, 116, 0,
     868, 820, 774, 730, 689, 651, 614, 580, 547, 516, 487, 460, 434, 410, 387, 365, 345, 325, 307,
     290, 274, 258, 244, 230, 217, 205, 193, 183, 172, 163, 154, 145, 137, 129, 122, 115, 0,
     862, 814, 768, 725, 684, 646, 610, 575, 543, 513, 484, 457, 431, 407, 384, 363, 342, 323, 305,
     288, 272, 256, 242, 228, 216, 203, 192, 181, 171, 161, 152, 144, 136, 128, 121, 114, 0,
     0, 0, 0, 0, 0, 0, 0, 0, 0, 0, 0, 0, 0, 0]"

record pt_chn =
  n_note :: u32
  n_cmd :: u32
  n_index :: u32
  n_start :: u32
  n_wavestart :: u32
  n_loopstart :: u32
  n_volume :: u32
  n_toneportdirec :: u32
  n_vibratopos :: u32
  n_tremolopos :: u32
  n_pattpos :: u32
  n_loopcount :: u32
  n_cmdlo :: u32
  n_finetune :: u32
  n_wavecontrol :: u32
  n_glissfunk :: u32
  n_sampleoffset :: u32
  n_toneportspeed :: u32
  n_vibratocmd :: u32
  n_tremolocmd :: u32
  n_funkoffset :: u32
  n_period :: u32
  n_wantedperiod :: u32
  n_length :: u32
  n_replen :: u32
  n_repend :: u32

datatype hw_write = DAT u32 u32 | LEN u32 u16 | TRIGGER u32 | PERIOD u32 u16 | VOL u32 u16
  | TIMER_DIV1 u16 | TIMER_CONTROL u16

record player =
  mt_SampleStarts :: "u32 list"
  tempoMode :: u32
  mt_SongPos :: u32
  mt_PosJumpFlag :: u32
  mt_PBreakFlag :: u32
  mt_Enable :: u32
  mt_PBreakPos :: u32
  mt_PattDelTime :: u32
  mt_PattDelTime2 :: u32
  mt_SongDataPtr :: u32
  mt_LowMask :: u32
  mt_counter :: u32
  mt_speed :: u32
  mt_PatternPos :: u32
  ram :: mem
  sound :: "hw_write list"

datatype replay_error = OutsidePeriodTable nat | OutsideFunkTable nat | OutsideSampleStarts nat | DivisionByZero

type_synonym 'a result = "replay_error + 'a"

definition and_then :: "'a result \<Rightarrow> ('a \<Rightarrow> 'b result) \<Rightarrow> 'b result" where
  "and_then r f = (case r of Inl e \<Rightarrow> Inl e | Inr x \<Rightarrow> f x)"

lemma and_then_simps [simp]: "and_then (Inl e) f = Inl e" "and_then (Inr x) f = f x"
  by (simp_all add: and_then_def)

definition period_at :: "u32 \<Rightarrow> u32 result" where
  "period_at i = (if unat i < 606 then Inr (mt_PeriodTable ! unat i) else Inl (OutsidePeriodTable (unat i)))"

text \<open>The first of the 37 entries from an index that satisfies a condition.\<close>

fun find_period :: "(u32 \<Rightarrow> bool) \<Rightarrow> u32 \<Rightarrow> nat list \<Rightarrow> nat option result" where
  "find_period P base [] = Inr None"
| "find_period P base (i # is) =
     and_then (period_at (base + of_nat i)) (\<lambda>x. if P x then Inr (Some i) else find_period P base is)"

definition paula :: "hw_write list \<Rightarrow> player \<Rightarrow> player" where
  "paula ws p = p\<lparr>sound := sound p @ ws\<rparr>"

text \<open>The macro \<open>mt_paulaSetLoop\<close>: the test covers the first of its two statements only.\<close>

definition set_loop :: "u32 \<Rightarrow> u32 \<Rightarrow> u32 \<Rightarrow> hw_write list" where
  "set_loop i x y = (if x \<noteq> 0 then [DAT i x] else []) @ [LEN i (ucast y)]"

definition SetTempo :: "u32 \<Rightarrow> player \<Rightarrow> player result" where
  "SetTempo tempo p =
     (let d = sint (tempo * 5)
      in if d = 0 then Inl DivisionByZero
         else Inr (paula [TIMER_DIV1 (word_of_int (10000 * 125 sdiv d))] p))"

section \<open>Effects\<close>

type_synonym voice = "pt_chn \<times> player"

definition mt_UpdateFunk :: "pt_chn \<Rightarrow> player \<Rightarrow> voice result" where
  "mt_UpdateFunk ch p =
     (let invertLoopSpeed = ucast (drop_bit 4 (n_glissfunk ch)) :: u8
      in if invertLoopSpeed > 0 then
           (if unat invertLoopSpeed \<ge> 16 then Inl (OutsideFunkTable (unat invertLoopSpeed))
            else
              (let ch = ch\<lparr>n_funkoffset := n_funkoffset ch + ucast (mt_FunkTable ! unat invertLoopSpeed)\<rparr>
               in if n_funkoffset ch AND 0x80 \<noteq> 0 then
                    (let ch = ch\<lparr>n_funkoffset := 0\<rparr>
                     in if n_wavestart ch \<noteq> 0 then
                          (let ch = ch\<lparr>n_wavestart := n_wavestart ch + 1\<rparr>;
                               ch = (if n_wavestart ch \<ge> n_loopstart ch + n_replen ch
                                     then ch\<lparr>n_wavestart := n_loopstart ch\<rparr> else ch);
                               w = n_wavestart ch
                           in Inr (ch, p\<lparr>ram := (ram p)(w := - 1 - ram p w)\<rparr>))
                        else Inr (ch, p))
                  else Inr (ch, p)))
         else Inr (ch, p))"

definition mt_SetGlissControl :: "pt_chn \<Rightarrow> pt_chn" where
  "mt_SetGlissControl ch = ch\<lparr>n_glissfunk := (n_glissfunk ch AND 0xF0) OR (n_cmdlo ch AND 0x0F)\<rparr>"

definition mt_SetVibratoControl :: "pt_chn \<Rightarrow> pt_chn" where
  "mt_SetVibratoControl ch = ch\<lparr>n_wavecontrol := (n_wavecontrol ch AND 0xF0) OR (n_cmdlo ch AND 0x0F)\<rparr>"

definition mt_SetFineTune :: "pt_chn \<Rightarrow> pt_chn" where
  "mt_SetFineTune ch = ch\<lparr>n_finetune := n_cmdlo ch AND 0x0F\<rparr>"

definition mt_JumpLoop :: "pt_chn \<Rightarrow> player \<Rightarrow> voice" where
  "mt_JumpLoop ch p =
     (if mt_counter p = 0 then
        (let dat = n_cmdlo ch AND 0x0F;
             jump = (\<lambda>ch. (ch, p\<lparr>mt_PBreakPos := n_pattpos ch, mt_PBreakFlag := 1\<rparr>))
         in if dat = 0 then (ch\<lparr>n_pattpos := drop_bit 4 (mt_PatternPos p)\<rparr>, p)
            else if n_loopcount ch \<le>s 0 then jump (ch\<lparr>n_loopcount := dat\<rparr>)
            else (let ch = ch\<lparr>n_loopcount := n_loopcount ch - 1\<rparr>
                  in if n_loopcount ch = 0 then (ch, p) else jump ch))
      else (ch, p))"

definition mt_SetTremoloControl :: "pt_chn \<Rightarrow> pt_chn" where
  "mt_SetTremoloControl ch = ch\<lparr>n_wavecontrol := push_bit 4 (n_cmdlo ch) OR (n_wavecontrol ch AND 0x0F)\<rparr>"

text \<open>Starting the sample of a channel, as \<open>mt_RetrigNote\<close> and \<open>mt_NoteDelay\<close> do.\<close>

definition restart :: "pt_chn \<Rightarrow> hw_write list" where
  "restart ch =
     [DAT (n_index ch) (n_start ch), LEN (n_index ch) (ucast (n_length ch)), TRIGGER (n_index ch)] @
     set_loop (n_index ch) (n_loopstart ch) (n_replen ch)"

definition mt_RetrigNote :: "pt_chn \<Rightarrow> player \<Rightarrow> player result" where
  "mt_RetrigNote ch p =
     (if n_cmdlo ch \<noteq> 0x90 then
        (if mt_counter p = 0 \<and> n_note ch \<noteq> 0 then Inr p
         else if n_cmdlo ch AND 0x0F = 0 then Inl DivisionByZero
         else if mt_counter p mod (n_cmdlo ch AND 0x0F) = 0 then Inr (paula (restart ch) p)
         else Inr p)
      else Inr p)"

text \<open>A new volume, limited to 64 or to 0 as the effects do; both are signed comparisons.\<close>

definition limit_up :: "u32 \<Rightarrow> u32" where
  "limit_up v = (if 64 <s v then 64 else v)"

definition limit_down :: "u32 \<Rightarrow> u32" where
  "limit_down v = (if v <s 0 then 0 else v)"

definition set_volume :: "u32 \<Rightarrow> pt_chn \<Rightarrow> player \<Rightarrow> voice" where
  "set_volume v ch p = (ch\<lparr>n_volume := v\<rparr>, paula [VOL (n_index ch) (ucast v)] p)"

definition mt_VolumeSlide :: "pt_chn \<Rightarrow> player \<Rightarrow> voice" where
  "mt_VolumeSlide ch p =
     (if n_cmdlo ch AND 0xF0 \<noteq> 0
      then set_volume (limit_up (n_volume ch + drop_bit 4 (n_cmdlo ch))) ch p
      else set_volume (limit_down (n_volume ch - (n_cmdlo ch AND 0x0F))) ch p)"

definition mt_VolumeFineUp :: "pt_chn \<Rightarrow> player \<Rightarrow> voice" where
  "mt_VolumeFineUp ch p =
     (if mt_counter p = 0 then set_volume (limit_up (n_volume ch + (n_cmdlo ch AND 0x0F))) ch p else (ch, p))"

definition mt_VolumeFineDown :: "pt_chn \<Rightarrow> player \<Rightarrow> voice" where
  "mt_VolumeFineDown ch p =
     (if mt_counter p = 0 then set_volume (limit_down (n_volume ch - (n_cmdlo ch AND 0x0F))) ch p else (ch, p))"

definition mt_NoteCut :: "pt_chn \<Rightarrow> player \<Rightarrow> voice" where
  "mt_NoteCut ch p = (if mt_counter p = n_cmdlo ch AND 0x0F then set_volume 0 ch p else (ch, p))"

definition mt_NoteDelay :: "pt_chn \<Rightarrow> player \<Rightarrow> player" where
  "mt_NoteDelay ch p =
     (if mt_counter p = n_cmdlo ch AND 0x0F \<and> n_note ch \<noteq> 0 then paula (restart ch) p else p)"

definition mt_PatternDelay :: "pt_chn \<Rightarrow> player \<Rightarrow> player" where
  "mt_PatternDelay ch p =
     (if mt_counter p = 0 \<and> mt_PattDelTime2 p = 0 then p\<lparr>mt_PattDelTime := (n_cmdlo ch AND 0x0F) + 1\<rparr> else p)"

definition mt_FunkIt :: "pt_chn \<Rightarrow> player \<Rightarrow> voice result" where
  "mt_FunkIt ch p =
     (if mt_counter p = 0
      then mt_UpdateFunk (ch\<lparr>n_glissfunk := push_bit 4 (n_cmdlo ch) OR (n_glissfunk ch AND 0x0F)\<rparr>) p
      else Inr (ch, p))"

definition mt_PositionJump :: "pt_chn \<Rightarrow> player \<Rightarrow> player" where
  "mt_PositionJump ch p = p\<lparr>mt_SongPos := n_cmdlo ch - 1, mt_PBreakPos := 0, mt_PosJumpFlag := 1\<rparr>"

definition mt_VolumeChange :: "pt_chn \<Rightarrow> player \<Rightarrow> voice" where
  "mt_VolumeChange ch p = set_volume (limit_up (n_cmdlo ch)) ch p"

definition mt_PatternBreak :: "pt_chn \<Rightarrow> player \<Rightarrow> player" where
  "mt_PatternBreak ch p =
     (let pos = drop_bit 4 (n_cmdlo ch) * 10 + (n_cmdlo ch AND 0x0F)
      in p\<lparr>mt_PBreakPos := (if 63 <s pos then 0 else pos), mt_PosJumpFlag := 1\<rparr>)"

definition mt_SetSpeed :: "pt_chn \<Rightarrow> player \<Rightarrow> player result" where
  "mt_SetSpeed ch p =
     (if n_cmdlo ch > 0 then
        (let p = p\<lparr>mt_counter := 0\<rparr>
         in if tempoMode p \<noteq> 0 then Inr (p\<lparr>mt_speed := n_cmdlo ch\<rparr>)
            else if n_cmdlo ch \<ge> 32 then SetTempo (n_cmdlo ch) p
            else Inr (p\<lparr>mt_speed := n_cmdlo ch\<rparr>))
      else Inr p)"

definition set_period :: "u32 \<Rightarrow> pt_chn \<Rightarrow> player \<Rightarrow> player" where
  "set_period x ch p = paula [PERIOD (n_index ch) (ucast x)] p"

definition mt_Arpeggio :: "pt_chn \<Rightarrow> player \<Rightarrow> player result" where
  "mt_Arpeggio ch p =
     (let dat = mt_counter p mod 3
      in if dat = 0 then Inr (set_period (n_period ch) ch p)
         else
           (let dat = (if dat = 1 then drop_bit 4 (n_cmdlo ch) else n_cmdlo ch AND 0x0F);
                arp = n_finetune ch * 37
            in and_then (find_period (\<lambda>x. x \<le>s n_period ch) arp [0..<37]) (\<lambda>r. case r of
                 None \<Rightarrow> Inr p
               | Some i \<Rightarrow> and_then (period_at (arp + (of_nat i + dat))) (\<lambda>x. Inr (set_period x ch p)))))"

definition mt_PortaUp :: "pt_chn \<Rightarrow> player \<Rightarrow> voice" where
  "mt_PortaUp ch p =
     (let v = n_period ch - (n_cmdlo ch AND mt_LowMask p); ch = ch\<lparr>n_period := (if v <s 113 then 113 else v)\<rparr>
      in (ch, (set_period (n_period ch) ch p)\<lparr>mt_LowMask := 0xFF\<rparr>))"

definition mt_PortaDown :: "pt_chn \<Rightarrow> player \<Rightarrow> voice" where
  "mt_PortaDown ch p =
     (let v = n_period ch + (n_cmdlo ch AND mt_LowMask p); ch = ch\<lparr>n_period := (if 856 <s v then 856 else v)\<rparr>
      in (ch, (set_period (n_period ch) ch p)\<lparr>mt_LowMask := 0xFF\<rparr>))"

definition mt_FinePortaUp :: "pt_chn \<Rightarrow> player \<Rightarrow> voice" where
  "mt_FinePortaUp ch p = (if mt_counter p = 0 then mt_PortaUp ch (p\<lparr>mt_LowMask := 0x0F\<rparr>) else (ch, p))"

definition mt_FinePortaDown :: "pt_chn \<Rightarrow> player \<Rightarrow> voice" where
  "mt_FinePortaDown ch p = (if mt_counter p = 0 then mt_PortaDown ch (p\<lparr>mt_LowMask := 0x0F\<rparr>) else (ch, p))"

text \<open>Without an entry that is low enough the loop ends with \<open>i = 37\<close>.\<close>

definition mt_SetTonePorta :: "pt_chn \<Rightarrow> pt_chn result" where
  "mt_SetTonePorta ch =
     (let porta = n_finetune ch * 37
      in and_then (find_period (\<lambda>x. x \<le>s n_note ch) porta [0..<37]) (\<lambda>r.
           let i = (case r of None \<Rightarrow> 37 | Some i \<Rightarrow> i);
               i = (if n_finetune ch AND 8 \<noteq> 0 \<and> i > 0 then i - 1 else i)
           in and_then (period_at (porta + of_nat i)) (\<lambda>w.
                Inr (ch\<lparr>n_wantedperiod := (if n_period ch = w then 0 else w),
                        n_toneportdirec := (if n_period ch = w then 0 else if w <s n_period ch then 1 else 0)\<rparr>))))"

text \<open>The loop of the glissando, which does not stop at the first entry that is low enough.\<close>

fun gliss_writes :: "u32 \<Rightarrow> u32 \<Rightarrow> u32 \<Rightarrow> nat list \<Rightarrow> hw_write list result" where
  "gliss_writes n period porta [] = Inr []"
| "gliss_writes n period porta (i # is) =
     and_then (period_at (porta + of_nat i)) (\<lambda>x.
       and_then (gliss_writes n period porta is) (\<lambda>ws.
         Inr (if x \<le>s period then PERIOD n (ucast x) # ws else ws)))"

definition slide_to_wanted :: "pt_chn \<Rightarrow> pt_chn" where
  "slide_to_wanted ch =
     (if n_toneportdirec ch \<noteq> 0 then
        (let ch = ch\<lparr>n_period := n_period ch - n_toneportspeed ch\<rparr>
         in if n_period ch \<le>s n_wantedperiod ch then ch\<lparr>n_period := n_wantedperiod ch, n_wantedperiod := 0\<rparr> else ch)
      else
        (let ch = ch\<lparr>n_period := n_period ch + n_toneportspeed ch\<rparr>
         in if n_wantedperiod ch \<le>s n_period ch then ch\<lparr>n_period := n_wantedperiod ch, n_wantedperiod := 0\<rparr> else ch))"

definition mt_UpdateTonePortamento :: "pt_chn \<Rightarrow> player \<Rightarrow> voice result" where
  "mt_UpdateTonePortamento ch p =
     (if 0 <s n_wantedperiod ch then
        (let ch = slide_to_wanted ch
         in if n_glissfunk ch AND 0x0F \<noteq> 0
            then and_then (gliss_writes (n_index ch) (n_period ch) (n_finetune ch * 37) [0..<37]) (\<lambda>ws. Inr (ch, paula ws p))
            else Inr (ch, set_period (n_period ch) ch p))
      else Inr (ch, p))"

definition mt_TonePortamento :: "pt_chn \<Rightarrow> player \<Rightarrow> voice result" where
  "mt_TonePortamento ch p =
     mt_UpdateTonePortamento
       (if n_cmdlo ch \<noteq> 0 then ch\<lparr>n_toneportspeed := n_cmdlo ch, n_cmdlo := 0\<rparr> else ch) p"

text \<open>The amplitude of vibrato and tremolo at a position: sine, ramp or square.\<close>

definition wave_data :: "u32 \<Rightarrow> u32 \<Rightarrow> bool \<Rightarrow> u32" where
  "wave_data control pos negative =
     (if control = 0 then ucast (mt_VibratoTable ! unat pos)
      else if control = 1 then (if negative then 255 - push_bit 3 pos else push_bit 3 pos)
      else 255)"

definition mt_UpdateVibrato :: "pt_chn \<Rightarrow> player \<Rightarrow> voice" where
  "mt_UpdateVibrato ch p =
     (let w = wave_data (n_wavecontrol ch AND 3) (signed_drop_bit 2 (n_vibratopos ch) AND 0x1F) (n_vibratopos ch <s 0);
          d = drop_bit 7 (w * (n_vibratocmd ch AND 0x0F))
      in (ch\<lparr>n_vibratopos := n_vibratopos ch + (drop_bit 2 (n_vibratocmd ch) AND 0x3C)\<rparr>,
          set_period (if 0 \<le>s n_vibratopos ch then n_period ch + d else n_period ch - d) ch p))"

text \<open>The new parameter of vibrato or tremolo: each half is kept when the command's is zero.\<close>

definition merge_cmd :: "u32 \<Rightarrow> u32 \<Rightarrow> u32" where
  "merge_cmd lo cmd =
     (let cmd = (if lo AND 0x0F \<noteq> 0 then (cmd AND 0xF0) OR (lo AND 0x0F) else cmd)
      in if lo AND 0xF0 \<noteq> 0 then (lo AND 0xF0) OR (cmd AND 0x0F) else cmd)"

definition mt_Vibrato :: "pt_chn \<Rightarrow> player \<Rightarrow> voice" where
  "mt_Vibrato ch p =
     mt_UpdateVibrato (if n_cmdlo ch \<noteq> 0 then ch\<lparr>n_vibratocmd := merge_cmd (n_cmdlo ch) (n_vibratocmd ch)\<rparr> else ch) p"

definition mt_TonePlusVolSlide :: "pt_chn \<Rightarrow> player \<Rightarrow> voice result" where
  "mt_TonePlusVolSlide ch p = and_then (mt_UpdateTonePortamento ch p) (\<lambda>(ch, p). Inr (mt_VolumeSlide ch p))"

definition mt_VibratoPlusVolSlide :: "pt_chn \<Rightarrow> player \<Rightarrow> voice" where
  "mt_VibratoPlusVolSlide ch p = (case mt_UpdateVibrato ch p of (ch, p) \<Rightarrow> mt_VolumeSlide ch p)"

text \<open>The sign of the waveform is that of the position of the vibrato, as in ProTracker.\<close>

definition mt_UpdateTremolo :: "pt_chn \<Rightarrow> player \<Rightarrow> voice" where
  "mt_UpdateTremolo ch p =
     (let w = wave_data (signed_drop_bit 4 (n_wavecontrol ch) AND 3) (signed_drop_bit 2 (n_tremolopos ch) AND 0x1F) (n_vibratopos ch <s 0);
          d = drop_bit 6 (w * (n_tremolocmd ch AND 0x0F));
          v = (if 0 \<le>s n_tremolopos ch then limit_up (n_volume ch + d) else limit_down (n_volume ch - d))
      in (ch\<lparr>n_tremolopos := n_tremolopos ch + (drop_bit 2 (n_tremolocmd ch) AND 0x3C)\<rparr>,
          paula [VOL (n_index ch) (ucast v)] p))"

definition mt_Tremolo :: "pt_chn \<Rightarrow> player \<Rightarrow> voice" where
  "mt_Tremolo ch p =
     mt_UpdateTremolo (if n_cmdlo ch \<noteq> 0 then ch\<lparr>n_tremolocmd := merge_cmd (n_cmdlo ch) (n_tremolocmd ch)\<rparr> else ch) p"

definition mt_SampleOffset :: "pt_chn \<Rightarrow> pt_chn" where
  "mt_SampleOffset ch =
     (let ch = (if n_cmdlo ch \<noteq> 0 then ch\<lparr>n_sampleoffset := n_cmdlo ch\<rparr> else ch);
          newOffset = push_bit 8 (n_sampleoffset ch)
      in if newOffset < n_length ch
         then ch\<lparr>n_length := n_length ch - newOffset, n_start := n_start ch + newOffset\<rparr>
         else ch\<lparr>n_length := 0\<rparr>)"

section \<open>Dispatch\<close>

definition mt_E_Commands :: "pt_chn \<Rightarrow> player \<Rightarrow> voice result" where
  "mt_E_Commands ch p =
     (let e = drop_bit 4 (n_cmdlo ch)
      in if e = 0x1 then Inr (mt_FinePortaUp ch p)
         else if e = 0x2 then Inr (mt_FinePortaDown ch p)
         else if e = 0x3 then Inr (mt_SetGlissControl ch, p)
         else if e = 0x4 then Inr (mt_SetVibratoControl ch, p)
         else if e = 0x5 then Inr (mt_SetFineTune ch, p)
         else if e = 0x6 then Inr (mt_JumpLoop ch p)
         else if e = 0x7 then Inr (mt_SetTremoloControl ch, p)
         else if e = 0x9 then and_then (mt_RetrigNote ch p) (\<lambda>p. Inr (ch, p))
         else if e = 0xA then Inr (mt_VolumeFineUp ch p)
         else if e = 0xB then Inr (mt_VolumeFineDown ch p)
         else if e = 0xC then Inr (mt_NoteCut ch p)
         else if e = 0xD then Inr (ch, mt_NoteDelay ch p)
         else if e = 0xE then Inr (ch, mt_PatternDelay ch p)
         else if e = 0xF then mt_FunkIt ch p
         else Inr (ch, p))"

definition mt_CheckMoreEfx :: "pt_chn \<Rightarrow> player \<Rightarrow> voice result" where
  "mt_CheckMoreEfx ch p =
     and_then (mt_UpdateFunk ch p) (\<lambda>(ch, p).
       (let c = signed_drop_bit 8 (n_cmd ch)
        in if c = 0x9 then Inr (mt_SampleOffset ch, p)
           else if c = 0xB then Inr (ch, mt_PositionJump ch p)
           else if c = 0xC then Inr (mt_VolumeChange ch p)
           else if c = 0xD then Inr (ch, mt_PatternBreak ch p)
           else if c = 0xE then mt_E_Commands ch p
           else if c = 0xF then and_then (mt_SetSpeed ch p) (\<lambda>p. Inr (ch, p))
           else Inr (ch, set_period (n_period ch) ch p)))"

definition mt_CheckEfx :: "pt_chn \<Rightarrow> player \<Rightarrow> voice result" where
  "mt_CheckEfx ch p =
     and_then (mt_UpdateFunk ch p) (\<lambda>(ch, p).
       (let c = signed_drop_bit 8 (n_cmd ch)
        in if n_cmd ch = 0 then Inr (ch, set_period (n_period ch) ch p)
           else if c = 0x0 then and_then (mt_Arpeggio ch p) (\<lambda>p. Inr (ch, p))
           else if c = 0x1 then Inr (mt_PortaUp ch p)
           else if c = 0x2 then Inr (mt_PortaDown ch p)
           else if c = 0x3 then mt_TonePortamento ch p
           else if c = 0x4 then Inr (mt_Vibrato ch p)
           else if c = 0x5 then mt_TonePlusVolSlide ch p
           else if c = 0x6 then Inr (mt_VibratoPlusVolSlide ch p)
           else if c = 0xE then mt_E_Commands ch p
           else if c = 0x7 then Inr (mt_Tremolo ch (set_period (n_period ch) ch p))
           else if c = 0xA then Inr (mt_VolumeSlide ch (set_period (n_period ch) ch p))
           else Inr (ch, set_period (n_period ch) ch p)))"

definition mt_SetPeriod :: "pt_chn \<Rightarrow> player \<Rightarrow> voice result" where
  "mt_SetPeriod ch p =
     and_then (find_period (\<lambda>x. x \<le>s n_note ch) 0 [0..<37]) (\<lambda>r.
       and_then (period_at (n_finetune ch * 37 + of_nat (case r of None \<Rightarrow> 37 | Some i \<Rightarrow> i))) (\<lambda>x.
         (let ch = ch\<lparr>n_period := x\<rparr>
          in if n_cmd ch AND 0x0FF0 = 0x0ED0 then mt_CheckMoreEfx ch p
             else
               (let ch = (if n_wavecontrol ch AND 0x04 = 0 then ch\<lparr>n_vibratopos := 0\<rparr> else ch);
                    ch = (if n_wavecontrol ch AND 0x40 = 0 then ch\<lparr>n_tremolopos := 0\<rparr> else ch);
                    n = n_index ch
                in mt_CheckMoreEfx ch
                     (paula [DAT n (n_start ch), LEN n (ucast (n_length ch)), PERIOD n (ucast (n_period ch)),
                             TRIGGER n, DAT n (n_loopstart ch), LEN n (ucast (n_replen ch))] p)))))"

section \<open>A row\<close>

definition song_byte :: "player \<Rightarrow> u32 \<Rightarrow> u32" where
  "song_byte p i = ucast (ram p (mt_SongDataPtr p + i))"

definition song_word :: "player \<Rightarrow> u32 \<Rightarrow> u32" where
  "song_word p i = push_bit 8 (song_byte p i) OR song_byte p (i + 1)"

text \<open>The sample of a row: number \<open>k\<close>, counted from 0, with its header of 30 bytes.\<close>

definition set_sample :: "u32 \<Rightarrow> pt_chn \<Rightarrow> player \<Rightarrow> voice result" where
  "set_sample k ch p =
     (let off = 42 + k * 30
      in if unat k \<ge> 31 then Inl (OutsideSampleStarts (unat k))
         else
           (let start = mt_SampleStarts p ! unat k;
                ch = ch\<lparr>n_start := start, n_finetune := song_byte p (off + 2), n_volume := song_byte p (off + 3),
                        n_length := song_word p off, n_replen := song_word p (off + 6)\<rparr>;
                rep = push_bit 1 (song_word p (off + 4));
                ch = (if n_replen ch > 2
                      then ch\<lparr>n_loopstart := start + rep, n_wavestart := start + rep,
                              n_length := drop_bit 2 rep + n_replen ch\<rparr>
                      else ch\<lparr>n_loopstart := start, n_wavestart := start\<rparr>)
            in Inr (ch, paula [VOL (n_index ch) (ucast (n_volume ch))] p)))"

definition mt_PlayVoice :: "u32 \<Rightarrow> pt_chn \<Rightarrow> player \<Rightarrow> voice result" where
  "mt_PlayVoice pattPos ch p =
     (let p = (if n_note ch = 0 then set_period (n_period ch) ch p else p);
          period = song_word p (1084 + pattPos);
          smp = song_byte p (1084 + pattPos + 2);
          cmdlo = song_byte p (1084 + pattPos + 3);
          ch = ch\<lparr>n_note := period AND 0x0FFF, n_cmd := push_bit 8 (smp AND 0x0F) OR cmdlo, n_cmdlo := cmdlo\<rparr>;
          sample = drop_bit 8 (period AND 0xF000) OR drop_bit 4 smp
      in and_then (if sample \<ge> 1 \<and> sample \<le> 32 then set_sample (sample - 1) ch p else Inr (ch, p)) (\<lambda>(ch, p).
         if n_note ch = 0 then mt_CheckMoreEfx ch p
         else if n_cmd ch AND 0x0FF0 = 0x0E50 then mt_SetPeriod (mt_SetFineTune ch) p
         else
           (let cmd = signed_drop_bit 8 (n_cmd ch)
            in if cmd = 0x3 \<or> cmd = 0x5 then and_then (mt_SetTonePorta ch) (\<lambda>ch. mt_CheckMoreEfx ch p)
               else if cmd = 0x9 then and_then (mt_CheckMoreEfx ch p) (\<lambda>(ch, p). mt_SetPeriod ch p)
               else mt_SetPeriod ch p)))"

section \<open>The song\<close>

definition mt_nextPosition :: "player \<Rightarrow> player" where
  "mt_nextPosition p =
     (let p = p\<lparr>mt_PatternPos := push_bit 4 (mt_PBreakPos p), mt_PBreakPos := 0, mt_PosJumpFlag := 0,
                mt_SongPos := (mt_SongPos p + 1) AND 0x7F\<rparr>
      in if song_byte p 950 \<le>s mt_SongPos p then p\<lparr>mt_SongPos := 0\<rparr> else p)"

definition mt_dskip :: "player \<Rightarrow> player" where
  "mt_dskip p =
     (let p = p\<lparr>mt_PatternPos := mt_PatternPos p + 16\<rparr>;
          p = (if 0 <s mt_PattDelTime p then p\<lparr>mt_PattDelTime2 := mt_PattDelTime p, mt_PattDelTime := 0\<rparr> else p);
          p = (if 0 <s mt_PattDelTime2 p then
                 (let p = p\<lparr>mt_PattDelTime2 := mt_PattDelTime2 p - 1\<rparr>
                  in if 0 <s mt_PattDelTime2 p then p\<lparr>mt_PatternPos := mt_PatternPos p - 16\<rparr> else p)
               else p);
          p = (if mt_PBreakFlag p = 1
               then p\<lparr>mt_PBreakFlag := 0, mt_PatternPos := push_bit 4 (mt_PBreakPos p), mt_PBreakPos := 0\<rparr> else p)
      in if mt_PatternPos p \<ge> 1024 \<or> mt_PosJumpFlag p = 1 then mt_nextPosition p else p)"

text \<open>The four channels in turn.\<close>

fun voices :: "(u32 \<Rightarrow> pt_chn \<Rightarrow> player \<Rightarrow> voice result) \<Rightarrow> u32 \<Rightarrow> pt_chn list \<Rightarrow> player \<Rightarrow> (pt_chn list \<times> player) result" where
  "voices f pattPos [] p = Inr ([], p)"
| "voices f pattPos (ch # chs) p =
     and_then (f pattPos ch p) (\<lambda>(ch, p).
       and_then (voices f (pattPos + 4) chs p) (\<lambda>(chs, p). Inr (ch # chs, p)))"

text \<open>A tick of the timer: the channels \<open>mt_chan1temp\<close> to \<open>mt_chan4temp\<close> and the globals.\<close>

definition mt_music :: "pt_chn list \<times> player \<Rightarrow> (pt_chn list \<times> player) result" where
  "mt_music = (\<lambda>(chs, p).
     if mt_Enable p = 1 then
       (let p = p\<lparr>mt_counter := mt_counter p + 1\<rparr>
        in if mt_counter p \<ge> mt_speed p then
             (let p = p\<lparr>mt_counter := 0\<rparr>
              in and_then
                   (if mt_PattDelTime2 p = 0 then
                      (let pattPos = push_bit 10 (song_byte p (952 + mt_SongPos p)) + mt_PatternPos p
                       in and_then (voices mt_PlayVoice pattPos chs p) (\<lambda>(chs, p).
                            Inr (chs, paula (concat (map2 (\<lambda>i ch. set_loop i (n_loopstart ch) (n_replen ch)) [0, 1, 2, 3] chs)) p)))
                    else voices (\<lambda>_. mt_CheckEfx) 0 chs p)
                   (\<lambda>(chs, p). Inr (chs, mt_dskip p)))
           else
             and_then (voices (\<lambda>_. mt_CheckEfx) 0 chs p) (\<lambda>(chs, p).
               Inr (chs, if mt_PosJumpFlag p = 1 then mt_nextPosition p else p)))
     else Inr (chs, p))"

text \<open>\<open>mt_init\<close>: the number of the last pattern, behind which the samples start.\<close>

definition pattern_count :: "player \<Rightarrow> u32" where
  "pattern_count p =
     fold (\<lambda>i n. if n <s song_byte p (952 + of_nat i) then song_byte p (952 + of_nat i) else n) [0..<128] 0 + 1"

fun sample_starts :: "player \<Rightarrow> nat \<Rightarrow> nat \<Rightarrow> u32 \<Rightarrow> u32 list" where
  "sample_starts p 0 i a = []"
| "sample_starts p (Suc n) i a =
     a # sample_starts p n (i + 1) (a + push_bit 1 (song_word p (42 + of_nat i * 30)))"

definition mt_init :: "u32 \<Rightarrow> player \<Rightarrow> player" where
  "mt_init mt_data p =
     (let p = p\<lparr>mt_SongDataPtr := mt_data\<rparr>;
          p = p\<lparr>mt_SampleStarts := sample_starts p 31 0 (mt_data + (1084 + push_bit 10 (pattern_count p)))\<rparr>
      in p\<lparr>mt_speed := 6, mt_counter := 0, mt_SongPos := 0, mt_PatternPos := 0, mt_Enable := 0,
           mt_PattDelTime := 0, mt_PattDelTime2 := 0, mt_PBreakPos := 0, mt_PosJumpFlag := 0,
           mt_PBreakFlag := 0, mt_LowMask := 0xFF\<rparr>)"

text \<open>\<open>ptBuddyPlay\<close> up to its endless loop, in which the timer interrupt calls \<open>mt_music\<close>. A
  \<open>char\<close> is signed.\<close>

definition ptBuddyPlay :: "u32 \<Rightarrow> u8 \<Rightarrow> player \<Rightarrow> player result" where
  "ptBuddyPlay modData timerType p =
     (let p = mt_init modData (p\<lparr>mt_Enable := 0\<rparr>);
          p = p\<lparr>tempoMode := (if 0 <s timerType then 1 else 0)\<rparr>
      in and_then (SetTempo 125 p) (\<lambda>p. Inr ((paula [TIMER_CONTROL 0x0200] p)\<lparr>mt_Enable := 1\<rparr>)))"

definition ptBuddyClose :: "player \<Rightarrow> player" where
  "ptBuddyClose p = p\<lparr>mt_Enable := 0\<rparr>"

end
