(* ===== verification/Song.thy ===== *)
theory Song
  imports Replay
begin

text \<open>
  Properties of the ProTracker player: modules without a few commands never make it read outside of
  its tables or of the pattern, what the position effects do to the order of the rows, and the
  effects that go wrong.
\<close>

section \<open>Signed comparisons of small values\<close>

lemma sint_small: "x < 0x80000000 \<Longrightarrow> sint x = uint x" for x :: u32
  using order_trans [OF _ uint_nonnegative [of x], of "- 2147483648"]
  by (simp add: sint_uint signed_take_bit_int_eq_self_iff word_less_def)

lemma sless_small:
  fixes x y :: u32
  assumes "x < 0x80000000" "y < 0x80000000"
  shows "x <s y \<longleftrightarrow> x < y" "x \<le>s y \<longleftrightarrow> x \<le> y"
  using assms by (simp_all add: word_sless_alt word_sle_eq sint_small word_less_def word_le_def)

lemma nibble: "x AND 0x0F \<le> 15" for x :: u32
  by (rule word_and_le1)

section \<open>The table of periods\<close>

lemma periods_small: "list_all (\<lambda>x. x \<le> 907) mt_PeriodTable"
  by (simp add: mt_PeriodTable_def)

lemma length_periods: "length mt_PeriodTable = 606"
  by (simp add: mt_PeriodTable_def)

lemma period_terminators: "list_all (\<lambda>k. mt_PeriodTable ! (37 * k + 36) = 0) [0..<16]"
  by (simp add: mt_PeriodTable_def upt_rec)

lemma period_small: "i < 606 \<Longrightarrow> mt_PeriodTable ! i \<le> 907"
  using periods_small length_periods by (simp add: list_all_length)

lemma period_terminator: "k < 16 \<Longrightarrow> mt_PeriodTable ! (37 * k + 36) = 0"
  using period_terminators by (simp add: list_all_length del: upt_Suc)

lemma find_period_find:
  assumes "\<And>i. i \<in> set is \<Longrightarrow> period_at (base + of_nat i) = Inr (f i)"
  shows "find_period P base is = Inr (find (\<lambda>i. P (f i)) is)"
  using assms by (induction "is") auto

lemma period_at_tuned:
  assumes "ft < 16" "n < 51"
  shows "period_at (ft * 37 + of_nat n) = Inr (mt_PeriodTable ! (37 * unat ft + n))"
proof -
  have "unat ft < 16" using assms(1) by (simp add: word_less_nat_alt)
  then have "unat (ft * 37 + of_nat n) = 37 * unat ft + n"
    using assms(2) by (simp add: unat_word_ariths unat_of_nat)
  then show ?thesis
    using \<open>unat ft < 16\<close> assms(2) by (simp add: period_at_def)
qed

lemma find_period_tuned:
  assumes "ft < 16" "v < 0x80000000"
  obtains i where "i \<le> 36" "mt_PeriodTable ! (37 * unat ft + i) \<le> v"
    "\<forall>j < i. v < mt_PeriodTable ! (37 * unat ft + j)"
    "find_period (\<lambda>x. x \<le>s v) (ft * 37) [0..<37] = Inr (Some i)"
proof -
  let ?f = "\<lambda>i. mt_PeriodTable ! (37 * unat ft + i)"
  have ft: "unat ft < 16" using assms(1) by (simp add: word_less_nat_alt)
  have s: "?f i \<le>s v \<longleftrightarrow> ?f i \<le> v" if "i \<le> 36" for i
  proof -
    have "?f i \<le> 907" using ft that by (intro period_small) simp
    then have "?f i < 0x80000000" by (rule order_le_less_trans) simp
    then show ?thesis using sless_small(2) assms(2) by blast
  qed
  have e: "find_period (\<lambda>x. x \<le>s v) (ft * 37) [0..<37] = Inr (find (\<lambda>i. ?f i \<le>s v) [0..<37])"
    by (rule find_period_find) (simp add: period_at_tuned assms(1))
  have "?f 36 \<le>s v" using s [of 36] period_terminator [OF ft] by simp
  then have "find (\<lambda>i. ?f i \<le>s v) [0..<37] \<noteq> None"
    by (auto simp: find_None_iff intro!: exI [of _ 36])
  then obtain i where i: "find (\<lambda>i. ?f i \<le>s v) [0..<37] = Some i" by blast
  then have "i \<le> 36" "?f i \<le>s v" "\<forall>j < i. \<not> ?f j \<le>s v"
    by (auto simp: find_Some_iff simp del: upt_Suc)
  then show ?thesis using that [of i] e i s by (auto simp: not_le [symmetric] le_less_trans)
qed

section \<open>What a safe effect leaves\<close>

text \<open>A channel whose command cannot go wrong: no inverted loop, no arpeggio by 15 half-tones.\<close>

definition command_ok :: "pt_chn \<Rightarrow> bool" where
  "command_ok ch \<longleftrightarrow>
     (signed_drop_bit 8 (n_cmd ch) = 0xE \<longrightarrow> drop_bit 4 (n_cmdlo ch) \<noteq> 0xF) \<and>
     (signed_drop_bit 8 (n_cmd ch) = 0 \<longrightarrow> drop_bit 4 (n_cmdlo ch) < 15 \<and> n_cmdlo ch AND 0x0F < 15)"

definition voice_ok :: "pt_chn \<Rightarrow> bool" where
  "voice_ok ch \<longleftrightarrow> command_ok ch \<and> n_finetune ch < 16 \<and> n_glissfunk ch < 16 \<and> n_cmdlo ch < 256 \<and> n_note ch < 4096 \<and>
     n_period ch \<le> 907 \<and> n_wantedperiod ch \<le> 907 \<and> n_toneportspeed ch < 256 \<and> n_pattpos ch < 64"

text \<open>The position of the song; a command may set the position to one outside of the list of
  patterns, but then the jump flag is set.\<close>

definition place_ok :: "player \<Rightarrow> bool" where
  "place_ok p \<longleftrightarrow> mt_PatternPos p < 1024 \<and> 16 dvd unat (mt_PatternPos p) \<and> mt_PBreakPos p < 64 \<and>
     (mt_SongPos p < 128 \<or> mt_PosJumpFlag p = 1)"

definition same_song :: "player \<Rightarrow> player \<Rightarrow> bool" where
  "same_song p p' \<longleftrightarrow> ram p' = ram p \<and> mt_SongDataPtr p' = mt_SongDataPtr p \<and>
     mt_SampleStarts p' = mt_SampleStarts p \<and> mt_Enable p' = mt_Enable p"

definition safe :: "player \<Rightarrow> voice result \<Rightarrow> bool" where
  "safe p r \<longleftrightarrow> (\<exists>ch p'. r = Inr (ch, p') \<and> voice_ok ch \<and> place_ok p' \<and> same_song p p')"

lemma safe_Inr [simp]: "safe p (Inr (ch, p')) \<longleftrightarrow> voice_ok ch \<and> place_ok p' \<and> same_song p p'"
  by (simp add: safe_def)

lemma safe_and_then:
  assumes "safe p r" "\<And>ch p'. voice_ok ch \<Longrightarrow> place_ok p' \<Longrightarrow> same_song p p' \<Longrightarrow> safe p (f (ch, p'))"
  shows "safe p (and_then r f)"
  using assms by (auto simp: safe_def)

lemma same_song_refl [simp]: "same_song p p"
  by (simp add: same_song_def)

lemma same_song_trans: "same_song p q \<Longrightarrow> same_song q r \<Longrightarrow> same_song p r"
  by (simp add: same_song_def)

lemma paula_ok [simp]:
  "place_ok (paula ws p) = place_ok p" "same_song q (paula ws p) = same_song q p"
  "place_ok (set_period x ch p) = place_ok p" "same_song q (set_period x ch p) = same_song q p"
  by (simp_all add: paula_def set_period_def place_ok_def same_song_def)

lemma drop_byte: "x < 256 \<Longrightarrow> drop_bit 4 x < 16" for x :: u32
  by (simp add: word_less_nat_alt drop_bit_eq_div unat_div)

lemma nibbles: "push_bit 4 (drop_bit 4 x) + (x AND 0x0F) = x" for x :: u32
  using bits_ident [of 4 x] by (simp add: take_bit_eq_mask mask_eq_exp_minus_1)

section \<open>Each effect is safe\<close>

lemma UpdateFunk_off:
  assumes "n_glissfunk ch < 16"
  shows "mt_UpdateFunk ch p = Inr (ch, p)"
proof -
  have "unat (n_glissfunk ch) < 16" using assms by (simp add: word_less_nat_alt)
  then have "drop_bit 4 (n_glissfunk ch) = 0"
    by (simp add: word_unat_eq_iff drop_bit_eq_div unat_div)
  then show ?thesis by (simp add: mt_UpdateFunk_def)
qed

lemma UpdateFunk_safe: "voice_ok ch \<Longrightarrow> mt_UpdateFunk ch p = Inr (ch, p)"
  by (simp add: voice_ok_def UpdateFunk_off)

lemma volume_safe [simp]:
  "voice_ok ch \<Longrightarrow> place_ok p \<Longrightarrow> same_song q p \<Longrightarrow> safe q (Inr (set_volume v ch p))"
  by (simp add: set_volume_def voice_ok_def command_ok_def)

lemma sint_of_small_int: "- 0x80000000 \<le> k \<Longrightarrow> k < 0x80000000 \<Longrightarrow> sint (word_of_int k :: u32) = k"
  by (simp add: signed_of_int signed_take_bit_int_eq_self)

lemma sint_small_ops:
  fixes x y :: u32
  assumes "uint x < 0x40000000" "uint y < 0x40000000"
  shows "sint (x - y) = uint x - uint y" "sint (x + y) = uint x + uint y" "uint (x + y) = uint x + uint y"
proof -
  have n: "0 \<le> uint x" "0 \<le> uint y" by simp_all
  have "sint (word_of_int (uint x - uint y) :: u32) = uint x - uint y"
    "sint (word_of_int (uint x + uint y) :: u32) = uint x + uint y"
    using assms n by (intro sint_of_small_int; linarith)+
  then show "sint (x - y) = uint x - uint y" "sint (x + y) = uint x + uint y" by simp_all
  show "uint (x + y) = uint x + uint y"
    using assms by (simp add: uint_word_ariths)
qed

lemma porta_limits:
  fixes x d :: u32
  assumes "x \<le> 907" "d < 256"
  shows "(if x - d <s 113 then 113 else x - d) \<le> 907" "(if 856 <s x + d then 856 else x + d) \<le> 907"
proof -
  have u: "uint x \<le> 907" "uint d < 256" using assms by (simp_all add: word_le_def word_less_def)
  note s = sint_small_ops [of x d]
  show "(if 856 <s x + d then 856 else x + d) \<le> 907"
    using u s by (auto simp: word_sless_alt word_le_def)
  show "(if x - d <s 113 then 113 else x - d) \<le> 907"
  proof (cases "d \<le> x")
    case True
    then have "x - d \<le> x" by (simp add: word_sub_le)
    then show ?thesis using assms(1) by (auto intro: order_trans)
  next
    case False
    then have "sint (x - d) < 113" using u s(1) by (simp add: word_le_def)
    then show ?thesis by (simp add: word_sless_alt)
  qed
qed

lemma tuned_period_safe:
  assumes "voice_ok ch" "place_ok p" "same_song q p" "x \<le> 907"
  shows "safe q (Inr (ch\<lparr>n_period := x\<rparr>, set_period x ch p))"
  using assms by (simp add: voice_ok_def command_ok_def)

lemma Porta_safe:
  assumes "voice_ok ch" "place_ok p" "same_song q p"
  shows "safe q (Inr (mt_PortaUp ch p))" "safe q (Inr (mt_PortaDown ch p))"
    "safe q (Inr (mt_FinePortaUp ch p))" "safe q (Inr (mt_FinePortaDown ch p))"
proof -
  have "n_cmdlo ch AND m < 256" for m
    using assms(1) word_and_le2 [of "n_cmdlo ch" m] by (simp add: voice_ok_def le_less_trans)
  note l = porta_limits [OF _ this] 
  have up: "safe q (Inr (mt_PortaUp ch p))" and down: "safe q (Inr (mt_PortaDown ch p))"
    if "place_ok p" "same_song q p" for p
    using assms(1) that l [of "n_period ch"]
    by (simp_all add: mt_PortaUp_def mt_PortaDown_def Let_def voice_ok_def command_ok_def place_ok_def same_song_def
        set_period_def paula_def)
  show "safe q (Inr (mt_PortaUp ch p))" "safe q (Inr (mt_PortaDown ch p))"
    using up down assms by simp_all
  show "safe q (Inr (mt_FinePortaUp ch p))" "safe q (Inr (mt_FinePortaDown ch p))"
    using up [of "p\<lparr>mt_LowMask := 0x0F\<rparr>"] down [of "p\<lparr>mt_LowMask := 0x0F\<rparr>"] assms
    by (simp_all add: mt_FinePortaUp_def mt_FinePortaDown_def place_ok_def same_song_def)
qed

lemma gliss_writes_tuned:
  assumes "ft < 16" "\<forall>i \<in> set is. i < 51"
  shows "gliss_writes n v (ft * 37) is =
    Inr (concat (map (\<lambda>i. let x = mt_PeriodTable ! (37 * unat ft + i) in if x \<le>s v then [PERIOD n (ucast x)] else []) is))"
  using assms(2) by (induction "is") (simp_all add: period_at_tuned assms(1) Let_def)

lemma slide_small:
  assumes "voice_ok ch"
  shows "n_period (slide_to_wanted ch) \<le> 907" "n_wantedperiod (slide_to_wanted ch) \<le> 907"
proof -
  let ?x = "n_period ch" and ?d = "n_toneportspeed ch" and ?w = "n_wantedperiod ch"
  have u: "uint ?x \<le> 907" "uint ?d < 256" "uint ?w \<le> 907"
    using assms by (simp_all add: voice_ok_def word_le_def word_less_def)
  have w: "sint ?w = uint ?w" using u by (intro sint_small) (simp add: word_less_def)
  note s = sint_small_ops [of ?x ?d]
  have down: "?x - ?d \<le> 907" if "\<not> ?x - ?d \<le>s ?w"
  proof -
    have "\<not> sint (?x - ?d) \<le> uint ?w" using that w by (simp add: word_sle_eq)
    moreover have "0 \<le> uint ?w" by simp
    ultimately have "sint (?x - ?d) > 0" by linarith
    then have "?d \<le> ?x" using s(1) u by (simp add: word_le_def)
    then have "?x - ?d \<le> ?x" by (simp add: word_sub_le)
    then show ?thesis using assms by (auto simp: voice_ok_def intro: order_trans)
  qed
  have up: "?x + ?d \<le> 907" if "\<not> ?w \<le>s ?x + ?d"
    using that w u s by (simp add: word_sle_eq word_le_def)
  show "n_period (slide_to_wanted ch) \<le> 907" "n_wantedperiod (slide_to_wanted ch) \<le> 907"
    using down up assms by (auto simp: slide_to_wanted_def Let_def voice_ok_def)
qed

lemma UpdateTonePortamento_safe:
  assumes "voice_ok ch" "place_ok p" "same_song q p"
  shows "safe q (mt_UpdateTonePortamento ch p)"
proof -
  have v: "voice_ok (slide_to_wanted ch)"
    using slide_small [OF assms(1)] assms(1)
    by (simp add: voice_ok_def command_ok_def slide_to_wanted_def Let_def)
  have "n_finetune (slide_to_wanted ch) < 16" using v by (simp add: voice_ok_def)
  then show ?thesis
    using v assms by (simp add: mt_UpdateTonePortamento_def Let_def gliss_writes_tuned del: upt_Suc)
qed

lemma TonePortamento_safe:
  assumes "voice_ok ch" "place_ok p" "same_song q p" "signed_drop_bit 8 (n_cmd ch) = 3"
  shows "safe q (mt_TonePortamento ch p)"
  unfolding mt_TonePortamento_def
  by (rule UpdateTonePortamento_safe) (use assms in \<open>auto simp: voice_ok_def command_ok_def\<close>)

lemma SetTonePorta_safe:
  assumes "voice_ok ch"
  shows "\<exists>ch'. mt_SetTonePorta ch = Inr ch' \<and> voice_ok ch' \<and> n_cmd ch' = n_cmd ch"
proof -
  have ft: "n_finetune ch < 16" "unat (n_finetune ch) < 16" and note_small: "n_note ch < 0x80000000"
    using assms by (auto simp: voice_ok_def word_less_nat_alt)
  obtain i where i: "i \<le> 36" "find_period (\<lambda>x. x \<le>s n_note ch) (n_finetune ch * 37) [0..<37] = Inr (Some i)"
    using find_period_tuned [OF ft(1) note_small] by metis
  define j where "j = (if n_finetune ch AND 8 \<noteq> 0 \<and> i > 0 then i - 1 else i)"
  have j: "j \<le> 36" using i(1) by (simp add: j_def; arith)
  then have p: "period_at (n_finetune ch * 37 + of_nat j) = Inr (mt_PeriodTable ! (37 * unat (n_finetune ch) + j))"
    "mt_PeriodTable ! (37 * unat (n_finetune ch) + j) \<le> 907"
    using ft by (auto intro!: period_at_tuned period_small)
  let ?w = "mt_PeriodTable ! (37 * unat (n_finetune ch) + j)"
  have "mt_SetTonePorta ch = Inr (ch\<lparr>n_wantedperiod := (if n_period ch = ?w then 0 else ?w),
      n_toneportdirec := (if n_period ch = ?w then 0 else if ?w <s n_period ch then 1 else 0)\<rparr>)"
    unfolding mt_SetTonePorta_def Let_def i(2) and_then_simps option.case j_def [symmetric] p(1) by (rule refl)
  then show ?thesis using assms p(2) by (simp add: voice_ok_def command_ok_def)
qed

lemma Arpeggio_safe:
  assumes "voice_ok ch" "place_ok p" "same_song q p" "signed_drop_bit 8 (n_cmd ch) = 0"
  shows "\<exists>p'. mt_Arpeggio ch p = Inr p' \<and> place_ok p' \<and> same_song q p'"
proof -
  have ft: "n_finetune ch < 16" and v: "n_period ch < 0x80000000"
    using assms(1) by (auto simp: voice_ok_def intro: order_le_less_trans)
  obtain i where i: "i \<le> 36" "find_period (\<lambda>x. x \<le>s n_period ch) (n_finetune ch * 37) [0..<37] = Inr (Some i)"
    using find_period_tuned [OF ft v] by metis
  define d where "d = (if mt_counter p mod 3 = 1 then drop_bit 4 (n_cmdlo ch) else n_cmdlo ch AND 0x0F)"
  have "d < 15" using assms(1,4) by (simp add: d_def voice_ok_def command_ok_def)
  then have d: "d = of_nat (unat d)" "unat d < 15" by (simp_all add: word_less_nat_alt)
  have "of_nat i + d = of_nat (i + unat d)" by simp
  then have "period_at (n_finetune ch * 37 + (of_nat i + d)) = Inr (mt_PeriodTable ! (37 * unat (n_finetune ch) + (i + unat d)))"
    using period_at_tuned [OF ft, of "i + unat d"] i(1) d(2) by simp
  then show ?thesis
    using assms(2,3) unfolding mt_Arpeggio_def Let_def d_def [symmetric] i(2) by auto
qed

lemma small_effects_safe:
  assumes "voice_ok ch" "place_ok p" "same_song q p"
  shows "safe q (Inr (mt_SetGlissControl ch, p))" "safe q (Inr (mt_SetVibratoControl ch, p))"
    "safe q (Inr (mt_SetFineTune ch, p))" "safe q (Inr (mt_SetTremoloControl ch, p))"
    "safe q (Inr (mt_VolumeSlide ch p))" "safe q (Inr (mt_VolumeFineUp ch p))" "safe q (Inr (mt_VolumeFineDown ch p))"
    "safe q (Inr (mt_NoteCut ch p))" "safe q (Inr (mt_VolumeChange ch p))" "safe q (Inr (ch, mt_NoteDelay ch p))"
    "safe q (Inr (ch, mt_PatternDelay ch p))" "safe q (Inr (mt_SampleOffset ch, p))"
    "safe q (Inr (ch, mt_PositionJump ch p))" "safe q (Inr (mt_UpdateVibrato ch p))" "safe q (Inr (mt_UpdateTremolo ch p))"
    "safe q (Inr (mt_Vibrato ch p))" "safe q (Inr (mt_Tremolo ch p))" "safe q (Inr (mt_VibratoPlusVolSlide ch p))"
proof -
  have g: "(n_glissfunk ch AND 0xF0) OR (n_cmdlo ch AND 0x0F) < 16"
  proof -
    have "n_glissfunk ch AND 0xF0 = 0"
    proof -
      have "n_glissfunk ch AND 0x0F = n_glissfunk ch"
        using assms(1) by (intro less_mask_eq [of _ 4, simplified mask_eq_exp_minus_1, simplified]) (simp add: voice_ok_def)
      then have "n_glissfunk ch AND 0xF0 = (n_glissfunk ch AND 0x0F) AND 0xF0" by simp
      also have "\<dots> = 0" by (simp add: and.assoc)
      finally show ?thesis .
    qed
    then show ?thesis using nibble [of "n_cmdlo ch"] by (simp add: le_less_trans)
  qed
  show "safe q (Inr (mt_SetGlissControl ch, p))"
    using assms g by (simp add: mt_SetGlissControl_def voice_ok_def command_ok_def)
  show "safe q (Inr (mt_SetVibratoControl ch, p))" "safe q (Inr (mt_SetTremoloControl ch, p))"
    "safe q (Inr (ch, mt_NoteDelay ch p))" "safe q (Inr (ch, mt_PatternDelay ch p))"
    "safe q (Inr (ch, mt_PositionJump ch p))" "safe q (Inr (mt_SampleOffset ch, p))"
    using assms by (simp_all add: mt_SetVibratoControl_def mt_SetTremoloControl_def mt_NoteDelay_def mt_PatternDelay_def
        mt_PositionJump_def mt_SampleOffset_def Let_def voice_ok_def command_ok_def place_ok_def same_song_def paula_def)
  have "n_cmdlo ch AND 0x0F < 16" using nibble [of "n_cmdlo ch"] by (simp add: le_less_trans)
  then show "safe q (Inr (mt_SetFineTune ch, p))"
    using assms by (simp add: mt_SetFineTune_def voice_ok_def command_ok_def)
  have slide: "safe q (Inr (mt_VolumeSlide ch p))" if "voice_ok ch" "place_ok p" "same_song q p" for ch p
    using that by (simp add: mt_VolumeSlide_def)
  then show "safe q (Inr (mt_VolumeSlide ch p))" using assms .
  show "safe q (Inr (mt_VolumeFineUp ch p))" "safe q (Inr (mt_VolumeFineDown ch p))"
    "safe q (Inr (mt_NoteCut ch p))" "safe q (Inr (mt_VolumeChange ch p))"
    using assms by (simp_all add: mt_VolumeFineUp_def mt_VolumeFineDown_def mt_NoteCut_def mt_VolumeChange_def)
  have vib: "safe q (Inr (mt_UpdateVibrato ch p))" and trem: "safe q (Inr (mt_UpdateTremolo ch p))"
    if "voice_ok ch" for ch
    using that assms(2,3) by (simp_all add: mt_UpdateVibrato_def mt_UpdateTremolo_def Let_def voice_ok_def command_ok_def)
  then show "safe q (Inr (mt_UpdateVibrato ch p))" "safe q (Inr (mt_UpdateTremolo ch p))" using assms by simp_all
  have "voice_ok (ch\<lparr>n_vibratocmd := x\<rparr>)" "voice_ok (ch\<lparr>n_tremolocmd := x\<rparr>)" for x
    using assms(1) by (simp_all add: voice_ok_def command_ok_def)
  then show "safe q (Inr (mt_Vibrato ch p))" "safe q (Inr (mt_Tremolo ch p))"
    using vib trem assms(1) by (simp_all add: mt_Vibrato_def mt_Tremolo_def)
  show "safe q (Inr (mt_VibratoPlusVolSlide ch p))"
    using vib [OF assms(1)] slide by (cases "mt_UpdateVibrato ch p") (simp add: mt_VibratoPlusVolSlide_def)
qed

lemma JumpLoop_safe:
  assumes "voice_ok ch" "place_ok p" "same_song q p"
  shows "safe q (Inr (mt_JumpLoop ch p))"
proof -
  have "unat (mt_PatternPos p) < 1024" using assms(2) by (simp add: place_ok_def word_less_nat_alt)
  then have "unat (mt_PatternPos p) div 16 < 64" by (simp add: div_less_iff_less_mult)
  then have "drop_bit 4 (mt_PatternPos p) < 64"
    by (simp add: word_less_nat_alt drop_bit_eq_div unat_div)
  then show ?thesis
    using assms by (simp add: mt_JumpLoop_def Let_def voice_ok_def command_ok_def place_ok_def same_song_def)
qed

lemma PatternBreak_safe:
  assumes "voice_ok ch" "place_ok p" "same_song q p"
  shows "safe q (Inr (ch, mt_PatternBreak ch p))"
proof -
  let ?h = "drop_bit 4 (n_cmdlo ch)" and ?l = "n_cmdlo ch AND 0x0F"
  have "unat ?h < 16" "unat ?l < 16"
    using drop_byte [of "n_cmdlo ch"] nibble [of "n_cmdlo ch"] assms(1)
    by (simp_all add: voice_ok_def word_less_nat_alt word_le_nat_alt)
  then have "unat (?h * 10 + ?l) = unat ?h * 10 + unat ?l"
    by (simp add: unat_word_ariths)
  then have "?h * 10 + ?l < 0x80000000"
    using \<open>unat ?h < 16\<close> \<open>unat ?l < 16\<close> by (simp add: word_less_nat_alt)
  then have "63 <s ?h * 10 + ?l \<longleftrightarrow> 63 < ?h * 10 + ?l" by (intro sless_small) simp_all
  then have "(if 63 <s ?h * 10 + ?l then 0 else ?h * 10 + ?l) < 64"
    by (auto simp: not_less intro: order_le_less_trans)
  then show ?thesis
    using assms by (simp add: mt_PatternBreak_def Let_def place_ok_def same_song_def)
qed

lemma RetrigNote_safe:
  assumes "voice_ok ch" "place_ok p" "same_song q p" "drop_bit 4 (n_cmdlo ch) = 9"
  shows "safe q (and_then (mt_RetrigNote ch p) (\<lambda>p. Inr (ch, p)))"
proof -
  have "n_cmdlo ch AND 0x0F \<noteq> 0" if "n_cmdlo ch \<noteq> 0x90"
  proof
    assume "n_cmdlo ch AND 0x0F = 0"
    then show False using nibbles [of "n_cmdlo ch"] assms(4) that by simp
  qed
  then show ?thesis using assms(1-3) by (simp add: mt_RetrigNote_def)
qed

lemma SetSpeed_safe:
  assumes "voice_ok ch" "place_ok p" "same_song q p"
  shows "safe q (and_then (mt_SetSpeed ch p) (\<lambda>p. Inr (ch, p)))"
proof -
  have "sint (n_cmdlo ch * 5) \<noteq> 0" if "n_cmdlo ch > 0"
  proof -
    have "unat (n_cmdlo ch) < 256" "unat (n_cmdlo ch) \<noteq> 0"
      using assms(1) that by (auto simp: voice_ok_def word_less_nat_alt unat_eq_zero)
    then have "unat (n_cmdlo ch * 5) \<noteq> 0" by (simp add: unat_word_ariths)
    then show ?thesis by (metis signed_eq_0_iff unat_0)
  qed
  then show ?thesis
    using assms by (auto simp: mt_SetSpeed_def SetTempo_def Let_def place_ok_def same_song_def paula_def)
qed

lemma E_Commands_safe:
  assumes "voice_ok ch" "place_ok p" "same_song q p" "signed_drop_bit 8 (n_cmd ch) = 0xE"
  shows "safe q (mt_E_Commands ch p)"
proof -
  have "drop_bit 4 (n_cmdlo ch) \<noteq> 0xF" using assms(1,4) by (simp add: voice_ok_def command_ok_def)
  moreover have "safe q (Inr (ch, p))" using assms(1-3) by simp
  ultimately show ?thesis
    using small_effects_safe [OF assms(1-3)] Porta_safe [OF assms(1-3)] JumpLoop_safe [OF assms(1-3)]
      RetrigNote_safe [OF assms(1-3)]
    unfolding mt_E_Commands_def Let_def by (simp del: safe_Inr)
qed

lemma set_period_safe:
  "voice_ok ch \<Longrightarrow> place_ok p \<Longrightarrow> same_song q p \<Longrightarrow> safe q (Inr (ch, set_period x ch p))"
  by simp

lemma CheckMoreEfx_safe:
  assumes "voice_ok ch" "place_ok p" "same_song q p"
  shows "safe q (mt_CheckMoreEfx ch p)"
  using small_effects_safe [OF assms] PatternBreak_safe [OF assms] SetSpeed_safe [OF assms] E_Commands_safe [OF assms]
    set_period_safe [OF assms]
  unfolding mt_CheckMoreEfx_def UpdateFunk_safe [OF assms(1)] and_then_simps prod.case Let_def
  by (simp del: safe_Inr)

lemma CheckEfx_safe:
  assumes "voice_ok ch" "place_ok p" "same_song q p"
  shows "safe q (mt_CheckEfx ch p)"
proof -
  have arp: "safe q (and_then (mt_Arpeggio ch p) (\<lambda>p. Inr (ch, p)))" if "signed_drop_bit 8 (n_cmd ch) = 0"
    using Arpeggio_safe [OF assms that] assms(1) by auto
  have tone: "safe q (mt_TonePlusVolSlide ch p)"
    unfolding mt_TonePlusVolSlide_def
    by (rule safe_and_then [OF UpdateTonePortamento_safe [OF assms]])
      (use small_effects_safe(5) same_song_trans assms(3) in \<open>auto simp del: safe_Inr\<close>)
  have per: "place_ok (set_period x ch p)" "same_song q (set_period x ch p)" for x using assms by simp_all
  show ?thesis
    using small_effects_safe [OF assms] Porta_safe [OF assms] TonePortamento_safe [OF assms] E_Commands_safe [OF assms]
      set_period_safe [OF assms] arp tone small_effects_safe(5,17) [OF assms(1) per]
    unfolding mt_CheckEfx_def UpdateFunk_safe [OF assms(1)] and_then_simps prod.case Let_def
    by (simp del: safe_Inr)
qed

lemma SetPeriod_safe:
  assumes "voice_ok ch" "place_ok p" "same_song q p"
  shows "safe q (mt_SetPeriod ch p)"
proof -
  have ft: "n_finetune ch < 16" "unat (n_finetune ch) < 16" and note_small: "n_note ch < 0x80000000"
    using assms(1) by (auto simp: voice_ok_def word_less_nat_alt)
  obtain i where i: "i \<le> 36" "find_period (\<lambda>x. x \<le>s n_note ch) (0 * 37) [0..<37] = Inr (Some i)"
    by (rule find_period_tuned [of 0, OF _ note_small]) simp_all
  let ?x = "mt_PeriodTable ! (37 * unat (n_finetune ch) + i)"
  have x: "period_at (n_finetune ch * 37 + of_nat i) = Inr ?x" "?x \<le> 907"
    using ft i(1) by (auto intro!: period_at_tuned period_small)
  have v: "voice_ok (ch\<lparr>n_period := ?x\<rparr>)" "voice_ok (ch\<lparr>n_period := ?x, n_vibratopos := 0\<rparr>)"
    "voice_ok (ch\<lparr>n_period := ?x, n_tremolopos := 0\<rparr>)" "voice_ok (ch\<lparr>n_period := ?x, n_vibratopos := 0, n_tremolopos := 0\<rparr>)"
    using assms(1) x(2) by (simp_all add: voice_ok_def command_ok_def)
  show ?thesis
    unfolding mt_SetPeriod_def i(2) [simplified] and_then_simps option.case x(1) Let_def
    using assms(2,3) by (auto intro!: CheckMoreEfx_safe v simp del: safe_Inr)
qed

section \<open>Rows\<close>

lemma song_byte_less [simp]: "song_byte p i < 256"
proof -
  have "unat (ram p (mt_SongDataPtr p + i)) < 256"
    using unsigned_less [of "ram p (mt_SongDataPtr p + i)", where ?'a = nat] by simp
  then have "take_bit 32 (unat (ram p (mt_SongDataPtr p + i))) < 256"
    by (rule order_le_less_trans [OF take_bit_nat_less_eq_self])
  then show ?thesis by (simp add: song_byte_def word_less_nat_alt unsigned_ucast_eq)
qed

lemma same_song_reads: "same_song p q \<Longrightarrow> song_byte q i = song_byte p i" "same_song p q \<Longrightarrow> song_word q i = song_word p i"
  by (simp_all add: same_song_def song_byte_def song_word_def)

text \<open>The row of a channel: its sample is one of the 31 and has a finetune below 16, and its command
  is not one of those that go wrong.\<close>

definition row_ok :: "player \<Rightarrow> u32 \<Rightarrow> bool" where
  "row_ok p a \<longleftrightarrow>
     (let period = song_word p (1084 + a); smp = song_byte p (1084 + a + 2); lo = song_byte p (1084 + a + 3);
          sample = drop_bit 8 (period AND 0xF000) OR drop_bit 4 smp
      in sample < 32 \<and> (sample \<ge> 1 \<longrightarrow> song_byte p (42 + (sample - 1) * 30 + 2) < 16) \<and>
         (smp AND 0x0F = 0xE \<longrightarrow> drop_bit 4 lo \<noteq> 0xF) \<and>
         (smp AND 0x0F = 0 \<longrightarrow> drop_bit 4 lo < 15 \<and> lo AND 0x0F < 15))"

lemma small_bits:
  fixes y :: u32
  assumes "unat y < 2 ^ k" "bit y n"
  shows "n < k"
proof -
  have "bit (unat y) n" using assms(2) by (simp add: bit_unsigned_iff)
  moreover have "take_bit k (unat y) = unat y" using assms(1) by (rule take_bit_nat_eq_self)
  ultimately show ?thesis by (metis bit_take_bit_iff)
qed

lemma command_high:
  fixes x y :: u32
  assumes "x < 16" "y < 256"
  shows "signed_drop_bit 8 (push_bit 8 x OR y) = x"
proof (rule bit_word_eqI)
  fix n :: nat
  have x: "m < 4" if "bit x m" for m using small_bits [of x 4 m] assms(1) that by (simp add: word_less_nat_alt)
  have y: "m < 8" if "bit y m" for m using small_bits [of y 8 m] assms(2) that by (simp add: word_less_nat_alt)
  show "bit (signed_drop_bit 8 (push_bit 8 x OR y)) n = bit x n" if "n < LENGTH(32)"
    using that x [of 23] x [of n] y [of "8 + n"] y [of 31]
    by (auto simp: bit_signed_drop_bit_iff bit_or_iff bit_push_bit_iff)
qed

lemma set_sample_safe:
  assumes "voice_ok ch" "place_ok p" "same_song q p" "k < 31" "song_byte p (42 + k * 30 + 2) < 16"
  shows "safe q (set_sample k ch p)"
  using assms by (simp add: set_sample_def Let_def word_less_nat_alt voice_ok_def command_ok_def)

lemma play_rest_safe:
  assumes "voice_ok ch" "place_ok p" "same_song q p"
  shows "safe q (if n_note ch = 0 then mt_CheckMoreEfx ch p
         else if n_cmd ch AND 0x0FF0 = 0x0E50 then mt_SetPeriod (mt_SetFineTune ch) p
         else if signed_drop_bit 8 (n_cmd ch) = 0x3 \<or> signed_drop_bit 8 (n_cmd ch) = 0x5
         then and_then (mt_SetTonePorta ch) (\<lambda>ch. mt_CheckMoreEfx ch p)
         else if signed_drop_bit 8 (n_cmd ch) = 0x9 then and_then (mt_CheckMoreEfx ch p) (\<lambda>(ch, p). mt_SetPeriod ch p)
         else mt_SetPeriod ch p)"
proof -
  have fine: "voice_ok (mt_SetFineTune ch)"
    using small_effects_safe(3) [OF assms] by simp
  have porta: "safe q (and_then (mt_SetTonePorta ch) (\<lambda>ch. mt_CheckMoreEfx ch p))"
    using SetTonePorta_safe [OF assms(1)] CheckMoreEfx_safe [OF _ assms(2,3)] by fastforce
  have offset: "safe q (and_then (mt_CheckMoreEfx ch p) (\<lambda>(ch, p). mt_SetPeriod ch p))"
    by (rule safe_and_then [OF CheckMoreEfx_safe [OF assms]]) (auto intro: SetPeriod_safe)
  show ?thesis
    using CheckMoreEfx_safe [OF assms] SetPeriod_safe [OF fine assms(2,3)] SetPeriod_safe [OF assms] porta offset by simp
qed

lemma PlayVoice_safe:
  assumes "voice_ok ch" "place_ok p" "row_ok p a"
  shows "safe p (mt_PlayVoice a ch p)"
proof -
  define p1 where "p1 = (if n_note ch = 0 then set_period (n_period ch) ch p else p)"
  have p1: "place_ok p1" "same_song p p1" using assms(2) by (simp_all add: p1_def)
  note r = same_song_reads [OF p1(2)]
  define period where "period = song_word p (1084 + a)"
  define smp where "smp = song_byte p (1084 + a + 2)"
  define lo where "lo = song_byte p (1084 + a + 3)"
  define sample where "sample = drop_bit 8 (period AND 0xF000) OR drop_bit 4 smp"
  have row: "sample < 32" "1 \<le> sample \<Longrightarrow> song_byte p (42 + (sample - 1) * 30 + 2) < 16"
    "smp AND 0x0F = 0xE \<Longrightarrow> drop_bit 4 lo \<noteq> 0xF" "smp AND 0x0F = 0 \<Longrightarrow> drop_bit 4 lo < 15 \<and> lo AND 0x0F < 15"
    using assms(3) unfolding row_ok_def Let_def period_def [symmetric] smp_def [symmetric] lo_def [symmetric]
      sample_def [symmetric] by blast+
  define ch1 where "ch1 = ch\<lparr>n_note := period AND 0x0FFF, n_cmd := push_bit 8 (smp AND 0x0F) OR lo, n_cmdlo := lo\<rparr>"
  have "smp AND 0x0F < 16" "period AND 0x0FFF < 4096" "lo < 256"
    using nibble [of smp] word_and_le1 [of period "0x0FFF"] by (simp_all add: le_less_trans lo_def)
  then have ch1: "voice_ok ch1"
    using assms(1) row(3,4) by (simp add: ch1_def voice_ok_def command_ok_def command_high del: push_bit_and)
  have smp: "safe p (if 1 \<le> sample \<and> sample \<le> 32 then set_sample (sample - 1) ch1 p1 else Inr (ch1, p1))"
  proof (cases "1 \<le> sample")
    case True
    then have "sample - 1 < 31" "sample \<le> 32" using row(1) by unat_arith+
    then show ?thesis
      using set_sample_safe [OF ch1 p1, of "sample - 1"] row(1,2) True r by simp
  qed (use ch1 p1 in simp)
  have eq: "mt_PlayVoice a ch p = and_then (if 1 \<le> sample \<and> sample \<le> 32 then set_sample (sample - 1) ch1 p1 else Inr (ch1, p1))
      (\<lambda>(ch, p). if n_note ch = 0 then mt_CheckMoreEfx ch p
         else if n_cmd ch AND 0x0FF0 = 0x0E50 then mt_SetPeriod (mt_SetFineTune ch) p
         else if signed_drop_bit 8 (n_cmd ch) = 0x3 \<or> signed_drop_bit 8 (n_cmd ch) = 0x5
         then and_then (mt_SetTonePorta ch) (\<lambda>ch. mt_CheckMoreEfx ch p)
         else if signed_drop_bit 8 (n_cmd ch) = 0x9 then and_then (mt_CheckMoreEfx ch p) (\<lambda>(ch, p). mt_SetPeriod ch p)
         else mt_SetPeriod ch p)"
    unfolding mt_PlayVoice_def p1_def [symmetric] r Let_def
    by (simp add: period_def smp_def lo_def sample_def ch1_def)
  show ?thesis
    unfolding eq by (rule safe_and_then [OF smp]) (use play_rest_safe in \<open>auto simp del: safe_Inr\<close>)
qed

section \<open>Ticks\<close>

text \<open>Every row of every pattern of the song.\<close>

definition song_ok :: "player \<Rightarrow> bool" where
  "song_ok p \<longleftrightarrow> (\<forall>pos < 128. \<forall>row \<in> {0..<64 :: nat}. \<forall>i \<in> {0..<4 :: nat}.
     row_ok p (push_bit 10 (song_byte p (952 + pos)) + (16 * of_nat row + 4 * of_nat i)))"

definition player_ok :: "pt_chn list \<times> player \<Rightarrow> bool" where
  "player_ok = (\<lambda>(chs, p). length chs = 4 \<and> list_all voice_ok chs \<and> place_ok p \<and> mt_SongPos p < 128 \<and> song_ok p)"

lemma same_song_row_ok: "same_song p q \<Longrightarrow> row_ok q a = row_ok p a"
  by (simp add: row_ok_def same_song_reads)

lemma same_song_song_ok: "same_song p q \<Longrightarrow> song_ok q = song_ok p"
  by (simp add: song_ok_def same_song_row_ok same_song_reads)

lemma voices_safe:
  assumes "list_all voice_ok chs" "place_ok p"
    and "\<And>i ch q. i < length chs \<Longrightarrow> voice_ok ch \<Longrightarrow> place_ok q \<Longrightarrow> same_song p q \<Longrightarrow> safe q (f (a + 4 * of_nat i) ch q)"
  shows "\<exists>chs' p'. voices f a chs p = Inr (chs', p') \<and> length chs' = length chs \<and> list_all voice_ok chs' \<and>
    place_ok p' \<and> same_song p p'"
  using assms
proof (induction chs arbitrary: a p)
  case (Cons ch chs)
  have "safe p (f a ch p)" using Cons.prems(3) [of 0 ch p] Cons.prems(1,2) by simp
  then obtain ch' q where q: "f a ch p = Inr (ch', q)" "voice_ok ch'" "place_ok q" "same_song p q"
    by (auto simp: safe_def)
  have "safe r (f (a + 4 + 4 * of_nat i) c r)"
    if "i < length chs" "voice_ok c" "place_ok r" "same_song q r" for i c r
    using Cons.prems(3) [of "Suc i" c r] that same_song_trans [OF q(4) that(4)] by (simp add: algebra_simps)
  then obtain chs' p' where "voices f (a + 4) chs q = Inr (chs', p')" "length chs' = length chs"
    "list_all voice_ok chs'" "place_ok p'" "same_song q p'"
    using Cons.IH [of q "a + 4"] Cons.prems(1) q(3) by auto
  then show ?case using q same_song_trans [OF q(4)] by auto
qed simp

lemma CheckEfx_voices_safe:
  assumes "list_all voice_ok chs" "place_ok p"
  obtains chs' p' where "voices (\<lambda>_. mt_CheckEfx) 0 chs p = Inr (chs', p')" "length chs' = length chs"
    "list_all voice_ok chs'" "place_ok p'" "same_song p p'"
  using voices_safe [OF assms, of "\<lambda>_. mt_CheckEfx" 0] CheckEfx_safe same_song_refl by blast

lemma nextPosition_place:
  assumes "mt_PBreakPos p < 64"
  shows "place_ok (mt_nextPosition p)" "mt_SongPos (mt_nextPosition p) < 128" "same_song p (mt_nextPosition p)"
proof -
  have b: "unat (mt_PBreakPos p) < 64" using assms by (simp add: word_less_nat_alt)
  then have u: "unat (push_bit 4 (mt_PBreakPos p)) = 16 * unat (mt_PBreakPos p)"
    by (simp add: push_bit_eq_mult unat_word_ariths)
  have "(mt_SongPos p + 1) AND 0x7F < 128"
    using word_and_le1 [of "mt_SongPos p + 1" "0x7F"] by (rule order_le_less_trans) simp
  then show "place_ok (mt_nextPosition p)" "mt_SongPos (mt_nextPosition p) < 128" "same_song p (mt_nextPosition p)"
    using b u by (simp_all add: mt_nextPosition_def Let_def place_ok_def same_song_def word_less_nat_alt del: push_bit_of_nat)
qed

lemma dskip_place:
  assumes "place_ok p"
  shows "place_ok (mt_dskip p)" "mt_SongPos (mt_dskip p) < 128" "same_song p (mt_dskip p)"
proof -
  have x: "unat (mt_PatternPos p) < 1024" "16 dvd unat (mt_PatternPos p)" and b: "mt_PBreakPos p < 64"
    and jump: "mt_SongPos p < 128 \<or> mt_PosJumpFlag p = 1"
    using assms by (simp_all add: place_ok_def word_less_nat_alt)
  have x16: "unat (mt_PatternPos p + 16) = unat (mt_PatternPos p) + 16" using x(1) by (simp add: unat_word_ariths)
  have u: "unat (push_bit 4 (mt_PBreakPos p)) = 16 * unat (mt_PBreakPos p)"
    using b by (simp add: push_bit_eq_mult unat_word_ariths word_less_nat_alt)
  obtain p' where p': "mt_dskip p = (if mt_PatternPos p' \<ge> 1024 \<or> mt_PosJumpFlag p' = 1 then mt_nextPosition p' else p')"
    and fields: "mt_PatternPos p' \<in> {mt_PatternPos p, mt_PatternPos p + 16, push_bit 4 (mt_PBreakPos p)}"
      "mt_PBreakPos p' < 64" "mt_SongPos p' = mt_SongPos p" "mt_PosJumpFlag p' = mt_PosJumpFlag p" "same_song p p'"
  proof
    let ?p1 = "p\<lparr>mt_PatternPos := mt_PatternPos p + 16\<rparr>"
    let ?p2 = "if 0 <s mt_PattDelTime ?p1 then ?p1\<lparr>mt_PattDelTime2 := mt_PattDelTime ?p1, mt_PattDelTime := 0\<rparr> else ?p1"
    let ?p3 = "if 0 <s mt_PattDelTime2 ?p2 then
                 (let p = ?p2\<lparr>mt_PattDelTime2 := mt_PattDelTime2 ?p2 - 1\<rparr>
                  in if 0 <s mt_PattDelTime2 p then p\<lparr>mt_PatternPos := mt_PatternPos p - 16\<rparr> else p)
               else ?p2"
    let ?p4 = "if mt_PBreakFlag ?p3 = 1
               then ?p3\<lparr>mt_PBreakFlag := 0, mt_PatternPos := push_bit 4 (mt_PBreakPos ?p3), mt_PBreakPos := 0\<rparr> else ?p3"
    show "mt_dskip p = (if mt_PatternPos ?p4 \<ge> 1024 \<or> mt_PosJumpFlag ?p4 = 1 then mt_nextPosition ?p4 else ?p4)"
      by (simp only: mt_dskip_def Let_def)
    have p2: "mt_PatternPos ?p2 = mt_PatternPos p + 16" "mt_PBreakPos ?p2 = mt_PBreakPos p" "mt_SongPos ?p2 = mt_SongPos p"
      "mt_PosJumpFlag ?p2 = mt_PosJumpFlag p" "same_song p ?p2"
      by (simp_all add: same_song_def)
    have p3: "mt_PatternPos ?p3 \<in> {mt_PatternPos p, mt_PatternPos p + 16}" "mt_PBreakPos ?p3 = mt_PBreakPos p"
      "mt_SongPos ?p3 = mt_SongPos p" "mt_PosJumpFlag ?p3 = mt_PosJumpFlag p" "same_song p ?p3"
      using p2 by (simp_all add: Let_def same_song_def)
    show "mt_PatternPos ?p4 \<in> {mt_PatternPos p, mt_PatternPos p + 16, push_bit 4 (mt_PBreakPos p)}"
      "mt_PBreakPos ?p4 < 64" "mt_SongPos ?p4 = mt_SongPos p" "mt_PosJumpFlag ?p4 = mt_PosJumpFlag p" "same_song p ?p4"
      using p3 b by (auto simp: same_song_def)
  qed
  show "place_ok (mt_dskip p)" "mt_SongPos (mt_dskip p) < 128" "same_song p (mt_dskip p)"
  proof -
    consider "mt_PatternPos p' \<ge> 1024 \<or> mt_PosJumpFlag p' = 1" | "mt_PatternPos p' < 1024" "mt_PosJumpFlag p' \<noteq> 1"
      by fastforce
    then have "place_ok (mt_dskip p) \<and> mt_SongPos (mt_dskip p) < 128 \<and> same_song p (mt_dskip p)"
    proof cases
      case 1
      then show ?thesis
        using nextPosition_place [OF fields(2)] same_song_trans [OF fields(5)] p' by simp
    next
      case 2
      then have d: "mt_dskip p = p'" by (metis linorder_not_le p')
      have "16 dvd unat (mt_PatternPos p')" using fields(1) x x16 u by auto
      then show ?thesis unfolding d using 2 fields jump by (simp add: place_ok_def)
    qed
    then show "place_ok (mt_dskip p)" "mt_SongPos (mt_dskip p) < 128" "same_song p (mt_dskip p)" by simp_all
  qed
qed

lemma song_rows:
  assumes "player_ok (chs, p)" "i < 4"
  shows "row_ok p (push_bit 10 (song_byte p (952 + mt_SongPos p)) + mt_PatternPos p + 4 * of_nat i)"
proof -
  have ok: "place_ok p" "mt_SongPos p < 128" "song_ok p" using assms(1) by (simp_all add: player_ok_def)
  define n where "n = unat (mt_PatternPos p) div 16"
  have n: "n < 64" "unat (mt_PatternPos p) = 16 * n"
    using ok(1) by (auto simp: n_def place_ok_def word_less_nat_alt)
  then have pos: "mt_PatternPos p = 16 * of_nat n" by (metis of_nat_mult of_nat_numeral of_nat_unat ucast_id)
  have "row_ok p (push_bit 10 (song_byte p (952 + mt_SongPos p)) + (16 * of_nat n + 4 * of_nat i))"
    using ok(2,3) n(1) assms(2) unfolding song_ok_def by (metis atLeastLessThan_iff zero_le)
  then show ?thesis by (simp add: pos add.assoc)
qed

lemma music_safe:
  assumes "player_ok (chs, p)"
  shows "\<exists>chs' p'. mt_music (chs, p) = Inr (chs', p') \<and> player_ok (chs', p') \<and> ram p' = ram p"
proof (cases "mt_Enable p = 1")
  case False
  then show ?thesis using assms by (simp add: mt_music_def)
next
  case True
  have ok: "length chs = 4" "list_all voice_ok chs" "place_ok p" "mt_SongPos p < 128" "song_ok p"
    using assms by (simp_all add: player_ok_def)
  have finish: "player_ok (chs', p') \<and> ram p' = ram p"
    if "length chs' = 4" "list_all voice_ok chs'" "place_ok p'" "mt_SongPos p' < 128" "same_song p p'" for chs' p'
    using that same_song_song_ok [OF that(5)] ok(5) by (simp add: player_ok_def same_song_def)
  let ?p = "p\<lparr>mt_counter := mt_counter p + 1\<rparr>"
  have p: "place_ok ?p" "same_song p ?p" using ok(3) by (simp_all add: place_ok_def same_song_def)
  show ?thesis
  proof (cases "mt_speed p \<le> mt_counter p + 1")
    case False
    obtain chs' q where q: "voices (\<lambda>_. mt_CheckEfx) 0 chs ?p = Inr (chs', q)" "length chs' = length chs"
      "list_all voice_ok chs'" "place_ok q" "same_song ?p q"
      by (rule CheckEfx_voices_safe [OF ok(2) p(1)])
    let ?q = "if mt_PosJumpFlag q = 1 then mt_nextPosition q else q"
    have "mt_music (chs, p) = Inr (chs', ?q)"
      using True False q(1) by (simp add: mt_music_def Let_def)
    moreover have "place_ok ?q" "mt_SongPos ?q < 128" "same_song q ?q"
      using nextPosition_place [of q] q(4) by (auto simp: place_ok_def)
    ultimately show ?thesis
      using finish [of chs' ?q] q ok(1) same_song_trans [OF p(2) same_song_trans [OF q(5)]] by auto
  next
    case row: True
    let ?p0 = "?p\<lparr>mt_counter := 0\<rparr>"
    have p0: "place_ok ?p0" "same_song p ?p0" using ok(3) by (simp_all add: place_ok_def same_song_def)
    have "\<exists>chs' q. mt_music (chs, p) = Inr (chs', mt_dskip q) \<and> length chs' = 4 \<and> list_all voice_ok chs' \<and>
        place_ok q \<and> same_song p q"
    proof (cases "mt_PattDelTime2 p = 0")
      case False
      obtain chs' q where q: "voices (\<lambda>_. mt_CheckEfx) 0 chs ?p0 = Inr (chs', q)" "length chs' = length chs"
        "list_all voice_ok chs'" "place_ok q" "same_song ?p0 q"
        by (rule CheckEfx_voices_safe [OF ok(2) p0(1)])
      have "mt_music (chs, p) = Inr (chs', mt_dskip q)"
        using True False row q(1) by (simp add: mt_music_def Let_def)
      then show ?thesis using q ok(1) same_song_trans [OF p0(2) q(5)] by auto
    next
      case no_delay: True
      let ?a = "push_bit 10 (song_byte ?p0 (952 + mt_SongPos ?p0)) + mt_PatternPos ?p0"
      have rows: "row_ok p (?a + 4 * of_nat i)" if "i < 4" for i
        using song_rows [OF assms that] same_song_reads [OF p0(2)] by simp
      have sp: "safe q (mt_PlayVoice (?a + 4 * of_nat i) ch q)"
        if "i < length chs" "voice_ok ch" "place_ok q" "same_song ?p0 q" for i ch q
        using PlayVoice_safe [OF that(2,3)] rows that(1) ok(1) same_song_row_ok [OF same_song_trans [OF p0(2) that(4)]]
        by simp
      have "\<exists>chs' q. voices mt_PlayVoice ?a chs ?p0 = Inr (chs', q) \<and> length chs' = length chs \<and>
          list_all voice_ok chs' \<and> place_ok q \<and> same_song ?p0 q"
        by (rule voices_safe [OF ok(2) p0(1)]) (rule sp)
      then obtain chs' q where q: "voices mt_PlayVoice ?a chs ?p0 = Inr (chs', q)" "length chs' = length chs"
        "list_all voice_ok chs'" "place_ok q" "same_song ?p0 q" by blast
      let ?ws = "concat (map2 (\<lambda>i ch. set_loop i (n_loopstart ch) (n_replen ch)) [0, 1, 2, 3] chs')"
      have "mt_music (chs, p) = Inr (chs', mt_dskip (paula ?ws q))"
        using True no_delay row q(1) by (simp add: mt_music_def Let_def)
      then show ?thesis
        using q ok(1) same_song_trans [OF p0(2) q(5)] by (intro exI [of _ chs'] exI [of _ "paula ?ws q"]) simp
    qed
    then obtain chs' q where "mt_music (chs, p) = Inr (chs', mt_dskip q)" "length chs' = 4" "list_all voice_ok chs'"
      "place_ok q" "same_song p q" by blast
    then show ?thesis
      using finish [of chs' "mt_dskip q"] dskip_place [of q] same_song_trans [of p q "mt_dskip q"] by auto
  qed
qed

section \<open>Playing\<close>

text \<open>The channels \<open>mt_chan1temp\<close> to \<open>mt_chan4temp\<close> as they are initialised.\<close>

definition initial_channel :: "u32 \<Rightarrow> pt_chn" where
  "initial_channel i = \<lparr>n_note = 0, n_cmd = 0, n_index = i, n_start = 0, n_wavestart = 0, n_loopstart = 0, n_volume = 0,
     n_toneportdirec = 0, n_vibratopos = 0, n_tremolopos = 0, n_pattpos = 0, n_loopcount = 0, n_cmdlo = 0, n_finetune = 0,
     n_wavecontrol = 0, n_glissfunk = 0, n_sampleoffset = 0, n_toneportspeed = 0, n_vibratocmd = 0, n_tremolocmd = 0,
     n_funkoffset = 0, n_period = 0, n_wantedperiod = 0, n_length = 0, n_replen = 0, n_repend = 0\<rparr>"

definition initial_channels :: "pt_chn list" where
  "initial_channels = map initial_channel [0, 1, 2, 3]"

primrec ticks :: "nat \<Rightarrow> pt_chn list \<times> player \<Rightarrow> (pt_chn list \<times> player) result" where
  "ticks 0 s = Inr s"
| "ticks (Suc n) s = and_then (mt_music s) (ticks n)"

lemma ticks_safe:
  assumes "player_ok s"
  shows "\<exists>s'. ticks n s = Inr s' \<and> player_ok s' \<and> ram (snd s') = ram (snd s)"
  using assms
proof (induction n arbitrary: s)
  case (Suc n)
  obtain t where t: "mt_music s = Inr t" "player_ok t" "ram (snd t) = ram (snd s)"
    using music_safe [of "fst s" "snd s"] Suc.prems by auto
  then show ?case using Suc.IH [OF t(2)] by simp
qed simp

definition sample_player :: player where
  "sample_player = \<lparr>mt_SampleStarts = replicate 31 0, tempoMode = 0, mt_SongPos = 0, mt_PosJumpFlag = 0, mt_PBreakFlag = 0,
     mt_Enable = 0, mt_PBreakPos = 0, mt_PattDelTime = 0, mt_PattDelTime2 = 0, mt_SongDataPtr = 0, mt_LowMask = 0,
     mt_counter = 0, mt_speed = 0, mt_PatternPos = 0, ram = (\<lambda>_. 0), sound = []\<rparr>"

lemma started_song_plays:
  assumes "ptBuddyPlay modData timerType p = Inr p0" "song_ok p0"
  shows "\<exists>chs' p'. ticks n (initial_channels, p0) = Inr (chs', p') \<and> player_ok (chs', p') \<and> ram p' = ram p"
proof -
  have p0: "mt_PatternPos p0 = 0" "mt_PBreakPos p0 = 0" "mt_SongPos p0 = 0" "ram p0 = ram p"
    using assms(1) by (auto simp: ptBuddyPlay_def SetTempo_def mt_init_def Let_def paula_def)
  have "player_ok (initial_channels, p0)"
    using p0 assms(2)
    by (simp add: player_ok_def initial_channels_def initial_channel_def voice_ok_def command_ok_def place_ok_def)
  then show ?thesis using ticks_safe [of "(initial_channels, p0)" n] p0(4) by fastforce
qed

text \<open>
  C32. A song whose rows use only samples 1 to 31 with a finetune below 16, no inverted loop (EFx)
  and no arpeggio by 15 half-tones does not go wrong: however long it plays, the player reads inside
  of its tables, never divides by zero, keeps the position inside of the song and of the pattern and
  every channel well formed, and leaves the memory unchanged.
\<close>
theorem well_formed_songs_play:
  assumes "ptBuddyPlay modData timerType p = Inr p0" "song_ok p0"
  shows "\<exists>chs' p'. ticks n (initial_channels, p0) = Inr (chs', p') \<and> player_ok (chs', p') \<and> ram p' = ram p"
  by (rule started_song_plays [OF assms])

lemma well_formed_songs_play_witness:
  "\<exists>p0 chs' p'. ptBuddyPlay 0 0 sample_player = Inr p0 \<and> ticks 1000 (initial_channels, p0) = Inr (chs', p') \<and>
    player_ok (chs', p')"
proof -
  obtain p0 where p0: "ptBuddyPlay 0 0 sample_player = Inr p0"
    by (simp add: ptBuddyPlay_def SetTempo_def mt_init_def Let_def)
  then have "ram p0 = (\<lambda>_. 0)"
    by (auto simp: ptBuddyPlay_def SetTempo_def mt_init_def Let_def paula_def sample_player_def)
  then have "song_ok p0" by (simp add: song_ok_def row_ok_def song_byte_def song_word_def)
  then show ?thesis using well_formed_songs_play [OF p0, of 1000] p0 by blast
qed

section \<open>Loops\<close>

definition loop_call :: "player \<Rightarrow> pt_chn \<Rightarrow> pt_chn" where
  "loop_call p ch = fst (mt_JumpLoop ch p)"

lemma loop_first:
  assumes "mt_counter p = 0" "n_cmdlo ch AND 0x0F \<noteq> 0" "n_loopcount ch = 0"
  shows "mt_JumpLoop ch p = (ch\<lparr>n_loopcount := n_cmdlo ch AND 0x0F\<rparr>, p\<lparr>mt_PBreakPos := n_pattpos ch, mt_PBreakFlag := 1\<rparr>)"
  using assms by (simp add: mt_JumpLoop_def Let_def)

lemma loop_next:
  assumes "mt_counter p = 0" "n_cmdlo ch AND 0x0F \<noteq> 0" "c \<noteq> 0" "c \<le> 15"
  shows "mt_JumpLoop (ch\<lparr>n_loopcount := c\<rparr>) p =
    (ch\<lparr>n_loopcount := c - 1\<rparr>, if c = 1 then p else p\<lparr>mt_PBreakPos := n_pattpos ch, mt_PBreakFlag := 1\<rparr>)"
proof -
  have "c < 0x80000000" using assms(4) by (rule order_le_less_trans) simp
  then have "\<not> c \<le>s 0" using sless_small(2) [of c 0] assms(3) by simp
  then show ?thesis using assms(1,2) by (auto simp: mt_JumpLoop_def Let_def)
qed

lemma loop_calls:
  assumes "mt_counter p = 0" "n_cmdlo ch AND 0x0F = d" "d \<noteq> 0" "n_loopcount ch = 0" "Suc k \<le> unat d"
  shows "(loop_call p ^^ Suc k) ch = ch\<lparr>n_loopcount := of_nat (unat d - k)\<rparr>"
  using assms(5)
proof (induction k)
  case 0
  then show ?case using loop_first [of p ch] assms(1-4) by (simp add: loop_call_def)
next
  case (Suc k)
  have "unat d \<le> 15" using nibble [of "n_cmdlo ch"] assms(2) by (simp add: word_le_nat_alt)
  then have c: "unat (of_nat (unat d - k) :: u32) = unat d - k" by (simp add: unat_of_nat)
  have "loop_call p (ch\<lparr>n_loopcount := of_nat (unat d - k)\<rparr>) = ch\<lparr>n_loopcount := of_nat (unat d - k) - 1\<rparr>"
    unfolding loop_call_def
    using loop_next [OF assms(1), of ch "of_nat (unat d - k)"] assms(2,3) Suc.prems c \<open>unat d \<le> 15\<close>
    by (simp add: word_unat_eq_iff word_le_nat_alt)
  moreover have "(of_nat (unat d - k) - 1 :: u32) = of_nat (unat d - Suc k)"
    using Suc.prems by simp
  ultimately show ?case using Suc by simp
qed

text \<open>
  The pattern loop E6x repeats exactly x times: starting with no loop under way, the first x
  calls at the row jump back to the stored row, the next one does not and leaves no loop under way.
\<close>
theorem pattern_loop_repeats:
  assumes "mt_counter p = 0" "n_cmdlo ch AND 0x0F = d" "d \<noteq> 0" "n_loopcount ch = 0" "k \<le> unat d"
  shows "mt_JumpLoop ((loop_call p ^^ k) ch) p =
    (if k < unat d then ((loop_call p ^^ Suc k) ch, p\<lparr>mt_PBreakPos := n_pattpos ch, mt_PBreakFlag := 1\<rparr>)
     else (ch\<lparr>n_loopcount := 0\<rparr>, p))"
proof (cases k)
  case 0
  then show ?thesis using loop_first [of p ch] assms(1-4) by (simp add: loop_call_def unat_eq_zero word_neq_0_conv [symmetric])
next
  case (Suc j)
  have "unat d \<le> 15" using nibble [of "n_cmdlo ch"] assms(2) by (simp add: word_le_nat_alt)
  then have c: "unat (of_nat (unat d - j) :: u32) = unat d - j" by (simp add: unat_of_nat)
  have k: "(loop_call p ^^ k) ch = ch\<lparr>n_loopcount := of_nat (unat d - j)\<rparr>"
    using loop_calls [OF assms(1-4), of j] assms(5) Suc by simp
  have "mt_JumpLoop (ch\<lparr>n_loopcount := of_nat (unat d - j)\<rparr>) p =
      (ch\<lparr>n_loopcount := of_nat (unat d - j) - 1\<rparr>,
       if of_nat (unat d - j) = (1 :: u32) then p else p\<lparr>mt_PBreakPos := n_pattpos ch, mt_PBreakFlag := 1\<rparr>)"
    using loop_next [OF assms(1), of ch "of_nat (unat d - j)"] assms(2,3,5) Suc c \<open>unat d \<le> 15\<close>
    by (simp add: word_unat_eq_iff word_le_nat_alt)
  moreover have "of_nat (unat d - j) = (1 :: u32) \<longleftrightarrow> \<not> k < unat d"
    using c Suc assms(5) by (auto simp: word_unat_eq_iff)
  ultimately show ?thesis by (simp add: k loop_call_def)
qed

lemma pattern_loop_repeats_witness:
  "mt_JumpLoop ((loop_call sample_player ^^ 3) ((initial_channel 0)\<lparr>n_cmdlo := 0x63\<rparr>)) sample_player =
     ((initial_channel 0)\<lparr>n_cmdlo := 0x63\<rparr>, sample_player)"
  using pattern_loop_repeats [of sample_player "(initial_channel 0)\<lparr>n_cmdlo := 0x63\<rparr>" 3 3]
  by (simp add: sample_player_def initial_channel_def)

lemma small_positive: "0 <s x \<longleftrightarrow> x \<noteq> 0" if "x < 0x80000000" for x :: u32
  using sless_small(1) [of 0 x] that by (simp add: word_neq_0_conv)

section \<open>Effects that go wrong\<close>

text \<open>
  Every inverted loop EFx, on the first tick of its row, reads outside of the table of 16
  speeds, since the speed taken is the whole parameter 240 + x instead of x.
\<close>
theorem invert_loop_reads_outside:
  assumes "mt_counter p = 0" "signed_drop_bit 8 (n_cmd ch) = 0xE" "drop_bit 4 (n_cmdlo ch) = 0xF" "n_glissfunk ch < 16"
  shows "mt_CheckMoreEfx ch p = Inl (OutsideFunkTable (unat (n_cmdlo ch))) \<and> unat (n_cmdlo ch) = 240 + unat (n_cmdlo ch AND 0x0F)"
proof -
  let ?lo = "n_cmdlo ch AND 0x0F"
  have lo: "n_cmdlo ch = 240 + ?lo" "unat ?lo \<le> 15"
    using nibbles [of "n_cmdlo ch"] nibble [of "n_cmdlo ch"] assms(3) by (simp_all add: word_le_nat_alt)
  from lo(2) have "unat (240 + ?lo) = 240 + unat ?lo" by (simp add: unat_word_ariths)
  with arg_cong [OF lo(1), of unat] have u: "unat (n_cmdlo ch) = 240 + unat ?lo" by (rule trans)
  have start: "mt_UpdateFunk ch p = Inr (ch, p)" using assms(4) by (rule UpdateFunk_off)
  define g where "g = push_bit 4 (n_cmdlo ch) OR (n_glissfunk ch AND 0x0F)"
  have "drop_bit 4 g = n_cmdlo ch"
  proof (rule bit_word_eqI)
    fix n assume n: "n < LENGTH(32)"
    have "m < 8" if "bit (n_cmdlo ch) m" for m
      using small_bits [of "n_cmdlo ch" 8 m] that u lo(2) by simp
    moreover have "m < 4" if "bit (n_glissfunk ch AND 0x0F) m" for m
      using small_bits [of "n_glissfunk ch AND 0x0F" 4 m] that nibble [of "n_glissfunk ch"] by (simp add: word_le_nat_alt)
    ultimately show "bit (drop_bit 4 g) n = bit (n_cmdlo ch) n"
      using n by (fastforce simp: g_def bit_drop_bit_eq bit_or_iff bit_push_bit_iff)
  qed
  then have "(ucast (drop_bit 4 g) :: u8) = ucast (n_cmdlo ch)" by simp
  moreover have "unat (ucast (n_cmdlo ch) :: u8) = unat (n_cmdlo ch)"
    using u lo(2) by (simp add: unsigned_ucast_eq take_bit_nat_eq_self)
  ultimately have "mt_FunkIt ch p = Inl (OutsideFunkTable (unat (n_cmdlo ch)))"
    using assms(1) u by (simp add: mt_FunkIt_def mt_UpdateFunk_def g_def [symmetric] Let_def word_less_nat_alt)
  then show ?thesis
    using start assms(2,3) u by (simp add: mt_CheckMoreEfx_def mt_E_Commands_def Let_def)
qed

definition funk_channel :: pt_chn where
  "funk_channel = (initial_channel 0)\<lparr>n_cmd := 0xEF5, n_cmdlo := 0xF5\<rparr>"

lemma invert_loop_reads_outside_witness:
  "mt_CheckMoreEfx funk_channel sample_player = Inl (OutsideFunkTable 245)"
proof -
  have "signed_drop_bit 8 (push_bit 8 0xE OR 0xF5 :: u32) = 0xE" by (rule command_high) simp_all
  then have c: "mt_counter sample_player = 0" "signed_drop_bit 8 (n_cmd funk_channel) = 0xE"
    "drop_bit 4 (n_cmdlo funk_channel) = 0xF" "n_glissfunk funk_channel < 16"
    by (simp_all add: sample_player_def funk_channel_def initial_channel_def)
  have "unat (n_cmdlo funk_channel) = 245" by (simp add: funk_channel_def)
  then show ?thesis using invert_loop_reads_outside [OF c] by simp
qed

text \<open>
  With the glissando control on, a tone portamento writes the periods of all the notes at or
  above the channel's, and last the 0 that ends the table.
\<close>
theorem glissando_writes_period_zero:
  assumes "voice_ok ch" "0 <s n_wantedperiod ch" "n_glissfunk ch AND 0x0F \<noteq> 0"
  shows "\<exists>ch' ws. mt_UpdateTonePortamento ch p = Inr (ch', paula (ws @ [PERIOD (n_index ch) 0]) p)"
proof -
  let ?ch = "slide_to_wanted ch" and ?ft = "n_finetune ch"
  have ft: "?ft < 16" "unat ?ft < 16" using assms(1) by (simp_all add: voice_ok_def word_less_nat_alt)
  have same: "n_finetune ?ch = ?ft" "n_index ?ch = n_index ch" "n_glissfunk ?ch = n_glissfunk ch"
    by (simp_all add: slide_to_wanted_def Let_def)
  have "n_period ?ch < 0x80000000" using slide_small(1) [OF assms(1)] by (rule order_le_less_trans) simp
  then have last: "0 \<le>s n_period ?ch" using sless_small(2) [of 0] by simp
  let ?f = "\<lambda>i. let x = mt_PeriodTable ! (37 * unat ?ft + i) in if x \<le>s n_period ?ch then [PERIOD (n_index ch) (ucast x)] else []"
  have "[0..<37] = [0..<36] @ [36]" by (simp add: upt_rec)
  then have "concat (map ?f [0..<37]) = concat (map ?f [0..<36]) @ ?f 36" by (simp only: map_append concat_append) simp
  also have "?f 36 = [PERIOD (n_index ch) 0]" using period_terminator [OF ft(2)] last by (simp add: Let_def)
  finally have "gliss_writes (n_index ch) (n_period ?ch) (?ft * 37) [0..<37] =
      Inr (concat (map ?f [0..<36]) @ [PERIOD (n_index ch) 0])"
    using gliss_writes_tuned [OF ft(1), of "[0..<37]" "n_index ch" "n_period ?ch"] by (simp del: upt_Suc)
  then show ?thesis
    using assms(2,3) same unfolding mt_UpdateTonePortamento_def Let_def
    by (intro exI [of _ ?ch] exI [of _ "concat (map ?f [0..<36])"]) (simp add: Let_def del: upt_Suc)
qed

lemma glissando_writes_period_zero_witness:
  "\<exists>ch' ws. mt_UpdateTonePortamento ((initial_channel 1)\<lparr>n_wantedperiod := 428, n_glissfunk := 1, n_cmd := 0x300, n_period := 400\<rparr>) sample_player =
     Inr (ch', paula (ws @ [PERIOD 1 0]) sample_player)"
proof -
  let ?ch = "(initial_channel 1)\<lparr>n_wantedperiod := 428, n_glissfunk := 1, n_cmd := 0x300, n_period := 400\<rparr>"
  have "signed_drop_bit 8 (push_bit 8 3 OR 0 :: u32) = 3" by (rule command_high) simp_all
  then have "voice_ok ?ch" by (simp add: voice_ok_def command_ok_def initial_channel_def)
  moreover have "0 <s (428 :: u32)" using small_positive [of 428] by simp
  ultimately show ?thesis
    using glissando_writes_period_zero [of ?ch sample_player] by (simp add: initial_channel_def)
qed

text \<open>The amplitude of the vibrato, at most 29.\<close>

lemma vibrato_table_bytes: "i < 32 \<Longrightarrow> unat (ucast (mt_VibratoTable ! i) :: u32) \<le> 255"
proof -
  have "take_bit 32 (unat (mt_VibratoTable ! i)) \<le> unat (mt_VibratoTable ! i)" by (rule take_bit_nat_less_eq_self)
  also have "unat (mt_VibratoTable ! i) < 256" using unsigned_less [of "mt_VibratoTable ! i", where ?'a = nat] by simp
  finally show ?thesis by (simp add: unsigned_ucast_eq)
qed

lemma vibrato_depth:
  fixes w c :: u32
  assumes "unat w \<le> 255"
  shows "unat (drop_bit 7 (w * (c AND 0x0F))) \<le> 29"
proof -
  have "unat (c AND 0x0F) \<le> 15" using nibble [of c] by (simp add: word_le_nat_alt)
  with assms have m: "unat w * unat (c AND 0x0F) \<le> 255 * 15" by (intro mult_le_mono)
  then have "unat (w * (c AND 0x0F)) = unat w * unat (c AND 0x0F)" by (simp add: unat_word_ariths)
  then have "unat (drop_bit 7 (w * (c AND 0x0F))) = unat w * unat (c AND 0x0F) div 128"
    by (simp add: drop_bit_eq_div unat_div)
  then show ?thesis using div_le_mono [OF m, of 128] by simp
qed

lemma wave_data_byte:
  assumes "\<not> negative"
  shows "unat (wave_data control (x AND 0x1F) negative) \<le> 255"
proof -
  have x: "unat (x AND 0x1F) \<le> 31" using word_and_le1 [of x "0x1F"] by (simp add: word_le_nat_alt)
  then have "unat (push_bit 3 (x AND 0x1F)) \<le> 255"
    by (simp add: push_bit_eq_mult unat_word_ariths del: push_bit_and)
  then show ?thesis using assms vibrato_table_bytes [of "unat (x AND 0x1F)"] x by (simp add: wave_data_def)
qed

definition vibrato :: "voice \<Rightarrow> voice" where
  "vibrato = (\<lambda>(ch, p). mt_UpdateVibrato ch p)"

lemma vibrato_step:
  assumes "n_period ch \<le> 907" "unat (n_vibratopos ch) \<le> 60 * n" "n < 2 ^ 25"
  obtains ch' x where "vibrato (ch, p) = (ch', paula [PERIOD (n_index ch) x] p)"
    "n_period ch' = n_period ch" "n_index ch' = n_index ch" "unat (n_vibratopos ch') \<le> 60 * Suc n"
    "unat (n_period ch) \<le> unat x" "unat x \<le> unat (n_period ch) + 29"
proof -
  let ?v = "n_vibratopos ch"
  have "?v < 0x80000000" using assms(2,3) by (simp add: word_less_nat_alt)
  then have pos: "0 \<le>s ?v" "\<not> ?v <s 0" using sless_small(2) [of 0 ?v] sless_small(1) [of ?v 0] by simp_all
  define d where "d = drop_bit 7 (wave_data (n_wavecontrol ch AND 3) (signed_drop_bit 2 ?v AND 0x1F) False * (n_vibratocmd ch AND 0x0F))"
  have d: "unat d \<le> 29" unfolding d_def by (intro vibrato_depth wave_data_byte) simp
  have per: "unat (n_period ch) \<le> 907" using assms(1) by (simp add: word_le_nat_alt)
  have x: "unat (n_period ch + d) = unat (n_period ch) + unat d" using per d by (simp add: unat_word_ariths)
  then have ux: "unat (ucast (n_period ch + d) :: u16) = unat (n_period ch) + unat d"
    using per d by (simp add: unsigned_ucast_eq take_bit_nat_eq_self)
  let ?i = "drop_bit 2 (n_vibratocmd ch) AND 0x3C"
  have i: "unat ?i \<le> 60" using word_and_le1 [of "drop_bit 2 (n_vibratocmd ch)" "0x3C"] by (simp add: word_le_nat_alt)
  then have "unat (?v + ?i) = unat ?v + unat ?i" using assms(2,3) by (simp add: unat_word_ariths)
  then have "unat (?v + ?i) \<le> 60 * Suc n" using assms(2) i by simp
  then show ?thesis
    using pos d ux by (intro that [of "ch\<lparr>n_vibratopos := ?v + ?i\<rparr>" "ucast (n_period ch + d)"])
      (simp_all add: vibrato_def mt_UpdateVibrato_def set_period_def Let_def d_def [symmetric])
qed

lemma vibrato_runs:
  assumes "n_period ch \<le> 907" "n_vibratopos ch = 0" "n \<le> 2 ^ 25"
  shows "\<exists>ch' ws. (vibrato ^^ n) (ch, p) = (ch', paula ws p) \<and>
    n_period ch' = n_period ch \<and> n_index ch' = n_index ch \<and> unat (n_vibratopos ch') \<le> 60 * n \<and>
    (\<forall>w \<in> set ws. \<exists>x. w = PERIOD (n_index ch) x \<and> unat (n_period ch) \<le> unat x \<and> unat x \<le> unat (n_period ch) + 29)"
  using assms(3)
proof (induction n)
  case 0
  then show ?case using assms(2) by (intro exI [of _ ch] exI [of _ "[]"]) (simp add: paula_def)
next
  case (Suc n)
  then obtain ch1 ws where 1: "(vibrato ^^ n) (ch, p) = (ch1, paula ws p)" "n_period ch1 = n_period ch"
    "n_index ch1 = n_index ch" "unat (n_vibratopos ch1) \<le> 60 * n"
    "\<forall>w \<in> set ws. \<exists>x. w = PERIOD (n_index ch) x \<and> unat (n_period ch) \<le> unat x \<and> unat x \<le> unat (n_period ch) + 29"
    by auto
  have "n_period ch1 \<le> 907" "n < 2 ^ 25" using 1(2) assms(1) Suc.prems by simp_all
  then obtain ch2 x where 2: "vibrato (ch1, paula ws p) = (ch2, paula [PERIOD (n_index ch1) x] (paula ws p))"
    "n_period ch2 = n_period ch1" "n_index ch2 = n_index ch1" "unat (n_vibratopos ch2) \<le> 60 * Suc n"
    "unat (n_period ch1) \<le> unat x" "unat x \<le> unat (n_period ch1) + 29"
    using vibrato_step [OF _ 1(4)] by metis
  then show ?case
    using 1 by (intro exI [of _ ch2] exI [of _ "ws @ [PERIOD (n_index ch) x]"]) (auto simp: paula_def)
qed

text \<open>
  The vibrato only ever raises the period: its position counts up from 0 in 32 bits instead of
  running through both halves of the wave, so of the first 33 million updates every one writes a
  period between the channel's and 29 more.
\<close>
theorem vibrato_never_lowers_period:
  assumes "n_period ch \<le> 907" "n_vibratopos ch = 0" "n \<le> 2 ^ 25"
  shows "\<exists>ch' ws. (vibrato ^^ n) (ch, p) = (ch', paula ws p) \<and>
    (\<forall>w \<in> set ws. \<exists>x. w = PERIOD (n_index ch) x \<and> unat (n_period ch) \<le> unat x \<and> unat x \<le> unat (n_period ch) + 29)"
  using vibrato_runs [OF assms, of p] by blast

lemma vibrato_never_lowers_period_witness:
  "\<exists>ch' ws. (vibrato ^^ 1000000) ((initial_channel 0)\<lparr>n_period := 428, n_vibratocmd := 0x8F\<rparr>, sample_player) = (ch', paula ws sample_player) \<and>
    (\<forall>w \<in> set ws. \<exists>x. w = PERIOD 0 x \<and> 428 \<le> unat x \<and> unat x \<le> 457)"
  using vibrato_never_lowers_period [of "(initial_channel 0)\<lparr>n_period := 428, n_vibratocmd := 0x8F\<rparr>" 1000000 sample_player]
  by (simp add: initial_channel_def del: funpow.simps)

end
