(* ===== verification/Modplayer.thy ===== *)
theory Modplayer
  imports Syscalls Song
begin

text \<open>
  The program around the player, \<^verbatim>\<open>Apps/Modplayer/main.c\<close>: a file is read from the card into a
  block of the heap and handed to \<open>ptBuddyPlay\<close>. The lemmas carry the contents of the file from the
  card to the memory, and the well-formedness of a module from its file to the player.
\<close>

section \<open>The program\<close>

definition sys_then :: "('d, 'a) outcome \<Rightarrow> ('a \<Rightarrow> 'd sys \<Rightarrow> ('d, 'b) outcome) \<Rightarrow> ('d, 'b) outcome" where
  "sys_then r k = (case r of None \<Rightarrow> None | Some (Inl e) \<Rightarrow> Some (Inl e) | Some (Inr (x, s)) \<Rightarrow> k x s)"

lemma sys_then_simps [simp]:
  "sys_then None k = None" "sys_then (Some (Inl e)) k = Some (Inl e)" "sys_then (Some (Inr (x, s))) k = k x s"
  by (simp_all add: sys_then_def)

definition LoadFile :: "'d sd_ops \<Rightarrow> u32 \<Rightarrow> 'd sys \<Rightarrow> ('d, u32) outcome" where
  "LoadFile io filename s =
     sys_then (sys_open io filename s) (\<lambda>fd s.
       if \<not> 0 <s fd then Some (Inr (0, s))
       else sys_then (sys_fstat fd s) (\<lambda>(r, statbuf) s.
         if r \<noteq> 0 then Some (Inr (0, s))
         else case malloc (st_size statbuf) (heap s) of
                None \<Rightarrow> None
              | Some (result, h) \<Rightarrow>
                  (let s = s\<lparr>heap := h\<rparr>
                   in if result \<noteq> 0 then
                        sys_then (sys_read io fd result (st_size statbuf) [] s) (\<lambda>(n, _) s.
                          if n <s 0 then Some (Inr (0, s\<lparr>heap := free result (heap s)\<rparr>)) else Some (Inr (result, s)))
                      else Some (Inr (result, s)))))"

text \<open>\<open>main\<close>, with the player's globals; \<open>None\<close> in the result when there is nothing to play.\<close>

definition modplayer_main :: "'d sd_ops \<Rightarrow> u32 \<Rightarrow> player \<Rightarrow> 'd sys \<Rightarrow> ('d, player result option) outcome" where
  "modplayer_main io filename p s =
     sys_then (LoadFile io filename s) (\<lambda>ptr s.
       Some (Inr (if ptr \<noteq> 0 then Some (ptBuddyPlay ptr 0 (p\<lparr>ram := memory s\<rparr>)) else None, s)))"

section \<open>Opening\<close>

lemma open_fds_found:
  assumes "find (\<lambda>fd. File fd s = Inr 0) fds = Some fd" "set fds \<subseteq> set open_range"
    "malloc RAFile_size (heap s) = Some (p, h)" "p \<noteq> 0"
    "RAOpen io (Some (rafiles s p)) (\<lambda>i. memory s (name + of_nat i)) (fs s) = Some (True, Some r, f)"
  shows "open_fds io name fds s =
    Some (Inr (fd, s\<lparr>heap := h, Files := (Files s)[nat (sint fd - 2) := p], fs := f, rafiles := (rafiles s)(p := r)\<rparr>))"
  using assms
proof (induction fds)
  case (Cons i fds)
  have i: "i \<in> set open_range" using Cons.prems(2) by simp
  show ?case
  proof (cases "File i s = Inr 0")
    case True
    then show ?thesis using Cons.prems by (simp add: set_File_def Let_def fun_upd_def cong del: if_weak_cong)
  next
    case False
    then have "open_fds io name (i # fds) s = open_fds io name fds s"
      using open_rangeD(5) [OF i, of s] by simp
    then show ?thesis using Cons False by simp
  qed
qed simp

lemma free_fd_found:
  assumes "free_fds s \<noteq> 0" "length (Files s) = MAX_FILES"
  obtains fd where "find (\<lambda>fd. File fd s = Inr 0) open_range = Some fd" "fd \<in> set open_range" "File fd s = Inr 0"
proof -
  obtain p0 ps where f: "Files s = p0 # ps" "length ps = 7" using assms(2) by (cases "Files s") (auto simp: MAX_FILES_def)
  have "filter (\<lambda>p. p = 0) ps \<noteq> []" using assms(1) f(1) by (simp add: free_fds_def)
  then obtain i where "i < 7" "ps ! i = 0" using f(2) by (auto simp: filter_empty_conv in_set_conv_nth)
  then have "File (of_nat (3 + i)) s = Inr 0" "of_nat (3 + i) \<in> set open_range"
    using f(1) by (auto simp: File_def MAX_FILES_def open_range_eq less_Suc_eq numeral_eq_Suc)
  then have "find (\<lambda>fd. File fd s = Inr 0) open_range \<noteq> None" by (auto simp: find_None_iff)
  then obtain fd where "find (\<lambda>fd. File fd s = Inr 0) open_range = Some fd" by auto
  from that [OF this] find_SomeD [OF this] show thesis by simp
qed

section \<open>Reading into the memory\<close>

lemma store_bytes_span:
  assumes "length bs < 2 ^ 32"
  shows "store_bytes (map Some bs) p m = (\<lambda>a. if a \<in> span p (length bs) then bs ! unat (a - p) else m a)"
  using assms
proof (induction bs arbitrary: p m)
  case (Cons b bs)
  then have IH: "store_bytes (map Some bs) (p + 1) (m(p := b)) =
      (\<lambda>a. if a \<in> span (p + 1) (length bs) then bs ! unat (a - (p + 1)) else (m(p := b)) a)" by simp
  have "p \<notin> span (p + 1) (length bs)" using not_in_span_next [of "length bs" p] Cons.prems by simp
  then show ?case
    using IH by (auto simp: fun_eq_iff in_span_Suc unat_diff_Suc span_def)
qed simp

lemma chain_scanned:
  assumes "scanned s s'"
  shows "chain img s' c n = chain img s c n"
proof -
  have "chain_link img s' = chain_link img s"
    using scannedD(1,2) [OF assms] by (simp add: chain_link_def fun_eq_iff)
  then show ?thesis by (induction n) simp_all
qed

lemma file_sector_scanned: "scanned s s' \<Longrightarrow> file_sector img k s' = file_sector img k s"
  by (simp add: file_sector_def fun_eq_iff chain_scanned scannedD)

lemma scanned_reference:
  assumes "scanned s s'"
  shows "file_bytes img k s' f = file_bytes img k s f" "readable img k s' f = readable img k s f"
  using file_sector_scanned [OF assms, of img k] chain_scanned [OF assms]
  by (simp_all add: file_bytes_def readable_def fun_eq_iff)

lemma file_of_slot_fields:
  "start_cluster (file_of_slot img s f e) = start_cluster (file_of_slot img s g e)"
  "fsize (file_of_slot img s f e) = fsize (file_of_slot img s g e)"
  "fcluster (file_of_slot img s f e) = start_cluster (file_of_slot img s f e)"
  "fsector (file_of_slot img s f e) = 0"
  by (simp_all add: file_of_slot_def Let_def split: prod.split)


section \<open>Loading\<close>

text \<open>A file \<open>f\<close> can be loaded to \<open>q\<close>: the volume is mounted, the root directory and the sectors of the
  file can be read, its slot \<open>e\<close> is the first with the name, it is neither empty nor 2 GB long, a
  descriptor is unused, and the allocator has a block for the \<open>RAFile\<close> and then one for the contents.\<close>

definition can_load :: "'c bus \<Rightarrow> image \<Rightarrow> nat \<Rightarrow> u32 \<Rightarrow> 'c spi sys \<Rightarrow> fileTYPE \<Rightarrow> u32 \<Rightarrow> bool" where
  "can_load x img k name s f q \<longleftrightarrow>
     mounted (spi_serves x img) img k (fs s) \<and> sys_ok s \<and> filesystem_present s \<and> free_fds s \<noteq> 0 \<and>
     (\<exists>slots e. root_slots img (fs s) slots \<and> (\<forall>e \<in> set slots. img (fst e) \<noteq> None) \<and>
        find (slot_matches img (fs s) (\<lambda>i. memory s (name + of_nat i))) slots = Some e \<and>
        f = file_of_slot img (fs s) zero_file e) \<and>
     fsize f \<noteq> 0 \<and> unat (fsize f) < 2 ^ 31 \<and>
     readable img k (fs s) f 0 ((unat (fsize f) + 511) div 512) \<and>
     (\<exists>p h h'. malloc RAFile_size (heap s) = Some (p, h) \<and> p \<noteq> 0 \<and> malloc (fsize f) h = Some (q, h')) \<and> q \<noteq> 0"

lemma LoadFile_correct:
  assumes "mounted (spi_serves x img) img k (fs s)" "sys_ok s" "filesystem_present s" "free_fds s \<noteq> 0"
    and slots: "root_slots img (fs s) slots" "\<forall>e \<in> set slots. img (fst e) \<noteq> None"
    and e: "find (slot_matches img (fs s) (\<lambda>i. memory s (name + of_nat i))) slots = Some e"
    and f: "f = file_of_slot img (fs s) zero_file e" "fsize f \<noteq> 0" "unat (fsize f) < 2 ^ 31"
    and readable: "readable img k (fs s) f 0 ((unat (fsize f) + 511) div 512)"
    and m: "malloc RAFile_size (heap s) = Some (p, h)" "p \<noteq> 0" "malloc (fsize f) h = Some (q, h')" "q \<noteq> 0"
  shows "\<exists>s'. LoadFile (spi_ops x) name s = Some (Inr (q, s')) \<and> heap s' = h' \<and>
    memory s' = (\<lambda>a. if a \<in> span q (unat (fsize f)) then file_bytes img k (fs s) f 0 (unat (fsize f)) ! unat (a - q)
      else memory s a)"
proof -
  have len: "length (Files s) = MAX_FILES" "length (ra_buffer (rafiles s p)) = 512"
    using assms(2) by (simp_all add: sys_ok_def)
  obtain fd where fd: "find (\<lambda>fd. File fd s = Inr 0) open_range = Some fd" "fd \<in> set open_range" "File fd s = Inr 0"
    by (rule free_fd_found [OF assms(4) len(1)])
  let ?name = "\<lambda>i. memory s (name + of_nat i)"
  let ?g = "file_of_slot img (fs s) (ra_file (rafiles s p)) e"
  let ?r = "(rafiles s p)\<lparr>ra_file := ?g, ra_size := fsize ?g, ra_ptr := 0\<rparr>"
  have serves: "spi_serves x img (dev (fs s))" "cache_ok img (fs s)"
    using assms(1) by (simp_all add: mounted_def)
  obtain v where v: "FileOpen (spi_ops x) (ra_file (rafiles s p)) ?name (fs s) = Some (True, ?g, v)"
    "scanned (fs s) v" "spi_serves x img (dev v)" "cache_ok img v"
    using spi.FileOpen_correct [OF serves slots, of "ra_file (rafiles s p)" ?name] e by auto
  define s1 where "s1 = s\<lparr>heap := h, Files := (Files s)[nat (sint fd - 2) := p], fs := v, rafiles := (rafiles s)(p := ?r)\<rparr>"
  have "RAOpen (spi_ops x) (Some (rafiles s p)) ?name (fs s) = Some (True, Some ?r, v)"
    using v(1) by (simp add: RAOpen_def)
  from open_fds_found [OF fd(1) order_refl m(1,2) this] assms(3)
  have o: "sys_open (spi_ops x) name s = Some (Inr (fd, s1))" by (simp add: sys_open_fds s1_def)
  have fd_entry: "File fd s1 = Inr p"
    using open_rangeD(1) [OF fd(2)] open_rangeD(5) [OF fd(2), of s1] len(1) by (auto simp: s1_def MAX_FILES_def)
  have g: "fsize ?g = fsize f" "start_cluster ?g = start_cluster f" "fsector ?g = 0" "fcluster ?g = start_cluster f"
    using file_of_slot_fields [of img "fs s" "ra_file (rafiles s p)" e] file_of_slot_fields(1,2) [of img "fs s" _ e zero_file]
    unfolding f(1) by simp_all
  define s2 where "s2 = s1\<lparr>heap := h'\<rparr>"
  have stat: "sys_fstat fd s1 = Some (Inr ((0, \<lparr>st_mode = 0, st_blksize = 0, st_size = fsize f\<rparr>), s1))"
    using fd_entry fd(2) m(2) g(1) by (auto simp: sys_fstat_def open_range_eq word_sless_alt s1_def)
  have mount: "mounted (spi_serves x img) img k v"
    using assms(1) v(2-4) by (auto simp: mounted_def scanned_def)
  have ok: "ra_ok img k v ?r"
    using len(2) g(2-4) by (simp add: ra_ok_def at_sector_def)
  have "readable img k v (ra_file ?r) 0 ((unat (fsize f) + 511) div 512)"
    using readable same_start_reference [of ?g f img k v, OF g(2)] scanned_reference [OF v(2), of img k] by simp
  moreover have "file_bytes img k v ?g = file_bytes img k (fs s) f"
    using same_start_reference [of ?g f img k v, OF g(2)] scanned_reference [OF v(2), of img k] by simp
  ultimately obtain r' v' where rd: "RARead (spi_ops x) ?r (fsize f) v =
      (True, map Some (file_bytes img k (fs s) f 0 (unat (fsize f))), r', v')"
    using spi.RARead_correct [OF mount ok, of "fsize f"] f(3) by (auto simp: less_imp_le)
  define s3 where "s3 = s2\<lparr>fs := v', rafiles := (rafiles s2)(p := r'),
    memory := store_bytes (map Some (file_bytes img k (fs s) f 0 (unat (fsize f)))) q (memory s2)\<rparr>"
  have "File fd s2 = Inr p" using fd_entry File_cong [of s2 s1 fd] by (simp add: s2_def)
  moreover have "fd \<noteq> 0" using fd(2) by (auto simp: open_range_eq)
  ultimately have read: "sys_read (spi_ops x) fd q (fsize f) [] s2 = Some (Inr ((fsize f, []), s3))"
    using rd m(2) by (simp add: sys_read_def s3_def) (simp add: s2_def s1_def)
  have pos: "\<not> fsize f <s 0"
    using f(3) by (simp add: word_sless_alt sint_small word_less_nat_alt)
  have "LoadFile (spi_ops x) name s = Some (Inr (q, s3))"
    using o stat m(3,4) read pos open_rangeD(3) [OF fd(2)]
    by (simp add: LoadFile_def s2_def [symmetric]) (simp add: s1_def s2_def)
  moreover have "heap s3 = h'" by (simp add: s3_def s2_def)
  moreover have "memory s3 = (\<lambda>a. if a \<in> span q (unat (fsize f)) then file_bytes img k (fs s) f 0 (unat (fsize f)) ! unat (a - q)
      else memory s a)"
    using f(3) store_bytes_span [of "file_bytes img k (fs s) f 0 (unat (fsize f))" q "memory s"]
    by (simp add: s3_def s2_def s1_def)
  ultimately show ?thesis by blast
qed

section \<open>Modules\<close>

text \<open>A file is a well-formed module when, read by a player from address 0, it is a well-formed song
  and it holds every pattern of its list of positions.\<close>

definition file_player :: "bytes \<Rightarrow> player" where
  "file_player bs = sample_player\<lparr>mt_SongDataPtr := 0, ram := (\<lambda>a. bs ! unat a)\<rparr>"

definition module_ok :: "bytes \<Rightarrow> bool" where
  "module_ok bs \<longleftrightarrow> song_ok (file_player bs) \<and> 1084 \<le> length bs \<and>
     (\<forall>i < 128. 1084 + 1024 * (unat (bs ! (952 + i)) + 1) \<le> length bs)"

lemma loaded_byte:
  assumes "\<forall>a \<in> span q (length bs). ram p a = bs ! unat (a - q)" "mt_SongDataPtr p = q" "unat i < length bs"
  shows "song_byte p i = song_byte (file_player bs) i"
  using assms by (simp add: song_byte_def file_player_def span_def)

lemma row_address:
  assumes "row < 64" "i < 4" "j < 4"
  shows "unat (1084 + (push_bit 10 (ucast (b :: u8)) + (16 * of_nat row + 4 * of_nat i)) + of_nat j :: u32) =
    1084 + 1024 * unat b + 16 * row + 4 * i + j"
proof -
  have b: "unat b < 256" using unsigned_less [of b, where ?'a = nat] by simp
  have "1084 + (push_bit 10 (ucast b) + (16 * of_nat row + 4 * of_nat i)) + of_nat j =
      (of_nat (1084 + 1024 * unat b + 16 * row + 4 * i + j) :: u32)"
    by (simp add: push_bit_eq_mult algebra_simps)
  moreover have "1084 + 1024 * unat b + 16 * row + 4 * i + j < 4294967296" using assms b by linarith
  ultimately show ?thesis by (simp only: unat_of_nat_u32)
qed


lemma loaded_row:
  assumes m: "module_ok bs" and ram: "\<forall>a \<in> span q (length bs). ram p a = bs ! unat (a - q)" "mt_SongDataPtr p = q"
    and pos: "pos < 128" "row < 64" "i < 4"
  shows "row_ok p (push_bit 10 (song_byte p (952 + pos)) + (16 * of_nat row + 4 * of_nat i))"
proof -
  let ?f = "file_player bs"
  note byte = loaded_byte [OF ram]
  have word: "song_word p j = song_word ?f j" if "unat j < length bs" "unat (j + 1) < length bs" for j
    using byte [OF that(1)] byte [OF that(2)] by (simp add: song_word_def)
  have n: "unat pos < 128" using pos(1) by (simp add: word_less_nat_alt)
  have pos': "unat (952 + pos) = 952 + unat pos"
    using n by (subst unat_add_lem [THEN iffD1]) simp_all
  have len: "1084 \<le> length bs" "1084 + 1024 * (unat (bs ! (952 + unat pos)) + 1) \<le> length bs"
    using m n by (simp_all add: module_ok_def)
  have b: "song_byte p (952 + pos) = ucast (bs ! (952 + unat pos))" "song_byte ?f (952 + pos) = ucast (bs ! (952 + unat pos))"
    using byte [of "952 + pos"] pos' n len(1) by (simp_all add: song_byte_def file_player_def)
  let ?a = "push_bit 10 (ucast (bs ! (952 + unat pos))) + (16 * of_nat row + 4 * of_nat i) :: u32"
  have near: "unat (1084 + ?a) < length bs" "unat (1084 + ?a + 1) < length bs" "unat (1084 + ?a + 2) < length bs"
      "unat (1084 + ?a + 3) < length bs"
    using row_address [OF pos(2,3), of 0 "bs ! (952 + unat pos)"] row_address [OF pos(2,3), of 1 "bs ! (952 + unat pos)"]
      row_address [OF pos(2,3), of 2 "bs ! (952 + unat pos)"] row_address [OF pos(2,3), of 3 "bs ! (952 + unat pos)"]
      len(2) pos(2,3) by simp_all
  have row: "row_ok ?f ?a"
    using m pos b(2) unfolding module_ok_def song_ok_def by fastforce
  have head: "song_byte p (42 + (smp - 1) * 30 + 2) = song_byte ?f (42 + (smp - 1) * 30 + 2)"
    if "smp < 32" "1 \<le> smp" for smp
  proof (rule byte)
    have s: "unat (smp - 1) = unat smp - Suc 0" "unat smp < 32"
      using that by (cases "smp = 0"; simp add: unat_minus_one word_less_nat_alt word_le_nat_alt)+
    have "42 + (smp - 1) * 30 + 2 = (of_nat (44 + (unat smp - Suc 0) * 30) :: u32)"
      by (simp flip: s(1))
    then have "unat (42 + (smp - 1) * 30 + 2) = 44 + (unat smp - Suc 0) * 30"
      using s(2) by (simp only: unat_of_nat_u32)
    then show "unat (42 + (smp - 1) * 30 + 2) < length bs" using s(2) len(1) by simp
  qed
  show ?thesis
    using row head unfolding row_ok_def b word [OF near(1,2)] byte [OF near(3)] byte [OF near(4)] Let_def
    by (auto simp: word_le_nat_alt)
qed

lemma loaded_song_ok:
  assumes "module_ok bs" "\<forall>a \<in> span q (length bs). ram p a = bs ! unat (a - q)" "mt_SongDataPtr p = q"
  shows "song_ok p"
  using loaded_row [OF assms] by (simp add: song_ok_def)


lemma can_load_loads:
  assumes "can_load x img k name s f q"
  shows "\<exists>s'. LoadFile (spi_ops x) name s = Some (Inr (q, s')) \<and>
    memory s' = (\<lambda>a. if a \<in> span q (unat (fsize f)) then file_bytes img k (fs s) f 0 (unat (fsize f)) ! unat (a - q)
      else memory s a)"
  using assms LoadFile_correct [of x img k s _ name _ f] unfolding can_load_def by blast

lemma ptBuddyPlay_starts:
  obtains p0 where "ptBuddyPlay q t p = Inr p0" "ram p0 = ram p" "mt_SongDataPtr p0 = q"
proof -
  have "\<exists>p0. ptBuddyPlay q t p = Inr p0 \<and> ram p0 = ram p \<and> mt_SongDataPtr p0 = q"
    by (simp add: ptBuddyPlay_def SetTempo_def mt_init_def Let_def paula_def)
  then show thesis using that by blast
qed

text \<open>A file of zeros is a module of one pattern without notes.\<close>

lemma empty_module_ok:
  assumes "2108 \<le> n"
  shows "module_ok (replicate n 0)"
proof -
  have byte: "song_byte (file_player (replicate n 0)) i = 0" if "unat i < n" for i
    using that by (simp add: song_byte_def file_player_def)
  have "row_ok (file_player (replicate n 0)) (push_bit 10 (song_byte (file_player (replicate n 0)) (952 + pos)) +
      (16 * of_nat row + 4 * of_nat i))" if pos: "pos < 128" "row < 64" "i < 4" for pos row i
  proof -
    have "unat pos < 128" using pos(1) by (simp add: word_less_nat_alt)
    then have "unat (952 + pos) < n" using assms by (subst unat_add_lem [THEN iffD1]) simp_all
    then have b: "song_byte (file_player (replicate n 0)) (952 + pos) = 0" by (rule byte)
    let ?a = "16 * of_nat row + 4 * of_nat i :: u32"
    have "unat (1084 + ?a + of_nat j) < n" if "j < 4" for j
      using row_address [OF pos(2,3) that, of 0] pos(2,3) that assms by simp
    from this [of 0] this [of 1] this [of 2] this [of 3] show ?thesis
      unfolding b row_ok_def Let_def song_word_def by (simp add: byte)
  qed
  then show ?thesis using assms by (simp add: module_ok_def song_ok_def)
qed

section \<open>Properties\<close>

text \<open>
  C3. \<open>LoadFile\<close> opens the file, allocates a block of its size and fills it with exactly the bytes of the
  file; no other byte of the memory changes.
\<close>
theorem LoadFile_loads_file:
  assumes "can_load x img k name s f q"
  shows "\<exists>s'. LoadFile (spi_ops x) name s = Some (Inr (q, s')) \<and>
    memory s' = (\<lambda>a. if a \<in> span q (unat (fsize f)) then file_bytes img k (fs s) f 0 (unat (fsize f)) ! unat (a - q)
      else memory s a)"
  by (rule can_load_loads [OF assms])


text \<open>A card with one file of 2108 zeros in the clusters 2 to 6: a module of one empty pattern.\<close>

definition module_image :: image where
  "module_image lba = Some
     (if lba = 1 then [0xF8, 0xFF, 0xFF, 0xFF, 3, 0, 4, 0, 5, 0, 6, 0, 0xFF, 0xFF] @ replicate 498 0
      else if lba = 2 then replicate 11 2 @ replicate 15 0 @ [2, 0, 0x3C, 8, 0, 0] @ replicate 480 0
      else replicate 512 0)"

definition module_file :: fileTYPE where
  "module_file = file_of_slot module_image sample_volume zero_file (2, 0)"

lemma module_slot:
  "slot_matches module_image sample_volume (\<lambda>i. 2) (2, 0)" "fsize module_file = 2108" "start_cluster module_file = 2"
proof -
  have v: "sector_view module_image sample_volume 2 =
      replicate 11 2 @ replicate 15 0 @ [2, 0, 0x3C, 8, 0, 0] @ replicate 480 0 @ replicate 512 0"
    by (simp add: sector_view_def module_image_def sample_volume_def overlay_def)
  have w: "\<not> fat32 sample_volume" by (simp add: sample_volume_def)
  show "slot_matches module_image sample_volume (\<lambda>i. 2) (2, 0)"
    by (simp add: slot_matches_def v Let_def nth_append)
  show "fsize module_file = 2108" "start_cluster module_file = 2"
    by (simp_all add: module_file_def file_of_slot_def v w Let_def nth_append le32_def le16_def word_cat_eq')
qed

lemma module_chain:
  "chain module_image sample_volume 2 n = (if n \<le> 4 then Some (2 + of_nat n) else if n = 5 then Some 0xFFFF
     else chain module_image sample_volume 2 n)"
proof -
  have link: "chain_link module_image sample_volume 2 = Some 3" "chain_link module_image sample_volume 3 = Some 4"
    "chain_link module_image sample_volume 4 = Some 5" "chain_link module_image sample_volume 5 = Some 6"
    "chain_link module_image sample_volume 6 = Some 0xFFFF"
    by (simp_all add: chain_link_def sample_volume_def module_image_def link_sector_def
        table_entry_def le16_def drop_bit_eq_div word_cat_eq')
  have "n \<in> {0, Suc 0, Suc (Suc 0), Suc (Suc (Suc 0)), Suc (Suc (Suc (Suc 0))), Suc (Suc (Suc (Suc (Suc 0))))}" if "n \<le> 5"
    using that by auto
  then show ?thesis using link by (cases "n \<le> 5") auto
qed

lemma module_sector:
  assumes "q < 5"
  shows "file_sector module_image 0 sample_volume module_file q = Some (replicate 512 0)"
proof -
  have "chain module_image sample_volume 2 q = Some (2 + of_nat q)" using assms by (subst module_chain) simp
  moreover have "q \<in> {0, 1, 2, 3, 4}" using assms by auto
  ultimately show ?thesis
    by (auto simp: file_sector_def module_slot module_image_def sample_volume_def)
qed

lemma module_bytes: "n \<le> 2108 \<Longrightarrow> file_bytes module_image 0 sample_volume module_file 0 n = replicate n 0"
proof -
  assume n: "n \<le> 2108"
  have "the (file_sector module_image 0 sample_volume module_file (i div 512)) ! (i mod 512) = 0" if "i < 2108" for i
    using module_sector [of "i div 512"] that by (simp add: div_less_iff_less_mult)
  then show ?thesis using n by (auto simp: file_bytes_def intro!: nth_equalityI)
qed

lemma module_on_card:
  "find (slot_matches module_image sample_volume (\<lambda>i. 2)) (run_slots 2 2) = Some (2, 0)"
  "root_slots module_image sample_volume (run_slots 2 2)" "\<forall>e \<in> set (run_slots 2 2). module_image (fst e) \<noteq> None"
  "mounted (spi_serves (sample_bus module_image) module_image) module_image 0 sample_volume"
  "readable module_image 0 sample_volume module_file 0 5"
proof -
  have run: "run_slots 2 2 = (2, 0) # tl (run_slots 2 2)" by (simp add: run_slots_def upt_conv_Cons)
  show "find (slot_matches module_image sample_volume (\<lambda>i. 2)) (run_slots 2 2) = Some (2, 0)"
    by (rule find_first [OF run]) (rule module_slot(1))
  show "root_slots module_image sample_volume (run_slots 2 2)" "\<forall>e \<in> set (run_slots 2 2). module_image (fst e) \<noteq> None"
    by (simp_all add: root_slots_def sample_volume_def module_image_def)
  have "spi_serves (sample_bus module_image) module_image sample_spi"
    by (rule sample_spi_serves) (auto simp: module_image_def split: if_splits)
  then show "mounted (spi_serves (sample_bus module_image) module_image) module_image 0 sample_volume"
    using sample_volume_geometry sample_volume_cache [of module_image]
    by (simp add: mounted_def) (simp add: sample_volume_def)
  have "chain module_image sample_volume 2 (Suc q) \<noteq> None" if "q < 5" for q
    using that by (subst module_chain) auto
  then show "readable module_image 0 sample_volume module_file 0 5"
    using module_sector by (auto simp: readable_def module_slot(3) simp del: chain.simps(2))
qed

lemma module_can_load: "can_load (sample_bus module_image) module_image 0 0 sample_sys module_file 0x10360"
proof -
  have "malloc (fsize module_file) sample_opened = Some (0x10360, snd (malloc_from_block 0x10350 2128 sample_opened))"
  proof -
    have "next_free sample_opened (malloc_head sample_opened) = 0x10350" "atype sample_opened 0x10350 = 1"
      "asize sample_opened 0x10350 = 0xFCB0"
      by (simp_all add: sample_opened(2) malloc_from_block_def Let_def sample_arena)
    then show ?thesis
      unfolding malloc_def arena_round_def module_slot(2)
      by (subst malloc_search.simps) (simp add: malloc_from_block_def Let_def)
  qed
  then show ?thesis
    using module_on_card sample_opened(1) module_slot(2)
    by (auto simp: can_load_def sample_sys_def sys_ok_def MAX_FILES_def free_fds_def sample_ra_def module_file_def)
qed

lemma LoadFile_loads_file_witness:
  "\<exists>s'. LoadFile (spi_ops (sample_bus module_image)) 0 sample_sys = Some (Inr (0x10360, s')) \<and>
    memory s' 0x10360 = 0 \<and> memory s' 0x10B9C = 2"
proof -
  have n: "unat (fsize module_file) = 2108" by (simp add: module_slot(2))
  obtain s' where "LoadFile (spi_ops (sample_bus module_image)) 0 sample_sys = Some (Inr (0x10360, s'))"
    and m: "memory s' = (\<lambda>a. if a \<in> span 0x10360 2108
      then file_bytes module_image 0 (fs sample_sys) module_file 0 2108 ! unat (a - 0x10360) else memory sample_sys a)"
    using LoadFile_loads_file [OF module_can_load] unfolding n by blast
  moreover have "fs sample_sys = sample_volume" "memory sample_sys = (\<lambda>_. 2)" by (simp_all add: sample_sys_def)
  ultimately show ?thesis by (simp add: module_bytes span_def)
qed

end
