(* ===== verification/Demo.thy ===== *)
theory Demo
  imports Keyboard TextBuffer
begin

text \<open>
  The interrupt handlers of the demo, \<^verbatim>\<open>Apps/Demo/main.c\<close>: at every frame the picture is scrolled,
  the packets of the mouse move the pointer, and the keys typed appear on the text screen. The
  hardware registers written are fields of the state. A loop that reads a port until it is empty
  is a partial function, \<open>None\<close> when it never ends.
\<close>

section \<open>State and functions\<close>

record demo =
  framecount :: u16
  MouseX :: u16
  MouseY :: u16
  MouseZ :: u16
  MouseButtons :: u16
  mousetimeout :: u16
  mousemode :: u16
  screenwidth :: u32
  FrameBuffer :: u32
  framebufferptr :: u32
  sp0xpos :: u16
  sp0ypos :: u16
  microseconds :: u32

definition heartbeat_int :: "demo \<Rightarrow> demo" where
  "heartbeat_int d = d\<lparr>microseconds := microseconds d + 10000\<rparr>"

text \<open>\<open>short w=PS2MouseRead()\<close>\<close>

definition mouse_read :: "ps2 \<Rightarrow> u16 \<times> ps2" where
  "mouse_read s = (case ps2_ringbuffer_read (mousebuffer s) of (c, r) \<Rightarrow> (word_of_int c, s\<lparr>mousebuffer := r\<rparr>))"

definition clamp :: "u16 \<Rightarrow> u16 \<Rightarrow> u16" where
  "clamp hi nx = (let nx = (if nx <s 0 then 0 else nx) in if hi <s nx then hi else nx)"

text \<open>The wheel, in the fourth byte of a packet.\<close>

definition wheel :: "u16 \<Rightarrow> u16 \<Rightarrow> u16" where
  "wheel w4 z = (if w4 AND 8 \<noteq> 0 then z - ((w4 XOR 15) AND 15) else z + (w4 AND 15))"

definition mouse_packet :: "ps2 \<times> demo \<Rightarrow> ps2 \<times> demo" where
  "mouse_packet = (\<lambda>(s, d).
     (let (w1, s) = mouse_read s; (w2, s) = mouse_read s; (w3, s) = mouse_read s;
          (s, d) = (if mousemode d \<noteq> 0 then (let (w4, s) = mouse_read s in (s, d\<lparr>MouseZ := wheel w4 (MouseZ d)\<rparr>))
                    else (s, d));
          d = d\<lparr>MouseButtons := w1\<rparr>;
          w3 = (if w1 AND 0x20 \<noteq> 0 then w3 OR 0xFF00 else w3);
          w2 = (if w1 AND 0x10 \<noteq> 0 then w2 OR 0xFF00 else w2);
          d = d\<lparr>MouseX := clamp 639 (MouseX d + w2)\<rparr>;
          d = d\<lparr>MouseY := clamp 479 (MouseY d - w3)\<rparr>
      in (s, d\<lparr>mousetimeout := 0\<rparr>)))"

partial_function (option) mouse_loop :: "ps2 \<times> demo \<Rightarrow> (ps2 \<times> demo) option" where
  [code]: "mouse_loop x =
     (if int (ps2_ringbuffer_count (mousebuffer (fst x))) \<ge> 3 + sint (mousemode (snd x))
      then mouse_loop (mouse_packet x) else Some x)"

partial_function (option) drain_mouse :: "ps2 \<Rightarrow> ps2 option" where
  [code]: "drain_mouse s =
     (if ps2_ringbuffer_count (mousebuffer s) \<noteq> 0 then drain_mouse (snd (mouse_read s)) else Some s)"

text \<open>An incomplete packet is dropped after 20 frames, and the size of the packets changes.\<close>

definition mouse_resync :: "ps2 \<times> demo \<Rightarrow> (ps2 \<times> demo) option" where
  "mouse_resync = (\<lambda>(s, d).
     if ps2_ringbuffer_count (mousebuffer s) \<noteq> 0 then
       (let d = d\<lparr>mousetimeout := mousetimeout d + 1\<rparr>
        in if mousetimeout d = 20 then
             map_option (\<lambda>s. (s, d\<lparr>mousetimeout := 0, mousemode := mousemode d XOR 1\<rparr>)) (drain_mouse s)
           else Some (s, d))
     else Some (s, d))"

text \<open>The loop over \<open>HandlePS2RawCodes\<close>. The lists hold the register values at the calls of the PS/2
  handler during each of its calls.\<close>

type_synonym irqs = "(u16 \<times> u16) list"

partial_function (option) type_keys ::
  "irqs list \<Rightarrow> ps2 \<Rightarrow> keyboard \<Rightarrow> textbuffer \<Rightarrow> (keyboard_error + ps2 \<times> keyboard \<times> textbuffer) option" where
  [code]: "type_keys irqss s kb tb =
     (case HandlePS2RawCodes (case irqss of [] \<Rightarrow> [] | i # _ \<Rightarrow> i) s kb of
        None \<Rightarrow> None
      | Some (Inl e) \<Rightarrow> Some (Inl e)
      | Some (Inr (a, s, kb)) \<Rightarrow>
          if a \<noteq> 0 then
            (case tb_puts [a] tb of None \<Rightarrow> None | Some (_, tb) \<Rightarrow> type_keys (tl irqss) s kb tb)
          else Some (Inr (s, kb, tb)))"

definition scroll_frame :: "demo \<Rightarrow> demo" where
  "scroll_frame d =
     (let d = d\<lparr>framecount := framecount d + 1\<rparr>;
          d = (if framecount d = 959 then d\<lparr>framecount := 0\<rparr> else d);
          yoff = (if 480 \<le>s framecount d then 959 - scast (framecount d) else scast (framecount d)) :: u32
      in d\<lparr>framebufferptr := FrameBuffer d + 2 * (yoff * screenwidth d)\<rparr>)"

definition vblank_int ::
  "irqs list \<Rightarrow> ps2 \<times> keyboard \<times> textbuffer \<times> demo \<Rightarrow> (keyboard_error + ps2 \<times> keyboard \<times> textbuffer \<times> demo) option" where
  "vblank_int irqss = (\<lambda>(s, kb, tb, d).
     case mouse_loop (s, scroll_frame d) of
       None \<Rightarrow> None
     | Some (s, d) \<Rightarrow>
         (case mouse_resync (s, d\<lparr>sp0xpos := MouseX d, sp0ypos := MouseY d\<rparr>) of
            None \<Rightarrow> None
          | Some (s, d) \<Rightarrow>
              if ps2_ringbuffer_count (kbbuffer s) \<noteq> 0 then
                map_option (map_sum id (\<lambda>(s, kb, tb). (s, kb, tb, d))) (type_keys irqss s kb tb)
              else Some (Inr (s, kb, tb, d))))"

section \<open>The mouse\<close>

text \<open>A packet: the buttons with the signs of the movement in bits 4 and 5, and the low bytes of the
  movement, which has nine bits; upwards is positive.\<close>

type_synonym packet = "u8 \<times> u8 \<times> u8"

definition packet_bytes :: "packet \<Rightarrow> bytes" where
  "packet_bytes = (\<lambda>(b, x, y). [b, x, y])"

definition delta :: "bool \<Rightarrow> u8 \<Rightarrow> int" where
  "delta negative x = (if negative then uint x - 256 else uint x)"

definition move :: "packet \<Rightarrow> int \<times> int \<Rightarrow> int \<times> int" where
  "move = (\<lambda>(b, dx, dy) (x, y).
     (max 0 (min 639 (x + delta (bit b 4) dx)), max 0 (min 479 (y - delta (bit b 5) dy))))"

definition pointer :: "demo \<Rightarrow> int \<times> int" where
  "pointer d = (sint (MouseX d), sint (MouseY d))"

definition on_screen :: "demo \<Rightarrow> bool" where
  "on_screen d \<longleftrightarrow> 0 \<le> sint (MouseX d) \<and> sint (MouseX d) \<le> 639 \<and> 0 \<le> sint (MouseY d) \<and> sint (MouseY d) \<le> 479"


lemma sint_word_of_int: "- 32768 \<le> k \<Longrightarrow> k < 32768 \<Longrightarrow> sint (word_of_int k :: u16) = k"
  unfolding sint_sbintrunc' by (rule signed_take_bit_int_eq_self) simp_all

lemma signed_byte: "ucast (x :: u8) OR 0xFF00 = (ucast x - 256 :: u16)"
proof -
  have m: "(0xFF00 :: u16) = NOT (mask 8)" by (simp add: mask_eq_exp_minus_1)
  have "ucast x AND (0xFF00 :: u16) = 0"
    unfolding m by (rule bit_word_eqI) (auto simp: bit_simps dest: bit_imp_le_length)
  then have "ucast x OR (0xFF00 :: u16) = ucast x + 0xFF00" by (rule disjunctive_add_eq_or [symmetric])
  then show ?thesis by simp
qed

lemma sign_bits: "ucast (b :: u8) AND (0x20 :: u16) \<noteq> 0 \<longleftrightarrow> bit b 5" "ucast b AND (0x10 :: u16) \<noteq> 0 \<longleftrightarrow> bit b 4"
  using and_exp_eq_0_iff_not_bit [of "ucast b :: u16" 5] and_exp_eq_0_iff_not_bit [of "ucast b :: u16" 4]
  by (simp_all add: bit_simps)

lemma movement_word:
  "(if bit b k then ucast x OR 0xFF00 else ucast x) = (word_of_int (delta (bit b k) x) :: u16)"
  by (simp add: delta_def signed_byte)

lemma sint_clamp: "0 \<le> sint hi \<Longrightarrow> sint (clamp hi nx) = max 0 (min (sint hi) (sint nx))"
  by (auto simp: clamp_def Let_def word_sless_alt)

lemma delta_bounds: "- 256 \<le> delta n x \<and> delta n x \<le> 255"
proof -
  have "0 \<le> uint x" "uint x < 256" using uint_lt2p [of x] by simp_all
  then show ?thesis unfolding delta_def by (simp only: split: if_split) linarith
qed

lemma pointer_moved:
  assumes "0 \<le> sint x" "sint x \<le> 639"
  shows "sint (clamp 639 (x + word_of_int (delta n b))) = max 0 (min 639 (sint x + delta n b))"
    "sint (clamp 479 (x - word_of_int (delta n b))) = max 0 (min 479 (sint x - delta n b))"
proof -
  have x: "x = word_of_int (sint x)" by simp
  have "x + word_of_int (delta n b) = word_of_int (sint x + delta n b)"
    "x - word_of_int (delta n b) = word_of_int (sint x - delta n b)" by simp_all
  then show "sint (clamp 639 (x + word_of_int (delta n b))) = max 0 (min 639 (sint x + delta n b))"
    "sint (clamp 479 (x - word_of_int (delta n b))) = max 0 (min 479 (sint x - delta n b))"
    using assms delta_bounds [of n b] sint_word_of_int [of "sint x + delta n b"] sint_word_of_int [of "sint x - delta n b"]
    by (simp_all add: sint_clamp)
qed

lemma mouse_read_unread:
  assumes "ps2_ok s" "unread (mousebuffer s) = b # bs"
  obtains s' where "mouse_read s = (ucast b, s')" "ps2_ok s'" "unread (mousebuffer s') = bs" "kbbuffer s' = kbbuffer s"
proof -
  obtain c r where r: "ps2_ringbuffer_read (mousebuffer s) = (c, r)" by fastforce
  have ok: "ring_ok (mousebuffer s)" using assms(1) by (simp add: ps2_ok_def)
  have "c = uint b" "unread r = bs" using unread_read [OF ok r] assms(2) by simp_all
  moreover have "ring_ok r" using ring_ok_read [OF ok] r by simp
  ultimately show thesis
    using that [of "s\<lparr>mousebuffer := r\<rparr>"] r assms(1) by (simp add: mouse_read_def ps2_ok_def)
qed

lemma mouse_count: "ps2_ok s \<Longrightarrow> ps2_ringbuffer_count (mousebuffer s) = length (unread (mousebuffer s))"
  using count_unread [of "mousebuffer s"] by (simp add: ps2_ok_def)

text \<open>A packet of three bytes.\<close>

lemma mouse_packet_moves:
  assumes "ps2_ok s" "mousemode d = 0" "on_screen d" "unread (mousebuffer s) = packet_bytes p @ rest"
  obtains s' d' where "mouse_packet (s, d) = (s', d')" "ps2_ok s'" "unread (mousebuffer s') = rest" "kbbuffer s' = kbbuffer s"
    "on_screen d'" "pointer d' = move p (pointer d)" "mousemode d' = 0" "mousetimeout d' = 0"
    "MouseButtons d' = ucast (fst p)"
proof -
  obtain b x y where p: "p = (b, x, y)" by (cases p) auto
  have u: "unread (mousebuffer s) = b # x # y # rest" using assms(4) p by (simp add: packet_bytes_def)
  obtain s1 where 1: "mouse_read s = (ucast b, s1)" "ps2_ok s1" "unread (mousebuffer s1) = x # y # rest" "kbbuffer s1 = kbbuffer s"
    using mouse_read_unread [OF assms(1) u] by blast
  obtain s2 where 2: "mouse_read s1 = (ucast x, s2)" "ps2_ok s2" "unread (mousebuffer s2) = y # rest" "kbbuffer s2 = kbbuffer s"
    using mouse_read_unread [OF 1(2,3)] 1(4) by metis
  obtain s3 where 3: "mouse_read s2 = (ucast y, s3)" "ps2_ok s3" "unread (mousebuffer s3) = rest" "kbbuffer s3 = kbbuffer s"
    using mouse_read_unread [OF 2(2,3)] 2(4) by metis
  let ?d = "d\<lparr>MouseButtons := ucast b, MouseX := clamp 639 (MouseX d + word_of_int (delta (bit b 4) x)),
    MouseY := clamp 479 (MouseY d - word_of_int (delta (bit b 5) y)), mousetimeout := 0\<rparr>"
  have "mouse_packet (s, d) = (s3, ?d)"
    using 1(1) 2(1) 3(1) assms(2) by (simp add: mouse_packet_def sign_bits movement_word)
  moreover have "pointer ?d = move p (pointer d)"
    using assms(3) pointer_moved [of "MouseX d"] pointer_moved [of "MouseY d"]
    by (simp add: pointer_def move_def p on_screen_def)
  then have "on_screen ?d" "pointer ?d = move p (pointer d)"
    by (auto simp: on_screen_def pointer_def move_def p)
  ultimately show thesis using that 3 assms(2) p by simp
qed

lemma mouse_loop_moves:
  assumes "ps2_ok s" "mousemode d = 0" "on_screen d"
    "unread (mousebuffer s) = concat (map packet_bytes ps) @ rest" "length rest < 3"
  shows "\<exists>s' d'. mouse_loop (s, d) = Some (s', d') \<and> ps2_ok s' \<and> unread (mousebuffer s') = rest \<and>
    kbbuffer s' = kbbuffer s \<and> on_screen d' \<and> pointer d' = fold move ps (pointer d) \<and> mousemode d' = 0 \<and>
    (ps = [] \<longrightarrow> d' = d) \<and> (ps \<noteq> [] \<longrightarrow> mousetimeout d' = 0)"
  using assms
proof (induction ps arbitrary: s d)
  case Nil
  then have "mouse_loop (s, d) = Some (s, d)"
    using mouse_count [of s] by (subst mouse_loop.simps) simp
  then show ?case using Nil by auto
next
  case (Cons p ps)
  have u: "unread (mousebuffer s) = packet_bytes p @ (concat (map packet_bytes ps) @ rest)" using Cons.prems(4) by simp
  obtain s1 d1 where 1: "mouse_packet (s, d) = (s1, d1)" "ps2_ok s1"
    "unread (mousebuffer s1) = concat (map packet_bytes ps) @ rest" "kbbuffer s1 = kbbuffer s" "on_screen d1"
    "pointer d1 = move p (pointer d)" "mousemode d1 = 0" "mousetimeout d1 = 0"
    using mouse_packet_moves [OF Cons.prems(1-3) u] by metis
  have "length (packet_bytes p) = 3" by (simp add: packet_bytes_def split: prod.split)
  then have "mouse_loop (s, d) = mouse_loop (s1, d1)"
    using mouse_count [OF Cons.prems(1)] u Cons.prems(2) 1(1) by (subst mouse_loop.simps) simp
  then show ?case
    using Cons.IH [OF 1(2,7,5,3) Cons.prems(5)] 1(4,6,8) by (cases ps) auto
qed


lemma drain_mouse_empties:
  assumes "ps2_ok s"
  shows "\<exists>s'. drain_mouse s = Some s' \<and> ps2_ok s' \<and> unread (mousebuffer s') = [] \<and> kbbuffer s' = kbbuffer s"
  using assms
proof (induction "unread (mousebuffer s)" arbitrary: s)
  case Nil
  then show ?case using mouse_count [of s] by (subst drain_mouse.simps) simp
next
  case (Cons b bs)
  obtain s1 where 1: "mouse_read s = (ucast b, s1)" "ps2_ok s1" "unread (mousebuffer s1) = bs" "kbbuffer s1 = kbbuffer s"
    using mouse_read_unread [OF Cons.prems Cons.hyps(2) [symmetric]] by blast
  have "drain_mouse s = drain_mouse s1"
    using mouse_count [OF Cons.prems] 1(1) Cons.hyps(2) [symmetric] by (subst drain_mouse.simps) simp
  then show ?case using Cons.hyps(1) [of s1] 1 by simp
qed

section \<open>The keyboard\<close>

text \<open>All characters of a list of codes, and whether any of them changes the LEDs.\<close>

primrec keys_text :: "bytes \<Rightarrow> keyboard \<Rightarrow> keyboard_error + bytes \<times> bool \<times> keyboard" where
  "keys_text [] kb = Inr ([], False, kb)"
| "keys_text (c # codes) kb =
     (case handle_code (unat c) kb of
        Inl e \<Rightarrow> Inl e
      | Inr (a, u, kb) \<Rightarrow>
          (case keys_text codes kb of
             Inl e \<Rightarrow> Inl e
           | Inr (t, v, kb) \<Rightarrow> Inr (if a \<noteq> 0 then a # t else t, u \<or> v, kb)))"

lemma keys_text_scan:
  assumes "keys_text codes kb = Inr (t, False, kb')"
  shows "t = [] \<Longrightarrow> scan_codes codes kb upd = Inr (0, upd, [], kb')"
    "t = a # t' \<Longrightarrow> \<exists>rest kb1. a \<noteq> 0 \<and> scan_codes codes kb upd = Inr (a, False, rest, kb1) \<and>
       keys_text rest kb1 = Inr (t', False, kb')"
  using assms by (induction codes arbitrary: kb upd) (auto split: sum.splits prod.splits if_splits)

lemma HandlePS2RawCodes_no_leds:
  assumes "ps2_ok s" "scan_codes (unread (kbbuffer s)) kb False = Inr (a, False, rest, kb')"
  obtains s' where "HandlePS2RawCodes irqs s kb = Some (Inr (a, s', kb'))" "ps2_ok s'" "unread (kbbuffer s') = rest"
    "mousebuffer s' = mousebuffer s"
proof -
  obtain s1 where "ps2_ok s1" "mousebuffer s1 = mousebuffer s" "unread (kbbuffer s1) = rest"
    "raw_codes s kb False = Some (Inr (a, False, s1, kb'))"
    using raw_codes_scan [OF assms(1), of kb False] assms(2) by fastforce
  then show thesis using that [of s1] by (simp add: HandlePS2RawCodes_def)
qed

lemma type_keys_types:
  assumes "ps2_ok s" "textbuffer_ok tb" "keys_text (unread (kbbuffer s)) kb = Inr (t, False, kb')"
  shows "\<exists>s' tb'. type_keys irqss s kb tb = Some (Inr (s', kb', tb')) \<and> ps2_ok s' \<and> unread (kbbuffer s') = [] \<and>
    mousebuffer s' = mousebuffer s \<and> textbuffer_ok tb' \<and> screen_of tb' = fold put_char t (screen_of tb)"
  using assms
proof (induction t arbitrary: irqss s kb tb)
  case Nil
  obtain s' where "HandlePS2RawCodes (case irqss of [] \<Rightarrow> [] | i # _ \<Rightarrow> i) s kb = Some (Inr (0, s', kb'))" "ps2_ok s'"
    "unread (kbbuffer s') = []" "mousebuffer s' = mousebuffer s"
    using HandlePS2RawCodes_no_leds [OF Nil.prems(1) keys_text_scan(1) [OF Nil.prems(3) refl]] by blast
  then show ?case using Nil.prems(2) by (subst type_keys.simps) simp
next
  case (Cons a t)
  obtain rest kb1 where a: "a \<noteq> 0" and scan: "scan_codes (unread (kbbuffer s)) kb False = Inr (a, False, rest, kb1)"
    and t: "keys_text rest kb1 = Inr (t, False, kb')"
    using keys_text_scan(2) [OF Cons.prems(3) refl] by blast
  obtain s1 where s1: "HandlePS2RawCodes (case irqss of [] \<Rightarrow> [] | i # _ \<Rightarrow> i) s kb = Some (Inr (a, s1, kb1))" "ps2_ok s1"
    "unread (kbbuffer s1) = rest" "mousebuffer s1 = mousebuffer s"
    using HandlePS2RawCodes_no_leds [OF Cons.prems(1) scan] by blast
  obtain tb1 where tb1: "charbuffer_write [a] tb = Some tb1" "textbuffer_ok tb1"
    "screen_of tb1 = fold put_char [a] (screen_of tb)"
    by (rule charbuffer_write_refines [OF Cons.prems(2)])
  have "type_keys irqss s kb tb = type_keys (tl irqss) s1 kb1 tb1"
    using s1(1) tb1(1) a by (subst type_keys.simps) (simp add: tb_puts_def)
  then show ?case
    using Cons.IH [OF s1(2) tb1(2), of kb1 "tl irqss"] t s1(3,4) tb1(3) by auto
qed

section \<open>A frame\<close>

lemma scroll_frame_fields [simp]:
  "MouseX (scroll_frame d) = MouseX d" "MouseY (scroll_frame d) = MouseY d" "mousemode (scroll_frame d) = mousemode d"
  "mousetimeout (scroll_frame d) = mousetimeout d" "pointer (scroll_frame d) = pointer d"
  "on_screen (scroll_frame d) = on_screen d"
  by (simp_all add: scroll_frame_def Let_def pointer_def on_screen_def)

lemma vblank_frame:
  assumes "ps2_ok s" "textbuffer_ok tb" "mousemode d = 0" "on_screen d"
    and "unread (mousebuffer s) = concat (map packet_bytes ps)"
    and "keys_text (unread (kbbuffer s)) kb = Inr (t, False, kb')"
  shows "\<exists>s' tb' d'. vblank_int irqss (s, kb, tb, d) = Some (Inr (s', kb', tb', d')) \<and> ps2_ok s' \<and> textbuffer_ok tb' \<and>
    on_screen d' \<and> mousemode d' = 0 \<and> unread (mousebuffer s') = [] \<and> unread (kbbuffer s') = [] \<and>
    pointer d' = fold move ps (pointer d) \<and> (sint (sp0xpos d'), sint (sp0ypos d')) = pointer d' \<and>
    screen_of tb' = fold put_char t (screen_of tb)"
proof -
  obtain s1 d1 where 1: "mouse_loop (s, scroll_frame d) = Some (s1, d1)" "ps2_ok s1" "unread (mousebuffer s1) = []"
    "kbbuffer s1 = kbbuffer s" "on_screen d1" "pointer d1 = fold move ps (pointer d)" "mousemode d1 = 0"
    using mouse_loop_moves [of s "scroll_frame d" ps "[]"] assms(1,3-5) by auto
  let ?d = "d1\<lparr>sp0xpos := MouseX d1, sp0ypos := MouseY d1\<rparr>"
  have 2: "mouse_resync (s1, ?d) = Some (s1, ?d)"
    using mouse_count [OF 1(2)] 1(3) by (simp add: mouse_resync_def)
  have d: "on_screen ?d" "mousemode ?d = 0" "pointer ?d = fold move ps (pointer d)"
    "(sint (sp0xpos ?d), sint (sp0ypos ?d)) = pointer ?d"
    using 1(5-7) by (simp_all add: on_screen_def pointer_def)
  have c: "ps2_ringbuffer_count (kbbuffer s1) = length (unread (kbbuffer s))"
    using count_unread [of "kbbuffer s1"] 1(2,4) by (simp add: ps2_ok_def)
  show ?thesis
  proof (cases "unread (kbbuffer s) = []")
    case True
    then have "vblank_int irqss (s, kb, tb, d) = Some (Inr (s1, kb, tb, ?d))"
      using 1(1) 2 c by (simp add: vblank_int_def)
    then show ?thesis using True assms(2,6) 1(2-4) d by auto
  next
    case False
    obtain s2 tb2 where 3: "type_keys irqss s1 kb tb = Some (Inr (s2, kb', tb2))" "ps2_ok s2" "unread (kbbuffer s2) = []"
      "mousebuffer s2 = mousebuffer s1" "textbuffer_ok tb2" "screen_of tb2 = fold put_char t (screen_of tb)"
      using type_keys_types [OF 1(2) assms(2), of kb t kb' irqss] assms(6) 1(4) by auto
    have "vblank_int irqss (s, kb, tb, d) = Some (Inr (s2, kb', tb2, ?d))"
      using 1(1) 2 3(1) c False by (simp add: vblank_int_def)
    then show ?thesis using 3(2-6) 1(3) d by auto
  qed
qed

text \<open>Frames in which neither port receives a byte.\<close>

primrec quiet_frames :: "nat \<Rightarrow> ps2 \<times> keyboard \<times> textbuffer \<times> demo \<Rightarrow> (keyboard_error + ps2 \<times> keyboard \<times> textbuffer \<times> demo) option" where
  "quiet_frames 0 x = Some (Inr x)"
| "quiet_frames (Suc n) x =
     (case vblank_int [] x of None \<Rightarrow> None | Some (Inl e) \<Rightarrow> Some (Inl e) | Some (Inr y) \<Rightarrow> quiet_frames n y)"

lemma quiet_frame:
  assumes "ps2_ok s" "mousemode d = 0" "on_screen d" "unread (kbbuffer s) = []"
    and "unread (mousebuffer s) = bs" "bs \<noteq> []" "length bs < 3"
  shows "mousetimeout d + 1 \<noteq> 20 \<Longrightarrow> \<exists>d'. vblank_int [] (s, kb, tb, d) = Some (Inr (s, kb, tb, d')) \<and>
      mousetimeout d' = mousetimeout d + 1 \<and> mousemode d' = 0 \<and> pointer d' = pointer d \<and> on_screen d'"
    "mousetimeout d + 1 = 20 \<Longrightarrow> \<exists>s' d'. vblank_int [] (s, kb, tb, d) = Some (Inr (s', kb, tb, d')) \<and> ps2_ok s' \<and>
      unread (mousebuffer s') = [] \<and> mousetimeout d' = 0 \<and> mousemode d' = 1 \<and> pointer d' = pointer d \<and> on_screen d'"
proof -
  have c: "ps2_ringbuffer_count (mousebuffer s) = length bs" "ps2_ringbuffer_count (kbbuffer s) = 0"
    using mouse_count [OF assms(1)] count_unread [of "kbbuffer s"] assms(1,4,5) by (simp_all add: ps2_ok_def)
  have l: "mouse_loop (s, scroll_frame d) = Some (s, scroll_frame d)"
    using c assms(2,7) by (subst mouse_loop.simps) simp
  note simps = vblank_int_def mouse_resync_def l c assms(2,6) pointer_def on_screen_def
  show "\<exists>d'. vblank_int [] (s, kb, tb, d) = Some (Inr (s, kb, tb, d')) \<and>
      mousetimeout d' = mousetimeout d + 1 \<and> mousemode d' = 0 \<and> pointer d' = pointer d \<and> on_screen d'"
    if "mousetimeout d + 1 \<noteq> 20"
    using that assms(3) by (simp add: simps)
  show "\<exists>s' d'. vblank_int [] (s, kb, tb, d) = Some (Inr (s', kb, tb, d')) \<and> ps2_ok s' \<and>
      unread (mousebuffer s') = [] \<and> mousetimeout d' = 0 \<and> mousemode d' = 1 \<and> pointer d' = pointer d \<and> on_screen d'"
    if "mousetimeout d + 1 = 20"
  proof -
    obtain s' where s': "drain_mouse s = Some s'" "ps2_ok s'" "unread (mousebuffer s') = []" "kbbuffer s' = kbbuffer s"
      using drain_mouse_empties [OF assms(1)] by blast
    then show ?thesis using that assms(3) by (simp add: simps)
  qed
qed


section \<open>From the interrupts to the screen\<close>

text \<open>A run of the program: between two frames the PS/2 interrupt comes with the given values of its
  registers; the second component belongs to the handler at the end of the frame.\<close>

primrec demo_run :: "((u16 \<times> u16) list \<times> irqs list) list \<Rightarrow> ps2 \<times> keyboard \<times> textbuffer \<times> demo \<Rightarrow>
    (keyboard_error + ps2 \<times> keyboard \<times> textbuffer \<times> demo) option" where
  "demo_run [] x = Some (Inr x)"
| "demo_run (f # frames) x =
     (case vblank_int (snd f) (map_prod (fold (\<lambda>regs s. snd (PS2Handler regs s)) (fst f)) id x) of
        None \<Rightarrow> None
      | Some (Inl e) \<Rightarrow> Some (Inl e)
      | Some (Inr x) \<Rightarrow> demo_run frames x)"

text \<open>The bytes that arrive at a port during a frame.\<close>

definition arrived :: "port \<Rightarrow> (u16 \<times> u16) list \<Rightarrow> bytes" where
  "arrived p interrupts = concat (map (\<lambda>regs. received (port_reg p regs)) interrupts)"

lemma arrived_length: "length (arrived p interrupts) \<le> length interrupts"
  by (induction interrupts) (simp_all add: arrived_def received_def)

lemma interrupts_unread:
  assumes "ps2_ok s" "length (unread (port_buffer p s) @ arrived p interrupts) \<le> 31"
  shows "unread (port_buffer p (fold (\<lambda>regs s. snd (PS2Handler regs s)) interrupts s)) =
    unread (port_buffer p s) @ arrived p interrupts"
  using assms
proof (induction interrupts arbitrary: s)
  case (Cons regs interrupts)
  have a: "arrived p (regs # interrupts) = received (port_reg p regs) @ arrived p interrupts"
    by (simp add: arrived_def)
  have "unread (port_buffer p (snd (PS2Handler regs s))) = unread (port_buffer p s) @ received (port_reg p regs)"
    using Cons.prems by (simp add: a unread_handle)
  then show ?case
    using Cons.IH [of "snd (PS2Handler regs s)"] Cons.prems by (simp add: a del: port_handler)
qed (simp add: arrived_def)

lemma interrupts_ok: "ps2_ok s \<Longrightarrow> ps2_ok (fold (\<lambda>regs s. snd (PS2Handler regs s)) interrupts s)"
  by (induction interrupts arbitrary: s) simp_all

lemma keys_text_append:
  assumes "keys_text (xs @ ys) kb = Inr (t, False, kb')"
  obtains t1 kb1 t2 where "keys_text xs kb = Inr (t1, False, kb1)" "keys_text ys kb1 = Inr (t2, False, kb')" "t = t1 @ t2"
proof -
  have "\<exists>t1 kb1 t2. keys_text xs kb = Inr (t1, False, kb1) \<and> keys_text ys kb1 = Inr (t2, False, kb') \<and> t = t1 @ t2"
    using assms
  proof (induction xs arbitrary: kb t)
    case (Cons x xs)
    obtain a kb2 t0 where h: "handle_code (unat x) kb = Inr (a, False, kb2)"
      "keys_text (xs @ ys) kb2 = Inr (t0, False, kb')" "t = (if a \<noteq> 0 then a # t0 else t0)"
      using Cons.prems by (auto split: sum.splits prod.splits)
    from Cons.IH [OF h(2)] show ?case using h(1,3) by auto
  qed simp
  then show thesis using that by blast
qed

lemma demo_run_shows_input:
  assumes "ps2_ok s" "textbuffer_ok tb" "mousemode d = 0" "on_screen d"
    and "unread (mousebuffer s) = []" "unread (kbbuffer s) = []"
    and "list_all2 (\<lambda>f ps. arrived Mouse (fst f) = concat (map packet_bytes ps)) frames pss"
    and "\<forall>f \<in> set frames. \<forall>p. length (arrived p (fst f)) \<le> 31"
    and "keys_text (concat (map (\<lambda>f. arrived port.Keyboard (fst f)) frames)) kb = Inr (t, False, kb')"
  shows "\<exists>s' tb' d'. demo_run frames (s, kb, tb, d) = Some (Inr (s', kb', tb', d')) \<and>
    on_screen d' \<and> pointer d' = fold move (concat pss) (pointer d) \<and>
    (sint (sp0xpos d'), sint (sp0ypos d')) =
      (if frames = [] then (sint (sp0xpos d), sint (sp0ypos d)) else pointer d') \<and>
    textbuffer_ok tb' \<and> screen_of tb' = fold put_char t (screen_of tb)"
  using assms
proof (induction frames arbitrary: s kb tb d t pss)
  case (Cons f frames)
  obtain ps pss' where pss: "pss = ps # pss'" "arrived Mouse (fst f) = concat (map packet_bytes ps)"
    "list_all2 (\<lambda>f ps. arrived Mouse (fst f) = concat (map packet_bytes ps)) frames pss'"
    using Cons.prems(7) by (auto simp: list_all2_Cons1)
  have "keys_text (arrived port.Keyboard (fst f) @ concat (map (\<lambda>f. arrived port.Keyboard (fst f)) frames)) kb = Inr (t, False, kb')"
    using Cons.prems(9) by simp
  then obtain t1 kb1 t2 where t: "keys_text (arrived port.Keyboard (fst f)) kb = Inr (t1, False, kb1)"
    "keys_text (concat (map (\<lambda>f. arrived port.Keyboard (fst f)) frames)) kb1 = Inr (t2, False, kb')" "t = t1 @ t2"
    by (rule keys_text_append)
  let ?s = "fold (\<lambda>regs s. snd (PS2Handler regs s)) (fst f) s"
  have ok: "ps2_ok ?s" by (rule interrupts_ok [OF Cons.prems(1)])
  have "unread (port_buffer p ?s) = arrived p (fst f)" for p
    using interrupts_unread [OF Cons.prems(1), of p "fst f"] Cons.prems(5,6,8)
    by (cases p) (auto simp: port_buffer_def)
  from this [of Mouse] this [of port.Keyboard]
  have u: "unread (mousebuffer ?s) = concat (map packet_bytes ps)" "unread (kbbuffer ?s) = arrived port.Keyboard (fst f)"
    by (simp_all add: port_buffer_def pss(2))
  obtain s1 tb1 d1 where 1: "vblank_int (snd f) (?s, kb, tb, d) = Some (Inr (s1, kb1, tb1, d1))" "ps2_ok s1"
    "textbuffer_ok tb1" "on_screen d1" "mousemode d1 = 0" "unread (mousebuffer s1) = []" "unread (kbbuffer s1) = []"
    "pointer d1 = fold move ps (pointer d)" "screen_of tb1 = fold put_char t1 (screen_of tb)"
    "(sint (sp0xpos d1), sint (sp0ypos d1)) = pointer d1"
    using vblank_frame [OF ok Cons.prems(2-4) u(1), of kb t1 kb1 "snd f"] t(1) unfolding u(2) by blast
  have "\<forall>f \<in> set frames. \<forall>p. length (arrived p (fst f)) \<le> 31" using Cons.prems(8) by simp
  from Cons.IH [OF 1(2,3,5,4,6,7) pss(3) this t(2)] show ?case
    using 1(1,8,9,10) t(3) pss(1) by (auto split: if_splits)
qed simp


section \<open>Lost bytes\<close>

lemma quiet_frames_drop:
  assumes "ps2_ok s" "mousemode d = 0" "on_screen d" "unread (kbbuffer s) = []"
    and "unread (mousebuffer s) = bs" "bs \<noteq> []" "length bs < 3" "unat (mousetimeout d) + n = 19"
  shows "\<exists>s' d'. quiet_frames (Suc n) (s, kb, tb, d) = Some (Inr (s', kb, tb, d')) \<and> ps2_ok s' \<and>
    unread (mousebuffer s') = [] \<and> mousetimeout d' = 0 \<and> mousemode d' = 1 \<and> pointer d' = pointer d"
  using assms
proof (induction n arbitrary: d)
  case 0
  then have "mousetimeout d + 1 = 20" by (simp add: word_unat_eq_iff unat_word_ariths)
  then obtain s' d' where "vblank_int [] (s, kb, tb, d) = Some (Inr (s', kb, tb, d'))" "ps2_ok s'"
    "unread (mousebuffer s') = []" "mousetimeout d' = 0" "mousemode d' = 1" "pointer d' = pointer d"
    using quiet_frame(2) [OF 0(1-7), of kb tb] by blast
  then show ?case by simp
next
  case (Suc n)
  have "unat (mousetimeout d) < 19" using Suc.prems(8) by simp
  then have t: "unat (mousetimeout d + 1) = unat (mousetimeout d) + 1" by (simp add: unat_word_ariths)
  then have "mousetimeout d + 1 \<noteq> 20" using \<open>unat (mousetimeout d) < 19\<close> by auto
  then obtain d1 where 1: "vblank_int [] (s, kb, tb, d) = Some (Inr (s, kb, tb, d1))" "mousetimeout d1 = mousetimeout d + 1"
    "mousemode d1 = 0" "pointer d1 = pointer d" "on_screen d1"
    using quiet_frame(1) [OF Suc.prems(1-7), of kb tb] by blast
  have "unat (mousetimeout d1) + n = 19" using 1(2) t Suc.prems(8) by simp
  from Suc.IH [OF Suc.prems(1) 1(3,5) Suc.prems(4-7) this] 1(1,4) show ?case
    by (subst quiet_frames.simps) simp
qed

lemma wheel_steps:
  "list_all (\<lambda>n. wheel (of_nat n) z = z + of_nat n) [0..<8]"
  "list_all (\<lambda>n. wheel (16 - of_nat n) z = z - of_nat (n - 1)) [1..<9]"
  by (simp_all add: wheel_def upt_rec)

definition sample_demo :: demo where
  "sample_demo = \<lparr>framecount = 0, MouseX = 320, MouseY = 240, MouseZ = 0, MouseButtons = 0, mousetimeout = 0,
     mousemode = 0, screenwidth = 640, FrameBuffer = 0x100000, framebufferptr = 0, sp0xpos = 0, sp0ypos = 0, microseconds = 0\<rparr>"

text \<open>The mouse has sent the given bytes.\<close>

definition mouse_sends :: "bytes \<Rightarrow> ps2" where
  "mouse_sends bs = (keyboard_sends [])\<lparr>mousebuffer := fold receive_byte bs (mousebuffer (keyboard_sends []))\<rparr>"

text \<open>
  C14. When bytes of the mouse are lost, the rest of a packet does not shift the packets that follow
  for ever: if one or two bytes stay unread, they are dropped in the frame in which the timeout
  reaches 20, with the pointer where it was; the program then expects packets of four bytes.
\<close>
theorem incomplete_packet_dropped:
  assumes "ps2_ok s" "mousemode d = 0" "on_screen d" "unread (kbbuffer s) = []"
    and "unread (mousebuffer s) = bs" "bs \<noteq> []" "length bs < 3" "unat (mousetimeout d) < 20"
  shows "\<exists>s' d'. quiet_frames (20 - unat (mousetimeout d)) (s, kb, tb, d) = Some (Inr (s', kb, tb, d')) \<and> ps2_ok s' \<and>
    unread (mousebuffer s') = [] \<and> mousetimeout d' = 0 \<and> mousemode d' = 1 \<and> pointer d' = pointer d"
proof -
  have "20 - unat (mousetimeout d) = Suc (19 - unat (mousetimeout d))" using assms(8) by simp
  then show ?thesis
    using quiet_frames_drop [OF assms(1-7), of "19 - unat (mousetimeout d)"] assms(8) by simp
qed

lemma incomplete_packet_dropped_witness:
  "\<exists>s' d'. quiet_frames 20 (mouse_sends [8, 1], sample_keyboard, sample_textbuffer, sample_demo) =
      Some (Inr (s', sample_keyboard, sample_textbuffer, d')) \<and>
    unread (mousebuffer s') = [] \<and> pointer d' = (320, 240)"
proof -
  have s: "ps2_ok (mouse_sends [8, 1])" "unread (kbbuffer (mouse_sends [8, 1])) = []"
    "unread (mousebuffer (mouse_sends [8, 1])) = [8, 1]"
    by code_simp+
  have d: "mousemode sample_demo = 0" "on_screen sample_demo" "unat (mousetimeout sample_demo) = 0"
    "pointer sample_demo = (320, 240)"
    by (simp_all add: sample_demo_def on_screen_def pointer_def)
  then show ?thesis
    using incomplete_packet_dropped [OF s(1) d(1,2) s(2,3), of sample_keyboard sample_textbuffer] by auto
qed

end
