(* ===== verification/Memcheck.thy ===== *)
theory Memcheck
  imports Cmem
begin

text \<open>
  The two memory tests: \<^verbatim>\<open>SanityCheck/Firmware/main.c\<close>, which mixes accesses of different widths
  through the cache, and \<open>DoMemcheckCycle\<close> of \<^verbatim>\<open>Apps/Demo/main.c\<close>, which visits the memory in the
  order of a shift register. The memory with its cache is a parameter; the locale states what
  working memory is. The tests pass on working memory, and the second is shown to find a bit that
  is stuck.
\<close>

section \<open>Memory\<close>

text \<open>The accesses that the programs make through \<open>volatile\<close> pointers. A read may change the state of
  the cache.\<close>

record 'm ram_ops =
  rd32 :: "u32 \<Rightarrow> 'm \<Rightarrow> u32 \<times> 'm"
  wr32 :: "u32 \<Rightarrow> u32 \<Rightarrow> 'm \<Rightarrow> 'm"
  wr16 :: "u32 \<Rightarrow> u16 \<Rightarrow> 'm \<Rightarrow> 'm"
  wr8 :: "u32 \<Rightarrow> u8 \<Rightarrow> 'm \<Rightarrow> 'm"

locale working_ram =
  fixes io :: "'m ram_ops" and ok :: "'m \<Rightarrow> bool" and contents :: "'m \<Rightarrow> mem"
  assumes rd32_ok: "ok m \<Longrightarrow> ok (snd (rd32 io a m)) \<and> contents (snd (rd32 io a m)) = contents m \<and>
      fst (rd32 io a m) = load32 (contents m) a"
    and wr32_ok: "ok m \<Longrightarrow> ok (wr32 io a w m) \<and> contents (wr32 io a w m) = store32 a w (contents m)"
    and wr16_ok: "ok m \<Longrightarrow> ok (wr16 io a h m) \<and> contents (wr16 io a h m) = store16 a h (contents m)"
    and wr8_ok: "ok m \<Longrightarrow> ok (wr8 io a b m) \<and> contents (wr8 io a b m) = (contents m)(a := b)"

text \<open>The machine's memory itself, and the same with one stuck bit in one long word.\<close>

definition plain_ram :: "mem ram_ops" where
  "plain_ram = \<lparr>rd32 = (\<lambda>a m. (load32 m a, m)), wr32 = store32, wr16 = store16, wr8 = (\<lambda>a b m. m(a := b))\<rparr>"

interpretation plain: working_ram plain_ram "\<lambda>_. True" id
  by unfold_locales (simp_all add: plain_ram_def)

definition stuck_ram :: "u32 \<Rightarrow> nat \<Rightarrow> bool \<Rightarrow> mem ram_ops" where
  "stuck_ram k b v = plain_ram\<lparr>rd32 := (\<lambda>a m. (if a = k then (if v then set_bit b (load32 m a) else unset_bit b (load32 m a)) else load32 m a, m))\<rparr>"


section \<open>The sanity check\<close>

text \<open>Eight reads that map to the cache line of \<open>base\<close>.\<close>

definition flushcacheline :: "'m ram_ops \<Rightarrow> u32 \<Rightarrow> 'm \<Rightarrow> 'm" where
  "flushcacheline io base m =
     fold (\<lambda>i m. snd (rd32 io (base + 4 * i) m)) [0x1000, 0x4001, 0x2000, 0x3003, 0x3001, 0x2003, 0x4000, 0x1002] m"

text \<open>A read that is compared with the value expected; the bits that differ are collected.\<close>

definition check_read :: "'m ram_ops \<Rightarrow> u32 \<Rightarrow> u32 \<Rightarrow> u32 \<times> 'm \<Rightarrow> u32 \<times> 'm" where
  "check_read io a k = (\<lambda>(badbits, m).
     case rd32 io a m of (t, m) \<Rightarrow> (if t \<noteq> k then badbits OR (t XOR k) else badbits, m))"

text \<open>Through the cache, and again after a flush.\<close>

definition check_twice :: "'m ram_ops \<Rightarrow> u32 \<Rightarrow> u32 \<Rightarrow> u32 \<Rightarrow> u32 \<times> 'm \<Rightarrow> u32 \<times> 'm" where
  "check_twice io line a k x =
     (case check_read io a k x of (badbits, m) \<Rightarrow> check_read io a k (badbits, flushcacheline io line m))"

definition MisalignedLongCheck :: "'m ram_ops \<Rightarrow> u32 \<Rightarrow> u32 \<Rightarrow> u32 \<Rightarrow> 'm \<Rightarrow> u32 \<times> 'm" where
  "MisalignedLongCheck io base l1 l2 m =
     (let k = (push_bit 16 l1 AND 0xFFFF0000) OR (drop_bit 16 l2 AND 0xFFFF);
          m = wr32 io base l1 m;
          m = wr32 io (base + 4) l2 m
      in check_twice io (base + 8) (base + 2) k (0, m))"

definition LongShortCheck :: "'m ram_ops \<Rightarrow> u32 \<Rightarrow> u32 \<Rightarrow> u16 \<Rightarrow> 'm \<Rightarrow> u32 \<times> 'm" where
  "LongShortCheck io base l1 s1 m =
     (let k = (l1 AND 0xFFFF0000) OR (ucast s1 AND 0xFFFF);
          k2 = (l1 AND 0xFFFF) OR push_bit 16 (ucast s1);
          m = wr32 io base l1 m;
          m = wr16 io base s1 m;
          (badbits, m) = check_twice io base base k2 (0, m);
          m = wr32 io (base + 4) l1 m;
          m = wr16 io (base + 6) s1 m
      in check_twice io (base + 4) (base + 4) k (badbits, m))"

definition LongByteCheck :: "'m ram_ops \<Rightarrow> u32 \<Rightarrow> u32 \<Rightarrow> u8 \<Rightarrow> 'm \<Rightarrow> u32 \<times> 'm" where
  "LongByteCheck io base l1 s1 m =
     (let k = (l1 AND 0xFFFFFF00) OR ucast s1;
          k2 = (l1 AND 0xFFFF00FF) OR push_bit 8 (ucast s1);
          k3 = (l1 AND 0xFF00FFFF) OR push_bit 16 (ucast s1);
          k4 = (l1 AND 0x00FFFFFF) OR push_bit 24 (ucast s1);
          m = wr8 io (base + 3) s1 (wr32 io base l1 m);
          m = wr8 io (base + 6) s1 (wr32 io (base + 4) l1 m);
          m = wr8 io (base + 9) s1 (wr32 io (base + 8) l1 m);
          m = wr8 io (base + 12) s1 (wr32 io (base + 12) l1 m);
          x = check_twice io (base + 8) base k (0, m);
          x = check_twice io (base + 8) (base + 4) k2 x;
          x = check_twice io (base + 8) (base + 8) k3 x
      in check_twice io (base + 8) (base + 12) k4 x)"

text \<open>The values of a loop \<open>for(i=0;i<0x7fff0000;i+=d)\<close>, and the two nested loops of a test.\<close>

definition loop_values :: "nat \<Rightarrow> u32 list" where
  "loop_values d = map (\<lambda>n. of_nat (n * d)) [0..<(0x7FFF0000 + d - 1) div d]"

definition run_test :: "(u32 \<Rightarrow> u32 \<Rightarrow> 'm \<Rightarrow> u32 \<times> 'm) \<Rightarrow> nat \<Rightarrow> nat \<Rightarrow> 'm \<Rightarrow> u32 \<times> 'm" where
  "run_test f d1 d2 m =
     fold (\<lambda>i x. fold (\<lambda>j (badbits, m). case f i j m of (b, m) \<Rightarrow> (badbits OR b, m)) (loop_values d2) x)
       (loop_values d1) (0, m)"

text \<open>\<open>memorycheck\<close> returns 1 when no bit was bad.\<close>

definition memorycheck :: "'m ram_ops \<Rightarrow> u32 \<Rightarrow> 'm \<Rightarrow> bool \<times> 'm" where
  "memorycheck io base m =
     (let (b1, m) = run_test (\<lambda>i j. LongShortCheck io base i (ucast j)) 0x212345 0x318765 m;
          (b2, m) = run_test (\<lambda>i j. MisalignedLongCheck io base i j) 0x134567 0x198765 m;
          (b3, m) = run_test (\<lambda>i j. LongByteCheck io base i (ucast j)) 0x712341 0x287653 m
      in (b1 = 0 \<and> b2 = 0 \<and> b3 = 0, m))"

lemma loop_values_loop:
  assumes "0 < d" "d < 2 ^ 24"
  shows "hd (loop_values d) = 0" "loop_values d \<noteq> []"
    "\<forall>n < length (loop_values d). loop_values d ! n < 0x7FFF0000 \<and>
      (if Suc n < length (loop_values d) then loop_values d ! Suc n = loop_values d ! n + of_nat d
       else \<not> loop_values d ! n + of_nat d < 0x7FFF0000)"
proof -
  define k where "k = (0x7FFF0000 + d - 1) div d"
  have k: "0 < k" "d * k \<le> 0x7FFF0000 + d - 1" "0x7FFF0000 + d - 1 < d * k + d"
  proof -
    have "(0x7FFF0000 + d - 1) mod d < d" using assms(1) by simp
    moreover have "d * k + (0x7FFF0000 + d - 1) mod d = 0x7FFF0000 + d - 1"
      unfolding k_def by (rule mult_div_mod_eq)
    ultimately show "d * k \<le> 0x7FFF0000 + d - 1" "0x7FFF0000 + d - 1 < d * k + d" by linarith+
    show "0 < k" using assms by (simp add: k_def div_greater_zero_iff)
  qed
  have l: "loop_values d = map (\<lambda>n. of_nat (n * d)) [0..<k]" by (simp add: loop_values_def k_def)
  show "loop_values d \<noteq> []" "hd (loop_values d) = 0" using k(1) by (simp_all add: l hd_map upt_conv_Cons)
  have u: "unat (of_nat (n * d) :: u32) = n * d" "n * d < 0x7FFF0000" if "n < k" for n
  proof -
    have "Suc n * d \<le> k * d" using that by (intro mult_le_mono1) simp
    then show "n * d < 0x7FFF0000" using k(2) assms(1) by (simp add: mult.commute)
    then show "unat (of_nat (n * d) :: u32) = n * d" by (subst unat_of_nat_u32) simp_all
  qed
  show "\<forall>n < length (loop_values d). loop_values d ! n < 0x7FFF0000 \<and>
      (if Suc n < length (loop_values d) then loop_values d ! Suc n = loop_values d ! n + of_nat d
       else \<not> loop_values d ! n + of_nat d < 0x7FFF0000)"
  proof (intro allI impI)
    fix n assume "n < length (loop_values d)"
    then have n: "n < k" by (simp add: l)
    have "\<not> of_nat (n * d) + of_nat d < (0x7FFF0000 :: u32)" if "\<not> Suc n < k"
    proof -
      have "Suc n = k" using n that by simp
      then have "k * d = n * d + d" by auto
      then have "0x7FFF0000 \<le> n * d + d" "n * d + d < 4294967296"
        using k(2,3) assms(2) by (simp_all add: mult.commute)
      moreover have "of_nat (n * d) + of_nat d = (of_nat (n * d + d) :: u32)" by simp
      ultimately show ?thesis by (simp only: word_less_nat_alt unat_of_nat_u32) simp
    qed
    then show "loop_values d ! n < 0x7FFF0000 \<and>
      (if Suc n < length (loop_values d) then loop_values d ! Suc n = loop_values d ! n + of_nat d
       else \<not> loop_values d ! n + of_nat d < 0x7FFF0000)"
      using u [OF n] n by (auto simp: l word_less_nat_alt simp del: of_nat_mult)
  qed
qed


section \<open>The sanity check on working memory\<close>

lemma word_cat_halves: "word_cat a b = (push_bit 16 (ucast a) OR ucast b :: u32)" for a b :: u16
  by (rule bit_word_eqI) (auto simp: bit_simps dest: bit_imp_le_length)

lemma byte_masks:
  "(0xFFFFFF00 :: u32) = NOT (mask 8)" "(0xFFFF00FF :: u32) = NOT (push_bit 8 (mask 8))"
  "(0xFF00FFFF :: u32) = NOT (push_bit 16 (mask 8))" "(0x00FFFFFF :: u32) = mask 24"
  "(0xFFFF0000 :: u32) = NOT (mask 16)" "(0xFFFF :: u32) = mask 16"
  by (simp_all add: mask_eq_exp_minus_1 push_bit_eq_mult)

text \<open>The values that the checks expect, by bytes.\<close>

lemma expected_words:
  fixes a b c d e f g h :: u8
  defines "l1 \<equiv> word_cat (word_cat a b :: u16) (word_cat c d :: u16) :: u32"
    and "l2 \<equiv> word_cat (word_cat e f :: u16) (word_cat g h :: u16) :: u32"
    and "s \<equiv> word_cat e f :: u16"
  shows "(push_bit 16 l1 AND 0xFFFF0000) OR (drop_bit 16 l2 AND 0xFFFF) = word_cat (word_cat c d :: u16) (word_cat e f :: u16)"
    "(l1 AND 0xFFFF0000) OR (ucast s AND 0xFFFF) = word_cat (word_cat a b :: u16) s"
    "(l1 AND 0xFFFF) OR push_bit 16 (ucast s) = word_cat s (word_cat c d :: u16)"
    "(l1 AND 0xFFFFFF00) OR ucast e = word_cat (word_cat a b :: u16) (word_cat c e :: u16)"
    "(l1 AND 0xFFFF00FF) OR push_bit 8 (ucast e) = word_cat (word_cat a b :: u16) (word_cat e d :: u16)"
    "(l1 AND 0xFF00FFFF) OR push_bit 16 (ucast e) = word_cat (word_cat a e :: u16) (word_cat c d :: u16)"
    "(l1 AND 0x00FFFFFF) OR push_bit 24 (ucast e) = word_cat (word_cat e b :: u16) (word_cat c d :: u16)"
  unfolding byte_masks l1_def l2_def s_def
  by (rule bit_word_eqI; auto simp: bit_simps dest: bit_imp_le_length)+


text \<open>The stores of the checks leave these words.\<close>

lemma loads_after_stores:
  fixes a b c d e f g h :: u8 and base :: u32
  defines "l1 \<equiv> word_cat (word_cat a b :: u16) (word_cat c d :: u16) :: u32"
    and "l2 \<equiv> word_cat (word_cat e f :: u16) (word_cat g h :: u16) :: u32"
    and "s \<equiv> word_cat e f :: u16"
  shows "load32 (store32 (base + 4) l2 (store32 base l1 m)) (base + 2) = word_cat (word_cat c d :: u16) (word_cat e f :: u16)"
    "load32 (store16 base s (store32 base l1 m)) base = word_cat s (word_cat c d :: u16)"
    "load32 (store16 (base + 2) s (store32 base l1 m)) base = word_cat (word_cat a b :: u16) s"
    "load32 ((store32 base l1 m)(base + 3 := e)) base = word_cat (word_cat a b :: u16) (word_cat c e :: u16)"
    "load32 ((store32 base l1 m)(base + 2 := e)) base = word_cat (word_cat a b :: u16) (word_cat e d :: u16)"
    "load32 ((store32 base l1 m)(base + 1 := e)) base = word_cat (word_cat a e :: u16) (word_cat c d :: u16)"
    "load32 ((store32 base l1 m)(base := e)) base = word_cat (word_cat e b :: u16) (word_cat c d :: u16)"
  by (simp_all add: load32_def store32_def store16_def l1_def l2_def s_def add.assoc)

context working_ram
begin

lemma flush_ok: "ok m \<Longrightarrow> ok (flushcacheline io base m) \<and> contents (flushcacheline io base m) = contents m"
  by (simp add: flushcacheline_def rd32_ok)

lemma check_read_passes:
  assumes "ok m" "load32 (contents m) a = k"
  shows "\<exists>m'. check_read io a k (b, m) = (b, m') \<and> ok m' \<and> contents m' = contents m"
  using rd32_ok [OF assms(1), of a] assms(2) by (cases "rd32 io a m") (simp add: check_read_def)

lemma check_twice_passes:
  assumes "ok m" "load32 (contents m) a = k"
  obtains m' where "check_twice io line a k (b, m) = (b, m')" "ok m'" "contents m' = contents m"
proof -
  obtain m1 where 1: "check_read io a k (b, m) = (b, m1)" "ok m1" "contents m1 = contents m"
    using check_read_passes [OF assms] by blast
  note f = flush_ok [OF 1(2), of line]
  obtain m2 where "check_read io a k (b, flushcacheline io line m1) = (b, m2)" "ok m2" "contents m2 = contents m"
    using check_read_passes [of "flushcacheline io line m1" a k b] f assms(2) 1(3) by auto
  then show thesis using that 1(1) by (simp add: check_twice_def)
qed

lemma MisalignedLongCheck_passes:
  assumes "ok m"
  shows "\<exists>m'. MisalignedLongCheck io base l1 l2 m = (0, m') \<and> ok m'"
proof -
  obtain a b c d e f g h :: u8 where l: "l1 = word_cat (word_cat a b :: u16) (word_cat c d :: u16)"
    "l2 = word_cat (word_cat e f :: u16) (word_cat g h :: u16)" by (metis u32_bytes)
  let ?m = "wr32 io (base + 4) l2 (wr32 io base l1 m)"
  have m: "ok ?m" "contents ?m = store32 (base + 4) l2 (store32 base l1 (contents m))"
    using wr32_ok assms by simp_all
  have "load32 (contents ?m) (base + 2) = (push_bit 16 l1 AND 0xFFFF0000) OR (drop_bit 16 l2 AND 0xFFFF)"
    by (simp only: m(2)) (simp only: l loads_after_stores expected_words)
  from check_twice_passes [OF m(1) this] show ?thesis by (metis MisalignedLongCheck_def)
qed

lemma LongShortCheck_passes:
  assumes "ok m"
  shows "\<exists>m'. LongShortCheck io base l1 s1 m = (0, m') \<and> ok m'"
proof -
  obtain a b c d :: u8 where l: "l1 = word_cat (word_cat a b :: u16) (word_cat c d :: u16)" by (metis u32_bytes)
  obtain e f :: u8 where s: "s1 = word_cat e f" by (metis u16_bytes)
  let ?m = "wr16 io base s1 (wr32 io base l1 m)"
  have m: "ok ?m" "contents ?m = store16 base s1 (store32 base l1 (contents m))"
    using wr32_ok wr16_ok assms by simp_all
  have "load32 (contents ?m) base = (l1 AND 0xFFFF) OR push_bit 16 (ucast s1)"
    by (simp only: m(2)) (simp only: l s loads_after_stores expected_words)
  then obtain m1 where 1: "check_twice io base base ((l1 AND 0xFFFF) OR push_bit 16 (ucast s1)) (0, ?m) = (0, m1)" "ok m1"
    using check_twice_passes m(1) by blast
  let ?n = "wr16 io (base + 6) s1 (wr32 io (base + 4) l1 m1)"
  have n: "ok ?n" "contents ?n = store16 (base + 4 + 2) s1 (store32 (base + 4) l1 (contents m1))"
    using wr32_ok wr16_ok 1(2) by (simp_all add: add.assoc)
  have "load32 (contents ?n) (base + 4) = (l1 AND 0xFFFF0000) OR (ucast s1 AND 0xFFFF)"
    by (simp only: n(2)) (simp only: l s loads_after_stores expected_words)
  then obtain m2 where "check_twice io (base + 4) (base + 4) ((l1 AND 0xFFFF0000) OR (ucast s1 AND 0xFFFF)) (0, ?n) = (0, m2)"
      "ok m2" using check_twice_passes n(1) by blast
  then show ?thesis by (simp add: LongShortCheck_def Let_def 1(1))
qed

lemma LongByteCheck_passes:
  assumes "ok m"
  shows "\<exists>m'. LongByteCheck io base l1 s1 m = (0, m') \<and> ok m'"
proof -
  obtain a b c d :: u8 where l: "l1 = word_cat (word_cat a b :: u16) (word_cat c d :: u16)" by (metis u32_bytes)
  let ?m = "wr8 io (base + 12) s1 (wr32 io (base + 12) l1 (wr8 io (base + 9) s1 (wr32 io (base + 8) l1
    (wr8 io (base + 6) s1 (wr32 io (base + 4) l1 (wr8 io (base + 3) s1 (wr32 io base l1 m)))))))"
  let ?k = "(l1 AND 0xFFFFFF00) OR ucast s1" and ?k2 = "(l1 AND 0xFFFF00FF) OR push_bit 8 (ucast s1)"
    and ?k3 = "(l1 AND 0xFF00FFFF) OR push_bit 16 (ucast s1)" and ?k4 = "(l1 AND 0x00FFFFFF) OR push_bit 24 (ucast s1)"
  have m: "ok ?m" "contents ?m = (store32 (base + 12) l1 ((store32 (base + 8) l1 ((store32 (base + 4) l1
      ((store32 base l1 (contents m))(base + 3 := s1)))(base + 6 := s1)))(base + 9 := s1)))(base + 12 := s1)"
    using wr32_ok wr8_ok assms by simp_all
  have "load32 (contents ?m) base = ?k \<and> load32 (contents ?m) (base + 4) = ?k2 \<and>
      load32 (contents ?m) (base + 8) = ?k3 \<and> load32 (contents ?m) (base + 12) = ?k4"
    by (simp only: m(2)) (simp only: l expected_words, simp add: load32_def store32_def store16_def add.assoc)
  then have k: "load32 (contents ?m) base = ?k" "load32 (contents ?m) (base + 4) = ?k2"
      "load32 (contents ?m) (base + 8) = ?k3" "load32 (contents ?m) (base + 12) = ?k4" by blast+
  obtain m1 where 1: "check_twice io (base + 8) base ?k (0, ?m) = (0, m1)" "ok m1" "contents m1 = contents ?m"
    using check_twice_passes [OF m(1) k(1)] by metis
  obtain m2 where 2: "check_twice io (base + 8) (base + 4) ?k2 (0, m1) = (0, m2)" "ok m2" "contents m2 = contents ?m"
    using check_twice_passes [of m1 "base + 4" ?k2] 1(2,3) k(2) by metis
  obtain m3 where 3: "check_twice io (base + 8) (base + 8) ?k3 (0, m2) = (0, m3)" "ok m3" "contents m3 = contents ?m"
    using check_twice_passes [of m2 "base + 8" ?k3] 2(2,3) k(3) by metis
  obtain m4 where 4: "check_twice io (base + 8) (base + 12) ?k4 (0, m3) = (0, m4)" "ok m4"
    using check_twice_passes [of m3 "base + 12" ?k4] 3(2,3) k(4) by metis
  show ?thesis using 4(2) by (simp add: LongByteCheck_def Let_def 1(1) 2(1) 3(1) 4(1))
qed

lemma run_test_passes:
  assumes f: "\<And>i j m. ok m \<Longrightarrow> \<exists>m'. f i j m = (0, m') \<and> ok m'" and m: "ok m"
  shows "\<exists>m'. run_test f d1 d2 m = (0, m') \<and> ok m'"
proof -
  have inner: "\<exists>m'. fold (\<lambda>j (badbits, m). case f i j m of (b, m) \<Rightarrow> (badbits OR b, m)) js (0, m) = (0, m') \<and> ok m'"
    if "ok m" for i js m
    using that
  proof (induction js arbitrary: m)
    case (Cons j js)
    obtain m1 where "f i j m = (0, m1)" "ok m1" using f Cons.prems by blast
    then show ?case using Cons.IH by simp
  qed simp
  have "\<exists>m'. fold (\<lambda>i x. fold (\<lambda>j (badbits, m). case f i j m of (b, m) \<Rightarrow> (badbits OR b, m)) (loop_values d2) x) is (0, m)
      = (0, m') \<and> ok m'" for "is"
    using m
  proof (induction "is" arbitrary: m)
    case (Cons i "is")
    then show ?case using inner [of m i "loop_values d2"] by fastforce
  qed simp
  then show ?thesis by (simp add: run_test_def)
qed

lemma memorycheck_passes: "ok m \<Longrightarrow> \<exists>m'. memorycheck io base m = (True, m') \<and> ok m'"
proof -
  assume "ok m"
  then obtain m1 where 1: "run_test (\<lambda>i j. LongShortCheck io base i (ucast j)) 0x212345 0x318765 m = (0, m1)" "ok m1"
    using run_test_passes [of "\<lambda>i j. LongShortCheck io base i (ucast j)"] LongShortCheck_passes by blast
  then obtain m2 where 2: "run_test (\<lambda>i j. MisalignedLongCheck io base i j) 0x134567 0x198765 m1 = (0, m2)" "ok m2"
    using run_test_passes [of "\<lambda>i j. MisalignedLongCheck io base i j"] MisalignedLongCheck_passes by blast
  then obtain m3 where 3: "run_test (\<lambda>i j. LongByteCheck io base i (ucast j)) 0x712341 0x287653 m2 = (0, m3)" "ok m3"
    using run_test_passes [of "\<lambda>i j. LongByteCheck io base i (ucast j)"] LongByteCheck_passes by blast
  show ?thesis using 3(2) by (simp add: memorycheck_def 1(1) 2(1) 3(1))
qed

end


section \<open>The cycling test\<close>

text \<open>\<open>CYCLE_LFSR\<close>: the shift register is an \<open>int\<close>, of which 22 bits feed back; the bits above are the
  ones shifted out before.\<close>

definition CYCLE_LFSR :: "u32 \<Rightarrow> u32" where
  "CYCLE_LFSR lfsr =
     (let lfsr = push_bit 1 lfsr;
          lfsr = (if lfsr AND 0x400000 \<noteq> 0 then lfsr OR 1 else lfsr)
      in if lfsr AND 0x200000 \<noteq> 0 then lfsr XOR 1 else lfsr)"

text \<open>What is written at index \<open>w\<close>.\<close>

definition pattern :: "bool \<Rightarrow> u32 \<Rightarrow> u32" where
  "pattern inv1 w = (if inv1 then w else w XOR 0xFFFFF)"

text \<open>One turn of the first loop: \<open>p[j]=w; p[k]=x\<close>.\<close>

definition write_turn :: "'m ram_ops \<Rightarrow> u32 \<Rightarrow> bool \<Rightarrow> u32 \<times> 'm \<Rightarrow> u32 \<times> 'm" where
  "write_turn io p inv1 = (\<lambda>(lfsr, m).
     let w = lfsr AND 0xFFFFF; j = lfsr AND 0xFFFFF;
         lfsr = CYCLE_LFSR lfsr;
         x = lfsr AND 0xFFFFF; k = lfsr AND 0xFFFFF;
         m = wr32 io (p + 4 * j) (pattern inv1 w) m;
         m = wr32 io (p + 4 * k) (pattern inv1 x) m
     in (CYCLE_LFSR lfsr, m))"

text \<open>One comparison of the second loop; an error prints \<open>w\<close> and \<open>p[j]\<close>, also when it is \<open>p[k]\<close> that
  is wrong.\<close>

definition verify_word :: "'m ram_ops \<Rightarrow> u32 \<Rightarrow> u32 \<Rightarrow> u32 \<Rightarrow> u32 \<Rightarrow> 'm \<times> (u32 \<times> u32) list \<Rightarrow> 'm \<times> (u32 \<times> u32) list" where
  "verify_word io a x w b = (\<lambda>(m, errors).
     case rd32 io a m of (t, m) \<Rightarrow>
       if t \<noteq> x then case rd32 io b m of (got, m) \<Rightarrow> (m, errors @ [(w, got)]) else (m, errors))"

definition verify_turn :: "'m ram_ops \<Rightarrow> u32 \<Rightarrow> bool \<Rightarrow> u32 \<times> 'm \<times> (u32 \<times> u32) list \<Rightarrow> u32 \<times> 'm \<times> (u32 \<times> u32) list" where
  "verify_turn io p inv1 = (\<lambda>(lfsr, y).
     let w = lfsr AND 0xFFFFF; j = lfsr AND 0xFFFFF;
         lfsr = CYCLE_LFSR lfsr;
         x = lfsr AND 0xFFFFF; k = lfsr AND 0xFFFFF;
         y = verify_word io (p + 4 * j) (pattern inv1 w) w (p + 4 * j) y;
         y = verify_word io (p + 4 * k) (pattern inv1 x) w (p + 4 * j) y
     in (CYCLE_LFSR lfsr, y))"

text \<open>The two static variables, the memory and what is printed: pairs of the index and the value
  read.\<close>

definition DoMemcheckCycle ::
  "'m ram_ops \<Rightarrow> u32 \<Rightarrow> u32 \<times> bool \<Rightarrow> 'm \<Rightarrow> (u32 \<times> bool) \<times> 'm \<times> (u32 \<times> u32) list" where
  "DoMemcheckCycle io p = (\<lambda>(lfsr, inv1) m.
     let lfsrtemp = lfsr;
         inv1 = (if lfsr AND 0xFFFFF = 1 then \<not> inv1 else inv1);
         (lfsr, m) = (write_turn io p inv1 ^^ 65536) (lfsr, m);
         (lfsr, m, errors) = (verify_turn io p inv1 ^^ 65536) (lfsrtemp, m, [])
     in ((lfsr, inv1), m, errors))"

text \<open>The indices visited by \<open>n\<close> turns that start with the register \<open>l\<close>.\<close>

definition visited :: "nat \<Rightarrow> u32 \<Rightarrow> u32 list" where
  "visited n l = map (\<lambda>i. (CYCLE_LFSR ^^ i) l AND 0xFFFFF) [0..<2 * n]"

lemma visited_0 [simp]: "visited 0 l = []"
  by (simp add: visited_def)

lemma visited_Suc: "visited (Suc n) l = (l AND 0xFFFFF) # (CYCLE_LFSR l AND 0xFFFFF) # visited n (CYCLE_LFSR (CYCLE_LFSR l))"
proof -
  have "[0..<Suc (Suc k)] = 0 # 1 # map Suc (map Suc [0..<k])" for k
    unfolding map_Suc_upt by (simp add: upt_conv_Cons del: upt_Suc)
  from this [of "2 * n"] have "[0..<2 * Suc n] = 0 # 1 # map Suc (map Suc [0..<2 * n])"
    by (simp only: mult_Suc_right add_2_eq_Suc)
  then show ?thesis by (simp only: visited_def list.map map_map comp_def funpow.simps(1) funpow_Suc_right One_nat_def id_apply)
qed

lemma visited_start: "0 < n \<Longrightarrow> l AND 0xFFFFF \<in> set (visited n l)"
  by (cases n) (simp_all add: visited_Suc)

lemma unat_and_20: "unat (w AND 0xFFFFF) = unat w mod 0x100000" for w :: u32
proof -
  have "(0xFFFFF :: u32) = mask 20" by (simp add: mask_eq_exp_minus_1)
  then show ?thesis by (simp only: unat_and_mask) simp
qed

lemma visited_bound: "j \<in> set (visited n l) \<Longrightarrow> j < 0x100000"
  by (auto simp: visited_def word_less_nat_alt unat_and_20)

text \<open>The words of the area do not overlap.\<close>

lemma scaled_index:
  assumes "i < 0x100000" "j < 0x100000" "r < 4" "s < 4" "4 * i + r = 4 * j + s"
  shows "i = j \<and> r = (s :: u32)"
proof -
  have u: "unat (4 * i + r) = 4 * unat i + unat r" if "i < 0x100000" "r < 4" for i r :: u32
    using that by (simp add: word_less_nat_alt unat_word_ariths)
  from assms have "4 * unat i + unat r = 4 * unat j + unat s" using u [of i r] u [of j s] by simp
  with assms(3,4) have "unat i = unat j" "unat r = unat s" by (simp_all add: word_less_nat_alt) arith+
  then show ?thesis by (simp add: word_unat_eq_iff)
qed

lemma load32_store32:
  assumes "i < 0x100000" "j < 0x100000"
  shows "load32 (store32 (p + 4 * i) w c) (p + 4 * j) = (if i = j then w else load32 c (p + 4 * j))"
proof (cases "i = j")
  case False
  have "p + (4 * j + s) \<noteq> p + (4 * i + r)" if "r < 4" "s < 4" for r s
    using scaled_index [OF assms that] False by auto
  from this [of 0 0] this [of 0 1] this [of 0 2] this [of 0 3] this [of 1 0] this [of 1 1] this [of 1 2] this [of 1 3]
    this [of 2 0] this [of 2 1] this [of 2 2] this [of 2 3] this [of 3 0] this [of 3 1] this [of 3 2] this [of 3 3]
  show ?thesis using False
    by (simp add: load32_def store32_def store16_def add.assoc)
qed (simp add: load32_store32_same)

text \<open>Memory whose long words may be read wrongly: \<open>fault a w\<close> is what is read at \<open>a\<close> when \<open>w\<close> is stored.
  Working memory is the case without a fault.\<close>

locale faulty_ram =
  fixes io :: "'m ram_ops" and ok :: "'m \<Rightarrow> bool" and contents :: "'m \<Rightarrow> mem" and fault :: "u32 \<Rightarrow> u32 \<Rightarrow> u32"
  assumes rd32_fault: "ok m \<Longrightarrow> ok (snd (rd32 io a m)) \<and> contents (snd (rd32 io a m)) = contents m \<and>
      fst (rd32 io a m) = fault a (load32 (contents m) a)"
    and wr32_stores: "ok m \<Longrightarrow> ok (wr32 io a w m) \<and> contents (wr32 io a w m) = store32 a w (contents m)"

sublocale working_ram \<subseteq> faulty_ram io ok contents "\<lambda>_ w. w"
  by unfold_locales (simp_all add: rd32_ok wr32_ok)

interpretation stuck: faulty_ram "stuck_ram k b v" "\<lambda>_. True" id
    "\<lambda>a w. if a = k then if v then set_bit b w else unset_bit b w else w" for k b v
  by unfold_locales (simp_all add: stuck_ram_def plain_ram_def)

context faulty_ram
begin

lemma write_turns:
  assumes "ok m"
  shows "\<exists>m'. (write_turn io p inv1 ^^ n) (l, m) = ((CYCLE_LFSR ^^ (2 * n)) l, m') \<and> ok m' \<and>
    (\<forall>j < 0x100000. load32 (contents m') (p + 4 * j) =
      (if j \<in> set (visited n l) then pattern inv1 j else load32 (contents m) (p + 4 * j)))"
  using assms
proof (induction n arbitrary: l m)
  case (Suc n)
  let ?j = "l AND 0xFFFFF" and ?k = "CYCLE_LFSR l AND 0xFFFFF" and ?l = "CYCLE_LFSR (CYCLE_LFSR l)"
  let ?m = "wr32 io (p + 4 * ?k) (pattern inv1 ?k) (wr32 io (p + 4 * ?j) (pattern inv1 ?j) m)"
  have m: "ok ?m" "contents ?m = store32 (p + 4 * ?k) (pattern inv1 ?k) (store32 (p + 4 * ?j) (pattern inv1 ?j) (contents m))"
    using wr32_stores Suc.prems by simp_all
  have b: "?j < 0x100000" "?k < 0x100000" by (simp_all add: word_less_nat_alt unat_and_20)
  have c: "load32 (contents ?m) (p + 4 * j) = (if j = ?j \<or> j = ?k then pattern inv1 j else load32 (contents m) (p + 4 * j))"
    if "j < 0x100000" for j
    unfolding m(2) by (simp only: load32_store32 b that) auto
  from Suc.IH [OF m(1), of ?l] obtain m' where m': "(write_turn io p inv1 ^^ n) (?l, ?m) = ((CYCLE_LFSR ^^ (2 * n)) ?l, m')" "ok m'"
      "\<forall>j < 0x100000. load32 (contents m') (p + 4 * j) = (if j \<in> set (visited n ?l) then pattern inv1 j else load32 (contents ?m) (p + 4 * j))"
    by blast
  have "(write_turn io p inv1 ^^ Suc n) (l, m) = ((CYCLE_LFSR ^^ (2 * Suc n)) l, m')"
    using m'(1) by (simp add: funpow_Suc_right write_turn_def Let_def del: funpow.simps)
  moreover have "\<forall>j < 0x100000. load32 (contents m') (p + 4 * j) =
      (if j \<in> set (visited (Suc n) l) then pattern inv1 j else load32 (contents m) (p + 4 * j))"
    unfolding visited_Suc using m'(3) c by simp
  ultimately show ?case using m'(2) by blast
qed simp

lemma verify_word_reports:
  assumes "ok m" "load32 (contents m) a = x"
  obtains m' es where "verify_word io a x w b (m, errors) = (m', errors @ es)" "ok m'" "contents m' = contents m"
    "es = [] \<longleftrightarrow> fault a x = x" "fst ` set es \<subseteq> {w}"
proof -
  obtain m1 where 1: "rd32 io a m = (fault a x, m1)" "ok m1" "contents m1 = contents m"
    using rd32_fault [OF assms(1), of a] assms(2) by (cases "rd32 io a m") auto
  obtain got m2 where "rd32 io b m1 = (got, m2)" "ok m2" "contents m2 = contents m"
    using rd32_fault [OF 1(2), of b] 1(3) by (cases "rd32 io b m1") auto
  then show thesis
    using 1 that [of m1 "[]"] that [of m2 "[(w, got)]"] by (cases "fault a x = x") (simp_all add: verify_word_def)
qed

lemma verify_turns:
  assumes "ok m" "\<forall>j \<in> set (visited n l). load32 (contents m) (p + 4 * j) = pattern inv1 j"
  shows "\<exists>m' es. (verify_turn io p inv1 ^^ n) (l, m, errors) = ((CYCLE_LFSR ^^ (2 * n)) l, m', errors @ es) \<and> ok m' \<and>
    contents m' = contents m \<and>
    (es = [] \<longleftrightarrow> (\<forall>j \<in> set (visited n l). fault (p + 4 * j) (pattern inv1 j) = pattern inv1 j)) \<and>
    fst ` set es \<subseteq> {(CYCLE_LFSR ^^ (2 * i)) l AND 0xFFFFF | i. i < n}"
  using assms
proof (induction n arbitrary: l m errors)
  case (Suc n)
  let ?j = "l AND 0xFFFFF" and ?k = "CYCLE_LFSR l AND 0xFFFFF" and ?l = "CYCLE_LFSR (CYCLE_LFSR l)"
  let ?f = "\<lambda>j. fault (p + 4 * j) (pattern inv1 j) = pattern inv1 j"
  obtain m1 e1 where 1: "verify_word io (p + 4 * ?j) (pattern inv1 ?j) ?j (p + 4 * ?j) (m, errors) = (m1, errors @ e1)" "ok m1"
      "contents m1 = contents m" "e1 = [] \<longleftrightarrow> ?f ?j" "fst ` set e1 \<subseteq> {?j}"
  proof -
    have "load32 (contents m) (p + 4 * ?j) = pattern inv1 ?j" using Suc.prems(2) by (simp add: visited_Suc)
    from verify_word_reports [OF Suc.prems(1) this] show ?thesis using that by blast
  qed
  obtain m2 e2 where 2: "verify_word io (p + 4 * ?k) (pattern inv1 ?k) ?j (p + 4 * ?j) (m1, errors @ e1) = (m2, (errors @ e1) @ e2)"
      "ok m2" "contents m2 = contents m" "e2 = [] \<longleftrightarrow> ?f ?k" "fst ` set e2 \<subseteq> {?j}"
  proof -
    have "load32 (contents m1) (p + 4 * ?k) = pattern inv1 ?k" using Suc.prems(2) 1(3) by (simp add: visited_Suc)
    from verify_word_reports [OF 1(2) this] show ?thesis using that 1(3) by metis
  qed
  obtain m3 e3 where 3: "(verify_turn io p inv1 ^^ n) (?l, m2, (errors @ e1) @ e2) = ((CYCLE_LFSR ^^ (2 * n)) ?l, m3, ((errors @ e1) @ e2) @ e3)"
      "ok m3" "contents m3 = contents m" "e3 = [] \<longleftrightarrow> (\<forall>j \<in> set (visited n ?l). ?f j)"
      "fst ` set e3 \<subseteq> {(CYCLE_LFSR ^^ (2 * i)) ?l AND 0xFFFFF | i. i < n}"
  proof -
    have "\<forall>j \<in> set (visited n ?l). load32 (contents m2) (p + 4 * j) = pattern inv1 j"
      using Suc.prems(2) 2(3) by (simp add: visited_Suc)
    from Suc.IH [OF 2(2) this, of "(errors @ e1) @ e2"] show ?thesis using that unfolding 2(3) by blast
  qed
  have "(verify_turn io p inv1 ^^ Suc n) (l, m, errors) = ((CYCLE_LFSR ^^ (2 * Suc n)) l, m3, errors @ e1 @ e2 @ e3)"
    using 3(1) by (simp add: funpow_Suc_right verify_turn_def Let_def 1(1) 2(1) del: funpow.simps)
  moreover have "(e1 @ e2 @ e3 = []) = (\<forall>j \<in> set (visited (Suc n) l). ?f j)"
    using 1(4) 2(4) 3(4) by (simp add: visited_Suc)
  moreover have "fst ` set (e1 @ e2 @ e3) \<subseteq> {(CYCLE_LFSR ^^ (2 * i)) l AND 0xFFFFF | i. i < Suc n}"
  proof -
    have "?j \<in> {(CYCLE_LFSR ^^ (2 * i)) l AND 0xFFFFF | i. i < Suc n}" by force
    moreover have "(CYCLE_LFSR ^^ (2 * i)) ?l AND 0xFFFFF \<in> {(CYCLE_LFSR ^^ (2 * i)) l AND 0xFFFFF | i. i < Suc n}" if "i < n" for i
      using that by (intro CollectI exI [of _ "Suc i"]) (simp add: funpow_Suc_right del: funpow.simps)
    ultimately show ?thesis
      unfolding set_append image_Un by (intro Un_least subset_trans [OF 1(5)] subset_trans [OF 2(5)] subset_trans [OF 3(5)]) blast+
  qed
  ultimately show ?case using 3(2,3) by blast
qed simp

text \<open>A cycle reports an error exactly when a word that it visits is not read as it was written, and the
  indices that it prints are the first ones of their turns.\<close>

lemma DoMemcheckCycle_reports:
  assumes "ok m" and inv1: "inv1 = (if l AND 0xFFFFF = 1 then \<not> inv0 else inv0)"
  shows "\<exists>m' es. DoMemcheckCycle io p (l, inv0) m = (((CYCLE_LFSR ^^ 131072) l, inv1), m', es) \<and> ok m' \<and>
    (\<forall>j \<in> set (visited 65536 l). load32 (contents m') (p + 4 * j) = pattern inv1 j) \<and>
    (es = [] \<longleftrightarrow> (\<forall>j \<in> set (visited 65536 l). fault (p + 4 * j) (pattern inv1 j) = pattern inv1 j)) \<and>
    fst ` set es \<subseteq> {(CYCLE_LFSR ^^ (2 * i)) l AND 0xFFFFF | i. i < 65536}"
proof -
  obtain m1 where 1: "(write_turn io p inv1 ^^ 65536) (l, m) = ((CYCLE_LFSR ^^ (2 * 65536)) l, m1)" "ok m1"
      "\<forall>j < 0x100000. load32 (contents m1) (p + 4 * j) =
        (if j \<in> set (visited 65536 l) then pattern inv1 j else load32 (contents m) (p + 4 * j))"
    using write_turns [OF assms(1), where n = 65536] by blast
  then have w: "\<forall>j \<in> set (visited 65536 l). load32 (contents m1) (p + 4 * j) = pattern inv1 j"
    using visited_bound by simp
  obtain m2 es where 2: "(verify_turn io p inv1 ^^ 65536) (l, m1, []) = ((CYCLE_LFSR ^^ (2 * 65536)) l, m2, [] @ es)" "ok m2"
      "contents m2 = contents m1" "es = [] \<longleftrightarrow> (\<forall>j \<in> set (visited 65536 l). fault (p + 4 * j) (pattern inv1 j) = pattern inv1 j)"
      "fst ` set es \<subseteq> {(CYCLE_LFSR ^^ (2 * i)) l AND 0xFFFFF | i. i < 65536}"
    using verify_turns [OF 1(2) w, of "[]"] by blast
  have "DoMemcheckCycle io p (l, inv0) m = (((CYCLE_LFSR ^^ 131072) l, inv1), m2, es)"
  proof -
    have e: "2 * 65536 = (131072 :: nat)" by simp
    note * = 1(1) [unfolded e] 2(1) [unfolded e append_Nil]
    show ?thesis
      unfolding DoMemcheckCycle_def
      by (simp only: prod.case Let_def inv1 [symmetric] *)
  qed
  then show ?thesis
    by (intro exI conjI) (rule 2(2) w [folded 2(3)] 2(4,5) | assumption)+
qed

end

text \<open>
  C4. Both memory tests pass on working memory: \<open>memorycheck\<close> of the sanity check returns 1 at every
  base address, and a cycle of \<open>DoMemcheckCycle\<close> prints no error, moves the register on by 131072
  steps and leaves the pattern at every word that it visited.
\<close>

theorem memory_tests_pass:
  assumes "working_ram io ok contents" "ok m"
  shows "(\<exists>m'. memorycheck io base m = (True, m') \<and> ok m') \<and>
    (\<exists>inv1 m'. DoMemcheckCycle io p (l, inv0) m = (((CYCLE_LFSR ^^ 131072) l, inv1), m', []) \<and> ok m' \<and>
      (\<forall>j \<in> set (visited 65536 l). load32 (contents m') (p + 4 * j) = pattern inv1 j))"
proof
  show "\<exists>m'. memorycheck io base m = (True, m') \<and> ok m'"
    by (rule working_ram.memorycheck_passes [OF assms])
  have f: "faulty_ram io ok contents (\<lambda>_ w. w)" using assms(1) by (simp add: working_ram_def faulty_ram_def)
  show "\<exists>inv1 m'. DoMemcheckCycle io p (l, inv0) m = (((CYCLE_LFSR ^^ 131072) l, inv1), m', []) \<and> ok m' \<and>
      (\<forall>j \<in> set (visited 65536 l). load32 (contents m') (p + 4 * j) = pattern inv1 j)"
    using faulty_ram.DoMemcheckCycle_reports [OF f assms(2) refl] by blast
qed

theorem memory_tests_pass_witness:
  "(\<exists>m'. memorycheck plain_ram 0x10000 (\<lambda>_. 0) = (True, m')) \<and>
   snd (snd (DoMemcheckCycle plain_ram 0x100000 (1, True) (\<lambda>_. 0))) = []"
proof -
  have "working_ram plain_ram (\<lambda>_. True) id" by (rule plain.working_ram_axioms)
  from memory_tests_pass [OF this TrueI, where m = "\<lambda>_. 0" and base = "0x10000" and p = "0x100000" and l = 1 and ?inv0.0 = True]
  show ?thesis by auto
qed

lemma stuck_bit_iff:
  assumes "b < 32" "k < 0x100000"
  shows "(snd (snd (DoMemcheckCycle (stuck_ram (p + 4 * k) b v) p (l, inv0) m)) \<noteq> []) \<longleftrightarrow>
    k \<in> set (visited 65536 l) \<and> bit (pattern (if l AND 0xFFFFF = 1 then \<not> inv0 else inv0) k) b \<noteq> v"
proof -
  define i where "i = (if l AND 0xFFFFF = 1 then \<not> inv0 else inv0)"
  have *: "(if p + 4 * j = p + 4 * k then if v then set_bit b w else unset_bit b w else w) = w \<longleftrightarrow> j \<noteq> k \<or> bit w b = v"
    if "j < 0x100000" for j and w :: u32
  proof -
    have "p + 4 * j = p + 4 * k \<longleftrightarrow> j = k" using scaled_index [OF that assms(2), of 0 0] by auto
    moreover have "set_bit b w = w \<longleftrightarrow> bit w b" "unset_bit b w = w \<longleftrightarrow> \<not> bit w b"
      using assms(1) by (simp_all add: set_bit_eq_idem_iff unset_bit_eq_idem_iff)
    ultimately show ?thesis by auto
  qed
  obtain es where es: "snd (snd (DoMemcheckCycle (stuck_ram (p + 4 * k) b v) p (l, inv0) m)) = es"
      "es = [] \<longleftrightarrow> (\<forall>j \<in> set (visited 65536 l). (if p + 4 * j = p + 4 * k then
        if v then set_bit b (pattern i j) else unset_bit b (pattern i j) else pattern i j) = pattern i j)"
  proof -
    from stuck.DoMemcheckCycle_reports [OF TrueI i_def, of "p + 4 * k" b v p m] obtain m' es where
      1: "DoMemcheckCycle (stuck_ram (p + 4 * k) b v) p (l, inv0) m = (((CYCLE_LFSR ^^ 131072) l, i), m', es)"
      and 2: "es = [] \<longleftrightarrow> (\<forall>j \<in> set (visited 65536 l). (if p + 4 * j = p + 4 * k then
        if v then set_bit b (pattern i j) else unset_bit b (pattern i j) else pattern i j) = pattern i j)" by blast
    have "snd (snd (DoMemcheckCycle (stuck_ram (p + 4 * k) b v) p (l, inv0) m)) = es" unfolding 1 snd_conv by (rule refl)
    then show ?thesis using 2 by (rule that)
  qed
  have "(\<forall>j \<in> set (visited 65536 l). (if p + 4 * j = p + 4 * k then
        if v then set_bit b (pattern i j) else unset_bit b (pattern i j) else pattern i j) = pattern i j) \<longleftrightarrow>
      (\<forall>j \<in> set (visited 65536 l). j \<noteq> k \<or> bit (pattern i j) b = v)"
    by (intro ball_cong refl *) (rule visited_bound)
  then show ?thesis unfolding es(1) using es(2) unfolding i_def by auto
qed

text \<open>
  C5. One bit of one long word that is stuck at \<open>v\<close> is reported by a cycle exactly when the cycle visits
  the word and the pattern has the other value in that bit.
\<close>

theorem stuck_bit_reported:
  assumes "b < 32" "k < 0x100000"
  shows "(snd (snd (DoMemcheckCycle (stuck_ram (p + 4 * k) b v) p (l, inv0) m)) \<noteq> []) \<longleftrightarrow>
    k \<in> set (visited 65536 l) \<and> bit (pattern (if l AND 0xFFFFF = 1 then \<not> inv0 else inv0) k) b \<noteq> v"
  by (rule stuck_bit_iff [OF assms])

theorem stuck_bit_reported_witness:
  "snd (snd (DoMemcheckCycle (stuck_ram (0x100000 + 4 * 1) 0 True) 0x100000 (1, True) (\<lambda>_. 0))) \<noteq> []"
proof -
  have "(1 :: u32) \<in> set (visited 65536 1)" using visited_start [of 65536 1] by simp
  then show ?thesis
    by (subst stuck_bit_reported) (simp_all add: pattern_def bit_simps)
qed

text \<open>The pattern has 20 bits: a bit above them that is stuck at 0 is never reported.\<close>

lemma pattern_bits: "k < 0x100000 \<Longrightarrow> 20 \<le> b \<Longrightarrow> \<not> bit (pattern inv1 k) b"
proof -
  assume "k < 0x100000" "20 \<le> b"
  then have "take_bit 20 k = k" by (simp add: word_unat_eq_iff unat_take_bit word_less_nat_alt)
  then have "\<not> bit k b" using \<open>20 \<le> b\<close> by (metis bit_take_bit_iff not_less)
  moreover have "(0xFFFFF :: u32) = mask 20" by (simp add: mask_eq_exp_minus_1)
  then have "\<not> bit (0xFFFFF :: u32) b" using \<open>20 \<le> b\<close> by (simp only: bit_mask_iff) simp
  ultimately show ?thesis by (simp add: pattern_def bit_xor_iff)
qed

lemma high_bits_stuck_low_missed:
  "20 \<le> b \<Longrightarrow> b < 32 \<Longrightarrow> k < 0x100000 \<Longrightarrow>
    snd (snd (DoMemcheckCycle (stuck_ram (p + 4 * k) b False) p (l, inv0) m)) = []"
proof -
  assume *: "20 \<le> b" "b < 32" "k < 0x100000"
  show ?thesis using stuck_bit_iff [OF *(2,3), of p False l inv0 m] pattern_bits [OF *(3,1)] by blast
qed

end
