(* ===== verification/Vsnprintf.thy ===== *)
theory Vsnprintf
  imports Cmem
begin

text \<open>
  Formatted output, \<^verbatim>\<open>Firmware_Common/klibc/vsnprintf.c\<close>. Output goes to memory through the macro
  \<open>EMIT\<close>, which counts every character and stores those that fit. The format is the list of its
  characters, without or with the terminating NUL; the variable arguments are the words of the
  stack, a \<open>long long\<close> two of them. C \<open>int\<close> variables that only hold widths and counts are
  integers, \<open>size_t\<close> and \<open>uintmax_t\<close> values are words. A width or precision outside of the range of
  an \<open>int\<close> (a literal of \<open>2^31\<close> or more, or the negation of the smallest \<open>int\<close> given for \<open>*\<close>) is a signed
  overflow, which C leaves undefined: there the model goes on with the exact integer, and is not
  a statement about the compiled code.
\<close>

section \<open>Output\<close>

text \<open>\<open>o\<close>, \<open>q\<close> and the memory.\<close>

type_synonym out = "u32 \<times> u32 \<times> mem"

fun emit :: "u32 \<Rightarrow> u8 \<Rightarrow> out \<Rightarrow> out" where
  "emit n x (i, q, m) = (if i < n then (i + 1, q + 1, m(q := x)) else (i + 1, q, m))"

text \<open>\<open>while (width > k) { EMIT(c); width--; }\<close>\<close>

function pad_to :: "u32 \<Rightarrow> u8 \<Rightarrow> int \<Rightarrow> int \<Rightarrow> out \<Rightarrow> int \<times> out" where
  "pad_to n c width k out = (if width > k then pad_to n c (width - 1) k (emit n c out) else (width, out))"
  by auto
termination by (relation "measure (\<lambda>(n, c, width, k, out). nat (width - k))") auto

declare pad_to.simps [simp del]

abbreviation (input) "FL_ZERO \<equiv> (0x01 :: u32)"
abbreviation (input) "FL_MINUS \<equiv> (0x02 :: u32)"
abbreviation (input) "FL_PLUS \<equiv> (0x04 :: u32)"
abbreviation (input) "FL_TICK \<equiv> (0x08 :: u32)"
abbreviation (input) "FL_SPACE \<equiv> (0x10 :: u32)"
abbreviation (input) "FL_HASH \<equiv> (0x20 :: u32)"
abbreviation (input) "FL_SIGNED \<equiv> (0x40 :: u32)"
abbreviation (input) "FL_UPPER \<equiv> (0x80 :: u32)"

definition flag :: "u32 \<Rightarrow> u32 \<Rightarrow> bool" where
  "flag flags f \<longleftrightarrow> flags AND f \<noteq> 0"

section \<open>format_int\<close>

definition c_char :: "char \<Rightarrow> u8" where
  "c_char c = of_char c"

partial_function (option) count_digits :: "u64 \<Rightarrow> u64 \<Rightarrow> int \<Rightarrow> int option" where
  [code]: "count_digits tmpval base ndigits =
     (if tmpval \<noteq> 0 then count_digits (tmpval div base) base (ndigits + 1) else Some ndigits)"

text \<open>\<open>lcdigits\<close> and \<open>ucdigits\<close>.\<close>

definition digit_char :: "u32 \<Rightarrow> u64 \<Rightarrow> u8" where
  "digit_char flags d =
     (if flag flags FL_UPPER then c_char (''0123456789ABCDEF'' ! unat d)
      else c_char (''0123456789abcdef'' ! unat d))"

text \<open>The number, from right to left: one round of the loop, with its tick mark.\<close>

definition store_if :: "bool \<Rightarrow> u32 \<Rightarrow> u8 \<Rightarrow> mem \<Rightarrow> mem" where
  "store_if b q x m = (if b then m(q := x) else m)"

function number_loop ::
  "u32 \<Rightarrow> u32 \<Rightarrow> u64 \<Rightarrow> int \<Rightarrow> int \<Rightarrow> int \<Rightarrow> u64 \<Rightarrow> u32 \<Rightarrow> u32 \<Rightarrow> mem \<Rightarrow> mem" where
  "number_loop n flags base tickskip ndigits b4tick val qq oo m =
     (if ndigits > 0 then
        (let (ndigits, b4tick, qq, oo, m) =
           (if b4tick = 0
            then (ndigits - 1, tickskip - 1, qq - 1, oo - 1, store_if (oo - 1 < n) (qq - 1) 95 m)
            else (ndigits, b4tick - 1, qq, oo, m))
         in number_loop n flags base tickskip (ndigits - 1) b4tick (val div base) (qq - 1) (oo - 1)
              (store_if (oo - 1 < n) (qq - 1) (digit_char flags (val mod base)) m))
      else m)"
  by auto
termination
  by (relation "measure (\<lambda>(n, flags, base, tickskip, ndigits, _). nat ndigits)") (auto split: if_splits)

declare number_loop.simps [simp del]


text \<open>The sign and the sizes: whether it is negative, the absolute value, the characters of the number, the distance of
  tick marks, all characters without padding.\<close>

definition int_layout :: "u64 \<Rightarrow> u32 \<Rightarrow> int \<Rightarrow> int \<Rightarrow> (bool \<times> u64 \<times> int \<times> int \<times> int) option" where
  "int_layout val flags base prec =
     (let neg = flag flags FL_SIGNED \<and> sint val < 0;
          val = (if neg then - val else val)
      in case count_digits val (word_of_int base) 0 of None \<Rightarrow> None
         | Some ndigits \<Rightarrow>
           (let prec = (if flag flags FL_HASH \<and> base = 8 \<and> prec < ndigits + 1 then ndigits + 1 else prec);
                ndigits = (if ndigits < prec then prec else if val = 0 then 1 else ndigits);
                tickskip = (if flag flags FL_TICK then (if base = 16 then 4 else 3) else ndigits);
                ndigits = ndigits + (ndigits - 1) div tickskip;
                nchars = ndigits + (if neg \<or> flag flags (FL_PLUS OR FL_SPACE) then 1 else 0);
                nchars = nchars + (if flag flags FL_HASH \<and> base = 16 then 2 else 0)
            in Some (neg, val, ndigits, tickskip, nchars)))"

definition emit_sign :: "u32 \<Rightarrow> u32 \<Rightarrow> bool \<Rightarrow> int \<Rightarrow> out \<Rightarrow> out" where
  "emit_sign n flags neg base out =
     (let out = (if neg then emit n (c_char CHR ''-'') out
                 else if flag flags FL_PLUS then emit n (c_char CHR ''+'') out
                 else if flag flags FL_SPACE then emit n (c_char CHR '' '') out
                 else out)
      in if flag flags FL_HASH \<and> base = 16
         then emit n (if flag flags FL_UPPER then c_char CHR ''X'' else c_char CHR ''x'')
                (emit n (c_char CHR ''0'') out)
         else out)"

definition format_int :: "u32 \<Rightarrow> u32 \<Rightarrow> u64 \<Rightarrow> u32 \<Rightarrow> int \<Rightarrow> int \<Rightarrow> int \<Rightarrow> mem \<Rightarrow> (u32 \<times> mem) option" where
  "format_int q n val flags base width prec m =
     (case int_layout val flags base prec of None \<Rightarrow> None
      | Some (neg, val, ndigits, tickskip, nchars) \<Rightarrow>
        (let (width, out) = (if \<not> flag flags (FL_MINUS OR FL_ZERO) \<and> width > nchars
                             then pad_to n (c_char CHR '' '') width nchars (0, q, m) else (width, 0, q, m));
             out = emit_sign n flags neg base out;
             (width, out) = (if flags AND (FL_MINUS OR FL_ZERO) = FL_ZERO \<and> width > ndigits
                             then pad_to n (c_char CHR ''0'') width nchars out else (width, out));
             (i, q, m) = out;
             q = q + word_of_int ndigits; i = i + word_of_int ndigits;
             m = number_loop n flags (word_of_int base) tickskip ndigits tickskip val q i m;
             out = (if flag flags FL_MINUS then snd (pad_to n (c_char CHR '' '') width nchars (i, q, m)) else (i, q, m))
         in Some (fst out, snd (snd out))))"

section \<open>vsnprintf\<close>

datatype pstate = st_normal | st_flags | st_width | st_prec | st_modifiers

type_synonym va_list = "nat \<Rightarrow> u32"

record pf =
  pf_state :: pstate
  pf_rank :: int
  pf_width :: int
  pf_prec :: int
  pf_flags :: u32
  pf_ap :: va_list

definition va_int :: "va_list \<Rightarrow> u32 \<times> va_list" where
  "va_int ap = (ap 0, \<lambda>i. ap (i + 1))"

definition va_longlong :: "va_list \<Rightarrow> u64 \<times> va_list" where
  "va_longlong ap = (word_cat (ap 0) (ap 1), \<lambda>i. ap (i + 2))"

text \<open>The states before the conversion character; the flag says that the character is processed
  again. In the state \<open>st_modifiers\<close>, \<open>None\<close> stands for the default branch.\<close>

definition flags_step :: "char \<Rightarrow> pf \<Rightarrow> bool \<times> pf" where
  "flags_step ch s =
     (if ch = CHR ''-'' then (False, s\<lparr>pf_flags := pf_flags s OR FL_MINUS\<rparr>)
      else if ch = CHR ''+'' then (False, s\<lparr>pf_flags := pf_flags s OR FL_PLUS\<rparr>)
      else if ch = CHR 0x27 then (False, s\<lparr>pf_flags := pf_flags s OR FL_TICK\<rparr>)
      else if ch = CHR '' '' then (False, s\<lparr>pf_flags := pf_flags s OR FL_SPACE\<rparr>)
      else if ch = CHR ''#'' then (False, s\<lparr>pf_flags := pf_flags s OR FL_HASH\<rparr>)
      else if ch = CHR ''0'' then (False, s\<lparr>pf_flags := pf_flags s OR FL_ZERO\<rparr>)
      else (True, s\<lparr>pf_state := st_width\<rparr>))"

definition is_dec :: "char \<Rightarrow> bool" where
  "is_dec ch \<longleftrightarrow> 48 \<le> (of_char ch :: int) \<and> (of_char ch :: int) \<le> 57"

definition width_step :: "char \<Rightarrow> pf \<Rightarrow> bool \<times> pf" where
  "width_step ch s =
     (if is_dec ch then (False, s\<lparr>pf_width := pf_width s * 10 + (of_char ch - 48)\<rparr>)
      else if ch = CHR ''*'' then
        (let (w, ap) = va_int (pf_ap s)
         in (False, if sint w < 0 then s\<lparr>pf_width := - sint w, pf_flags := pf_flags s OR FL_MINUS, pf_ap := ap\<rparr>
                    else s\<lparr>pf_width := sint w, pf_ap := ap\<rparr>))
      else if ch = CHR ''.'' then (False, s\<lparr>pf_prec := 0, pf_state := st_prec\<rparr>)
      else (True, s\<lparr>pf_state := st_modifiers\<rparr>))"

definition prec_step :: "char \<Rightarrow> pf \<Rightarrow> bool \<times> pf" where
  "prec_step ch s =
     (if is_dec ch then (False, s\<lparr>pf_prec := pf_prec s * 10 + (of_char ch - 48)\<rparr>)
      else if ch = CHR ''*'' then
        (let (w, ap) = va_int (pf_ap s)
         in (False, s\<lparr>pf_prec := (if sint w < 0 then - 1 else sint w), pf_ap := ap\<rparr>))
      else (True, s\<lparr>pf_state := st_modifiers\<rparr>))"

definition modifier_step :: "char \<Rightarrow> pf \<Rightarrow> pf option" where
  "modifier_step ch s =
     (if ch = CHR ''h'' then Some (s\<lparr>pf_rank := pf_rank s - 1\<rparr>)
      else if ch = CHR ''l'' then Some (s\<lparr>pf_rank := pf_rank s + 1\<rparr>)
      else if ch = CHR ''j'' then Some (s\<lparr>pf_rank := 2\<rparr>)
      else if ch = CHR ''z'' then Some (s\<lparr>pf_rank := 1\<rparr>)
      else if ch = CHR ''t'' then Some (s\<lparr>pf_rank := 1\<rparr>)
      else if ch = CHR ''L'' \<or> ch = CHR ''q'' then Some (s\<lparr>pf_rank := pf_rank s + 2\<rparr>)
      else None)"

text \<open>The integer arguments: value, base, flags and precision of a conversion, and the arguments left.\<close>

definition signed_arg :: "int \<Rightarrow> va_list \<Rightarrow> u64 \<times> va_list" where
  "signed_arg rank ap =
     (if rank = 2 then va_longlong ap
      else let (w, ap) = va_int ap
           in (if rank = - 2 then scast (ucast w :: u8) else if rank = - 1 then scast (ucast w :: u16) else scast w, ap))"

definition unsigned_arg :: "int \<Rightarrow> va_list \<Rightarrow> u64 \<times> va_list" where
  "unsigned_arg rank ap =
     (if rank = 2 then va_longlong ap
      else let (w, ap) = va_int ap
           in (if rank = - 2 then ucast (ucast w :: u8) else if rank = - 1 then ucast (ucast w :: u16) else ucast w, ap))"

definition canonical_rank :: "int \<Rightarrow> int" where
  "canonical_rank r = (if r < - 2 then - 2 else if r > 2 then 2 else r)"

text \<open>\<open>None\<close>: the character is no integer conversion.\<close>

definition int_conversion :: "char \<Rightarrow> pf \<Rightarrow> (u64 \<times> u32 \<times> int \<times> int \<times> va_list) option" where
  "int_conversion ch s =
     (if ch = CHR ''p'' \<or> ch = CHR ''P'' then
        (let (w, ap) = va_int (pf_ap s)
         in Some (ucast w, (pf_flags s OR (if ch = CHR ''P'' then FL_UPPER else 0)) OR FL_HASH, 16, (8 * 4 + 3) div 4, ap))
      else if ch = CHR ''d'' \<or> ch = CHR ''i'' then
        (let (v, ap) = signed_arg (pf_rank s) (pf_ap s) in Some (v, pf_flags s OR FL_SIGNED, 10, pf_prec s, ap))
      else if ch \<in> {CHR ''o'', CHR ''u'', CHR ''x'', CHR ''X''} then
        (let (v, ap) = unsigned_arg (pf_rank s) (pf_ap s)
         in Some (v, pf_flags s OR (if ch = CHR ''X'' then FL_UPPER else 0),
              if ch = CHR ''o'' then 8 else if ch = CHR ''u'' then 10 else 16, pf_prec s, ap))
      else None)"


text \<open>Strings: the characters are read from memory while the output is written to it; the
  local variable \<open>carg\<close> and the constant \<open>(null)\<close> do not change.\<close>

primrec emit_string :: "u32 \<Rightarrow> nat \<Rightarrow> (mem \<Rightarrow> nat \<Rightarrow> u8) \<Rightarrow> nat \<Rightarrow> out \<Rightarrow> out" where
  "emit_string n 0 sarg j out = out"
| "emit_string n (Suc k) sarg j out = emit_string n k sarg (j + 1) (emit n (sarg (snd (snd out)) j) out)"

definition string_conversion ::
  "u32 \<Rightarrow> u32 \<Rightarrow> int \<Rightarrow> int \<Rightarrow> int \<Rightarrow> (mem \<Rightarrow> nat \<Rightarrow> u8) \<Rightarrow> out \<Rightarrow> out" where
  "string_conversion n flags width prec slen sarg out =
     (let slen = (if prec \<noteq> - 1 \<and> slen > prec then prec else slen);
          (width, out) = (if width > slen \<and> \<not> flag flags FL_MINUS
                          then pad_to n (if flag flags FL_ZERO then c_char CHR ''0'' else c_char CHR '' '') width slen out
                          else (width, out));
          out = emit_string n (unat (word_of_int slen :: u32)) sarg 0 out
      in if width > slen \<and> flag flags FL_MINUS then snd (pad_to n (c_char CHR '' '') width slen out) else out)"

definition null_string :: string where
  "null_string = ''(null)''"

definition string_reader :: "string \<Rightarrow> mem \<Rightarrow> nat \<Rightarrow> u8" where
  "string_reader s m j = (if j < length s then c_char (s ! j) else 0)"

text \<open>\<open>*va_arg(ap, \<dots> *) = o\<close>, big endian.\<close>

primrec put :: "mem \<Rightarrow> u32 \<Rightarrow> bytes \<Rightarrow> mem" where
  "put m a [] = m"
| "put m a (x # xs) = put (m(a := x)) (a + 1) xs"

definition store_count :: "int \<Rightarrow> u32 \<Rightarrow> u32 \<Rightarrow> mem \<Rightarrow> mem" where
  "store_count rank p i m =
     (let long = [hi8 (hi16 i), lo8 (hi16 i), hi8 (lo16 i), lo8 (lo16 i)]
      in put m p (if rank = - 2 then drop 3 long else if rank = - 1 then drop 2 long
                  else if rank = 2 then [0, 0, 0, 0] @ long else long))"

text \<open>The conversion characters, from \<^verbatim>\<open>default:\<close> of the state \<open>st_modifiers\<close> on.\<close>

definition conversion :: "u32 \<Rightarrow> char \<Rightarrow> pf \<Rightarrow> out \<Rightarrow> (pf \<times> out) option" where
  "conversion n ch s out =
     (let s = s\<lparr>pf_state := st_normal, pf_rank := canonical_rank (pf_rank s)\<rparr>; (i, q, m) = out
      in case int_conversion ch s of
           Some (val, flags, base, prec, ap) \<Rightarrow>
             (case format_int q (if i < n then n - i else 0) val flags base (pf_width s) prec m of
                None \<Rightarrow> None
              | Some (sz, m) \<Rightarrow> Some (s\<lparr>pf_ap := ap\<rparr>, i + sz, q + sz, m))
         | None \<Rightarrow>
             if ch = CHR ''c'' then
               (let (w, ap) = va_int (pf_ap s)
                in Some (s\<lparr>pf_ap := ap\<rparr>,
                     string_conversion n (pf_flags s) (pf_width s) (pf_prec s) 1 (\<lambda>m j. ucast w) out))
             else if ch = CHR ''s'' then
               (let (w, ap) = va_int (pf_ap s)
                in if w = 0 then
                     Some (s\<lparr>pf_ap := ap\<rparr>,
                       string_conversion n (pf_flags s) (pf_width s) (pf_prec s) (int (length null_string))
                         (string_reader null_string) out)
                   else case strlen w m of None \<Rightarrow> None
                   | Some slen \<Rightarrow>
                       Some (s\<lparr>pf_ap := ap\<rparr>,
                         string_conversion n (pf_flags s) (pf_width s) (pf_prec s) (sint slen)
                           (\<lambda>m j. m (w + of_nat j)) out))
             else if ch = CHR ''n'' then
               (let (w, ap) = va_int (pf_ap s)
                in Some (s\<lparr>pf_ap := ap\<rparr>, i, q, store_count (pf_rank s) w i m))
             else Some (s, emit n (c_char ch) out))"

text \<open>One round of \<open>while ((ch = *p++))\<close>; the flag says that \<open>p\<close> is set back.\<close>

definition pf_step :: "u32 \<Rightarrow> char \<Rightarrow> pf \<Rightarrow> out \<Rightarrow> (bool \<times> pf \<times> out) option" where
  "pf_step n ch s out =
     (case pf_state s of
        st_normal \<Rightarrow>
          if ch = CHR ''%'' then
            Some (False, s\<lparr>pf_state := st_flags, pf_flags := 0, pf_rank := 0, pf_width := 0, pf_prec := - 1\<rparr>, out)
          else Some (False, s, emit n (c_char ch) out)
      | st_flags \<Rightarrow> (case flags_step ch s of (again, s) \<Rightarrow> Some (again, s, out))
      | st_width \<Rightarrow> (case width_step ch s of (again, s) \<Rightarrow> Some (again, s, out))
      | st_prec \<Rightarrow> (case prec_step ch s of (again, s) \<Rightarrow> Some (again, s, out))
      | st_modifiers \<Rightarrow>
          (case modifier_step ch s of
             Some s \<Rightarrow> Some (False, s, out)
           | None \<Rightarrow> (case conversion n ch s out of None \<Rightarrow> None | Some (s, out) \<Rightarrow> Some (False, s, out))))"

definition state_rank :: "pf \<Rightarrow> nat" where
  "state_rank s = (case pf_state s of st_flags \<Rightarrow> 2 | st_width \<Rightarrow> 1 | st_prec \<Rightarrow> 1 | _ \<Rightarrow> 0)"

lemma pf_step_again:
  "pf_step n ch s out = Some (True, s', out') \<Longrightarrow> state_rank s' < state_rank s"
  by (auto simp: pf_step_def state_rank_def flags_step_def width_step_def prec_step_def Let_def va_int_def
      split: pstate.splits if_splits option.splits prod.splits)

function pf_loop :: "u32 \<Rightarrow> string \<Rightarrow> pf \<Rightarrow> out \<Rightarrow> (pf \<times> out) option" where
  "pf_loop n [] s out = Some (s, out)"
| "pf_loop n (ch # p) s out =
     (if ch = CHR 0x00 then Some (s, out)
      else case pf_step n ch s out of
             None \<Rightarrow> None
           | Some (again, s, out) \<Rightarrow> if again then pf_loop n (ch # p) s out else pf_loop n p s out)"
  by pat_completeness auto
termination
  by (relation "measures [\<lambda>(n, p, s, out). length p, \<lambda>(n, p, s, out). state_rank s]")
    (auto dest: pf_step_again)

definition pf_init :: "va_list \<Rightarrow> pf" where
  "pf_init ap = \<lparr>pf_state = st_normal, pf_rank = 0, pf_width = 0, pf_prec = - 1, pf_flags = 0, pf_ap = ap\<rparr>"

definition vsnprintf :: "u32 \<Rightarrow> u32 \<Rightarrow> string \<Rightarrow> va_list \<Rightarrow> mem \<Rightarrow> (u32 \<times> mem) option" where
  "vsnprintf buffer n fmt ap m =
     (case pf_loop n fmt (pf_init ap) (0, buffer, m) of None \<Rightarrow> None
      | Some (_, i, q, m) \<Rightarrow>
          Some (i, if i < n then m(q := 0) else if n > 0 then m(buffer + (n - 1) := 0) else m))"

definition sprintf :: "u32 \<Rightarrow> string \<Rightarrow> va_list \<Rightarrow> mem \<Rightarrow> (u32 \<times> mem) option" where
  "sprintf buffer fmt ap m = vsnprintf buffer (NOT 0) fmt ap m"

end
