(* ===== verification/Printf.thy ===== *)
theory Printf
  imports Vsnprintf
begin

text \<open>
  What \<open>vsnprintf\<close> means: the text of a format and its arguments as a list of bytes, without
  buffers, and the proof that the code stores its first \<open>n - 1\<close> bytes and returns its length.
\<close>

section \<open>The text of an integer\<close>

fun num_digits :: "nat \<Rightarrow> nat \<Rightarrow> nat" where
  "num_digits b v = (if v = 0 \<or> b < 2 then 0 else Suc (num_digits b (v div b)))"

declare num_digits.simps [simp del]

text \<open>The last \<open>k\<close> digits of a value, least significant first, and the tick marks between them.\<close>

primrec digits_rev :: "u32 \<Rightarrow> u64 \<Rightarrow> nat \<Rightarrow> u64 \<Rightarrow> bytes" where
  "digits_rev fl b 0 v = []"
| "digits_rev fl b (Suc k) v = digit_char fl (v mod b) # digits_rev fl b k (v div b)"

fun ticks :: "nat \<Rightarrow> nat \<Rightarrow> bytes \<Rightarrow> bytes" where
  "ticks ts i [] = []"
| "ticks ts i (d # ds) = (if i = 0 then 95 # d # ticks ts (ts - 1) ds else d # ticks ts (i - 1) ds)"

definition number_digits_for :: "u32 \<Rightarrow> int \<Rightarrow> int \<Rightarrow> nat \<Rightarrow> nat" where
  "number_digits_for fl base prec v =
     (let k = num_digits (nat base) v
      in max (max 1 k) (if flag fl FL_HASH \<and> base = 8 then max (nat prec) (k + 1) else nat prec))"

definition tick_skip :: "u32 \<Rightarrow> int \<Rightarrow> nat \<Rightarrow> nat" where
  "tick_skip fl base k = (if flag fl FL_TICK then (if base = 16 then 4 else 3) else k)"

definition number_text :: "u32 \<Rightarrow> int \<Rightarrow> int \<Rightarrow> u64 \<Rightarrow> bytes" where
  "number_text fl base prec v =
     (let k = number_digits_for fl base prec (unat v); ts = tick_skip fl base k
      in rev (ticks ts ts (digits_rev fl (word_of_int base) k v)))"

definition sign_text :: "u32 \<Rightarrow> bool \<Rightarrow> int \<Rightarrow> bytes" where
  "sign_text fl neg base =
     (if neg then [c_char CHR ''-''] else if flag fl FL_PLUS then [c_char CHR ''+'']
      else if flag fl FL_SPACE then [c_char CHR '' ''] else []) @
     (if flag fl FL_HASH \<and> base = 16
      then [c_char CHR ''0'', if flag fl FL_UPPER then c_char CHR ''X'' else c_char CHR ''x''] else [])"

definition int_text :: "u64 \<Rightarrow> u32 \<Rightarrow> int \<Rightarrow> int \<Rightarrow> int \<Rightarrow> bytes" where
  "int_text val fl base w prec =
     (let neg = flag fl FL_SIGNED \<and> sint val < 0; v = (if neg then - val else val);
          sign = sign_text fl neg base; num = number_text fl base prec v;
          pad = nat (w - int (length sign + length num))
      in (if flag fl FL_MINUS \<or> flag fl FL_ZERO then [] else replicate pad (c_char CHR '' '')) @ sign @
         (if flag fl FL_ZERO \<and> \<not> flag fl FL_MINUS then replicate pad (c_char CHR ''0'') else []) @ num @
         (if flag fl FL_MINUS then replicate pad (c_char CHR '' '') else []))"

section \<open>Stored output\<close>

definition written :: "mem \<Rightarrow> u32 \<Rightarrow> u32 \<Rightarrow> bytes \<Rightarrow> mem" where
  "written m q n xs = (\<lambda>a. if unat (a - q) < length xs \<and> unat (a - q) < unat n then xs ! unat (a - q) else m a)"

text \<open>The state of the output after the characters \<open>xs\<close>.\<close>

definition emitted :: "mem \<Rightarrow> u32 \<Rightarrow> u32 \<Rightarrow> bytes \<Rightarrow> out \<Rightarrow> bool" where
  "emitted m0 q0 n xs out \<longleftrightarrow>
     (case out of (i, q, m) \<Rightarrow>
        unat i = length xs \<and> (length xs \<le> unat n \<longrightarrow> q = q0 + of_nat (length xs)) \<and> m = written m0 q0 n xs)"

lemma written_Nil [simp]: "written m q n [] = m"
  by (simp add: written_def)

lemma emitted_Nil: "emitted m q n [] (0, q, m)"
  by (simp add: emitted_def)

lemma unat_offset:
  fixes a q :: u32
  assumes "i < 2 ^ 32"
  shows "unat (a - q) = i \<longleftrightarrow> a = q + of_nat i"
proof -
  have "unat (a - q) = i \<longleftrightarrow> a - q = of_nat i"
    using assms by (simp add: word_unat_eq_iff unat_of_nat_u32)
  then show ?thesis by (simp add: diff_eq_eq add.commute)
qed

lemma emitted_count:
  assumes "emitted m0 q0 n xs (i, q, m)" "length xs < 2 ^ 32"
  shows "i = of_nat (length xs) \<and> m = written m0 q0 n xs"
  using assms unat_offset [of "length xs" i 0] by (simp add: emitted_def)

lemma written_snoc:
  assumes "length xs < 2 ^ 32"
  shows "written m q n (xs @ [x]) =
    (if length xs < unat n then (written m q n xs)(q + of_nat (length xs) := x) else written m q n xs)"
proof
  fix a
  consider "unat (a - q) < length xs" | "unat (a - q) = length xs" | "unat (a - q) > length xs" by linarith
  then show "written m q n (xs @ [x]) a = (if length xs < unat n
      then (written m q n xs)(q + of_nat (length xs) := x) else written m q n xs) a"
  proof cases
    case 2
    then have "a = q + of_nat (length xs)" using assms unat_offset by blast
    then show ?thesis using 2 by (simp add: written_def)
  next
    case 1
    then have "a \<noteq> q + of_nat (length xs)" using unat_offset [OF assms, of a q] by auto
    then show ?thesis using 1 by (simp add: written_def nth_append)
  next
    case 3
    then have "a \<noteq> q + of_nat (length xs)" using unat_offset [OF assms, of a q] by auto
    then show ?thesis using 3 by (simp add: written_def nth_append)
  qed
qed

lemma emitted_emit:
  assumes "emitted m0 q0 n xs out" "length xs + 1 < 2 ^ 32"
  shows "emitted m0 q0 n (xs @ [x]) (emit n x out)"
proof -
  obtain i q m where out: "out = (i, q, m)" by (cases out)
  have e: "unat i = length xs" "length xs \<le> unat n \<Longrightarrow> q = q0 + of_nat (length xs)" "m = written m0 q0 n xs"
    using assms(1) by (simp_all add: emitted_def out)
  have "unat (i + 1) = Suc (length xs)"
    using e(1) assms(2) by (simp add: unat_word_ariths)
  then show ?thesis
    using e assms(2) by (auto simp: emitted_def out written_snoc word_less_nat_alt)
qed

lemma emitted_pad:
  assumes "emitted m0 q0 n xs out" "length xs + nat (w - k) < 2 ^ 32"
  shows "emitted m0 q0 n (xs @ replicate (nat (w - k)) c) (snd (pad_to n c w k out))"
    "fst (pad_to n c w k out) = (if w > k then k else w)"
proof -
  have "emitted m0 q0 n (xs @ replicate (nat (w - k)) c) (snd (pad_to n c w k out)) \<and>
      fst (pad_to n c w k out) = (if w > k then k else w)"
    using assms
  proof (induction n c w k out arbitrary: xs rule: pad_to.induct)
    case (1 n c w k out)
    show ?case
    proof (cases "w > k")
      case True
      then have s: "nat (w - k) = Suc (nat (w - 1 - k))" by simp
      have "emitted m0 q0 n ((xs @ [c]) @ replicate (nat (w - 1 - k)) c) (snd (pad_to n c (w - 1) k (emit n c out))) \<and>
          fst (pad_to n c (w - 1) k (emit n c out)) = (if w - 1 > k then k else w - 1)"
        using True s "1.prems" by (intro "1.IH" emitted_emit) simp_all
      then show ?thesis using True s by (subst (1 2) pad_to.simps) auto
    next
      case False
      then show ?thesis using "1.prems" by (subst (1 2) pad_to.simps) simp
    qed
  qed
  then show "emitted m0 q0 n (xs @ replicate (nat (w - k)) c) (snd (pad_to n c w k out))"
    "fst (pad_to n c w k out) = (if w > k then k else w)" by simp_all
qed


section \<open>The digits, stored from right to left\<close>

primrec store_down :: "u32 \<Rightarrow> u32 \<Rightarrow> u32 \<Rightarrow> bytes \<Rightarrow> mem \<Rightarrow> mem" where
  "store_down n q i [] m = m"
| "store_down n q i (c # cs) m = store_down n (q - 1) (i - 1) cs (store_if (i - 1 < n) (q - 1) c m)"

lemma number_loop_step:
  "k \<le> 0 \<Longrightarrow> number_loop n fl b ts k b4 v q i m = m"
  "0 < k \<Longrightarrow> b4 = 0 \<Longrightarrow> number_loop n fl b ts k b4 v q i m =
     number_loop n fl b ts (k - 1 - 1) (ts - 1) (v div b) (q - 1 - 1) (i - 1 - 1)
       (store_if (i - 1 - 1 < n) (q - 1 - 1) (digit_char fl (v mod b)) (store_if (i - 1 < n) (q - 1) 95 m))"
  "0 < k \<Longrightarrow> b4 \<noteq> 0 \<Longrightarrow> number_loop n fl b ts k b4 v q i m =
     number_loop n fl b ts (k - 1) (b4 - 1) (v div b) (q - 1) (i - 1)
       (store_if (i - 1 < n) (q - 1) (digit_char fl (v mod b)) m)"
  by (subst number_loop.simps; simp add: Let_def del: diff_diff_eq diff_diff_add)+

lemma number_loop_stores:
  assumes "1 \<le> ts" "b4 \<le> ts" "k = int (length (ticks ts b4 (digits_rev fl b d v)))"
  shows "number_loop n fl b (int ts) k (int b4) v q i m = store_down n q i (ticks ts b4 (digits_rev fl b d v)) m"
  using assms
proof (induction d arbitrary: b4 v q i m k)
  case 0
  then show ?case by (simp add: number_loop_step(1))
next
  case (Suc d)
  have IH: "number_loop n fl b (int ts) (int (length (ticks ts b' (digits_rev fl b d v')))) (int b') v' q' i' m' =
      store_down n q' i' (ticks ts b' (digits_rev fl b d v')) m'" if "b' \<le> ts" for b' v' q' i' m'
    by (rule Suc.IH [OF Suc.prems(1) that refl])
  show ?case
  proof (cases "b4 = 0")
    case True
    have ts: "int ts - 1 = int (ts - 1)" using Suc.prems(1) by simp
    have "k - 1 - 1 = int (length (ticks ts (ts - 1) (digits_rev fl b d (v div b))))" "0 < k"
      using True Suc.prems(3) by simp_all
    then show ?thesis
      using True by (simp only: number_loop_step(2) of_nat_0 ts IH [OF diff_le_self] ticks.simps digits_rev.simps
          store_down.simps if_True simp_thms)
  next
    case False
    then have b4: "int b4 - 1 = int (b4 - 1)" "int b4 \<noteq> 0" "b4 - 1 \<le> ts" using Suc.prems(2) by simp_all
    have "k - 1 = int (length (ticks ts (b4 - 1) (digits_rev fl b d (v div b))))" "0 < k"
      using False Suc.prems(3) by simp_all
    then show ?thesis
      using False b4(2) by (simp only: number_loop_step(3) b4(1) IH [OF b4(3)] ticks.simps digits_rev.simps
          store_down.simps if_False simp_thms)
  qed
qed

lemma store_down_nth:
  assumes "unat i + length cs < 2 ^ 32"
  shows "store_down n (q + of_nat (length cs)) (i + of_nat (length cs)) cs m =
    (\<lambda>a. if unat (a - q) < length cs \<and> unat i + unat (a - q) < unat n then rev cs ! unat (a - q) else m a)"
  using assms
proof (induction cs arbitrary: m)
  case (Cons c cs)
  let ?k = "length cs"
  let ?m = "store_if (i + of_nat ?k < n) (q + of_nat ?k) c m"
  have "r + of_nat (length (c # cs)) - 1 = r + of_nat ?k" for r :: u32 by simp
  then have "store_down n (q + of_nat (length (c # cs))) (i + of_nat (length (c # cs))) (c # cs) m =
      store_down n (q + of_nat ?k) (i + of_nat ?k) cs ?m"
    by (simp only: store_down.simps)
  also have "\<dots> = (\<lambda>a. if unat (a - q) < ?k \<and> unat i + unat (a - q) < unat n
      then rev cs ! unat (a - q) else ?m a)"
    by (rule Cons.IH) (use Cons.prems in simp)
  also have "\<dots> = (\<lambda>a. if unat (a - q) < length (c # cs) \<and> unat i + unat (a - q) < unat n
      then rev (c # cs) ! unat (a - q) else m a)"
  proof
    fix a
    have k: "unat (of_nat ?k :: u32) = ?k" using Cons.prems by (simp add: unat_of_nat_u32)
    then have "unat (i + of_nat ?k) = unat i + ?k" using Cons.prems by (simp add: unat_word_ariths)
    then have lt: "i + of_nat ?k < n \<longleftrightarrow> unat i + ?k < unat n" by (simp add: word_less_nat_alt)
    have at: "a = q + of_nat ?k \<longleftrightarrow> unat (a - q) = ?k" using unat_offset [of ?k a q] Cons.prems by simp
    consider "unat (a - q) < ?k" | "unat (a - q) = ?k" | "?k < unat (a - q)" by linarith
    then show "(if unat (a - q) < ?k \<and> unat i + unat (a - q) < unat n then rev cs ! unat (a - q) else ?m a) =
        (if unat (a - q) < length (c # cs) \<and> unat i + unat (a - q) < unat n then rev (c # cs) ! unat (a - q) else m a)"
    proof cases
      case 1
      then show ?thesis using at by (simp add: nth_append store_if_def)
    next
      case 2
      then show ?thesis using at lt by (simp add: nth_append store_if_def)
    next
      case 3
      then show ?thesis using at by (simp add: store_if_def)
    qed
  qed
  finally show ?case .
qed simp

lemma emitted_store_down:
  assumes "emitted m0 q0 n xs (i, q, m)" "length xs + length cs < 2 ^ 32"
  shows "emitted m0 q0 n (xs @ rev cs) (i + of_nat (length cs), q + of_nat (length cs),
    store_down n (q + of_nat (length cs)) (i + of_nat (length cs)) cs m)"
proof -
  let ?x = "length xs" and ?k = "length cs"
  have e: "unat i = ?x" "?x \<le> unat n \<Longrightarrow> q = q0 + of_nat ?x" "m = written m0 q0 n xs"
    using assms(1) by (simp_all add: emitted_def)
  have k: "unat (of_nat ?k :: u32) = ?k" using assms(2) by (simp add: unat_of_nat_u32)
  have "unat (i + of_nat ?k) = ?x + ?k" using assms(2) e(1) k by (simp add: unat_word_ariths)
  moreover have "store_down n (q + of_nat ?k) (i + of_nat ?k) cs m = written m0 q0 n (xs @ rev cs)"
  proof
    fix a
    let ?j = "unat (a - q)" and ?p = "unat (a - q0)"
    have s: "store_down n (q + of_nat ?k) (i + of_nat ?k) cs m a =
        (if ?j < ?k \<and> ?x + ?j < unat n then rev cs ! ?j else m a)"
      using store_down_nth [of i cs n q m] assms(2) e(1) by simp
    show "store_down n (q + of_nat ?k) (i + of_nat ?k) cs m a = written m0 q0 n (xs @ rev cs) a"
    proof (cases "?x \<le> unat n")
      case False
      then show ?thesis by (subst s) (auto simp: e(3) written_def nth_append)
    next
      case True
      have x: "unat (of_nat ?x :: u32) = ?x" using assms(2) by (simp add: unat_of_nat_u32)
      have d: "a - q = (a - q0) - of_nat ?x" using e(2) [OF True] by simp
      show ?thesis
      proof (cases "?x \<le> ?p")
        case True
        then have "?j = ?p - ?x" unfolding d using x by (simp add: unat_sub word_le_nat_alt)
        then show ?thesis using True by (subst s) (auto simp: e(3) written_def nth_append)
      next
        case False
        have ne: "a - q0 \<noteq> of_nat ?x" using False x by auto
        have "?j = 2 ^ 32 - (?x - ?p)"
          unfolding d using ne unat_diff_swap [of "a - q0" "of_nat ?x"] unat_diff_le [of "a - q0" "of_nat ?x"] False x
          by (auto simp: word_le_nat_alt)
        then have "\<not> ?j < ?k" using assms(2) by simp
        then show ?thesis using False by (subst s) (auto simp: e(3) written_def nth_append)
      qed
    qed
  qed
  ultimately show ?thesis using e(2) by (simp add: emitted_def add.assoc)
qed

lemma length_digits_rev [simp]: "length (digits_rev fl b k v) = k"
  by (induction k arbitrary: v) simp_all

lemma length_ticks:
  assumes "1 \<le> ts" "i \<le> ts"
  shows "length (ticks ts i ds) = length ds + (length ds + (ts - i) - 1) div ts"
  using assms(2)
proof (induction ds arbitrary: i)
  case Nil
  then show ?case using assms(1) by (simp add: div_eq_0_iff)
next
  case (Cons d ds)
  show ?case
  proof (cases "i = 0")
    case True
    have "(length ds + (ts - (ts - 1)) - 1) div ts = length ds div ts" using assms(1) by simp
    moreover have "(length (d # ds) + (ts - 0) - 1) div ts = Suc (length ds div ts)"
      using assms(1) div_add_self2 [of ts "length ds"] by simp
    ultimately show ?thesis using True Cons.IH [of "ts - 1"] by simp
  next
    case False
    then have "length ds + (ts - (i - 1)) - 1 = length (d # ds) + (ts - i) - 1" using Cons.prems by simp
    then show ?thesis using False Cons.IH [of "i - 1"] Cons.prems by simp
  qed
qed


section \<open>format\_int stores the text of an integer\<close>

lemma count_digits_num:
  assumes "2 \<le> unat b"
  shows "count_digits v b k = Some (k + int (num_digits (unat b) (unat v)))"
proof (induction "unat v" arbitrary: v k rule: less_induct)
  case less
  show ?case
  proof (cases "v = 0")
    case True
    then show ?thesis by (subst count_digits.simps) (simp add: num_digits.simps)
  next
    case False
    then have "0 < unat v" by (simp add: unat_gt_0)
    then have "unat (v div b) < unat v" using assms by (simp add: unat_div)
    from less [OF this, of "k + 1"] show ?thesis
      using False assms \<open>0 < unat v\<close>
      by (subst count_digits.simps, subst num_digits.simps) (simp add: unat_div)
  qed
qed

lemma base_cases: "base \<in> {8, 10, 16} \<Longrightarrow> unat (word_of_int base :: u64) = nat base \<and> 2 \<le> nat base"
  by auto

lemma num_digits_pos: "2 \<le> b \<Longrightarrow> 0 < v \<Longrightarrow> 1 \<le> num_digits b v"
  by (subst num_digits.simps) simp

lemma number_digits_for_pos: "1 \<le> number_digits_for fl base prec v"
  by (simp add: number_digits_for_def Let_def le_max_iff_disj)

lemma length_number_text:
  fixes fl :: u32 and v :: u64 and base prec :: int
  defines "k \<equiv> number_digits_for fl base prec (unat v)"
  shows "length (number_text fl base prec v) = k + (k - 1) div tick_skip fl base k" "1 \<le> k" "1 \<le> tick_skip fl base k"
proof -
  show k: "1 \<le> k" unfolding k_def by (rule number_digits_for_pos)
  then show ts: "1 \<le> tick_skip fl base k" by (simp add: tick_skip_def)
  show "length (number_text fl base prec v) = k + (k - 1) div tick_skip fl base k"
    using length_ticks [OF ts order_refl, of "digits_rev fl (word_of_int base) k v"] ts
    by (simp add: number_text_def Let_def k_def)
qed

lemma flag_or: "flag fl (a OR b) \<longleftrightarrow> flag fl a \<or> flag fl b"
  by (simp add: flag_def bit.conj_disj_distrib or_eq_0_iff)

lemma int_max_nat: "int (max (nat x) (d + 1)) = max x (int d + 1)"
  by (simp add: max_def) linarith

lemma int_layout_correct:
  fixes fl :: u32 and val :: u64 and base prec :: int
  assumes "base \<in> {8, 10, 16}"
  defines "neg \<equiv> flag fl FL_SIGNED \<and> sint val < 0"
  defines "v \<equiv> (if neg then - val else val)"
  defines "k \<equiv> number_digits_for fl base prec (unat v)"
  shows "int_layout val fl base prec = Some (neg, v, int (length (number_text fl base prec v)),
    int (tick_skip fl base k), int (length (sign_text fl neg base) + length (number_text fl base prec v)))"
proof -
  let ?d = "num_digits (nat base) (unat v)"
  note b = base_cases [OF assms(1)]
  have c: "count_digits v (word_of_int base) 0 = Some (int ?d)"
    using count_digits_num [of "word_of_int base" v 0] b by simp
  have nz: "v \<noteq> 0 \<Longrightarrow> 1 \<le> ?d"
    using num_digits_pos b by (simp add: unat_gt_0)
  define p where "p = (if flag fl FL_HASH \<and> base = 8 \<and> prec < int ?d + 1 then int ?d + 1 else prec)"
  have n: "(if int ?d < p then p else if v = 0 then 1 else int ?d) = int k"
  proof -
    have z: "v = 0 \<Longrightarrow> ?d = 0" by (subst num_digits.simps) simp
    have k: "k = max (max 1 ?d) (if flag fl FL_HASH \<and> base = 8 then max (nat prec) (?d + 1) else nat prec)"
      by (simp add: k_def number_digits_for_def Let_def)
    show ?thesis
    proof (cases "flag fl FL_HASH \<and> base = 8")
      case True
      then have "p = max prec (int ?d + 1)" by (simp add: p_def max_def)
      moreover have "k = max (nat prec) (?d + 1)" using k True by (simp add: max_def)
      ultimately have "int ?d < p" "int k = p" using int_max_nat [of prec ?d]
        by (simp_all only: less_max_iff_disj) simp
      then show ?thesis by simp
    next
      case False
      then have "p = prec" "k = max (max 1 ?d) (nat prec)" using k by (auto simp: p_def)
      then show ?thesis using z nz by (cases "v = 0") (simp_all add: max_def, linarith+)
    qed
  qed
  have ts: "(if flag fl FL_TICK then if base = 16 then 4 else 3 else int k) = int (tick_skip fl base k)"
    by (simp add: tick_skip_def)
  have l: "int k + (int k - 1) div int (tick_skip fl base k) = int (length (number_text fl base prec v))"
  proof -
    have "1 \<le> k" unfolding k_def by (rule number_digits_for_pos)
    then have "int k - 1 = int (k - 1)" by simp
    then have "(int k - 1) div int (tick_skip fl base k) = int ((k - 1) div tick_skip fl base k)"
      by (simp only: zdiv_int)
    then show ?thesis by (simp only: length_number_text(1) [of fl base prec v, folded k_def] of_nat_add)
  qed
  have s: "int (length (sign_text fl neg base)) = (if neg \<or> flag fl (FL_PLUS OR FL_SPACE) then 1 else 0) +
      (if flag fl FL_HASH \<and> base = 16 then 2 else 0)"
    by (auto simp: sign_text_def flag_or [of fl "0x04" "0x10", simplified])
  show ?thesis
    unfolding int_layout_def neg_def [symmetric] v_def [symmetric] Let_def c option.case p_def [symmetric] n ts l
    using s by simp
qed


lemma bits_0_1:
  fixes fl :: u32
  shows "flag fl FL_ZERO \<longleftrightarrow> bit fl 0" "flag fl FL_MINUS \<longleftrightarrow> bit fl 1"
    "fl AND (FL_MINUS OR FL_ZERO) = FL_ZERO \<longleftrightarrow> bit fl 0 \<and> \<not> bit fl 1"
proof -
  show "flag fl FL_ZERO \<longleftrightarrow> bit fl 0" "flag fl FL_MINUS \<longleftrightarrow> bit fl 1"
    using and_exp_eq_0_iff_not_bit [of fl 0] and_exp_eq_0_iff_not_bit [of fl 1] by (simp_all add: flag_def)
  have "(0x03 :: u32) = mask 2" by (simp add: mask_eq_exp_minus_1)
  then have "fl AND 0x03 = take_bit (Suc (Suc 0)) fl"
    by (simp only: take_bit_eq_mask numeral_2_eq_2)
  also have "\<dots> = of_bool (bit fl 1) * 2 + of_bool (bit fl 0)"
    by (simp add: take_bit_Suc mod_2_eq_odd bit_Suc bit_0)
  finally have "fl AND 0x03 = 0x01 \<longleftrightarrow> bit fl 0 \<and> \<not> bit fl 1" by simp
  then show "fl AND (FL_MINUS OR FL_ZERO) = FL_ZERO \<longleftrightarrow> bit fl 0 \<and> \<not> bit fl 1" by simp
qed

lemma flag_masks:
  "flag fl 0x03 \<longleftrightarrow> flag fl FL_MINUS \<or> flag fl FL_ZERO"
  "fl AND 0x03 = 0x01 \<longleftrightarrow> flag fl FL_ZERO \<and> \<not> flag fl FL_MINUS"
  using flag_or [of fl "0x02" "0x01"] bits_0_1 [of fl] by simp_all

lemma emitted_sign:
  assumes "emitted m0 q0 n xs out" "length xs + length (sign_text fl neg base) < 2 ^ 32"
  shows "emitted m0 q0 n (xs @ sign_text fl neg base) (emit_sign n fl neg base out)"
proof -
  define s1 where "s1 = (if neg then [c_char CHR ''-''] else if flag fl FL_PLUS then [c_char CHR ''+'']
      else if flag fl FL_SPACE then [c_char CHR '' ''] else [])"
  define o1 where "o1 = (if neg then emit n (c_char CHR ''-'') out
                 else if flag fl FL_PLUS then emit n (c_char CHR ''+'') out
                 else if flag fl FL_SPACE then emit n (c_char CHR '' '') out
                 else out)"
  have 1: "emitted m0 q0 n (xs @ s1) o1"
    using assms emitted_emit [OF assms(1)] by (auto simp: s1_def o1_def sign_text_def)
  show ?thesis
  proof (cases "flag fl FL_HASH \<and> base = 16")
    case True
    let ?x = "if flag fl FL_UPPER then c_char CHR ''X'' else c_char CHR ''x''"
    have t: "sign_text fl neg base = s1 @ [c_char CHR ''0'', ?x]" using True by (simp add: sign_text_def s1_def)
    have two: "emitted m0 q0 n ((xs @ s1) @ [c_char CHR ''0'']) (emit n (c_char CHR ''0'') o1)"
      using assms(2) t by (intro emitted_emit [OF 1]) simp
    have "emitted m0 q0 n (((xs @ s1) @ [c_char CHR ''0'']) @ [?x]) (emit n ?x (emit n (c_char CHR ''0'') o1))"
      by (rule emitted_emit [OF two]) (use assms(2) t in simp)
    moreover have "emit_sign n fl neg base out = emit n ?x (emit n (c_char CHR ''0'') o1)"
      using True by (simp only: emit_sign_def Let_def o1_def simp_thms if_True)
    ultimately show ?thesis by (simp only: t append_assoc append.simps)
  next
    case False
    then have "sign_text fl neg base = s1" by (auto simp: sign_text_def s1_def)
    moreover have "emit_sign n fl neg base out = o1"
      using False by (simp only: emit_sign_def Let_def o1_def if_False)
    ultimately show ?thesis using 1 by simp
  qed
qed

lemma format_int_text:
  assumes b: "base \<in> {8, 10, 16}" and len: "length (int_text val fl base w prec) < 2 ^ 32"
  shows "format_int q n val fl base w prec m =
    Some (of_nat (length (int_text val fl base w prec)), written m q n (int_text val fl base w prec))"
proof -
  define neg where "neg \<longleftrightarrow> flag fl FL_SIGNED \<and> sint val < 0"
  define v where "v = (if neg then - val else val)"
  define k where "k = number_digits_for fl base prec (unat v)"
  define ts where "ts = tick_skip fl base k"
  define R where "R = ticks ts ts (digits_rev fl (word_of_int base) k v)"
  define sign where "sign = sign_text fl neg base"
  define pad where "pad = nat (w - int (length sign + length R))"
  let ?M = "flag fl FL_MINUS" and ?Z = "flag fl FL_ZERO"
  define A where "A = (if ?M \<or> ?Z then [] else replicate pad (c_char CHR '' ''))"
  define Z where "Z = (if ?Z \<and> \<not> ?M then replicate pad (c_char CHR ''0'') else [])"
  define L where "L = (if ?M then replicate pad (c_char CHR '' '') else [])"
  define nchars where "nchars = int (length sign + length R)"
  have pad: "pad = nat (w - nchars)" by (simp add: pad_def nchars_def)
  have num: "number_text fl base prec v = rev R"
    by (simp add: number_text_def Let_def R_def ts_def k_def)
  have body: "int_text val fl base w prec = A @ sign @ Z @ rev R @ L"
    by (simp add: int_text_def Let_def neg_def [symmetric] v_def [symmetric] sign_def [symmetric] num A_def Z_def L_def pad_def)
  have layout: "int_layout val fl base prec = Some (neg, v, int (length R), int ts, nchars)"
    using int_layout_correct [OF b, of val fl prec]
    by (simp add: neg_def [symmetric] v_def [symmetric] num k_def [symmetric] ts_def [symmetric] sign_def [symmetric] nchars_def)
  have len': "length A + length sign + length Z + length R + length L < 2 ^ 32" using len unfolding body by simp
  define s1 where "s1 = (if \<not> flag fl (FL_MINUS OR FL_ZERO) \<and> w > nchars
    then pad_to n (c_char CHR '' '') w nchars (0, q, m) else (w, 0, q, m))"
  have 1: "emitted m q n A (snd s1)" "fst s1 = (if \<not> ?M \<and> \<not> ?Z \<and> w > nchars then nchars else w)"
  proof -
    have "emitted m q n (replicate (nat (w - nchars)) (c_char CHR '' '')) (snd (pad_to n (c_char CHR '' '') w nchars (0, q, m)))"
      "fst (pad_to n (c_char CHR '' '') w nchars (0, q, m)) = nchars" if "\<not> ?M" "\<not> ?Z" "w > nchars"
      using emitted_pad [OF emitted_Nil [of m q n], of w nchars "c_char CHR '' ''"] len' that
      by (simp_all add: A_def pad)
    then show "emitted m q n A (snd s1)" "fst s1 = (if \<not> ?M \<and> \<not> ?Z \<and> w > nchars then nchars else w)"
      using emitted_Nil [of m q n] by (auto simp: s1_def flag_masks A_def pad)
  qed
  define o2 where "o2 = emit_sign n fl neg base (snd s1)"
  have 2: "emitted m q n (A @ sign) o2"
    unfolding o2_def sign_def by (rule emitted_sign [OF 1(1)]) (use len' sign_def in simp)
  define s3 where "s3 = (if fl AND (FL_MINUS OR FL_ZERO) = FL_ZERO \<and> fst s1 > int (length R)
    then pad_to n (c_char CHR ''0'') (fst s1) nchars o2 else (fst s1, o2))"
  have 3: "emitted m q n (A @ sign @ Z) (snd s3)" "?M \<Longrightarrow> fst s3 = w"
  proof -
    have "emitted m q n ((A @ sign) @ replicate (nat (w - nchars)) (c_char CHR ''0''))
        (snd (pad_to n (c_char CHR ''0'') w nchars o2))" if "?Z" "\<not> ?M"
      using emitted_pad(1) [OF 2, of w nchars "c_char CHR ''0''"] len' that by (simp add: Z_def pad)
    moreover have "pad = 0" if "\<not> w > int (length R)" using that by (simp add: pad_def)
    ultimately show "emitted m q n (A @ sign @ Z) (snd s3)"
      using 1(2) 2 by (auto simp: s3_def flag_masks Z_def pad)
    show "?M \<Longrightarrow> fst s3 = w" using 1(2) by (auto simp: s3_def flag_masks)
  qed
  obtain i q' m' where o3: "snd s3 = (i, q', m')" by (cases "snd s3")
  have 4: "emitted m q n ((A @ sign @ Z) @ rev R) (i + of_nat (length R), q' + of_nat (length R),
      store_down n (q' + of_nat (length R)) (i + of_nat (length R)) R m')"
    by (rule emitted_store_down) (use 3(1) o3 len' in simp_all)
  have "1 \<le> ts" unfolding ts_def k_def by (rule length_number_text)
  then have loop: "number_loop n fl (word_of_int base) (int ts) (int (length R)) (int ts) v q'' i'' m'' =
      store_down n q'' i'' R m''" for q'' i'' m''
    unfolding R_def by (rule number_loop_stores) simp_all
  define o5 where "o5 = (if ?M then snd (pad_to n (c_char CHR '' '') (fst s3) nchars (i + of_nat (length R),
    q' + of_nat (length R), store_down n (q' + of_nat (length R)) (i + of_nat (length R)) R m'))
    else (i + of_nat (length R), q' + of_nat (length R), store_down n (q' + of_nat (length R)) (i + of_nat (length R)) R m'))"
  have 5: "emitted m q n (((A @ sign @ Z) @ rev R) @ L) o5"
    using 4 emitted_pad(1) [OF 4, of w nchars "c_char CHR '' ''"] 3(2) len'
    by (auto simp: o5_def L_def pad)
  have "format_int q n val fl base w prec m = Some (fst o5, snd (snd o5))"
  proof -
    have e1: "(if \<not> flag fl (FL_MINUS OR FL_ZERO) \<and> w > nchars
        then pad_to n (c_char CHR '' '') w nchars (0, q, m) else (w, 0, q, m)) = (fst s1, snd s1)"
      by (simp only: s1_def prod.collapse)
    have e3: "(if fl AND (FL_MINUS OR FL_ZERO) = FL_ZERO \<and> fst s1 > int (length R)
        then pad_to n (c_char CHR ''0'') (fst s1) nchars o2 else (fst s1, o2)) = (fst s3, i, q', m')"
      by (simp only: s3_def [symmetric] o3 [symmetric] prod.collapse)
    show ?thesis
      by (simp only: format_int_def layout option.case prod.case Let_def e1 o2_def [symmetric] e3
          of_int_of_nat_eq loop) (simp only: o5_def)
  qed
  then show ?thesis
    using emitted_count [of m q n "A @ sign @ Z @ rev R @ L" "fst o5" "fst (snd o5)" "snd (snd o5)"] 5 len
    unfolding body by simp
qed


section \<open>The text of a format\<close>

definition string_text :: "u32 \<Rightarrow> int \<Rightarrow> int \<Rightarrow> int \<Rightarrow> (nat \<Rightarrow> u8) \<Rightarrow> bytes" where
  "string_text fl w prec slen r =
     (let slen = (if prec \<noteq> - 1 \<and> slen > prec then prec else slen);
          chars = map r [0..<unat (word_of_int slen :: u32)]; pad = nat (w - slen)
      in if flag fl FL_MINUS then chars @ replicate pad (c_char CHR '' '')
         else replicate pad (if flag fl FL_ZERO then c_char CHR ''0'' else c_char CHR '' '') @ chars)"

text \<open>There is no text when a string argument touches the buffer \<open>B\<close> or has no end, for \<open>%n\<close>, and
  for the precision below \<open>-1\<close> that the code computes when digits follow a negative \<open>*\<close>.\<close>

definition conversion_text :: "(u32 \<Rightarrow> bool) \<Rightarrow> mem \<Rightarrow> char \<Rightarrow> pf \<Rightarrow> (pf \<times> bytes) option" where
  "conversion_text B m ch s =
     (let s = s\<lparr>pf_state := st_normal, pf_rank := canonical_rank (pf_rank s)\<rparr>
      in case int_conversion ch s of
           Some (val, fl, base, prec, ap) \<Rightarrow> Some (s\<lparr>pf_ap := ap\<rparr>, int_text val fl base (pf_width s) prec)
         | None \<Rightarrow>
             (let (w, ap) = va_int (pf_ap s); strings = string_text (pf_flags s) (pf_width s) (pf_prec s)
              in if ch = CHR ''c'' then Some (s\<lparr>pf_ap := ap\<rparr>, strings 1 (\<lambda>j. ucast w))
                 else if ch = CHR ''s'' then
                   (if w = 0 then Some (s\<lparr>pf_ap := ap\<rparr>, strings (int (length null_string)) (string_reader null_string m))
                    else case strlen w m of None \<Rightarrow> None
                    | Some slen \<Rightarrow>
                        if - 1 \<le> pf_prec s \<and> list_all (\<lambda>j. \<not> B (w + of_nat j)) [0..<unat slen + 1]
                        then Some (s\<lparr>pf_ap := ap\<rparr>, strings (sint slen) (\<lambda>j. m (w + of_nat j)))
                        else None)
                 else if ch = CHR ''n'' then None
                 else Some (s, [c_char ch])))"

definition text_step :: "(u32 \<Rightarrow> bool) \<Rightarrow> mem \<Rightarrow> char \<Rightarrow> pf \<Rightarrow> (bool \<times> pf \<times> bytes) option" where
  "text_step B m ch s =
     (case pf_state s of
        st_normal \<Rightarrow>
          if ch = CHR ''%'' then
            Some (False, s\<lparr>pf_state := st_flags, pf_flags := 0, pf_rank := 0, pf_width := 0, pf_prec := - 1\<rparr>, [])
          else Some (False, s, [c_char ch])
      | st_flags \<Rightarrow> (case flags_step ch s of (again, s) \<Rightarrow> Some (again, s, []))
      | st_width \<Rightarrow> (case width_step ch s of (again, s) \<Rightarrow> Some (again, s, []))
      | st_prec \<Rightarrow> (case prec_step ch s of (again, s) \<Rightarrow> Some (again, s, []))
      | st_modifiers \<Rightarrow>
          (case modifier_step ch s of
             Some s \<Rightarrow> Some (False, s, [])
           | None \<Rightarrow> map_option (\<lambda>(s, t). (False, s, t)) (conversion_text B m ch s)))"

lemma text_step_again: "text_step B m ch s = Some (True, s', t) \<Longrightarrow> state_rank s' < state_rank s"
  by (auto simp: text_step_def state_rank_def flags_step_def width_step_def prec_step_def Let_def va_int_def
      split: pstate.splits if_splits option.splits prod.splits)

function text_loop :: "(u32 \<Rightarrow> bool) \<Rightarrow> mem \<Rightarrow> string \<Rightarrow> pf \<Rightarrow> bytes option" where
  "text_loop B m [] s = Some []"
| "text_loop B m (ch # p) s =
     (if ch = CHR 0x00 then Some []
      else case text_step B m ch s of
             None \<Rightarrow> None
           | Some (again, s, t) \<Rightarrow>
               map_option (\<lambda>ts. t @ ts) (if again then text_loop B m (ch # p) s else text_loop B m p s))"
  by pat_completeness auto
termination
  by (relation "measures [\<lambda>(B, m, p, s). length p, \<lambda>(B, m, p, s). state_rank s]") (auto dest: text_step_again)

definition printf_text :: "(u32 \<Rightarrow> bool) \<Rightarrow> mem \<Rightarrow> string \<Rightarrow> va_list \<Rightarrow> bytes option" where
  "printf_text B m fmt ap = text_loop B m fmt (pf_init ap)"

section \<open>The code stores the text\<close>

lemma emitted_int:
  assumes "emitted m0 q0 n xs (i, q, m)" "length xs + length t < 2 ^ 32"
  shows "emitted m0 q0 n (xs @ t) (i + of_nat (length t), q + of_nat (length t), written m q (if i < n then n - i else 0) t)"
proof -
  have i: "unat i + length (rev t) < 2 ^ 32" using assms by (simp add: emitted_def)
  have "unat (if i < n then n - i else 0) = unat n - unat i"
    using unat_diff_le [of i n] by (auto simp: word_less_nat_alt word_le_nat_alt)
  then have "written m q (if i < n then n - i else 0) t =
      store_down n (q + of_nat (length (rev t))) (i + of_nat (length (rev t))) (rev t) m"
    unfolding store_down_nth [OF i] by (auto simp: written_def fun_eq_iff)
  then show ?thesis using emitted_store_down [OF assms(1), of "rev t"] assms(2) by simp
qed

lemma emitted_outside:
  assumes "emitted m0 q0 n xs (i, q, m)" "a \<notin> span q0 (unat n)"
  shows "m a = m0 a"
  using assms by (auto simp: emitted_def written_def span_def)

lemma emitted_string:
  assumes "emitted m0 q0 n xs out" "length xs + k < 2 ^ 32"
    "\<And>m j. j < j0 + k \<Longrightarrow> (\<And>a. a \<notin> span q0 (unat n) \<Longrightarrow> m a = m0 a) \<Longrightarrow> sarg m j = r j"
  shows "emitted m0 q0 n (xs @ map r [j0..<j0 + k]) (emit_string n k sarg j0 out)"
  using assms
proof (induction k arbitrary: xs j0 out)
  case (Suc k)
  obtain i q m where out: "out = (i, q, m)" by (cases out)
  have "sarg m j0 = r j0"
    by (rule Suc.prems(3)) (use emitted_outside Suc.prems(1) out in auto)
  then have e: "emitted m0 q0 n (xs @ [r j0]) (emit n (sarg (snd (snd out)) j0) out)"
    using emitted_emit [OF Suc.prems(1), of "r j0"] Suc.prems(2) by (simp add: out)
  have "emitted m0 q0 n ((xs @ [r j0]) @ map r [j0 + 1..<j0 + 1 + k])
      (emit_string n k sarg (j0 + 1) (emit n (sarg (snd (snd out)) j0) out))"
    by (rule Suc.IH [OF e]) (use Suc.prems in auto)
  moreover have "[j0..<j0 + Suc k] = j0 # [j0 + 1..<j0 + 1 + k]" by (simp add: upt_conv_Cons)
  ultimately show ?case by simp
qed simp

lemma emitted_string_conversion:
  assumes e: "emitted m0 q0 n xs out" and len: "length xs + length (string_text fl w prec slen r) < 2 ^ 32"
    and r: "\<And>m j. j < unat (word_of_int (if prec \<noteq> - 1 \<and> slen > prec then prec else slen) :: u32) \<Longrightarrow>
      (\<And>a. a \<notin> span q0 (unat n) \<Longrightarrow> m a = m0 a) \<Longrightarrow> sarg m j = r j"
  shows "emitted m0 q0 n (xs @ string_text fl w prec slen r) (string_conversion n fl w prec slen sarg out)"
proof -
  define l where "l = (if prec \<noteq> - 1 \<and> slen > prec then prec else slen)"
  define k where "k = unat (word_of_int l :: u32)"
  have r': "sarg m j = r j" if "j < 0 + k" "\<And>a. a \<notin> span q0 (unat n) \<Longrightarrow> m a = m0 a" for m j
    using r [of j m] that unfolding k_def l_def by simp
  show ?thesis
  proof (cases "flag fl FL_MINUS")
    case True
    then have t: "string_text fl w prec slen r = map r [0..<0 + k] @ replicate (nat (w - l)) (c_char CHR '' '')"
      by (simp add: string_text_def Let_def l_def k_def)
    have 1: "emitted m0 q0 n (xs @ map r [0..<0 + k]) (emit_string n k sarg 0 out)"
      by (rule emitted_string [OF e _ r']) (use len t in auto)
    have "emitted m0 q0 n ((xs @ map r [0..<0 + k]) @ replicate (nat (w - l)) (c_char CHR '' ''))
        (snd (pad_to n (c_char CHR '' '') w l (emit_string n k sarg 0 out)))"
      by (rule emitted_pad(1) [OF 1]) (use len t in simp)
    then show ?thesis
      using True 1 t by (cases "w > l") (simp_all add: string_conversion_def Let_def l_def [symmetric] k_def [symmetric])
  next
    case False
    let ?c = "if flag fl FL_ZERO then c_char CHR ''0'' else c_char CHR '' ''"
    have t: "string_text fl w prec slen r = replicate (nat (w - l)) ?c @ map r [0..<0 + k]"
      using False by (simp add: string_text_def Let_def l_def k_def)
    define s1 where "s1 = (if w > l then pad_to n ?c w l out else (w, out))"
    have 1: "emitted m0 q0 n (xs @ replicate (nat (w - l)) ?c) (snd s1)"
      using emitted_pad(1) [OF e, of w l ?c] e len t by (auto simp: s1_def)
    have "emitted m0 q0 n ((xs @ replicate (nat (w - l)) ?c) @ map r [0..<0 + k]) (emit_string n k sarg 0 (snd s1))"
      by (rule emitted_string [OF 1 _ r']) (use len t in auto)
    moreover have "string_conversion n fl w prec slen sarg out = emit_string n k sarg 0 (snd s1)"
      using False
      by (simp add: string_conversion_def Let_def case_prod_unfold l_def [symmetric] k_def [symmetric] s1_def)
    ultimately show ?thesis unfolding t by simp
  qed
qed


lemma precision_below_length:
  fixes l :: u32
  assumes "0 \<le> prec" "prec < sint l"
  shows "unat (word_of_int prec :: u32) \<le> unat l"
proof -
  have "sint l < 2147483648" using sint_lt [of l] by simp
  then have "prec < 2147483648" using assms(2) by simp
  then have p: "unat (word_of_int prec :: u32) = nat prec"
    using assms(1) by (simp add: unsigned_of_int take_bit_int_eq_self)
  show ?thesis
  proof (cases "unat l < 2147483648")
    case True
    then have "prec < int (unat l)" using assms(2) sint_u32_small [OF True] by metis
    then show ?thesis using p by linarith
  next
    case False
    then show ?thesis using \<open>prec < 2147483648\<close> p by simp
  qed
qed

text \<open>One conversion: the state and the text agree with the code.\<close>

lemma conversion_emits:
  assumes e: "emitted m0 q0 n xs out" and B: "\<And>a. B a = (a \<in> span q0 (unat n))"
    and t: "conversion_text B m0 ch s = Some (s', t)" and len: "length xs + length t < 2 ^ 32"
  shows "\<exists>out'. conversion n ch s out = Some (s', out') \<and> emitted m0 q0 n (xs @ t) out'"
proof -
  obtain i q m where out: "out = (i, q, m)" by (cases out)
  define s1 where "s1 = s\<lparr>pf_state := st_normal, pf_rank := canonical_rank (pf_rank s)\<rparr>"
  obtain w ap where va: "va_int (pf_ap s1) = (w, ap)" by (cases "va_int (pf_ap s1)")
  show ?thesis
  proof (cases "int_conversion ch s1")
    case (Some c)
    obtain val fl base prec ap' where c: "c = (val, fl, base, prec, ap')" by (cases c)
    have s': "s' = s1\<lparr>pf_ap := ap'\<rparr>" "t = int_text val fl base (pf_width s1) prec"
      using t Some c by (simp_all add: conversion_text_def s1_def [symmetric])
    have "base \<in> {8, 10, 16}"
      using Some c by (auto simp: int_conversion_def Let_def va_int_def split: if_splits prod.splits)
    then have "format_int q (if i < n then n - i else 0) val fl base (pf_width s1) prec m =
        Some (of_nat (length t), written m q (if i < n then n - i else 0) t)"
      using format_int_text len unfolding s'(2) by simp
    then show ?thesis
      using emitted_int [OF e [unfolded out] len] Some c s'(1)
      by (simp add: conversion_def out s1_def [symmetric] Let_def)
  next
    case None
    note defs = conversion_def conversion_text_def out s1_def [symmetric] Let_def va
    consider (c) "ch = CHR ''c''" | (s) "ch = CHR ''s''" | (n) "ch = CHR ''n''"
      | (other) "ch \<notin> {CHR ''c'', CHR ''s'', CHR ''n''}" by auto
    then show ?thesis
    proof cases
      case c
      note defs = defs None [unfolded c]
      have s': "s' = s1\<lparr>pf_ap := ap\<rparr>" "t = string_text (pf_flags s1) (pf_width s1) (pf_prec s1) 1 (\<lambda>j. ucast w)"
        using t c by (simp_all add: defs)
      have "emitted m0 q0 n (xs @ t) (string_conversion n (pf_flags s1) (pf_width s1) (pf_prec s1) 1 (\<lambda>m j. ucast w) out)"
        unfolding s'(2) by (rule emitted_string_conversion [OF e]) (use len s'(2) in auto)
      then show ?thesis using c s'(1) by (simp add: defs)
    next
      case s
      note defs = defs None [unfolded s]
      show ?thesis
      proof (cases "w = 0")
        case True
        then have s': "s' = s1\<lparr>pf_ap := ap\<rparr>" "t = string_text (pf_flags s1) (pf_width s1) (pf_prec s1)
            (int (length null_string)) (string_reader null_string m0)"
          using t s by (simp_all add: defs)
        have "emitted m0 q0 n (xs @ t) (string_conversion n (pf_flags s1) (pf_width s1) (pf_prec s1)
            (int (length null_string)) (string_reader null_string) out)"
          unfolding s'(2) by (rule emitted_string_conversion [OF e])
            (use len s'(2) in \<open>simp_all add: string_reader_def\<close>)
        then show ?thesis using s True s'(1) by (simp add: defs)
      next
        case False
        then obtain l where l: "strlen w m0 = Some l"
          using t s by (cases "strlen w m0") (simp_all add: defs)
        then have free: "- 1 \<le> pf_prec s1" "list_all (\<lambda>j. \<not> B (w + of_nat j)) [0..<unat l + 1]"
          and s': "s' = s1\<lparr>pf_ap := ap\<rparr>" "t = string_text (pf_flags s1) (pf_width s1) (pf_prec s1) (sint l) (\<lambda>j. m0 (w + of_nat j))"
          using t s False by (simp_all add: defs split: if_splits)
        from strlen_SomeD [OF l] obtain ys where ys: "c_string m0 w ys" "length ys < 2 ^ 32" "l = of_nat (length ys)" .
        then have "unat l = length ys" by (simp add: unat_of_nat_u32)
        then have out_B: "w + of_nat j \<notin> span q0 (unat n)" if "j \<le> length ys" for j
          using free(2) that by (auto simp: list_all_iff B)
        have "c_string m w ys"
          using ys(1) c_string_cong [of ys m w m0] emitted_outside [OF e [unfolded out] out_B] by simp
        then have l': "strlen w m = Some l" using strlen_c_string ys(3) by simp
        have short: "unat (word_of_int (if pf_prec s1 \<noteq> - 1 \<and> pf_prec s1 < sint l then pf_prec s1 else sint l) :: u32)
            \<le> length ys"
          using precision_below_length [of "pf_prec s1" l] free(1) \<open>unat l = length ys\<close> ys(3) by auto
        have "emitted m0 q0 n (xs @ t) (string_conversion n (pf_flags s1) (pf_width s1) (pf_prec s1) (sint l)
            (\<lambda>m j. m (w + of_nat j)) out)"
          unfolding s'(2)
        proof (rule emitted_string_conversion [OF e])
          fix m' :: mem and j
          assume j: "j < unat (word_of_int (if pf_prec s1 \<noteq> - 1 \<and> pf_prec s1 < sint l then pf_prec s1 else sint l) :: u32)"
            and m': "\<And>a. a \<notin> span q0 (unat n) \<Longrightarrow> m' a = m0 a"
          show "m' (w + of_nat j) = m0 (w + of_nat j)"
            by (rule m' [OF out_B]) (use j short in linarith)
        qed (use len s'(2) in simp)
        then show ?thesis using s False s'(1) l' by (simp add: defs)
      qed
    next
      case n
      then show ?thesis using t None [unfolded n] by (simp add: defs)
    next
      case other
      then have "s' = s1" "t = [c_char ch]" using t None by (simp_all add: defs)
      then show ?thesis using emitted_emit [OF e, of "c_char ch"] len other None by (simp add: defs)
    qed
  qed
qed


lemma pf_step_emits:
  assumes e: "emitted m0 q0 n xs out" and B: "\<And>a. B a = (a \<in> span q0 (unat n))"
    and t: "text_step B m0 ch s = Some (again, s', t)" and len: "length xs + length t < 2 ^ 32"
  shows "\<exists>out'. pf_step n ch s out = Some (again, s', out') \<and> emitted m0 q0 n (xs @ t) out'"
proof -
  obtain i q m where out: "out = (i, q, m)" by (cases out)
  show ?thesis
proof (cases "pf_state s")
  case st_normal
  then show ?thesis
    using t len e emitted_emit [OF e, of "c_char ch"]
    by (cases "ch = CHR ''%''"; cases out; cases "emit n (c_char ch) out") (auto simp: text_step_def pf_step_def)
next
  case st_modifiers
  show ?thesis
  proof (cases "modifier_step ch s")
    case None
    then have c: "again = False" "conversion_text B m0 ch s = Some (s', t)"
      using t st_modifiers by (auto simp: text_step_def)
    obtain out' where "conversion n ch s out = Some (s', out')" "emitted m0 q0 n (xs @ t) out'"
      using conversion_emits [OF e B c(2) len] by blast
    then show ?thesis using c(1) None st_modifiers by (simp add: pf_step_def)
  qed (use t e st_modifiers in \<open>auto simp: text_step_def pf_step_def\<close>)
qed (use t e out in \<open>auto simp: text_step_def pf_step_def split: prod.splits\<close>)
qed

lemma pf_loop_emits:
  assumes "emitted m0 q0 n xs out" "\<And>a. B a = (a \<in> span q0 (unat n))"
    "text_loop B m0 p s = Some t" "length xs + length t < 2 ^ 32"
  shows "\<exists>s' out'. pf_loop n p s out = Some (s', out') \<and> emitted m0 q0 n (xs @ t) out'"
  using assms
proof (induction B m0 p s arbitrary: xs out t rule: text_loop.induct)
  case (1 B m s)
  then show ?case by simp
next
  case (2 B m ch p s)
  show ?case
  proof (cases "ch = CHR 0x00")
    case True
    then show ?thesis using "2.prems" by simp
  next
    case False
    then obtain again s1 t1 where step: "text_step B m ch s = Some (again, s1, t1)"
      using "2.prems"(3) by (cases "text_step B m ch s") auto
    obtain ts where ts: "(if again then text_loop B m (ch # p) s1 else text_loop B m p s1) = Some ts" "t = t1 @ ts"
      using "2.prems"(3) False step by (auto split: if_splits)
    have len: "length xs + length t1 < 2 ^ 32" "length (xs @ t1) + length ts < 2 ^ 32"
      using "2.prems"(4) ts(2) by simp_all
    obtain out1 where out1: "pf_step n ch s out = Some (again, s1, out1)" "emitted m q0 n (xs @ t1) out1"
      using pf_step_emits [OF "2.prems"(1-2) step len(1)] by blast
    show ?thesis
    proof (cases again)
      case True
      then show ?thesis
        using "2.IH"(1) [OF False step refl refl True out1(2) "2.prems"(2) _ len(2)] ts False out1(1) by auto
    next
      case again: False
      then show ?thesis
        using "2.IH"(2) [OF False step refl refl again out1(2) "2.prems"(2) _ len(2)] ts False out1(1) by auto
    qed
  qed
qed

lemma written_terminated:
  assumes "emitted m0 q0 n xs (i, q, m)" "length xs < 2 ^ 32 - 1"
  shows "(if i < n then m(q := 0) else if n > 0 then m(q0 + (n - 1) := 0) else m) =
    (if n = 0 then m0 else written m0 q0 n (take (unat n - 1) xs @ [0]))"
proof (cases "i < n")
  case True
  then have "length xs < unat n" "q = q0 + of_nat (length xs)" "m = written m0 q0 n xs" "n \<noteq> 0"
    using assms(1) by (auto simp: emitted_def word_less_nat_alt)
  then show ?thesis using True written_snoc [of xs m0 q0 n 0] assms(2) by simp
next
  case False
  then have le: "unat n \<le> length xs" "m = written m0 q0 n xs"
    using assms(1) by (auto simp: emitted_def word_less_nat_alt)
  show ?thesis
  proof (cases "n = 0")
    case True
    then show ?thesis using le(2) by (simp add: written_def)
  next
    case n: False
    then have pos: "0 < unat n" by (simp add: unat_gt_0)
    let ?k = "unat n - 1"
    have "(of_nat ?k :: u32) = n - 1" using pos by (simp add: of_nat_diff)
    then have at: "unat (a - q0) = ?k \<longleftrightarrow> a = q0 + (n - 1)" for a
      using unat_offset [of ?k a q0] less_imp_diff_less [OF unat_u32_less [of n], of 1] by simp
    have "(written m0 q0 n xs)(q0 + (n - 1) := 0) = written m0 q0 n (take ?k xs @ [0])"
    proof
      fix a
      consider "unat (a - q0) < ?k" | "unat (a - q0) = ?k" | "?k < unat (a - q0)" by linarith
      then show "((written m0 q0 n xs)(q0 + (n - 1) := 0)) a = written m0 q0 n (take ?k xs @ [0]) a"
        using at [of a] le(1) pos by cases (auto simp: written_def nth_append)
    qed
    moreover have "0 < n" using n by (simp add: word_neq_0_conv)
    ultimately show ?thesis using False n le(2) by simp
  qed
qed


lemma vsnprintf_text:
  assumes "printf_text (\<lambda>a. unat (a - buffer) < unat n) m fmt ap = Some xs" "length xs < 2 ^ 32 - 1"
  shows "vsnprintf buffer n fmt ap m = Some (of_nat (length xs),
    if n = 0 then m
    else (\<lambda>a. if unat (a - buffer) \<le> length xs \<and> unat (a - buffer) < unat n
              then (take (unat n - 1) xs @ [0]) ! unat (a - buffer) else m a))"
proof -
  have B: "(unat (a - buffer) < unat n) = (a \<in> span buffer (unat n))" for a by (simp add: span_def)
  obtain s' i q m' where r: "pf_loop n fmt (pf_init ap) (0, buffer, m) = Some (s', i, q, m')"
      "emitted m buffer n xs (i, q, m')"
    using pf_loop_emits [OF emitted_Nil [of m buffer n] B assms(1) [unfolded printf_text_def]] assms(2) by auto
  have "written m buffer n (take (unat n - 1) xs @ [0]) =
      (\<lambda>a. if unat (a - buffer) \<le> length xs \<and> unat (a - buffer) < unat n
              then (take (unat n - 1) xs @ [0]) ! unat (a - buffer) else m a)"
    if "n \<noteq> 0"
    using that by (auto simp: written_def fun_eq_iff unat_gt_0 less_Suc_eq_le)
  moreover have "i = of_nat (length xs)" using emitted_count [OF r(2)] assms(2) by simp
  moreover have "vsnprintf buffer n fmt ap m =
      Some (i, if i < n then m'(q := 0) else if n > 0 then m'(buffer + (n - 1) := 0) else m')"
    by (simp add: vsnprintf_def r(1))
  ultimately show ?thesis unfolding written_terminated [OF r(2) assms(2)] by (cases "n = 0") simp_all
qed

lemma vsnprintf_stores_text:
  assumes "printf_text (\<lambda>a. unat (a - buffer) < unat n) m fmt ap = Some xs" "length xs < 2 ^ 32 - 1"
  obtains m' where "vsnprintf buffer n fmt ap m = Some (of_nat (length xs), m')"
    "length xs < unat n \<longrightarrow> bytes_at m' buffer xs"
proof (rule that [OF vsnprintf_text [OF assms]], rule impI)
  assume fits: "length xs < unat n"
  then have "n \<noteq> 0" by auto
  have "unat (of_nat i :: u32) = i" if "i < length xs" for i
    using that assms(2) by (simp add: unat_of_nat_u32)
  then show "bytes_at (if n = 0 then m
    else (\<lambda>a. if unat (a - buffer) \<le> length xs \<and> unat (a - buffer) < unat n
              then (take (unat n - 1) xs @ [0]) ! unat (a - buffer) else m a)) buffer xs"
    using fits \<open>n \<noteq> 0\<close> by (auto simp: bytes_at_nth nth_append)
qed

section \<open>Properties\<close>

text \<open>
  C25. \<open>vsnprintf\<close> stores the first \<open>n - 1\<close> bytes of the text of the format, terminates them, changes
  no other byte of the memory, and returns the length of the whole text, also when it was cut off;
  with \<open>n = 0\<close> it stores nothing.
\<close>

theorem vsnprintf_stores_truncated_text:
  assumes "printf_text (\<lambda>a. unat (a - buffer) < unat n) m fmt ap = Some xs" "length xs < 2 ^ 32 - 1"
  shows "vsnprintf buffer n fmt ap m = Some (of_nat (length xs),
    if n = 0 then m
    else (\<lambda>a. if unat (a - buffer) \<le> length xs \<and> unat (a - buffer) < unat n
              then (take (unat n - 1) xs @ [0]) ! unat (a - buffer) else m a))"
  by (rule vsnprintf_text [OF assms])

lemmas conversion_steps = flags_step_def width_step_def prec_step_def modifier_step_def is_dec_def
  conversion_text_def int_conversion_def signed_arg_def unsigned_arg_def va_int_def va_longlong_def
  canonical_rank_def

lemmas integer_texts = int_text_def sign_text_def number_text_def number_digits_for_def tick_skip_def
  flag_def digit_char_def c_char_def Let_def

text \<open>The text \<open>x=-7, ab\<close>, cut to five bytes.\<close>

lemma sample_text:
  "printf_text (\<lambda>a. unat (a - 0x400) < unat (5 :: u32)) sample_mem ''x=%d, %s'' (\<lambda>i. if i = 0 then - 7 else 0x100) =
    Some [120, 61, 45, 55, 44, 32, 97, 98]"
proof -
  have len: "strlen 0x100 sample_mem = Some 2"
    using strlen_c_string [OF sample_strings(1)] by simp
  have number: "int_text (- 7) 0x40 10 0 (- 1) = [45, 55]"
    by (simp add: integer_texts num_digits.simps)
  have str: "string_text 0 0 (- 1) 2 (\<lambda>j. sample_mem (0x100 + of_nat j)) = [97, 98]"
    by (simp add: string_text_def flag_def sample_mem_def upt_rec)
  have "printf_text (\<lambda>a. unat (a - 0x400) < unat (5 :: u32)) sample_mem ''x=%d, %s'' (\<lambda>i. if i = 0 then - 7 else 0x100) =
      Some ([120, 61] @ int_text (- 7) 0x40 10 0 (- 1) @ [44, 32] @
        string_text 0 0 (- 1) 2 (\<lambda>j. sample_mem (0x100 + of_nat j)))"
    by (simp add: printf_text_def pf_init_def text_step_def conversion_steps Let_def len c_char_def upt_rec)
  then show ?thesis by (simp add: number str)
qed

lemma vsnprintf_stores_truncated_text_witness:
  "\<exists>m'. vsnprintf 0x400 5 ''x=%d, %s'' (\<lambda>i. if i = 0 then - 7 else 0x100) sample_mem = Some (8, m') \<and>
     m' 0x403 = 55 \<and> m' 0x404 = 0 \<and> m' 0x405 = 0"
  using vsnprintf_stores_truncated_text [OF sample_text] by (simp add: sample_mem_def)

end
