(* ===== verification/Ctype.thy ===== *)
theory Ctype
  imports Prelude
begin

text \<open>
  The character classes of \<^verbatim>\<open>Firmware_Common/klibc/ctypes.c\<close> and the functions of
  \<^verbatim>\<open>Firmware_Common/include/ctype.h\<close> that look them up. Characters are C \<open>int\<close>s from \<open>-1\<close>
  (EOF) to 255; the classification functions return the selected class bits.
\<close>

section \<open>The table\<close>

abbreviation (input) "ctype_upper \<equiv> (0x01 :: u8)"
abbreviation (input) "ctype_lower \<equiv> (0x02 :: u8)"
abbreviation (input) "ctype_digit \<equiv> (0x04 :: u8)"
abbreviation (input) "ctype_xdigit \<equiv> (0x08 :: u8)"
abbreviation (input) "ctype_space \<equiv> (0x10 :: u8)"
abbreviation (input) "ctype_print \<equiv> (0x20 :: u8)"
abbreviation (input) "ctype_punct \<equiv> (0x40 :: u8)"
abbreviation (input) "ctype_cntrl \<equiv> (0x80 :: u8)"

text \<open>The rows of the array, equal neighbours counted: EOF and ASCII, then the rest of Latin 1.\<close>

primrec rows :: "(nat \<times> u8) list \<Rightarrow> bytes" where
  "rows [] = []"
| "rows (r # rs) = replicate (fst r) (snd r) @ rows rs"

definition ctypes_ascii :: "(nat \<times> u8) list" where
  "ctypes_ascii = [(1, 0), (8, ctype_cntrl), (6, ctype_cntrl OR ctype_space), (18, ctype_cntrl),
     (1, ctype_print OR ctype_space), (15, ctype_print OR ctype_punct),
     (10, ctype_print OR ctype_digit OR ctype_xdigit), (7, ctype_print OR ctype_punct),
     (6, ctype_print OR ctype_upper OR ctype_xdigit), (20, ctype_print OR ctype_upper),
     (6, ctype_print OR ctype_punct),
     (6, ctype_print OR ctype_lower OR ctype_xdigit), (20, ctype_print OR ctype_lower),
     (4, ctype_print OR ctype_punct), (1, ctype_cntrl)]"

definition ctypes_latin :: "(nat \<times> u8) list" where
  "ctypes_latin = [(32, ctype_cntrl), (1, ctype_print OR ctype_space), (31, ctype_print OR ctype_punct),
     (23, ctype_print OR ctype_upper), (1, ctype_print OR ctype_punct), (7, ctype_print OR ctype_upper),
     (24, ctype_print OR ctype_lower), (1, ctype_print OR ctype_punct), (8, ctype_print OR ctype_lower)]"

definition ctypes :: bytes where
  "ctypes = rows ctypes_ascii @ rows ctypes_latin"

definition ctype_of :: "int \<Rightarrow> u8" where
  "ctype_of c = ctypes ! nat (c + 1)"

section \<open>The functions of ctype.h\<close>

definition isalnum :: "int \<Rightarrow> u8" where
  "isalnum c = ctype_of c AND (ctype_upper OR ctype_lower OR ctype_digit)"

definition isalpha :: "int \<Rightarrow> u8" where
  "isalpha c = ctype_of c AND (ctype_upper OR ctype_lower)"

definition isascii :: "int \<Rightarrow> bool" where
  "isascii c \<longleftrightarrow> c AND NOT 0x7F = 0"

definition isblank :: "int \<Rightarrow> bool" where
  "isblank c \<longleftrightarrow> c = 9 \<or> c = 32"

definition iscntrl :: "int \<Rightarrow> u8" where
  "iscntrl c = ctype_of c AND ctype_cntrl"

definition isdigit :: "int \<Rightarrow> bool" where
  "isdigit c \<longleftrightarrow> (word_of_int c :: u32) - 48 \<le> 9"

definition isgraph :: "int \<Rightarrow> u8" where
  "isgraph c = ctype_of c AND (ctype_upper OR ctype_lower OR ctype_digit OR ctype_punct)"

definition islower :: "int \<Rightarrow> u8" where
  "islower c = ctype_of c AND ctype_lower"

definition isprint :: "int \<Rightarrow> u8" where
  "isprint c = ctype_of c AND ctype_print"

definition ispunct :: "int \<Rightarrow> u8" where
  "ispunct c = ctype_of c AND ctype_punct"

definition isspace :: "int \<Rightarrow> u8" where
  "isspace c = ctype_of c AND ctype_space"

definition isupper :: "int \<Rightarrow> u8" where
  "isupper c = ctype_of c AND ctype_upper"

definition isxdigit :: "int \<Rightarrow> u8" where
  "isxdigit c = ctype_of c AND ctype_xdigit"

definition toupper :: "int \<Rightarrow> int" where
  "toupper c = (if islower c \<noteq> 0 then c AND NOT 32 else c)"

definition ctype_tolower :: "int \<Rightarrow> int" where
  "ctype_tolower c = (if isupper c \<noteq> 0 then c OR 32 else c)"

section \<open>Checking the table\<close>

lemma length_ctypes: "length ctypes = 257"
  by (simp add: ctypes_def ctypes_ascii_def ctypes_latin_def)

text \<open>A statement about every character and its class is checked run by run.\<close>

primrec all_rows :: "(int \<Rightarrow> u8 \<Rightarrow> bool) \<Rightarrow> int \<Rightarrow> (nat \<times> u8) list \<Rightarrow> bool" where
  "all_rows P lo [] = True"
| "all_rows P lo (r # rs) \<longleftrightarrow>
     (\<forall>c. lo \<le> c \<longrightarrow> c < lo + int (fst r) \<longrightarrow> P c (snd r)) \<and> all_rows P (lo + int (fst r)) rs"

lemma all_rowsD:
  assumes "all_rows P lo rs" "i < length (rows rs)"
  shows "P (lo + int i) (rows rs ! i)"
  using assms
proof (induction rs arbitrary: lo i)
  case (Cons r rs)
  show ?case
  proof (cases "i < fst r")
    case True
    then show ?thesis using Cons.prems(1) by (simp add: nth_append)
  next
    case False
    then have "P (lo + int (fst r) + int (i - fst r)) (rows rs ! (i - fst r))"
      using Cons.IH [of "lo + int (fst r)" "i - fst r"] Cons.prems False by auto
    then show ?thesis using False by (simp add: nth_append of_nat_diff)
  qed
qed simp

lemma rows_append: "rows (rs @ ss) = rows rs @ rows ss"
  by (induction rs) simp_all

lemma ctype_of_all:
  assumes "all_rows P (- 1) (ctypes_ascii @ ctypes_latin)" "- 1 \<le> c" "c \<le> 255"
  shows "P c (ctype_of c)"
proof -
  have "nat (c + 1) < length (rows (ctypes_ascii @ ctypes_latin))"
    using assms(2,3) length_ctypes unfolding rows_append ctypes_def by simp
  from all_rowsD [OF assms(1) this] show ?thesis
    using assms(2) by (simp add: ctype_of_def ctypes_def rows_append)
qed

lemmas ctypes_rows = ctypes_ascii_def ctypes_latin_def

lemmas ctype_functions = isalnum_def isalpha_def iscntrl_def isgraph_def islower_def isprint_def ispunct_def
  isspace_def isupper_def isxdigit_def

lemma isdigit_iff:
  assumes "- 1 \<le> c" "c \<le> 255"
  shows "isdigit c \<longleftrightarrow> 48 \<le> c \<and> c \<le> 57"
proof -
  have "uint (word_of_int c - 48 :: u32) = (c - 48) mod 2 ^ 32"
    by (simp add: uint_word_ariths uint_word_of_int mod_diff_left_eq)
  moreover have "(c - 48) mod 2 ^ 32 \<le> 9 \<longleftrightarrow> 48 \<le> c \<and> c \<le> 57"
  proof (cases "48 \<le> c")
    case False
    have "(c - 48) mod 2 ^ 32 = (c - 48 + 2 ^ 32) mod 2 ^ 32" by (simp only: mod_add_self2)
    also have "\<dots> = c - 48 + 2 ^ 32" by (rule mod_pos_pos_trivial) (use assms False in simp_all)
    finally have "(c - 48) mod 2 ^ 32 = c - 48 + 2 ^ 32" .
    then show ?thesis using False assms by simp
  qed (use assms in \<open>simp add: mod_pos_pos_trivial\<close>)
  ultimately show ?thesis by (simp add: isdigit_def word_le_def)
qed

lemma ctype_classes:
  assumes "- 1 \<le> c" "c \<le> 255"
  shows "isupper c \<noteq> 0 \<longleftrightarrow> 65 \<le> c \<and> c \<le> 90 \<or> 192 \<le> c \<and> c \<le> 222 \<and> c \<noteq> 215"
    "islower c \<noteq> 0 \<longleftrightarrow> 97 \<le> c \<and> c \<le> 122 \<or> 223 \<le> c \<and> c \<noteq> 247"
    "isxdigit c \<noteq> 0 \<longleftrightarrow> 48 \<le> c \<and> c \<le> 57 \<or> 65 \<le> c \<and> c \<le> 70 \<or> 97 \<le> c \<and> c \<le> 102"
    "isspace c \<noteq> 0 \<longleftrightarrow> 8 \<le> c \<and> c \<le> 13 \<or> c = 32 \<or> c = 160"
    "iscntrl c \<noteq> 0 \<longleftrightarrow> 0 \<le> c \<and> c < 32 \<or> 127 \<le> c \<and> c < 160"
  unfolding ctype_functions
  by (rule ctype_of_all [OF _ assms]; simp add: ctypes_rows; presburger)+

text \<open>The relations between the classes that the header names, and the conversions of case.\<close>

lemma ctype_relations:
  assumes "- 1 \<le> c" "c \<le> 255"
  shows "iscntrl c \<noteq> 0 \<longleftrightarrow> c \<noteq> - 1 \<and> isprint c = 0"
    "isalpha c \<noteq> 0 \<longleftrightarrow> isupper c \<noteq> 0 \<or> islower c \<noteq> 0"
    "isalnum c \<noteq> 0 \<longleftrightarrow> isalpha c \<noteq> 0 \<or> 48 \<le> c \<and> c \<le> 57"
    "isgraph c \<noteq> 0 \<longleftrightarrow> ispunct c \<noteq> 0 \<or> isalnum c \<noteq> 0"
    "isprint c \<noteq> 0 \<longleftrightarrow> isgraph c \<noteq> 0 \<or> c = 32 \<or> c = 160"
  unfolding ctype_functions
  by (rule ctype_of_all [OF _ assms]; simp add: ctypes_rows; presburger?)+

text \<open>
  The classes of the table are those of ISO 8859-1, for every character and EOF, and satisfy the
  relations the header states; backspace counts as white space, which C does not have.
\<close>

theorem ctype_table_is_latin1:
  assumes "- 1 \<le> c" "c \<le> 255"
  shows "(isupper c \<noteq> 0 \<longleftrightarrow> 65 \<le> c \<and> c \<le> 90 \<or> 192 \<le> c \<and> c \<le> 222 \<and> c \<noteq> 215) \<and>
    (islower c \<noteq> 0 \<longleftrightarrow> 97 \<le> c \<and> c \<le> 122 \<or> 223 \<le> c \<and> c \<noteq> 247) \<and>
    (isdigit c \<longleftrightarrow> 48 \<le> c \<and> c \<le> 57) \<and>
    (isxdigit c \<noteq> 0 \<longleftrightarrow> isdigit c \<or> 65 \<le> c \<and> c \<le> 70 \<or> 97 \<le> c \<and> c \<le> 102) \<and>
    (isspace c \<noteq> 0 \<longleftrightarrow> isblank c \<or> c = 8 \<or> 10 \<le> c \<and> c \<le> 13 \<or> c = 160) \<and>
    (iscntrl c \<noteq> 0 \<longleftrightarrow> c \<noteq> - 1 \<and> isprint c = 0) \<and>
    (isgraph c \<noteq> 0 \<longleftrightarrow> ispunct c \<noteq> 0 \<or> isalpha c \<noteq> 0 \<or> isdigit c)"
proof -
  have "isdigit c \<or> 65 \<le> c \<and> c \<le> 70 \<or> 97 \<le> c \<and> c \<le> 102 \<longleftrightarrow>
      48 \<le> c \<and> c \<le> 57 \<or> 65 \<le> c \<and> c \<le> 70 \<or> 97 \<le> c \<and> c \<le> 102"
    by (simp only: isdigit_iff [OF assms] disj_assoc conj_assoc)
  moreover have "8 \<le> c \<and> c \<le> 13 \<or> c = 32 \<or> c = 160 \<longleftrightarrow> isblank c \<or> c = 8 \<or> 10 \<le> c \<and> c \<le> 13 \<or> c = 160"
    unfolding isblank_def by presburger
  ultimately show ?thesis
    by (simp only: ctype_classes [OF assms] isdigit_iff [OF assms] ctype_relations(3,4) [OF assms]
        ctype_relations(1) [OF assms, symmetric] ctype_relations(2) [OF assms, symmetric] disj_assoc simp_thms)
qed

lemma ctype_table_is_latin1_witness: "isspace 8 \<noteq> 0 \<and> isupper 65 \<noteq> 0"
  using ctype_table_is_latin1 [of 8] ctype_table_is_latin1 [of 65] by simp


text \<open>Bit 5 of the letters.\<close>

lemma letters_bit5:
  "list_all (\<lambda>c :: int. c OR 32 = c + 32) ([65..90] @ [192..222])"
  "list_all (\<lambda>c :: int. c AND NOT 32 = c - 32) ([97..122] @ [224..254])"
  by code_simp+

lemma upper_bit5: "65 \<le> c \<and> c \<le> 90 \<or> 192 \<le> c \<and> c \<le> 222 \<Longrightarrow> c OR 32 = c + 32" for c :: int
  using letters_bit5(1) unfolding list_all_iff set_append set_upto Ball_def Un_iff atLeastAtMost_iff
  by (elim allE [of _ c]) simp

lemma lower_bit5: "97 \<le> c \<and> c \<le> 122 \<or> 224 \<le> c \<and> c \<le> 254 \<Longrightarrow> c AND NOT 32 = c - 32" for c :: int
  using letters_bit5(2) unfolding list_all_iff set_append set_upto Ball_def Un_iff atLeastAtMost_iff
  by (elim allE [of _ c]) simp

text \<open>
  \<open>toupper\<close> undoes \<open>tolower\<close> on the upper case letters, and \<open>tolower\<close> undoes \<open>toupper\<close> on the
  lower case letters but one: y with diaeresis, whose capital Latin 1 does not have, becomes sharp s.
\<close>

theorem case_conversion_roundtrip:
  assumes "- 1 \<le> c" "c \<le> 255"
  shows "(isupper c \<noteq> 0 \<longrightarrow> islower (ctype_tolower c) \<noteq> 0 \<and> toupper (ctype_tolower c) = c) \<and>
    (islower c \<noteq> 0 \<longrightarrow> (ctype_tolower (toupper c) = c \<longleftrightarrow> c \<noteq> 255)) \<and>
    (isalpha c = 0 \<longrightarrow> toupper c = c \<and> ctype_tolower c = c)"
proof (intro conjI impI)
  assume "isupper c \<noteq> 0"
  then have c: "65 \<le> c \<and> c \<le> 90 \<or> 192 \<le> c \<and> c \<le> 222 \<and> c \<noteq> 215" by (simp only: ctype_classes [OF assms])
  then have l: "ctype_tolower c = c + 32" using \<open>isupper c \<noteq> 0\<close> upper_bit5 [of c] by (auto simp: ctype_tolower_def)
  moreover show low: "islower (ctype_tolower c) \<noteq> 0"
    unfolding l using c by (subst ctype_classes) auto
  ultimately show "toupper (ctype_tolower c) = c"
    using c lower_bit5 [of "c + 32"] by (auto simp: toupper_def)
next
  assume "islower c \<noteq> 0"
  then have c: "97 \<le> c \<and> c \<le> 122 \<or> 223 \<le> c \<and> c \<noteq> 247" by (simp only: ctype_classes [OF assms])
  have special: "toupper 223 = 223" "toupper 255 = 223" "ctype_tolower 223 = 223"
    using ctype_classes(1,2) [of 223] ctype_classes(2) [of 255] by (simp_all add: toupper_def ctype_tolower_def)
  show "ctype_tolower (toupper c) = c \<longleftrightarrow> c \<noteq> 255"
  proof (cases "c = 223 \<or> c = 255")
    case True
    then show ?thesis using special by auto
  next
    case False
    then have u: "toupper c = c - 32"
      using c assms \<open>islower c \<noteq> 0\<close> lower_bit5 [of c] by (auto simp: toupper_def)
    moreover have "isupper (c - 32) \<noteq> 0" using c False assms by (subst ctype_classes) auto
    ultimately show ?thesis
      using c False assms upper_bit5 [of "c - 32"] by (auto simp: ctype_tolower_def)
  qed
next
  assume "isalpha c = 0"
  then have "isupper c = 0" "islower c = 0" using ctype_relations(2) [OF assms] by auto
  then show "toupper c = c" "ctype_tolower c = c" by (simp_all add: toupper_def ctype_tolower_def)
qed

lemma case_conversion_roundtrip_witness: "toupper (ctype_tolower 65) = 65 \<and> ctype_tolower (toupper 255) \<noteq> 255"
  using case_conversion_roundtrip [of 65] case_conversion_roundtrip [of 255] ctype_classes(1) [of 65]
    ctype_classes(2) [of 255] by simp

end
