(* ===== verification/Strnto.thy ===== *)
theory Strnto
  imports Cmem Ctype
begin

text \<open>
  Number parsing, \<^verbatim>\<open>Firmware_Common/klibc/strntoumax.c\<close>: \<open>strntoumax\<close> returns the value, 64 bits
  wide, and the pointer it stores in \<open>*endptr\<close>. The loops recurse on the remaining length \<open>n\<close>.
\<close>

section \<open>The function\<close>

definition digitval :: "int \<Rightarrow> int" where
  "digitval ch =
     (if ch \<ge> 48 \<and> ch \<le> 57 then ch - 48
      else if ch \<ge> 65 \<and> ch \<le> 90 then ch - 65 + 10
      else if ch \<ge> 97 \<and> ch \<le> 122 then ch - 97 + 10
      else - 1)"

text \<open>\<open>while (n && isspace((unsigned char) *nptr))\<close>\<close>

primrec skip_spaces :: "nat \<Rightarrow> u32 \<Rightarrow> mem \<Rightarrow> nat \<times> u32" where
  "skip_spaces 0 p m = (0, p)"
| "skip_spaces (Suc n) p m = (if isspace (uint (m p)) \<noteq> 0 then skip_spaces n (p + 1) m else (Suc n, p))"

definition number_sign :: "nat \<Rightarrow> u32 \<Rightarrow> mem \<Rightarrow> bool \<times> nat \<times> u32" where
  "number_sign n p m =
     (if n \<noteq> 0 \<and> (m p = 45 \<or> m p = 43) then (m p = 45, n - 1, p + 1) else (False, n, p))"

definition number_base :: "int \<Rightarrow> nat \<Rightarrow> u32 \<Rightarrow> mem \<Rightarrow> int \<times> nat \<times> u32" where
  "number_base base n p m =
     (let hex = n \<ge> 2 \<and> m p = 48 \<and> (m (p + 1) = 120 \<or> m (p + 1) = 88)
      in if base = 0 then
           (if hex then (16, n - 2, p + 2)
            else if n \<ge> 1 \<and> m p = 48 then (8, n - 1, p + 1)
            else (10, n, p))
         else if base = 16 then (if hex then (16, n - 2, p + 2) else (16, n, p))
         else (base, n, p))"

text \<open>\<open>while (n && (d = digitval(*nptr)) >= 0 && d < base)\<close>\<close>

primrec number_digits :: "int \<Rightarrow> nat \<Rightarrow> u32 \<Rightarrow> u64 \<Rightarrow> mem \<Rightarrow> u64 \<times> u32" where
  "number_digits base 0 p v m = (v, p)"
| "number_digits base (Suc n) p v m =
     (let d = digitval (sint (m p))
      in if d \<ge> 0 \<and> d < base then number_digits base n (p + 1) (v * word_of_int base + word_of_int d) m
         else (v, p))"

definition strntoumax :: "u32 \<Rightarrow> int \<Rightarrow> u32 \<Rightarrow> mem \<Rightarrow> u64 \<times> u32" where
  "strntoumax nptr base n m =
     (let (n, p) = skip_spaces (unat n) nptr m;
          (minus, n, p) = number_sign n p m;
          (base, n, p) = number_base base n p m;
          (v, p) = number_digits base n p 0 m
      in (if minus then - v else v, p))"

section \<open>Values of digit strings\<close>

definition is_digit :: "int \<Rightarrow> u8 \<Rightarrow> bool" where
  "is_digit base c \<longleftrightarrow> 0 \<le> digitval (sint c) \<and> digitval (sint c) < base"

definition digits_value :: "nat \<Rightarrow> bytes \<Rightarrow> nat" where
  "digits_value base = foldl (\<lambda>v c. v * base + nat (digitval (sint c))) 0"

lemma digits_value_snoc: "digits_value b (ds @ [c]) = digits_value b ds * b + nat (digitval (sint c))"
  by (simp add: digits_value_def)

lemma foldl_digits:
  assumes "\<forall>c \<in> set ds. is_digit (int b) c"
  shows "foldl (\<lambda>v c. v * word_of_int (int b) + word_of_int (digitval (sint c))) (of_nat v :: u64) ds =
    of_nat (foldl (\<lambda>v c. v * b + nat (digitval (sint c))) v ds)"
  using assms
proof (induction ds arbitrary: v)
  case (Cons c ds)
  have "of_nat (nat (digitval (sint c))) = (word_of_int (digitval (sint c)) :: u64)"
    using Cons.prems by (simp add: is_digit_def)
  then have "of_nat v * word_of_int (int b) + word_of_int (digitval (sint c)) =
      (of_nat (v * b + nat (digitval (sint c))) :: u64)" by simp
  moreover have "foldl (\<lambda>v c. v * word_of_int (int b) + word_of_int (digitval (sint c)))
      (of_nat (v * b + nat (digitval (sint c))) :: u64) ds =
      of_nat (foldl (\<lambda>v c. v * b + nat (digitval (sint c))) (v * b + nat (digitval (sint c))) ds)"
    using Cons.prems by (intro Cons.IH) simp
  ultimately show ?case by (simp only: foldl_Cons)
qed simp

lemma number_digits_reads:
  assumes "bytes_at m p ds" "\<forall>c \<in> set ds. is_digit base c"
    "length ds = n \<or> length ds < n \<and> \<not> is_digit base (m (p + of_nat (length ds)))"
  shows "number_digits base n p v m =
    (foldl (\<lambda>v c. v * word_of_int base + word_of_int (digitval (sint c))) v ds, p + of_nat (length ds))"
  using assms
proof (induction ds arbitrary: n p v)
  case Nil
  then show ?case by (cases n) (auto simp: is_digit_def Let_def)
next
  case (Cons c ds)
  then obtain k where n: "n = Suc k" by (cases n) auto
  have "number_digits base k (p + 1) w m =
      (foldl (\<lambda>v c. v * word_of_int base + word_of_int (digitval (sint c))) w ds, p + 1 + of_nat (length ds))" for w
    using Cons.prems n by (intro Cons.IH) (auto simp: add.assoc)
  then show ?case using Cons.prems n by (simp add: is_digit_def Let_def add.assoc)
qed

lemma skip_spaces_reads:
  assumes "bytes_at m p xs" "\<forall>c \<in> set xs. isspace (uint c) \<noteq> 0"
    "length xs = n \<or> length xs < n \<and> isspace (uint (m (p + of_nat (length xs)))) = 0"
  shows "skip_spaces n p m = (n - length xs, p + of_nat (length xs))"
  using assms
proof (induction xs arbitrary: n p)
  case Nil
  then show ?case by (cases n) auto
next
  case (Cons c xs)
  then obtain k where n: "n = Suc k" by (cases n) auto
  have "skip_spaces k (p + 1) m = (k - length xs, p + 1 + of_nat (length xs))"
    using Cons.prems n by (intro Cons.IH) (auto simp: add.assoc)
  then show ?case using Cons.prems n by (simp add: add.assoc)
qed

text \<open>A digit is no white space and no sign.\<close>

lemma sint_u8: "sint c = (if uint c < 128 then uint c else uint c - 256)" for c :: u8
proof -
  have "sint c = signed_take_bit 7 (uint c)" by (simp add: sint_uint)
  also have "\<dots> = (uint c + 128) mod 256 - 128" by (simp add: signed_take_bit_eq_take_bit_shift take_bit_eq_mod)
  also have "\<dots> = (if uint c < 128 then uint c else uint c - 256)"
  proof (cases "uint c < 128")
    case True
    then have "(uint c + 128) mod 256 = uint c + 128" by (intro mod_pos_pos_trivial) simp_all
    then show ?thesis using True by simp
  next
    case False
    have "uint c < 2 ^ LENGTH(8)" by (rule uint_bounded)
    have "(uint c + 128) mod 256 = (uint c - 128 + 256) mod 256" by (simp add: add.commute)
    also have "\<dots> = (uint c - 128) mod 256" by (simp only: mod_add_self2)
    also have "\<dots> = uint c - 128"
      using False \<open>uint c < 2 ^ LENGTH(8)\<close> by (intro mod_pos_pos_trivial) simp_all
    finally show ?thesis using False by simp
  qed
  finally show ?thesis .
qed

lemma digit_code:
  assumes "is_digit base c"
  shows "48 \<le> uint c \<and> uint c \<le> 57 \<or> 65 \<le> uint c \<and> uint c \<le> 90 \<or> 97 \<le> uint c \<and> uint c \<le> 122"
    "sint c = uint c"
proof -
  have "0 \<le> digitval (sint c)" using assms by (simp add: is_digit_def)
  then have s: "48 \<le> sint c \<and> sint c \<le> 57 \<or> 65 \<le> sint c \<and> sint c \<le> 90 \<or> 97 \<le> sint c \<and> sint c \<le> 122"
    by (simp add: digitval_def split: if_splits)
  moreover have "uint c < 256" using uint_bounded [of c] by simp
  ultimately show "sint c = uint c" by (auto simp: sint_u8 split: if_splits)
  then show "48 \<le> uint c \<and> uint c \<le> 57 \<or> 65 \<le> uint c \<and> uint c \<le> 90 \<or> 97 \<le> uint c \<and> uint c \<le> 122"
    using s by simp
qed

lemma digit_no_space:
  assumes "is_digit base c"
  shows "isspace (uint c) = 0" "c \<noteq> 45" "c \<noteq> 43"
proof -
  show "isspace (uint c) = 0"
    using digit_code(1) [OF assms] ctype_classes(4) [of "uint c"] by auto
  show "c \<noteq> 45" "c \<noteq> 43" using digit_code(1) [OF assms] by auto
qed

lemma strntoumax_reads:
  assumes "bytes_at m p (spaces @ sign @ ds)" "\<forall>c \<in> set spaces. isspace (uint c) \<noteq> 0"
    "sign \<in> {[], [43], [45]}" "ds \<noteq> []" "\<forall>c \<in> set ds. is_digit (int b) c" "b \<noteq> 0" "b \<noteq> 16"
    "length (spaces @ sign @ ds) = unat n \<or>
       length (spaces @ sign @ ds) < unat n \<and> \<not> is_digit (int b) (m (p + of_nat (length (spaces @ sign @ ds))))"
  shows "strntoumax p (int b) n m =
    (if sign = [45] then - of_nat (digits_value b ds) else of_nat (digits_value b ds),
     p + of_nat (length (spaces @ sign @ ds)))"
proof -
  define p1 where "p1 = p + of_nat (length spaces)"
  define p2 where "p2 = p1 + of_nat (length sign)"
  obtain d dr where ds: "ds = d # dr" using assms(4) by (cases ds) auto
  have at: "bytes_at m p spaces" "bytes_at m p1 sign" "bytes_at m p2 ds"
    using assms(1) by (simp_all add: bytes_at_append p1_def p2_def add.assoc)
  have d: "m p2 = d" "is_digit (int b) d" using at(3) assms(5) ds by simp_all
  have first: "isspace (uint (m p1)) = 0"
  proof (cases sign)
    case Nil
    then show ?thesis using d digit_no_space(1) by (simp add: p2_def)
  next
    case (Cons c cs)
    then have "m p1 = 43 \<or> m p1 = 45" using assms(3) at(2) by auto
    then show ?thesis using ctype_classes(4) [of 43] ctype_classes(4) [of 45] by auto
  qed
  have len: "length spaces + length sign + length ds \<le> unat n" "length spaces < unat n"
    using assms(8) ds by auto
  have 1: "skip_spaces (unat n) p m = (unat n - length spaces, p1)"
    unfolding p1_def by (rule skip_spaces_reads [OF at(1) assms(2)]) (use first len in \<open>simp add: p1_def\<close>)
  have 2: "number_sign (unat n - length spaces) p1 m = (sign = [45], unat n - length spaces - length sign, p2)"
    using assms(3) at(2) len d digit_no_space(2,3) [OF d(2)] by (auto simp: number_sign_def p2_def)
  have 3: "number_base (int b) k p2 m = (int b, k, p2)" for k
    using assms(6,7) by (simp add: number_base_def Let_def)
  have "number_digits (int b) (unat n - length spaces - length sign) p2 0 m =
      (foldl (\<lambda>v c. v * word_of_int (int b) + word_of_int (digitval (sint c))) 0 ds, p2 + of_nat (length ds))"
    by (rule number_digits_reads [OF at(3) assms(5)]) (use assms(8) len in \<open>auto simp: p2_def p1_def algebra_simps\<close>)
  moreover have "foldl (\<lambda>v c. v * word_of_int (int b) + word_of_int (digitval (sint c))) (0 :: u64) ds =
      of_nat (digits_value b ds)"
    using foldl_digits [OF assms(5), of 0] by (simp add: digits_value_def)
  ultimately have "strntoumax p (int b) n m =
      (if sign = [45] then - of_nat (digits_value b ds) else of_nat (digits_value b ds), p2 + of_nat (length ds))"
    by (simp add: strntoumax_def 1 2 3)
  then show ?thesis by (simp add: p2_def p1_def add.assoc)
qed

text \<open>
  \<open>strntoumax\<close> reads an optional run of white space, an optional sign and a maximal run of
  digits of the base; it returns the value of the digits modulo \<open>2^64\<close>, negated after a minus, and
  the pointer behind them.
\<close>

theorem strntoumax_value:
  assumes "bytes_at m p (spaces @ sign @ ds)" "\<forall>c \<in> set spaces. isspace (uint c) \<noteq> 0"
    "sign \<in> {[], [43], [45]}" "ds \<noteq> []" "\<forall>c \<in> set ds. is_digit (int b) c" "b \<noteq> 0" "b \<noteq> 16"
    "length (spaces @ sign @ ds) = unat n \<or>
       length (spaces @ sign @ ds) < unat n \<and> \<not> is_digit (int b) (m (p + of_nat (length (spaces @ sign @ ds))))"
  shows "strntoumax p (int b) n m =
    (if sign = [45] then - of_nat (digits_value b ds) else of_nat (digits_value b ds),
     p + of_nat (length (spaces @ sign @ ds)))"
  by (rule strntoumax_reads [OF assms])

lemma strntoumax_value_witness:
  "strntoumax 0x100 10 4 ((\<lambda>_. 0)(0x100 := 32, 0x101 := 45, 0x102 := 49, 0x103 := 50)) = (- 12, 0x104)"
proof -
  have "isspace 32 \<noteq> 0" by (subst ctype_classes) simp_all
  then show ?thesis
    using strntoumax_value [of "(\<lambda>_. 0)(0x100 := 32, 0x101 := 45, 0x102 := 49, 0x103 := 50)" "0x100" "[32]" "[45]" "[49, 50]" 10 4]
    by (simp add: is_digit_def digitval_def digits_value_def)
qed

end
