(* ===== verification/PrintScan.thy ===== *)
theory PrintScan
  imports Printf Strnto
begin

text \<open>
  Printing and parsing together: what \<open>vsnprintf\<close> prints with \<open>%lld\<close>, \<open>strntoumax\<close> reads back.
\<close>

lemma digit_table:
  "list_all (\<lambda>k. digitval (sint (c_char (''0123456789abcdef'' ! k))) = int k \<and>
     digitval (sint (c_char (''0123456789ABCDEF'' ! k))) = int k) [0..<16]"
  by (simp add: upt_rec c_char_def digitval_def)

lemma digit_char_value:
  assumes "unat d < 16"
  shows "digitval (sint (digit_char fl d)) = int (unat d)"
proof -
  have "unat d \<in> set [0..<16]" using assms by simp
  from bspec [OF digit_table [unfolded list_all_iff] this] show ?thesis by (auto simp: digit_char_def)
qed

lemma num_digits_bound: "v < b ^ num_digits b v \<or> b < 2"
proof (induction b v rule: num_digits.induct)
  case (1 b v)
  show ?case
  proof (cases "v = 0 \<or> b < 2")
    case True
    then show ?thesis by (subst num_digits.simps) auto
  next
    case False
    then have "v div b < b ^ num_digits b (v div b)" using 1 by auto
    then have "v < b ^ num_digits b (v div b) * b" using False by (simp add: div_less_iff_less_mult)
    then show ?thesis using False by (subst num_digits.simps) (simp add: mult.commute)
  qed
qed

lemma num_digits_le: "2 \<le> b \<Longrightarrow> v < 2 ^ n \<Longrightarrow> num_digits b v \<le> n"
proof (induction n arbitrary: v)
  case 0
  then show ?case by (subst num_digits.simps) simp
next
  case (Suc n)
  have "v div b \<le> v div 2" using Suc.prems(1) by (intro div_le_mono2) simp_all
  also have "\<dots> < 2 ^ n" using Suc.prems(2) by simp
  finally have "num_digits b (v div b) \<le> n" using Suc by simp
  then show ?case by (subst num_digits.simps) simp
qed

lemma digits_rev_value:
  assumes "2 \<le> unat b" "unat b \<le> 16"
  shows "digits_value (unat b) (rev (digits_rev fl b k v)) = unat v mod unat b ^ k \<and>
    (\<forall>c \<in> set (digits_rev fl b k v). is_digit (int (unat b)) c)"
proof (induction k arbitrary: v)
  case 0
  then show ?case by (simp add: digits_value_def)
next
  case (Suc k)
  have "unat (v mod b) < unat b" using assms(1) by (simp add: unat_mod)
  then have d: "digitval (sint (digit_char fl (v mod b))) = int (unat (v mod b))"
    using assms(2) by (intro digit_char_value) simp
  have "int (unat v mod unat b) < int (unat b)"
    using \<open>unat (v mod b) < unat b\<close> by (simp only: unat_mod of_nat_less_iff)
  moreover have "unat v mod (unat b * unat b ^ k) = unat b * (unat v div unat b mod unat b ^ k) + unat v mod unat b"
    by (rule mod_mult2_eq)
  ultimately show ?case
    using Suc.IH [of "v div b"] d \<open>unat (v mod b) < unat b\<close>
    by (simp add: digits_value_snoc is_digit_def unat_div unat_mod)
qed

lemma ticks_none: "length ds \<le> i \<Longrightarrow> ticks ts i ds = ds"
  by (induction ds arbitrary: i) auto

text \<open>The text of \<open>%lld\<close>: a sign and digits with the value of the argument.\<close>

lemma signed_decimal_text:
  fixes val :: u64
  obtains sign ds where "int_text val FL_SIGNED 10 0 (- 1) = sign @ ds" "ds \<noteq> []" "sign \<in> {[], [45]}"
    "\<forall>c \<in> set ds. is_digit 10 c" "(if sign = [45] then - of_nat (digits_value 10 ds) else of_nat (digits_value 10 ds)) = val"
    "length (sign @ ds) \<le> 65"
proof -
  let ?fl = "FL_SIGNED"
  define neg where "neg \<longleftrightarrow> sint val < 0"
  define v where "v = (if neg then - val else val)"
  define k where "k = max 1 (num_digits 10 (unat v))"
  define ds where "ds = rev (digits_rev ?fl 10 k v)"
  define sign where "sign = (if neg then [45 :: u8] else [])"
  have flags: "flag ?fl 0x40" "\<not> flag ?fl 0x20" "\<not> flag ?fl 0x08" "\<not> flag ?fl 0x04" "\<not> flag ?fl 0x10"
    "\<not> flag ?fl 0x02" "\<not> flag ?fl 0x01"
    by (simp_all add: flag_def)
  have "number_text ?fl 10 (- 1) v = ds"
    using flags by (simp add: number_text_def number_digits_for_def tick_skip_def Let_def k_def ds_def ticks_none)
  then have t: "int_text val ?fl 10 0 (- 1) = sign @ ds"
    using flags by (simp add: int_text_def Let_def sign_text_def sign_def neg_def v_def c_char_def)
  have val: "digits_value 10 ds = unat v mod 10 ^ k" "\<forall>c \<in> set ds. is_digit 10 c"
    using digits_rev_value [of 10 ?fl k v] by (simp_all add: ds_def)
  have "unat v < 10 ^ num_digits 10 (unat v)" using num_digits_bound [of "unat v" 10] by simp
  also have "\<dots> \<le> 10 ^ k" by (rule power_increasing) (simp_all add: k_def)
  finally have "digits_value 10 ds = unat v" using val(1) by simp
  then have "(if sign = [45] then - of_nat (digits_value 10 ds) else of_nat (digits_value 10 ds)) = val"
    by (simp add: sign_def v_def)
  moreover have "length ds = k" "1 \<le> k" by (simp_all add: ds_def k_def)
  moreover have "k \<le> 64"
  proof -
    have "unat v < 2 ^ LENGTH(64)" by (rule unsigned_less)
    then show ?thesis using num_digits_le [of 10 "unat v" 64] by (simp add: k_def)
  qed
  moreover have "ds \<noteq> []" using calculation by (cases ds) auto
  ultimately show thesis
    using that [OF t] val(2) by (auto simp: sign_def split: if_splits)
qed


lemma lld_text: "printf_text B m ''%lld'' ap = Some (int_text (word_cat (ap 0) (ap 1)) FL_SIGNED 10 0 (- 1))"
  by (simp add: printf_text_def pf_init_def text_step_def conversion_steps Let_def)

text \<open>
  Printing a 64 bit integer with \<open>%lld\<close> and reading it back with \<open>strntoumax\<close> gives the integer,
  for every value, whenever the text fits the buffer.
\<close>

theorem lld_roundtrip:
  "\<exists>r m'. vsnprintf buffer n ''%lld'' ap m = Some (r, m') \<and>
     (r < n \<longrightarrow> strntoumax buffer 10 r m' = (word_cat (ap 0) (ap 1), buffer + r))"
proof -
  obtain sign ds where t: "int_text (word_cat (ap 0) (ap 1)) FL_SIGNED 10 0 (- 1) = sign @ ds" "ds \<noteq> []"
    "sign \<in> {[], [45]}" "\<forall>c \<in> set ds. is_digit 10 c" "length (sign @ ds) \<le> 65"
    and v: "(if sign = [45] then - of_nat (digits_value 10 ds) else of_nat (digits_value 10 ds)) = (word_cat (ap 0) (ap 1) :: u64)"
    by (rule signed_decimal_text [of "word_cat (ap 0) (ap 1)"])
  have body: "printf_text (\<lambda>a. unat (a - buffer) < unat n) m ''%lld'' ap = Some (sign @ ds)"
    unfolding lld_text t(1) ..
  obtain m' where
    m': "vsnprintf buffer n ''%lld'' ap m = Some (of_nat (length (sign @ ds)), m')"
      "length (sign @ ds) < unat n \<longrightarrow> bytes_at m' buffer (sign @ ds)"
    by (rule vsnprintf_stores_text [OF body]) (use t(5) in simp)
  have r: "unat (of_nat (length (sign @ ds)) :: u32) = length (sign @ ds)"
    by (rule unat_of_nat_u32) (use t(5) in simp)
  have "strntoumax buffer 10 (of_nat (length (sign @ ds))) m' = (word_cat (ap 0) (ap 1), buffer + of_nat (length (sign @ ds)))"
    if "of_nat (length (sign @ ds)) < n"
  proof -
    have "bytes_at m' buffer ([] @ sign @ ds)" using m'(2) that r by (simp add: word_less_nat_alt)
    from strntoumax_reads [OF this _ _ t(2), of 10 "of_nat (length (sign @ ds))"] show ?thesis
      using t(3,4) r v by auto
  qed
  then show ?thesis using m'(1) by auto
qed


lemma lld_roundtrip_witness:
  "\<exists>r m'. vsnprintf 0x100 100 ''%lld'' (\<lambda>_. 0xFFFFFFFF) (\<lambda>_. 0) = Some (r, m') \<and>
     (r < 100 \<longrightarrow> strntoumax 0x100 10 r m' = (- 1, 0x100 + r))"
proof -
  have "word_cat (0xFFFFFFFF :: u32) (0xFFFFFFFF :: u32) = (- 1 :: u64)" by (simp add: word_cat_eq)
  then show ?thesis using lld_roundtrip [of "0x100" 100 "\<lambda>_. 0xFFFFFFFF" "\<lambda>_. 0"] by simp
qed

end
