(* ===== verification/Vsscanf.thy ===== *)
theory Vsscanf
  imports Strnto Vsnprintf
begin

text \<open>
  Formatted input, \<^verbatim>\<open>Firmware_Common/klibc/vsscanf.c\<close>: the loop over the format with its states.
  The format is the list of its characters; the input is in memory at \<open>buffer\<close>, the arguments are
  pointers. A loop that has no bound in the code is a partial function, \<open>None\<close> when it does not end.
\<close>

section \<open>State\<close>

datatype bail = bail_none | bail_eof | bail_err

datatype sstate = ss_normal | ss_flags | ss_width | ss_modifiers | ss_match_init | ss_match | ss_match_range

abbreviation (input) "FL_SPLAT \<equiv> (0x01 :: u32)"
abbreviation (input) "FL_INV \<equiv> (0x02 :: u32)"
abbreviation (input) "FL_WIDTH \<equiv> (0x04 :: u32)"

abbreviation (input) "rank_ptr \<equiv> (0x7FFFFFFF :: int)"

record sf =
  sf_state :: sstate
  sf_q :: u32
  sf_rank :: int
  sf_width :: u32
  sf_flags :: u32
  sf_sarg :: u32
  sf_bail :: bail
  sf_converted :: int
  sf_matchmap :: "u32 list"
  sf_matchinv :: bool
  sf_range_start :: u8
  sf_ap :: va_list

section \<open>Helpers\<close>

partial_function (option) skipspace :: "mem \<Rightarrow> u32 \<Rightarrow> u32 option" where
  [code]: "skipspace m p = (if isspace (uint (m p)) \<noteq> 0 then skipspace m (p + 1) else Some p)"

text \<open>\<open>set_bit\<close> and \<open>test_bit\<close> on the 256 bits of \<open>matchmap\<close>.\<close>

definition set_mapbit :: "u32 list \<Rightarrow> nat \<Rightarrow> u32 list" where
  "set_mapbit bitmap b = bitmap[b div 32 := bitmap ! (b div 32) OR push_bit (b mod 32) 1]"

definition test_mapbit :: "u32 list \<Rightarrow> nat \<Rightarrow> bool" where
  "test_mapbit bitmap b \<longleftrightarrow> drop_bit (b mod 32) (bitmap ! (b div 32)) AND 1 \<noteq> 0"

text \<open>\<open>set_integer\<close>: the value is stored at the width of the rank.\<close>

definition long_bytes :: "u64 \<Rightarrow> bytes" where
  "long_bytes v = map (\<lambda>i. ucast (drop_bit (8 * i) v)) (rev [0..<8])"

definition store_integer :: "int \<Rightarrow> u32 \<Rightarrow> u64 \<Rightarrow> mem \<Rightarrow> mem" where
  "store_integer rank p v m =
     put m p (drop (if rank = - 2 then 7 else if rank = - 1 then 6 else if rank = 2 then 0 else 4) (long_bytes v))"

definition set_integer :: "u64 \<Rightarrow> sf \<times> mem \<Rightarrow> sf \<times> mem" where
  "set_integer v = (\<lambda>(s, m).
     if flag (sf_flags s) FL_SPLAT then (s, m)
     else case va_int (sf_ap s) of (p, ap) \<Rightarrow> (s\<lparr>sf_ap := ap\<rparr>, store_integer (sf_rank s) p v m))"

section \<open>Conversions\<close>

definition scan_int :: "int \<Rightarrow> sf \<times> mem \<Rightarrow> (sf \<times> mem) option" where
  "scan_int base = (\<lambda>(s, m).
     case skipspace m (sf_q s) of
       None \<Rightarrow> None
     | Some q \<Rightarrow>
         (let s = s\<lparr>sf_q := q\<rparr>
          in if m q = 0 then Some (s\<lparr>sf_bail := bail_eof\<rparr>, m)
             else (case strntoumax q base (sf_width s) m of (val, qq) \<Rightarrow>
               if qq = q then Some (s\<lparr>sf_bail := bail_err\<rparr>, m)
               else (let s = s\<lparr>sf_q := qq\<rparr>;
                         s = (if flag (sf_flags s) FL_SPLAT then s else s\<lparr>sf_converted := sf_converted s + 1\<rparr>)
                     in Some (set_integer val (s, m))))))"

text \<open>The loops of \<open>%c\<close>, \<open>width\<close> times. With \<open>*\<close> the position does not move.\<close>

primrec splat_chars :: "nat \<Rightarrow> u32 \<Rightarrow> mem \<Rightarrow> bail" where
  "splat_chars 0 q m = bail_none"
| "splat_chars (Suc n) q m = (if m q = 0 then bail_eof else splat_chars n q m)"

primrec copy_chars :: "nat \<Rightarrow> u32 \<Rightarrow> u32 \<Rightarrow> mem \<Rightarrow> bail \<times> u32 \<times> u32 \<times> mem" where
  "copy_chars 0 sarg q m = (bail_none, sarg, q, m)"
| "copy_chars (Suc n) sarg q m =
     (if m q = 0 then (bail_eof, sarg, q, m) else copy_chars n (sarg + 1) (q + 1) (m(sarg := m q)))"

definition scan_chars :: "sf \<times> mem \<Rightarrow> sf \<times> mem" where
  "scan_chars = (\<lambda>(s, m).
     let s = s\<lparr>sf_width := (if flag (sf_flags s) FL_WIDTH then sf_width s else 1)\<rparr>
     in if flag (sf_flags s) FL_SPLAT then
          (case splat_chars (unat (sf_width s)) (sf_q s) m of
             bail_none \<Rightarrow> (s, m)
           | b \<Rightarrow> (s\<lparr>sf_bail := b\<rparr>, m))
        else
          (let (p, ap) = va_int (sf_ap s);
               (b, sarg, q, m) = copy_chars (unat (sf_width s)) p (sf_q s) m;
               s = s\<lparr>sf_ap := ap, sf_sarg := sarg, sf_q := q\<rparr>
           in if b = bail_none then (s\<lparr>sf_converted := sf_converted s + 1\<rparr>, m) else (s\<lparr>sf_bail := b\<rparr>, m)))"

text \<open>\<open>while (width-- && (uc = *q) && !isspace(uc))\<close>, without and with the store; the results are \<open>uc\<close>,
  the pointers and the memory.\<close>

function word_end :: "u32 \<Rightarrow> u8 \<Rightarrow> u32 \<Rightarrow> mem \<Rightarrow> u8 \<times> u32" where
  "word_end width uc q m =
     (if width = 0 then (uc, q)
      else if m q \<noteq> 0 \<and> isspace (uint (m q)) = 0 then word_end (width - 1) (m q) (q + 1) m
      else (m q, q))"
  by auto
termination by (relation "measure (\<lambda>(width, uc, q, m). unat width)") (auto simp: measure_unat)

function copy_word :: "u32 \<Rightarrow> u8 \<Rightarrow> u32 \<Rightarrow> u32 \<Rightarrow> mem \<Rightarrow> u8 \<times> u32 \<times> u32 \<times> mem" where
  "copy_word width uc sp q m =
     (if width = 0 then (uc, sp, q, m)
      else if m q \<noteq> 0 \<and> isspace (uint (m q)) = 0
           then copy_word (width - 1) (m q) (sp + 1) (q + 1) (m(sp := m q))
      else (m q, sp, q, m))"
  by auto
termination by (relation "measure (\<lambda>(width, uc, sp, q, m). unat width)") (auto simp: measure_unat)

declare word_end.simps [simp del] copy_word.simps [simp del]

definition scan_word :: "sf \<times> mem \<Rightarrow> sf \<times> mem" where
  "scan_word = (\<lambda>(s, m).
     let (uc, s, m) =
       (if flag (sf_flags s) FL_SPLAT then
          (case word_end (sf_width s) 1 (sf_q s) m of (uc, q) \<Rightarrow> (uc, s\<lparr>sf_q := q\<rparr>, m))
        else
          (let (sarg, ap) = va_int (sf_ap s);
               (uc, sp, q, m) = copy_word (sf_width s) 1 sarg (sf_q s) m;
               s = s\<lparr>sf_ap := ap, sf_sarg := sarg, sf_q := q\<rparr>
           in if sarg \<noteq> sp then (uc, s\<lparr>sf_converted := sf_converted s + 1\<rparr>, m(sp := 0)) else (uc, s, m)))
     in if uc = 0 then (s\<lparr>sf_bail := bail_eof\<rparr>, m) else (s, m))"

text \<open>\<open>match_run\<close>: \<open>width\<close> is not counted down, and the state is not set back.\<close>

partial_function (option) match_loop ::
  "u32 list \<Rightarrow> bool \<Rightarrow> u8 \<Rightarrow> u32 \<Rightarrow> u32 \<Rightarrow> mem \<Rightarrow> (u8 \<times> u32 \<times> u32 \<times> mem) option" where
  [code]: "match_loop bitmap inv1 uc sarg q m =
     (if m q \<noteq> 0 \<and> test_mapbit bitmap (unat (m q)) \<noteq> inv1 then
        (if sarg \<noteq> 0 then match_loop bitmap inv1 (m q) (sarg + 1) (q + 1) (m(sarg := m q))
         else match_loop bitmap inv1 (m q) sarg (q + 1) m)
      else Some (m q, sarg, q, m))"

definition match_run :: "sf \<times> mem \<Rightarrow> (sf \<times> mem) option" where
  "match_run = (\<lambda>(s, m).
     let qq = sf_q s
     in case (if sf_width s \<noteq> 0 then match_loop (sf_matchmap s) (sf_matchinv s) 1 (sf_sarg s) (sf_q s) m
              else Some (1, sf_sarg s, sf_q s, m)) of
          None \<Rightarrow> None
        | Some (uc, sarg, q, m) \<Rightarrow>
            (let s = s\<lparr>sf_sarg := sarg, sf_q := q\<rparr>;
                 (s, m) = (if q \<noteq> qq \<and> sarg \<noteq> 0 then (s\<lparr>sf_converted := sf_converted s + 1\<rparr>, m(sarg := 0))
                           else (s\<lparr>sf_bail := bail_err\<rparr>, m))
             in Some (if uc = 0 then (s\<lparr>sf_bail := bail_eof\<rparr>, m) else (s, m))))"

definition int_base :: "char \<Rightarrow> int option" where
  "int_base ch =
     (if ch = CHR ''P'' \<or> ch = CHR ''p'' \<or> ch = CHR ''i'' then Some 0
      else if ch = CHR ''d'' \<or> ch = CHR ''u'' then Some 10
      else if ch = CHR ''o'' then Some 8
      else if ch = CHR ''x'' \<or> ch = CHR ''X'' then Some 16
      else None)"

definition scan_conversion :: "u32 \<Rightarrow> char \<Rightarrow> sf \<times> mem \<Rightarrow> (sf \<times> mem) option" where
  "scan_conversion buffer ch = (\<lambda>(s, m).
     let s = s\<lparr>sf_state := ss_normal, sf_rank := canonical_rank (sf_rank s)\<rparr>
     in case int_base ch of
          Some base \<Rightarrow> scan_int base (if ch = CHR ''P'' \<or> ch = CHR ''p'' then s\<lparr>sf_rank := rank_ptr\<rparr> else s, m)
        | None \<Rightarrow>
            if ch = CHR ''n'' then Some (set_integer (scast (sf_q s - buffer)) (s, m))
            else if ch = CHR ''c'' then Some (scan_chars (s, m))
            else if ch = CHR ''s'' then Some (scan_word (s, m))
            else if ch = CHR ''['' then
              (let (sarg, ap) = (if flag (sf_flags s) FL_SPLAT then (0, sf_ap s) else va_int (sf_ap s))
               in Some (s\<lparr>sf_sarg := sarg, sf_ap := ap, sf_state := ss_match_init, sf_matchinv := False,
                          sf_matchmap := replicate 8 0\<rparr>, m))
            else if ch = CHR ''%'' then
              Some (if m (sf_q s) = c_char CHR ''%'' then s\<lparr>sf_q := sf_q s + 1\<rparr> else s\<lparr>sf_bail := bail_err\<rparr>, m)
            else Some (s\<lparr>sf_bail := bail_err\<rparr>, m))"

section \<open>The loop\<close>

text \<open>The length modifiers; \<open>None\<close> is the default branch.\<close>

definition scan_modifier :: "char \<Rightarrow> sf \<Rightarrow> sf option" where
  "scan_modifier ch s =
     (if ch = CHR ''h'' then Some (s\<lparr>sf_rank := sf_rank s - 1\<rparr>)
      else if ch = CHR ''l'' then Some (s\<lparr>sf_rank := sf_rank s + 1\<rparr>)
      else if ch = CHR ''j'' then Some (s\<lparr>sf_rank := 2\<rparr>)
      else if ch = CHR ''z'' then Some (s\<lparr>sf_rank := 1\<rparr>)
      else if ch = CHR ''t'' then Some (s\<lparr>sf_rank := 1\<rparr>)
      else if ch = CHR ''L'' \<or> ch = CHR ''q'' then Some (s\<lparr>sf_rank := 2\<rparr>)
      else None)"

text \<open>The states of a \<open>%[\<close> sequence. The start of a range is the \<open>-\<close> itself, its end is left out.\<close>

definition match_init_step :: "char \<Rightarrow> sf \<Rightarrow> sf" where
  "match_init_step ch s =
     (if ch = CHR ''^'' \<and> \<not> flag (sf_flags s) FL_INV then s\<lparr>sf_matchinv := True\<rparr>
      else s\<lparr>sf_matchmap := set_mapbit (sf_matchmap s) (unat (c_char ch)), sf_state := ss_match\<rparr>)"

definition match_step :: "char \<Rightarrow> sf \<times> mem \<Rightarrow> (sf \<times> mem) option" where
  "match_step ch = (\<lambda>(s, m).
     if ch = CHR '']'' then match_run (s, m)
     else if ch = CHR ''-'' then Some (s\<lparr>sf_range_start := c_char ch, sf_state := ss_match_range\<rparr>, m)
     else Some (s\<lparr>sf_matchmap := set_mapbit (sf_matchmap s) (unat (c_char ch))\<rparr>, m))"

definition match_range_step :: "char \<Rightarrow> sf \<times> mem \<Rightarrow> (sf \<times> mem) option" where
  "match_range_step ch = (\<lambda>(s, m).
     if ch = CHR '']'' then
       match_run (s\<lparr>sf_matchmap := set_mapbit (sf_matchmap s) (unat (c_char CHR ''-''))\<rparr>, m)
     else Some (s\<lparr>sf_matchmap := fold (\<lambda>i b. set_mapbit b i) [unat (sf_range_start s)..<unat (c_char ch)] (sf_matchmap s),
                  sf_state := ss_match\<rparr>, m))"

text \<open>One round of the loop; the flag says that \<open>p\<close> is set back.\<close>

definition sf_step :: "u32 \<Rightarrow> char \<Rightarrow> sf \<times> mem \<Rightarrow> (bool \<times> sf \<times> mem) option" where
  "sf_step buffer ch = (\<lambda>(s, m).
     case sf_state s of
       ss_normal \<Rightarrow>
         if ch = CHR ''%'' then
           Some (False, s\<lparr>sf_state := ss_flags, sf_flags := 0, sf_rank := 0, sf_width := NOT 0\<rparr>, m)
         else if isspace (uint (c_char ch)) \<noteq> 0 then
           map_option (\<lambda>q. (False, s\<lparr>sf_q := q\<rparr>, m)) (skipspace m (sf_q s))
         else if m (sf_q s) = c_char ch then Some (False, s\<lparr>sf_q := sf_q s + 1\<rparr>, m)
         else Some (False, s\<lparr>sf_bail := bail_err\<rparr>, m)
     | ss_flags \<Rightarrow>
         if ch = CHR ''*'' then Some (False, s\<lparr>sf_flags := sf_flags s OR FL_SPLAT\<rparr>, m)
         else if is_dec ch then
           Some (False, s\<lparr>sf_width := of_char ch - 48, sf_state := ss_width, sf_flags := sf_flags s OR FL_WIDTH\<rparr>, m)
         else Some (True, s\<lparr>sf_state := ss_modifiers\<rparr>, m)
     | ss_width \<Rightarrow>
         if is_dec ch then Some (False, s\<lparr>sf_width := sf_width s * 10 + (of_char ch - 48)\<rparr>, m)
         else Some (True, s\<lparr>sf_state := ss_modifiers\<rparr>, m)
     | ss_modifiers \<Rightarrow>
         (case scan_modifier ch s of
            Some s \<Rightarrow> Some (False, s, m)
          | None \<Rightarrow> map_option (Pair False) (scan_conversion buffer ch (s, m)))
     | ss_match_init \<Rightarrow> Some (False, match_init_step ch s, m)
     | ss_match \<Rightarrow> map_option (Pair False) (match_step ch (s, m))
     | ss_match_range \<Rightarrow> map_option (Pair False) (match_range_step ch (s, m)))"

definition sf_rounds_left :: "sf \<Rightarrow> nat" where
  "sf_rounds_left s = (case sf_state s of ss_flags \<Rightarrow> 1 | ss_width \<Rightarrow> 1 | _ \<Rightarrow> 0)"

lemma sf_step_again: "sf_step buffer ch (s, m) = Some (True, s', m') \<Longrightarrow> sf_rounds_left s' < sf_rounds_left s"
  by (auto simp: sf_step_def sf_rounds_left_def split: sstate.splits if_splits option.splits)

function sf_loop :: "u32 \<Rightarrow> string \<Rightarrow> sf \<times> mem \<Rightarrow> (sf \<times> mem) option" where
  "sf_loop buffer [] (s, m) = Some (s, m)"
| "sf_loop buffer (ch # p) (s, m) =
     (if ch = CHR 0x00 \<or> sf_bail s \<noteq> bail_none then Some (s, m)
      else case sf_step buffer ch (s, m) of
             None \<Rightarrow> None
           | Some (again, s, m) \<Rightarrow> if again then sf_loop buffer (ch # p) (s, m) else sf_loop buffer p (s, m))"
  by pat_completeness auto
termination
  by (relation "measures [\<lambda>(b, p, s, m). length p, \<lambda>(b, p, s, m). sf_rounds_left s]") (auto dest: sf_step_again)

definition sf_init :: "u32 \<Rightarrow> va_list \<Rightarrow> sf" where
  "sf_init buffer ap = \<lparr>sf_state = ss_normal, sf_q = buffer, sf_rank = 0, sf_width = NOT 0, sf_flags = 0, sf_sarg = 0,
     sf_bail = bail_none, sf_converted = 0, sf_matchmap = replicate 8 0, sf_matchinv = False, sf_range_start = 0,
     sf_ap = ap\<rparr>"

definition vsscanf :: "u32 \<Rightarrow> string \<Rightarrow> va_list \<Rightarrow> mem \<Rightarrow> (int \<times> mem) option" where
  "vsscanf buffer fmt ap m =
     map_option (\<lambda>(s, m). (if sf_bail s = bail_eof \<and> sf_converted s = 0 then - 1 else sf_converted s, m))
       (sf_loop buffer fmt (sf_init buffer ap, m))"

end
