(* ===== verification/ScanSafe.thy ===== *)
theory ScanSafe
  imports Vsscanf
begin

text \<open>
  \<open>vsscanf\<close> on a terminated input: it always returns, and it stores only in the blocks of its
  arguments. Then what goes wrong in a \<open>%[\<close> sequence.
\<close>

section \<open>The input and the blocks of the arguments\<close>

definition scan_area :: "va_list \<Rightarrow> nat \<Rightarrow> nat \<Rightarrow> u32 set" where
  "scan_area ap n len = (\<Union>i < n. span (ap i) (max 8 (len + 1)))"

definition input_ok :: "u32 \<Rightarrow> bytes \<Rightarrow> va_list \<Rightarrow> nat \<Rightarrow> mem \<Rightarrow> bool" where
  "input_ok buffer xs ap n m \<longleftrightarrow> c_string m buffer xs \<and> length xs < 2 ^ 32 - 1 \<and>
     span buffer (length xs + 1) \<inter> scan_area ap n (length xs) = {}"

text \<open>The memory agrees with the first one outside of the blocks; the position is at index \<open>k\<close> of the
  input, \<open>j\<close> arguments have been taken, and the pointer of a \<open>%[\<close> sequence is in a block.\<close>

definition scan_core :: "u32 \<Rightarrow> bytes \<Rightarrow> va_list \<Rightarrow> nat \<Rightarrow> mem \<Rightarrow> nat \<Rightarrow> nat \<Rightarrow> sf \<times> mem \<Rightarrow> bool" where
  "scan_core buffer xs ap n m0 k j = (\<lambda>(s, m).
     (\<forall>a. a \<notin> scan_area ap n (length xs) \<longrightarrow> m a = m0 a) \<and> k \<le> length xs \<and> sf_q s = buffer + of_nat k \<and>
     sf_ap s = (\<lambda>i. ap (i + j)) \<and>
     (sf_sarg s = 0 \<or> (\<exists>i < n. \<exists>t \<le> k. sf_sarg s = ap i + of_nat t)))"

lemma in_scan_area:
  assumes "i < n" "t < max 8 (len + 1)" "len < 2 ^ 32 - 1"
  shows "ap i + of_nat t \<in> scan_area ap n len"
proof -
  have "t < 2 ^ 32" using assms(2,3) by auto
  then have "ap i + of_nat t \<in> span (ap i) (max 8 (len + 1))" using assms(2) by (simp add: span_def unat_of_nat_u32)
  then show ?thesis using assms(1) by (auto simp: scan_area_def)
qed

lemma input_byte:
  assumes "input_ok buffer xs ap n m0" "\<forall>a. a \<notin> scan_area ap n (length xs) \<longrightarrow> m a = m0 a" "k \<le> length xs"
  shows "m (buffer + of_nat k) = (xs @ [0]) ! k"
proof -
  have "buffer + of_nat k \<in> span buffer (length xs + 1)"
    using assms(1,3) by (simp add: span_def unat_of_nat_u32 input_ok_def)
  then have "m (buffer + of_nat k) = m0 (buffer + of_nat k)" using assms(1,2) by (auto simp: input_ok_def)
  also have "\<dots> = (xs @ [0]) ! k"
    using assms(1,3) by (simp add: input_ok_def c_string_bytes_at bytes_at_nth)
  finally show ?thesis .
qed

text \<open>The input has its first NUL at index \<open>len\<close>.\<close>

definition ends_at :: "u32 \<Rightarrow> nat \<Rightarrow> mem \<Rightarrow> bool" where
  "ends_at buffer len m \<longleftrightarrow> (\<forall>k \<le> len. m (buffer + of_nat k) \<noteq> 0 \<longleftrightarrow> k < len)"

lemma ends_atD: "ends_at buffer len m \<Longrightarrow> k \<le> len \<Longrightarrow> m (buffer + of_nat k) \<noteq> 0 \<longleftrightarrow> k < len"
  by (simp add: ends_at_def)

lemma input_ends_at:
  assumes "input_ok buffer xs ap n m0" "\<forall>a. a \<notin> scan_area ap n (length xs) \<longrightarrow> m a = m0 a"
  shows "ends_at buffer (length xs) m"
proof -
  have z: "0 \<notin> set xs" using assms(1) by (simp add: input_ok_def c_string_bytes_at)
  have "m (buffer + of_nat k) \<noteq> 0 \<longleftrightarrow> k < length xs" if "k \<le> length xs" for k
  proof (cases "k = length xs")
    case False
    then have "k < length xs" using that by simp
    moreover from this have "xs ! k \<noteq> 0" using z nth_mem by metis
    ultimately show ?thesis using input_byte [OF assms that] by (simp add: nth_append)
  qed (use input_byte [OF assms that] in simp)
  then show ?thesis by (simp add: ends_at_def)
qed

lemma isspace_0: "isspace 0 = 0"
  using ctype_classes(4) [of 0] by simp

section \<open>The parts\<close>

lemma advance: "buffer + of_nat k + 1 = buffer + (of_nat (Suc k) :: u32)"
  by simp

lemma skipspace_bounded:
  assumes "ends_at buffer len m" "k \<le> len"
  shows "\<exists>k'. skipspace m (buffer + of_nat k) = Some (buffer + of_nat k') \<and> k \<le> k' \<and> k' \<le> len"
  using assms(2)
proof (induction "len - k" arbitrary: k)
  case 0
  then have "m (buffer + of_nat k) = 0" using ends_atD [OF assms(1), of k] by simp
  then show ?case using 0 by (subst skipspace.simps) (auto simp: isspace_0)
next
  case (Suc d)
  show ?case
  proof (cases "isspace (uint (m (buffer + of_nat k))) = 0")
    case True
    then show ?thesis using Suc.prems by (subst skipspace.simps) auto
  next
    case False
    have "\<exists>k'. skipspace m (buffer + of_nat (Suc k)) = Some (buffer + of_nat k') \<and> Suc k \<le> k' \<and> k' \<le> len"
      using Suc.hyps(2) by (intro Suc.hyps(1)) auto
    then show ?thesis using False by (subst skipspace.simps) (simp only: advance, auto)
  qed
qed

text \<open>\<open>strntoumax\<close> stays inside of the input.\<close>

lemma skip_spaces_bounded:
  assumes "ends_at buffer len m" "k \<le> len"
  shows "\<exists>k' w. skip_spaces n (buffer + of_nat k) m = (w, buffer + of_nat k') \<and> k \<le> k' \<and> k' \<le> len"
  using assms(2)
proof (induction n arbitrary: k)
  case (Suc n)
  show ?case
  proof (cases "isspace (uint (m (buffer + of_nat k))) = 0")
    case False
    then have "k < len" using ends_atD [OF assms(1) Suc.prems] isspace_0 by (cases "k = len") auto
    then show ?thesis using Suc.IH [of "Suc k"] False by (simp add: advance [symmetric] del: of_nat_Suc) (metis Suc_leD advance)
  qed (use Suc.prems in auto)
qed auto

lemma number_sign_bounded:
  assumes "ends_at buffer len m" "k \<le> len"
  shows "\<exists>k' b w. number_sign n (buffer + of_nat k) m = (b, w, buffer + of_nat k') \<and> k \<le> k' \<and> k' \<le> len"
proof (cases "n \<noteq> 0 \<and> (m (buffer + of_nat k) = 45 \<or> m (buffer + of_nat k) = 43)")
  case True
  then have "k < len" using ends_atD [OF assms] by auto
  then show ?thesis using True by (auto simp: number_sign_def intro!: exI [of _ "Suc k"])
qed (use assms in \<open>auto simp: number_sign_def\<close>)

lemma number_base_bounded:
  assumes "ends_at buffer len m" "k \<le> len"
  shows "\<exists>k' b w. number_base base n (buffer + of_nat k) m = (b, w, buffer + of_nat k') \<and> k \<le> k' \<and> k' \<le> len"
proof -
  have 1: "k < len" if "m (buffer + of_nat k) = 48" using that ends_atD [OF assms] by auto
  have 2: "Suc k < len" if "m (buffer + of_nat k) = 48" "m (buffer + of_nat k + 1) = 120 \<or> m (buffer + of_nat k + 1) = 88"
    using that 1 [OF that(1)] ends_atD [OF assms(1), of "Suc k"] unfolding advance by auto
  have e: "buffer + of_nat k + 1 = buffer + of_nat (Suc k)" "buffer + of_nat k + 2 = buffer + of_nat (Suc (Suc k))" by simp_all
  show ?thesis
    using assms(2) 1 2 unfolding number_base_def Let_def e
    by (auto intro: exI [of _ "Suc k"] exI [of _ "Suc (Suc k)"] exI [of _ k] split del: if_split simp del: of_nat_Suc split: if_split)
qed

lemma digitval_0: "digitval 0 = - 1"
  by (simp add: digitval_def)

lemma number_digits_bounded:
  assumes "ends_at buffer len m" "k \<le> len"
  shows "\<exists>k' v'. number_digits base n (buffer + of_nat k) v m = (v', buffer + of_nat k') \<and> k \<le> k' \<and> k' \<le> len"
  using assms(2)
proof (induction n arbitrary: k v)
  case (Suc n)
  show ?case
  proof (cases "0 \<le> digitval (sint (m (buffer + of_nat k))) \<and> digitval (sint (m (buffer + of_nat k))) < base")
    case True
    then have "k < len" using ends_atD [OF assms(1) Suc.prems] digitval_0 by (cases "k = len") auto
    then obtain k' v' where "number_digits base n (buffer + of_nat (Suc k))
        (v * word_of_int base + word_of_int (digitval (sint (m (buffer + of_nat k))))) m = (v', buffer + of_nat k')" "Suc k \<le> k'" "k' \<le> len"
      using Suc.IH [of "Suc k"] by (meson Suc_leI)
    then show ?thesis using True by (intro exI [of _ k'] exI [of _ v']) (simp add: Let_def ac_simps)
  qed (use Suc.prems in \<open>auto simp: Let_def\<close>)
qed auto

lemma strntoumax_bounded:
  assumes "ends_at buffer len m" "k \<le> len"
  shows "\<exists>k' v. strntoumax (buffer + of_nat k) base n m = (v, buffer + of_nat k') \<and> k \<le> k' \<and> k' \<le> len"
proof -
  obtain k1 n1 where 1: "skip_spaces (unat n) (buffer + of_nat k) m = (n1, buffer + of_nat k1)" "k \<le> k1" "k1 \<le> len"
    using skip_spaces_bounded [OF assms] by blast
  obtain k2 b n2 where 2: "number_sign n1 (buffer + of_nat k1) m = (b, n2, buffer + of_nat k2)" "k1 \<le> k2" "k2 \<le> len"
    using number_sign_bounded [OF assms(1) 1(3)] by blast
  obtain k3 b3 n3 where 3: "number_base base n2 (buffer + of_nat k2) m = (b3, n3, buffer + of_nat k3)" "k2 \<le> k3" "k3 \<le> len"
    using number_base_bounded [OF assms(1) 2(3)] by blast
  obtain k4 v where 4: "number_digits b3 n3 (buffer + of_nat k3) 0 m = (v, buffer + of_nat k4)" "k3 \<le> k4" "k4 \<le> len"
    using number_digits_bounded [OF assms(1) 3(3)] by blast
  have "strntoumax (buffer + of_nat k) base n m = (if b then - v else v, buffer + of_nat k4)"
    by (simp add: strntoumax_def 1(1) 2(1) 3(1) 4(1))
  then show ?thesis using 1 2 3 4 by (blast intro: order_trans)
qed


section \<open>The conversions\<close>

lemma scan_coreD:
  assumes "scan_core buffer xs ap n m0 k j (s, m)"
  shows "\<forall>a. a \<notin> scan_area ap n (length xs) \<longrightarrow> m a = m0 a" "k \<le> length xs" "sf_q s = buffer + of_nat k"
    "sf_ap s = (\<lambda>i. ap (i + j))" "sf_sarg s = 0 \<or> (\<exists>i < n. \<exists>t \<le> k. sf_sarg s = ap i + of_nat t)"
  using assms by (simp_all add: scan_core_def)

lemma scan_core_later:
  assumes "scan_core buffer xs ap n m0 k j (s, m)" "k \<le> k'" "k' \<le> length xs"
    "sf_q s' = buffer + of_nat k'" "sf_ap s' = sf_ap s" "sf_sarg s' = sf_sarg s"
  shows "scan_core buffer xs ap n m0 k' j (s', m)"
  using assms unfolding scan_core_def by (auto intro: order_trans)

lemma long_bytes_length [simp]: "length (long_bytes v) = 8"
  by (simp add: long_bytes_def)

lemma put_outside:
  assumes "\<And>t. t < length bs \<Longrightarrow> p + of_nat t \<in> A" "a \<notin> A"
  shows "put m p bs a = m a"
  using assms
proof (induction bs arbitrary: m p)
  case (Cons b bs)
  have "p \<noteq> a" using Cons.prems(1) [of 0] Cons.prems(2) by auto
  moreover have "p + 1 + of_nat t \<in> A" if "t < length bs" for t
    using Cons.prems(1) [of "Suc t"] that by (simp add: add.assoc)
  ultimately have "put (m(p := b)) (p + 1) bs a = (m(p := b)) a" using Cons.prems(2) by (intro Cons.IH)
  then show ?case using \<open>p \<noteq> a\<close> by simp
qed simp

lemma set_integer_core:
  assumes "input_ok buffer xs ap n m0" "scan_core buffer xs ap n m0 k j (s, m)" "\<not> flag (sf_flags s) FL_SPLAT \<Longrightarrow> j < n"
  shows "\<exists>s' m' j'. set_integer v (s, m) = (s', m') \<and> scan_core buffer xs ap n m0 k j' (s', m') \<and> j' \<le> Suc j \<and>
    sf_state s' = sf_state s"
proof (cases "flag (sf_flags s) FL_SPLAT")
  case False
  note c = scan_coreD [OF assms(2)]
  have len: "length xs < 2 ^ 32 - 1" using assms(1) by (simp add: input_ok_def)
  have "store_integer (sf_rank s) (ap j) v m a = m a" if "a \<notin> scan_area ap n (length xs)" for a
    unfolding store_integer_def
    by (rule put_outside [OF _ that], rule in_scan_area) (use assms(3) [OF False] len in \<open>auto split: if_splits\<close>)
  then show ?thesis
    using c False by (auto simp: set_integer_def va_int_def scan_core_def intro!: exI [of _ "Suc j"])
qed (use assms(2) in \<open>auto simp: set_integer_def\<close>)

lemma scan_int_core:
  assumes "input_ok buffer xs ap n m0" "scan_core buffer xs ap n m0 k j (s, m)" "j < n"
  shows "\<exists>s' m' k' j'. scan_int base (s, m) = Some (s', m') \<and> scan_core buffer xs ap n m0 k' j' (s', m') \<and> j' \<le> Suc j \<and>
    sf_state s' = sf_state s"
proof -
  note c = scan_coreD [OF assms(2)]
  note e = input_ends_at [OF assms(1) c(1)]
  obtain k1 where 1: "skipspace m (sf_q s) = Some (buffer + of_nat k1)" "k \<le> k1" "k1 \<le> length xs"
    using skipspace_bounded [OF e c(2)] c(3) by auto
  let ?s = "s\<lparr>sf_q := buffer + of_nat k1\<rparr>"
  have core1: "scan_core buffer xs ap n m0 k1 j (?s\<lparr>sf_bail := b\<rparr>, m)" for b
    by (rule scan_core_later [OF assms(2) 1(2,3)]) simp_all
  obtain k2 val where 2: "strntoumax (buffer + of_nat k1) base (sf_width s) m = (val, buffer + of_nat k2)" "k1 \<le> k2" "k2 \<le> length xs"
    using strntoumax_bounded [OF e 1(3)] by blast
  let ?t = "?s\<lparr>sf_q := buffer + of_nat k2\<rparr>"
  define t where "t = (if flag (sf_flags s) FL_SPLAT then ?t else ?t\<lparr>sf_converted := sf_converted s + 1\<rparr>)"
  have core2: "scan_core buffer xs ap n m0 k2 j (t, m)"
    by (rule scan_core_later [OF assms(2) order_trans [OF 1(2) 2(2)] 2(3)]) (simp_all add: t_def)
  obtain s' m' j' where 3: "set_integer val (t, m) = (s', m')" "scan_core buffer xs ap n m0 k2 j' (s', m')" "j' \<le> Suc j"
      "sf_state s' = sf_state t"
    using set_integer_core [OF assms(1) core2] assms(3) by blast
  have run: "scan_int base (s, m) = (if m (buffer + of_nat k1) = 0 then Some (?s\<lparr>sf_bail := bail_eof\<rparr>, m)
      else if buffer + of_nat k2 = buffer + (of_nat k1 :: u32) then Some (?s\<lparr>sf_bail := bail_err\<rparr>, m)
      else Some (s', m'))"
    using 3(1) by (simp add: scan_int_def 1(1) 2(1) Let_def t_def cong: if_cong)
  show ?thesis
  proof (cases "m (buffer + of_nat k1) = 0 \<or> buffer + of_nat k2 = buffer + (of_nat k1 :: u32)")
    case True
    then obtain b where "scan_int base (s, m) = Some (?s\<lparr>sf_bail := b\<rparr>, m)" unfolding run by (metis (full_types))
    then show ?thesis using core1 [of b]
      by (intro exI [of _ "?s\<lparr>sf_bail := b\<rparr>"] exI [of _ m] exI [of _ k1] exI [of _ j]) simp
  next
    case False
    then have "scan_int base (s, m) = Some (s', m')" unfolding run by simp
    moreover have "sf_state t = sf_state s" by (simp add: t_def)
    ultimately show ?thesis using 3(2-4) by auto
  qed
qed

lemma copy_chars_core:
  assumes "input_ok buffer xs ap n m0" "i < n" "\<forall>a. a \<notin> scan_area ap n (length xs) \<longrightarrow> m a = m0 a" "k \<le> length xs" "t \<le> k"
  shows "\<exists>b m' k' t'. copy_chars w (ap i + of_nat t) (buffer + of_nat k) m = (b, ap i + of_nat t', buffer + of_nat k', m') \<and>
    (\<forall>a. a \<notin> scan_area ap n (length xs) \<longrightarrow> m' a = m0 a) \<and> k \<le> k' \<and> k' \<le> length xs \<and> t' \<le> k'"
  using assms(3-5)
proof (induction w arbitrary: m k t)
  case (Suc w)
  let ?m = "m(ap i + of_nat t := m (buffer + of_nat k))"
  show ?case
  proof (cases "m (buffer + of_nat k) = 0")
    case False
    then have k: "k < length xs" using ends_atD [OF input_ends_at [OF assms(1) Suc.prems(1)] Suc.prems(2)] by simp
    have "ap i + of_nat t \<in> scan_area ap n (length xs)"
      using assms(1,2) Suc.prems(3) k by (intro in_scan_area) (auto simp: input_ok_def)
    then have "\<forall>a. a \<notin> scan_area ap n (length xs) \<longrightarrow> ?m a = m0 a" using Suc.prems(1) by auto
    then obtain b m' k' t' where "copy_chars w (ap i + of_nat (Suc t)) (buffer + of_nat (Suc k)) ?m =
        (b, ap i + of_nat t', buffer + of_nat k', m')" "\<forall>a. a \<notin> scan_area ap n (length xs) \<longrightarrow> m' a = m0 a" "Suc k \<le> k'" "k' \<le> length xs" "t' \<le> k'"
      using Suc.IH [of ?m "Suc k" "Suc t"] k Suc.prems(3) by (meson Suc_leI Suc_le_mono)
    then show ?thesis using False
      by (intro exI [of _ b] exI [of _ m'] exI [of _ k'] exI [of _ t']) (simp add: ac_simps)
  qed (use Suc.prems in auto)
qed auto

lemma scan_chars_core:
  assumes "input_ok buffer xs ap n m0" "scan_core buffer xs ap n m0 k j (s, m)" "j < n"
  shows "\<exists>s' m' k' j'. scan_chars (s, m) = (s', m') \<and> scan_core buffer xs ap n m0 k' j' (s', m') \<and> j' \<le> Suc j \<and>
    sf_state s' = sf_state s"
proof -
  note c = scan_coreD [OF assms(2)]
  let ?s = "s\<lparr>sf_width := (if flag (sf_flags s) FL_WIDTH then sf_width s else 1)\<rparr>"
  show ?thesis
  proof (cases "flag (sf_flags s) FL_SPLAT")
    case True
    have "scan_core buffer xs ap n m0 k j (?s\<lparr>sf_bail := b\<rparr>, m)" "scan_core buffer xs ap n m0 k j (?s, m)" for b
      by (rule scan_core_later [OF assms(2)]; use c in simp)+
    then show ?thesis using True
      by (cases "splat_chars (unat (sf_width ?s)) (sf_q s) m")
        (fastforce simp: scan_chars_def Let_def intro: exI [of _ k] exI [of _ j])+
  next
    case False
    obtain b m' k' t' where r: "copy_chars (unat (sf_width ?s)) (ap j + of_nat 0) (buffer + of_nat k) m =
        (b, ap j + of_nat t', buffer + of_nat k', m')" "\<forall>a. a \<notin> scan_area ap n (length xs) \<longrightarrow> m' a = m0 a"
        "k \<le> k'" "k' \<le> length xs" "t' \<le> k'"
      using copy_chars_core [OF assms(1,3) c(1,2) le0] by blast
    let ?t = "?s\<lparr>sf_ap := \<lambda>i. ap (Suc (i + j)), sf_sarg := ap j + of_nat t', sf_q := buffer + of_nat k'\<rparr>"
    have core: "scan_core buffer xs ap n m0 k' (Suc j) (?t\<lparr>sf_converted := x\<rparr>, m')" "scan_core buffer xs ap n m0 k' (Suc j) (?t\<lparr>sf_bail := b\<rparr>, m')" for x b
      using r assms(3) by (auto simp: scan_core_def)
    define u where "u = (if b = bail_none then ?t\<lparr>sf_converted := sf_converted s + 1\<rparr> else ?t\<lparr>sf_bail := b\<rparr>)"
    have "scan_chars (s, m) = (u, m')"
      using r(1) c(3,4) False by (simp add: scan_chars_def Let_def va_int_def u_def)
    moreover have "scan_core buffer xs ap n m0 k' (Suc j) (u, m')" "sf_state u = sf_state s"
      unfolding u_def using core by simp_all
    ultimately show ?thesis by blast
  qed
qed

lemma word_end_bounded:
  assumes "ends_at buffer len m" "k \<le> len"
  shows "\<exists>uc' k'. word_end w uc (buffer + of_nat k) m = (uc', buffer + of_nat k') \<and> k \<le> k' \<and> k' \<le> len"
  using assms(2)
proof (induction "unat w" arbitrary: w uc k)
  case 0
  then show ?case by (subst word_end.simps) (auto simp: unat_eq_zero)
next
  case (Suc d)
  then have w: "w \<noteq> 0" by auto
  then have d: "d = unat (w - 1)" using Suc.hyps(2) by (simp add: unat_minus_one)
  show ?case
  proof (cases "m (buffer + of_nat k) \<noteq> 0 \<and> isspace (uint (m (buffer + of_nat k))) = 0")
    case True
    then have "k < len" using ends_atD [OF assms(1) Suc.prems] by simp
    then have "\<exists>uc' k'. word_end (w - 1) (m (buffer + of_nat k)) (buffer + of_nat (Suc k)) m = (uc', buffer + of_nat k') \<and>
        Suc k \<le> k' \<and> k' \<le> len"
      by (intro Suc.hyps(1) d) simp
    moreover have "word_end w uc (buffer + of_nat k) m = word_end (w - 1) (m (buffer + of_nat k)) (buffer + of_nat (Suc k)) m"
      using True w by (subst word_end.simps) (simp add: ac_simps)
    ultimately show ?thesis using Suc_leD by metis
  next
    case False
    then show ?thesis using Suc.prems w by (subst word_end.simps) (auto intro: exI [of _ k])
  qed
qed

lemma copy_word_core:
  assumes "input_ok buffer xs ap n m0" "i < n" "\<forall>a. a \<notin> scan_area ap n (length xs) \<longrightarrow> m a = m0 a" "k \<le> length xs" "t \<le> k"
  shows "\<exists>uc' m' k' t'. copy_word w uc (ap i + of_nat t) (buffer + of_nat k) m = (uc', ap i + of_nat t', buffer + of_nat k', m') \<and>
    (\<forall>a. a \<notin> scan_area ap n (length xs) \<longrightarrow> m' a = m0 a) \<and> k \<le> k' \<and> k' \<le> length xs \<and> t' \<le> k'"
  using assms(3-5)
proof (induction "unat w" arbitrary: w uc m k t)
  case 0
  then show ?case by (subst copy_word.simps) (auto simp: unat_eq_zero)
next
  case (Suc d)
  then have w: "w \<noteq> 0" by auto
  then have d: "d = unat (w - 1)" using Suc.hyps(2) by (simp add: unat_minus_one)
  let ?m = "m(ap i + of_nat t := m (buffer + of_nat k))"
  show ?case
  proof (cases "m (buffer + of_nat k) \<noteq> 0 \<and> isspace (uint (m (buffer + of_nat k))) = 0")
    case True
    then have k: "k < length xs" using ends_atD [OF input_ends_at [OF assms(1) Suc.prems(1)] Suc.prems(2)] by simp
    have "ap i + of_nat t \<in> scan_area ap n (length xs)"
      using assms(1,2) Suc.prems(3) k by (intro in_scan_area) (auto simp: input_ok_def)
    then have "\<forall>a. a \<notin> scan_area ap n (length xs) \<longrightarrow> ?m a = m0 a" using Suc.prems(1) by auto
    then have "\<exists>uc' m' k' t'. copy_word (w - 1) (m (buffer + of_nat k)) (ap i + of_nat (Suc t)) (buffer + of_nat (Suc k)) ?m =
        (uc', ap i + of_nat t', buffer + of_nat k', m') \<and>
        (\<forall>a. a \<notin> scan_area ap n (length xs) \<longrightarrow> m' a = m0 a) \<and> Suc k \<le> k' \<and> k' \<le> length xs \<and> t' \<le> k'"
      using k Suc.prems(3) by (intro Suc.hyps(1) d) simp_all
    then obtain uc' m' k' t' where r: "copy_word (w - 1) (m (buffer + of_nat k)) (ap i + of_nat (Suc t)) (buffer + of_nat (Suc k)) ?m =
        (uc', ap i + of_nat t', buffer + of_nat k', m')"
        "\<forall>a. a \<notin> scan_area ap n (length xs) \<longrightarrow> m' a = m0 a" "Suc k \<le> k'" "k' \<le> length xs" "t' \<le> k'" by blast
    have "copy_word w uc (ap i + of_nat t) (buffer + of_nat k) m = (uc', ap i + of_nat t', buffer + of_nat k', m')"
      using True w r(1) by (subst copy_word.simps) (simp only: advance if_True if_False simp_thms)
    then show ?thesis using r(2-5) Suc_leD by blast
  next
    case False
    then have "copy_word w uc (ap i + of_nat t) (buffer + of_nat k) m = (m (buffer + of_nat k), ap i + of_nat t, buffer + of_nat k, m)"
      using w by (subst copy_word.simps) auto
    then show ?thesis using Suc.prems by blast
  qed
qed

lemma scan_word_core:
  assumes "input_ok buffer xs ap n m0" "scan_core buffer xs ap n m0 k j (s, m)" "j < n"
  shows "\<exists>s' m' k' j'. scan_word (s, m) = (s', m') \<and> scan_core buffer xs ap n m0 k' j' (s', m') \<and> j' \<le> Suc j \<and>
    sf_state s' = sf_state s"
proof -
  note c = scan_coreD [OF assms(2)]
  show ?thesis
  proof (cases "flag (sf_flags s) FL_SPLAT")
    case True
    obtain uc k' where r: "word_end (sf_width s) 1 (buffer + of_nat k) m = (uc, buffer + of_nat k')" "k \<le> k'" "k' \<le> length xs"
      using word_end_bounded [OF input_ends_at [OF assms(1) c(1)] c(2)] by blast
    define u where "u = (if uc = 0 then s\<lparr>sf_q := buffer + of_nat k', sf_bail := bail_eof\<rparr> else s\<lparr>sf_q := buffer + of_nat k'\<rparr>)"
    have "scan_word (s, m) = (u, m)" using True r(1) c(3) by (simp add: scan_word_def u_def)
    moreover have "scan_core buffer xs ap n m0 k' j (u, m)" "sf_state u = sf_state s"
      by (rule scan_core_later [OF assms(2) r(2,3)]) (simp_all add: u_def)
    ultimately show ?thesis using le_SucI by blast
  next
    case False
    obtain uc m' k' t' where r: "copy_word (sf_width s) 1 (ap j + of_nat 0) (buffer + of_nat k) m =
        (uc, ap j + of_nat t', buffer + of_nat k', m')" "\<forall>a. a \<notin> scan_area ap n (length xs) \<longrightarrow> m' a = m0 a"
        "k \<le> k'" "k' \<le> length xs" "t' \<le> k'"
      using copy_word_core [OF assms(1,3) c(1,2) le0] by blast
    let ?t = "s\<lparr>sf_ap := \<lambda>i. ap (Suc (i + j)), sf_sarg := ap j, sf_q := buffer + of_nat k'\<rparr>"
    let ?p = "ap j + (of_nat t' :: u32)"
    define v where "v = (if ap j \<noteq> ?p then ?t\<lparr>sf_converted := sf_converted s + 1\<rparr> else ?t)"
    define u where "u = (if uc = 0 then v\<lparr>sf_bail := bail_eof\<rparr> else v)"
    define m'' where "m'' = (if ap j \<noteq> ?p then m'(?p := 0) else m')"
    have "scan_word (s, m) = (u, m'')"
      using r(1) c(3,4) False by (simp add: scan_word_def Let_def va_int_def u_def v_def m''_def)
    moreover have "?p \<in> scan_area ap n (length xs)"
      using assms(1,3) r(4,5) by (intro in_scan_area) (auto simp: input_ok_def)
    then have "\<forall>a. a \<notin> scan_area ap n (length xs) \<longrightarrow> m'' a = m0 a" using r(2) by (auto simp: m''_def)
    moreover have "sf_sarg u = ap j" "sf_q u = buffer + of_nat k'" "sf_ap u = (\<lambda>i. ap (i + Suc j))" "sf_state u = sf_state s"
      by (simp_all add: u_def v_def)
    moreover have "\<exists>i < n. \<exists>t \<le> k'. ap j = ap i + of_nat t"
      by (intro exI [of _ j] exI [of _ 0] conjI) (use assms(3) in simp_all)
    ultimately have "scan_word (s, m) = (u, m'')" "scan_core buffer xs ap n m0 k' (Suc j) (u, m'')" "sf_state u = sf_state s"
      using r(4) by (simp_all add: scan_core_def)
    then show ?thesis by blast
  qed
qed

lemma match_loop_core:
  assumes "input_ok buffer xs ap n m0" "\<forall>a. a \<notin> scan_area ap n (length xs) \<longrightarrow> m a = m0 a" "k \<le> length xs"
    "sarg = 0 \<or> (\<exists>i < n. \<exists>t \<le> k. sarg = ap i + of_nat t)"
  shows "\<exists>uc' sarg' k' m'. match_loop bitmap inv1 uc sarg (buffer + of_nat k) m = Some (uc', sarg', buffer + of_nat k', m') \<and>
    (\<forall>a. a \<notin> scan_area ap n (length xs) \<longrightarrow> m' a = m0 a) \<and> k \<le> k' \<and> k' \<le> length xs \<and>
    (sarg' = 0 \<or> (\<exists>i < n. \<exists>t \<le> k'. sarg' = ap i + of_nat t))"
  using assms(2-4)
proof (induction "length xs - k" arbitrary: uc sarg m k)
  case 0
  then have "m (buffer + of_nat k) = 0" using ends_atD [OF input_ends_at [OF assms(1) 0(2)] 0(3)] by simp
  then show ?case using 0 by (subst match_loop.simps) auto
next
  case (Suc d)
  let ?c = "m (buffer + of_nat k)"
  show ?case
  proof (cases "?c \<noteq> 0 \<and> test_mapbit bitmap (unat ?c) \<noteq> inv1")
    case False
    then show ?thesis using Suc.prems by (subst match_loop.simps) auto
  next
    case True
    have k: "k < length xs" "d = length xs - Suc k" using Suc.hyps(2) by auto
    define sarg1 where "sarg1 = (if sarg \<noteq> 0 then sarg + 1 else sarg)"
    define m1 where "m1 = (if sarg \<noteq> 0 then m(sarg := ?c) else m)"
    have step: "match_loop bitmap inv1 uc sarg (buffer + of_nat k) m = match_loop bitmap inv1 ?c sarg1 (buffer + of_nat (Suc k)) m1"
      using True by (subst match_loop.simps) (simp add: sarg1_def m1_def advance [symmetric] del: of_nat_Suc)
    have "\<forall>a. a \<notin> scan_area ap n (length xs) \<longrightarrow> m1 a = m0 a"
    proof (cases "sarg = 0")
      case False
      then obtain i t where i: "i < n" "t \<le> k" "sarg = ap i + of_nat t" using Suc.prems(3) by blast
      have "sarg \<in> scan_area ap n (length xs)"
        unfolding i(3) using assms(1) i(1,2) k(1) by (intro in_scan_area) (auto simp: input_ok_def)
      then show ?thesis using Suc.prems(1) by (auto simp: m1_def)
    qed (use Suc.prems(1) in \<open>simp add: m1_def\<close>)
    moreover have "sarg1 = 0 \<or> (\<exists>i < n. \<exists>t \<le> Suc k. sarg1 = ap i + of_nat t)"
    proof (cases "sarg = 0")
      case False
      then obtain i t where "i < n" "t \<le> k" "sarg = ap i + of_nat t" using Suc.prems(3) by blast
      then have "i < n" "Suc t \<le> Suc k" "sarg1 = ap i + of_nat (Suc t)" using False by (simp_all add: sarg1_def)
      then show ?thesis by blast
    qed (simp add: sarg1_def)
    ultimately have "\<exists>uc' sarg' k' m'. match_loop bitmap inv1 ?c sarg1 (buffer + of_nat (Suc k)) m1 = Some (uc', sarg', buffer + of_nat k', m') \<and>
        (\<forall>a. a \<notin> scan_area ap n (length xs) \<longrightarrow> m' a = m0 a) \<and> Suc k \<le> k' \<and> k' \<le> length xs \<and>
        (sarg' = 0 \<or> (\<exists>i < n. \<exists>t \<le> k'. sarg' = ap i + of_nat t))"
      using k(1) by (intro Suc.hyps(1) k(2)) simp_all
    then show ?thesis unfolding step using Suc_leD by blast
  qed
qed

lemma match_run_core:
  assumes "input_ok buffer xs ap n m0" "scan_core buffer xs ap n m0 k j (s, m)"
  shows "\<exists>s' m' k'. match_run (s, m) = Some (s', m') \<and> scan_core buffer xs ap n m0 k' j (s', m') \<and> sf_state s' = sf_state s"
proof -
  note c = scan_coreD [OF assms(2)]
  obtain uc sarg k' m' where r: "(if sf_width s \<noteq> 0 then match_loop (sf_matchmap s) (sf_matchinv s) 1 (sf_sarg s) (sf_q s) m
        else Some (1, sf_sarg s, sf_q s, m)) = Some (uc, sarg, buffer + of_nat k', m')"
      "\<forall>a. a \<notin> scan_area ap n (length xs) \<longrightarrow> m' a = m0 a" "k' \<le> length xs" "sarg = 0 \<or> (\<exists>i < n. \<exists>t \<le> k'. sarg = ap i + of_nat t)"
  proof (cases "sf_width s = 0")
    case True
    then show thesis using that [of 1 "sf_sarg s" k m] c by simp
  next
    case False
    obtain uc sarg k' m' where "match_loop (sf_matchmap s) (sf_matchinv s) 1 (sf_sarg s) (buffer + of_nat k) m =
        Some (uc, sarg, buffer + of_nat k', m')" "\<forall>a. a \<notin> scan_area ap n (length xs) \<longrightarrow> m' a = m0 a" "k' \<le> length xs"
        "sarg = 0 \<or> (\<exists>i < n. \<exists>t \<le> k'. sarg = ap i + of_nat t)"
      using match_loop_core [OF assms(1) c(1,2,5), of "sf_matchmap s" "sf_matchinv s" 1] by blast
    then show thesis using that False c(3) by simp
  qed
  let ?t = "s\<lparr>sf_sarg := sarg, sf_q := buffer + of_nat k'\<rparr>"
  define b where "b \<longleftrightarrow> buffer + of_nat k' \<noteq> sf_q s \<and> sarg \<noteq> 0"
  define v where "v = (if b then ?t\<lparr>sf_converted := sf_converted s + 1\<rparr> else ?t\<lparr>sf_bail := bail_err\<rparr>)"
  define u where "u = (if uc = 0 then v\<lparr>sf_bail := bail_eof\<rparr> else v)"
  define m'' where "m'' = (if b then m'(sarg := 0) else m')"
  have "match_run (s, m) = Some (u, m'')"
    by (simp add: match_run_def Let_def r(1) u_def v_def m''_def b_def)
  moreover have "sarg \<in> scan_area ap n (length xs)" if *: "b"
  proof -
    obtain i t where i: "i < n" "t \<le> k'" "sarg = ap i + of_nat t" using r(4) * unfolding b_def by blast
    show ?thesis unfolding i(3) using assms(1) i(1,2) r(3) by (intro in_scan_area) (auto simp: input_ok_def)
  qed
  then have "\<forall>a. a \<notin> scan_area ap n (length xs) \<longrightarrow> m'' a = m0 a" using r(2) by (auto simp: m''_def)
  moreover have "sf_sarg u = sarg" "sf_q u = buffer + of_nat k'" "sf_ap u = sf_ap s" "sf_state u = sf_state s"
    by (simp_all add: u_def v_def)
  ultimately have "match_run (s, m) = Some (u, m'')" "scan_core buffer xs ap n m0 k' j (u, m'')" "sf_state u = sf_state s"
    using r(3,4) c(4) by (simp_all add: scan_core_def)
  then show ?thesis by blast
qed

section \<open>The loop\<close>

text \<open>The arguments that the conversion under way may still take.\<close>

definition pending :: "sf \<Rightarrow> nat" where
  "pending s = (case sf_state s of ss_flags \<Rightarrow> 1 | ss_width \<Rightarrow> 1 | ss_modifiers \<Rightarrow> 1 | _ \<Rightarrow> 0)"

lemma scan_core_cong:
  assumes "scan_core buffer xs ap n m0 k j (s, m)" "sf_q s' = sf_q s" "sf_ap s' = sf_ap s" "sf_sarg s' = sf_sarg s"
  shows "scan_core buffer xs ap n m0 k j (s', m)"
  using assms by (simp add: scan_core_def)

lemma scan_conversion_core:
  assumes "input_ok buffer xs ap n m0" "scan_core buffer xs ap n m0 k j (s, m)" "j < n"
  shows "\<exists>s' m' k' j'. scan_conversion buffer ch (s, m) = Some (s', m') \<and> scan_core buffer xs ap n m0 k' j' (s', m') \<and>
    j' \<le> Suc j \<and> pending s' = 0"
proof -
  note c = scan_coreD [OF assms(2)]
  let ?s = "s\<lparr>sf_state := ss_normal, sf_rank := canonical_rank (sf_rank s)\<rparr>"
  have core: "scan_core buffer xs ap n m0 k j (?s, m)" "scan_core buffer xs ap n m0 k j (?s\<lparr>sf_rank := rank_ptr\<rparr>, m)"
    "scan_core buffer xs ap n m0 k j (?s\<lparr>sf_bail := bail_err\<rparr>, m)"
    by (rule scan_core_cong [OF assms(2)]; simp)+
  have fin: ?thesis if "scan_conversion buffer ch (s, m) = Some (s', m')" "scan_core buffer xs ap n m0 k' j' (s', m')"
      "j' \<le> Suc j" "sf_state s' = ss_normal \<or> sf_state s' = ss_match_init" for s' m' k' j'
    using that by (intro exI [of _ s'] exI [of _ m'] exI [of _ k'] exI [of _ j']) (auto simp: pending_def)
  consider (int) base where "int_base ch = Some base" | (n) "ch = CHR ''n''" | (c) "ch = CHR ''c''" | (s) "ch = CHR ''s''"
    | (set) "ch = CHR ''[''" | (percent) "ch = CHR ''%''"
    | (other) "int_base ch = None" "ch \<noteq> CHR ''n''" "ch \<noteq> CHR ''c''" "ch \<noteq> CHR ''s''" "ch \<noteq> CHR ''[''" "ch \<noteq> CHR ''%''"
    by (cases "int_base ch") auto
  then show ?thesis
  proof cases
    case int
    define t where "t = (if ch = CHR ''P'' \<or> ch = CHR ''p'' then ?s\<lparr>sf_rank := rank_ptr\<rparr> else ?s)"
    have t: "scan_core buffer xs ap n m0 k j (t, m)" "sf_state t = ss_normal" using core by (simp_all add: t_def)
    obtain s' m' k' j' where r: "scan_int base (t, m) = Some (s', m')" "scan_core buffer xs ap n m0 k' j' (s', m')" "j' \<le> Suc j"
        "sf_state s' = sf_state t" using scan_int_core [OF assms(1) t(1) assms(3)] by blast
    have "scan_conversion buffer ch (s, m) = Some (s', m')" using int r(1) by (simp add: scan_conversion_def Let_def t_def)
    then show ?thesis by (rule fin [OF _ r(2,3)]) (simp add: r(4) t(2))
  next
    case n
    obtain s' m' j' where r: "set_integer (scast (sf_q s - buffer)) (?s, m) = (s', m')" "scan_core buffer xs ap n m0 k j' (s', m')"
        "j' \<le> Suc j" "sf_state s' = sf_state ?s" using set_integer_core [OF assms(1) core(1) assms(3)] by blast
    have "scan_conversion buffer ch (s, m) = Some (s', m')" using n r(1) by (simp add: scan_conversion_def Let_def int_base_def)
    then show ?thesis by (rule fin [OF _ r(2,3)]) (simp add: r(4))
  next
    case c
    obtain s' m' k' j' where r: "scan_chars (?s, m) = (s', m')" "scan_core buffer xs ap n m0 k' j' (s', m')" "j' \<le> Suc j"
        "sf_state s' = sf_state ?s" using scan_chars_core [OF assms(1) core(1) assms(3)] by blast
    have "scan_conversion buffer ch (s, m) = Some (s', m')" using c r(1) by (simp add: scan_conversion_def Let_def int_base_def)
    then show ?thesis by (rule fin [OF _ r(2,3)]) (simp add: r(4))
  next
    case s
    obtain s' m' k' j' where r: "scan_word (?s, m) = (s', m')" "scan_core buffer xs ap n m0 k' j' (s', m')" "j' \<le> Suc j"
        "sf_state s' = sf_state ?s" using scan_word_core [OF assms(1) core(1) assms(3)] by blast
    have "scan_conversion buffer ch (s, m) = Some (s', m')" using s r(1) by (simp add: scan_conversion_def Let_def int_base_def)
    then show ?thesis by (rule fin [OF _ r(2,3)]) (simp add: r(4))
  next
    case set
    let ?m = "\<lambda>a f. ?s\<lparr>sf_sarg := a, sf_ap := f, sf_state := ss_match_init, sf_matchinv := False, sf_matchmap := replicate 8 0\<rparr>"
    show ?thesis
    proof (cases "flag (sf_flags s) FL_SPLAT")
      case True
      then have "scan_conversion buffer ch (s, m) = Some (?m 0 (sf_ap s), m)" using set by (simp add: scan_conversion_def Let_def int_base_def)
      moreover have "scan_core buffer xs ap n m0 k j (?m 0 (sf_ap s), m)" using c by (simp add: scan_core_def)
      ultimately show ?thesis by (rule fin) simp_all
    next
      case False
      then have "scan_conversion buffer ch (s, m) = Some (?m (ap j) (\<lambda>i. ap (Suc (i + j))), m)"
        using set c(4) by (simp add: scan_conversion_def Let_def int_base_def va_int_def)
      moreover have "\<exists>i < n. \<exists>t \<le> k. ap j = ap i + of_nat t"
        by (intro exI [of _ j] exI [of _ 0] conjI) (use assms(3) in simp_all)
      then have "scan_core buffer xs ap n m0 k (Suc j) (?m (ap j) (\<lambda>i. ap (Suc (i + j))), m)" using c by (simp add: scan_core_def)
      ultimately show ?thesis by (rule fin) simp_all
    qed
  next
    case percent
    show ?thesis
    proof (cases "m (sf_q s) = c_char CHR ''%''")
      case True
      then have "k < length xs"
        using ends_atD [OF input_ends_at [OF assms(1) c(1)] c(2)] c(3) by (simp add: c_char_def)
      then have core': "scan_core buffer xs ap n m0 (Suc k) j (?s\<lparr>sf_q := sf_q s + 1\<rparr>, m)"
        by (intro scan_core_later [OF assms(2)]) (use c in \<open>simp_all add: ac_simps\<close>)
      have "scan_conversion buffer ch (s, m) = Some (?s\<lparr>sf_q := sf_q s + 1\<rparr>, m)"
        using percent True by (simp add: scan_conversion_def Let_def int_base_def)
      then show ?thesis by (rule fin [OF _ core']) simp_all
    next
      case False
      then have "scan_conversion buffer ch (s, m) = Some (?s\<lparr>sf_bail := bail_err\<rparr>, m)"
        using percent by (simp add: scan_conversion_def Let_def int_base_def)
      then show ?thesis by (rule fin [OF _ core(3)]) simp_all
    qed
  next
    case other
    then have "scan_conversion buffer ch (s, m) = Some (?s\<lparr>sf_bail := bail_err\<rparr>, m)"
      by (simp add: scan_conversion_def Let_def)
    then show ?thesis by (rule fin [OF _ core(3)]) simp_all
  qed
qed

lemma c_char_unat: "unat (c_char ch) = of_char ch"
proof -
  have "c_char ch = of_nat (of_char ch)" unfolding c_char_def by (rule of_nat_of_char [symmetric])
  moreover have "(of_char ch :: nat) < 2 ^ LENGTH(8)" using nat_of_char_less_256 [of ch] by simp
  ultimately show ?thesis by (simp only: unat_of_nat) (simp add: take_bit_eq_mod)
qed

lemma c_char_eq_iff: "c_char a = c_char b \<longleftrightarrow> a = b"
proof
  assume "c_char a = c_char b"
  then have "(of_char a :: nat) = of_char b" by (metis c_char_unat)
  then show "a = b" by (simp only: of_char_eq_iff)
qed simp

lemma c_char_0: "c_char ch = 0 \<longleftrightarrow> ch = CHR 0x00"
  using c_char_eq_iff [of ch "CHR 0x00"] by (simp add: c_char_def)

lemma scan_modifier_rank: "scan_modifier ch s = Some t \<Longrightarrow> t = s\<lparr>sf_rank := sf_rank t\<rparr>"
  by (auto simp: scan_modifier_def split: if_split_asm)

lemma match_steps_set:
  assumes "ch \<noteq> CHR '']''"
  shows "sf_state s = ss_match \<Longrightarrow> \<exists>t. match_step ch (s, m) = Some (t, m) \<and> sf_q t = sf_q s \<and> sf_ap t = sf_ap s \<and>
      sf_sarg t = sf_sarg s \<and> sf_state t \<in> {ss_match, ss_match_range} \<and> sf_bail t = sf_bail s \<and> sf_converted t = sf_converted s"
    "\<exists>t. match_range_step ch (s, m) = Some (t, m) \<and> sf_q t = sf_q s \<and> sf_ap t = sf_ap s \<and>
      sf_sarg t = sf_sarg s \<and> sf_state t \<in> {ss_match, ss_match_range} \<and> sf_bail t = sf_bail s \<and> sf_converted t = sf_converted s"
  using assms by (cases "ch = CHR ''-''"; simp add: match_step_def match_range_step_def)+

lemma flags_width_step:
  assumes "sf_state s = ss_flags \<or> sf_state s = ss_width"
  shows "\<exists>again t. sf_step buffer ch (s, m) = Some (again, t, m) \<and> sf_q t = sf_q s \<and> sf_ap t = sf_ap s \<and>
    sf_sarg t = sf_sarg s \<and> pending t = 1"
  using assms by (auto simp: sf_step_def pending_def)

lemma sf_step_core:
  assumes ok: "input_ok buffer xs ap n m0" and core: "scan_core buffer xs ap n m0 k j (s, m)" and ch: "ch \<noteq> CHR 0x00"
    and r: "j + pending s + (if ch = CHR ''%'' then 1 else 0) + r \<le> n"
  shows "\<exists>again s' m' k' j'. sf_step buffer ch (s, m) = Some (again, s', m') \<and> scan_core buffer xs ap n m0 k' j' (s', m') \<and>
    j' + pending s' + (if again \<and> ch = CHR ''%'' then 1 else 0) + r \<le> n"
proof -
  note c = scan_coreD [OF core]
  note e = input_ends_at [OF ok c(1)]
  have fin: ?thesis if "sf_step buffer ch (s, m) = Some (again, s', m')" "scan_core buffer xs ap n m0 k' j' (s', m')"
      "j' + pending s' + (if again \<and> ch = CHR ''%'' then 1 else 0) + r \<le> n" for again s' m' k' j'
    using that by blast
  show ?thesis
  proof (cases "sf_state s")
    case ss_normal
    then have p: "pending s = 0" by (simp add: pending_def)
    consider "ch = CHR ''%''" | "ch \<noteq> CHR ''%''" "isspace (uint (c_char ch)) \<noteq> 0"
      | "ch \<noteq> CHR ''%''" "isspace (uint (c_char ch)) = 0" "m (sf_q s) = c_char ch"
      | "ch \<noteq> CHR ''%''" "isspace (uint (c_char ch)) = 0" "m (sf_q s) \<noteq> c_char ch" by blast
    then show ?thesis
    proof cases
      case 1
      let ?s = "s\<lparr>sf_state := ss_flags, sf_flags := 0, sf_rank := 0, sf_width := NOT 0\<rparr>"
      have "scan_core buffer xs ap n m0 k j (?s, m)" by (rule scan_core_cong [OF core]) simp_all
      moreover have "sf_step buffer ch (s, m) = Some (False, ?s, m)" using 1 ss_normal by (simp add: sf_step_def)
      ultimately show ?thesis using r p 1 by (intro fin [of False ?s m k j]) (simp_all add: pending_def)
    next
      case 2
      obtain k' where q: "skipspace m (sf_q s) = Some (buffer + of_nat k')" "k \<le> k'" "k' \<le> length xs"
        using skipspace_bounded [OF e c(2)] c(3) by auto
      let ?s = "s\<lparr>sf_q := buffer + of_nat k'\<rparr>"
      have "scan_core buffer xs ap n m0 k' j (?s, m)" by (rule scan_core_later [OF core q(2,3)]) simp_all
      moreover have "sf_step buffer ch (s, m) = Some (False, ?s, m)" using 2 ss_normal q(1) by (simp add: sf_step_def)
      ultimately show ?thesis using r p by (intro fin [of False ?s m k' j]) (simp_all add: pending_def ss_normal)
    next
      case 3
      have "c_char ch \<noteq> 0" using ch by (simp add: c_char_0)
      then have "k < length xs" using ends_atD [OF e c(2)] 3(3) c(3) by simp
      then have "scan_core buffer xs ap n m0 (Suc k) j (s\<lparr>sf_q := sf_q s + 1\<rparr>, m)"
        by (intro scan_core_later [OF core]) (use c in \<open>simp_all add: ac_simps\<close>)
      moreover have "sf_step buffer ch (s, m) = Some (False, s\<lparr>sf_q := sf_q s + 1\<rparr>, m)" using 3 ss_normal by (simp add: sf_step_def)
      ultimately show ?thesis using r p by (intro fin [of False "s\<lparr>sf_q := sf_q s + 1\<rparr>" m "Suc k" j]) (simp_all add: pending_def ss_normal)
    next
      case 4
      have "scan_core buffer xs ap n m0 k j (s\<lparr>sf_bail := bail_err\<rparr>, m)" by (rule scan_core_cong [OF core]) simp_all
      moreover have "sf_step buffer ch (s, m) = Some (False, s\<lparr>sf_bail := bail_err\<rparr>, m)" using 4 ss_normal by (simp add: sf_step_def)
      ultimately show ?thesis using r p by (intro fin [of False "s\<lparr>sf_bail := bail_err\<rparr>" m k j]) (simp_all add: pending_def ss_normal)
    qed
  next
    case ss_modifiers
    then have p: "pending s = 1" by (simp add: pending_def)
    show ?thesis
    proof (cases "scan_modifier ch s")
      case None
      have "j < n" using r p by simp
      obtain s' m' k' j' where q: "scan_conversion buffer ch (s, m) = Some (s', m')" "scan_core buffer xs ap n m0 k' j' (s', m')"
          "j' \<le> Suc j" "pending s' = 0"
        using scan_conversion_core [OF ok core \<open>j < n\<close>] by blast
      have "sf_step buffer ch (s, m) = Some (False, s', m')" using ss_modifiers None q(1) by (simp add: sf_step_def)
      then show ?thesis using q r p by (intro fin [of False s' m' k' j']) simp_all
    next
      case (Some t)
      then have t: "sf_q t = sf_q s" "sf_ap t = sf_ap s" "sf_sarg t = sf_sarg s" "sf_state t = sf_state s"
        by (subst scan_modifier_rank [OF Some]; simp)+
      have "sf_step buffer ch (s, m) = Some (False, t, m)" using ss_modifiers Some by (simp add: sf_step_def)
      then show ?thesis using scan_core_cong [OF core t(1-3)] r p
        by (intro fin [of False t m k j]) (simp_all add: pending_def t(4) ss_modifiers)
    qed
  next
    case ss_flags
    obtain again t where t: "sf_step buffer ch (s, m) = Some (again, t, m)" "sf_q t = sf_q s" "sf_ap t = sf_ap s" "sf_sarg t = sf_sarg s"
        "pending t = 1"
      using flags_width_step [of s buffer ch m] ss_flags by blast
    have "pending s = 1" using ss_flags by (simp add: pending_def)
    then show ?thesis using t r scan_core_cong [OF core t(2-4)] by (intro fin [OF t(1), of k j]) auto
  next
    case ss_width
    obtain again t where t: "sf_step buffer ch (s, m) = Some (again, t, m)" "sf_q t = sf_q s" "sf_ap t = sf_ap s" "sf_sarg t = sf_sarg s"
        "pending t = 1"
      using flags_width_step [of s buffer ch m] ss_width by blast
    have "pending s = 1" using ss_width by (simp add: pending_def)
    then show ?thesis using t r scan_core_cong [OF core t(2-4)] by (intro fin [OF t(1), of k j]) auto
  next
    case ss_match_init
    have t: "sf_step buffer ch (s, m) = Some (False, match_init_step ch s, m)" using ss_match_init by (simp add: sf_step_def)
    have "scan_core buffer xs ap n m0 k j (match_init_step ch s, m)" "pending (match_init_step ch s) = 0"
      by (rule scan_core_cong [OF core]) (simp_all add: match_init_step_def pending_def ss_match_init)
    then show ?thesis using r by (intro fin [OF t, of k j]) simp_all
  next
    case ss_match
    have p: "pending t = 0" if "sf_state t \<in> {ss_match, ss_match_range}" for t using that by (auto simp: pending_def)
    have step: "sf_step buffer ch (s, m) = map_option (Pair False) (match_step ch (s, m))" using ss_match by (simp add: sf_step_def)
    show ?thesis
    proof (cases "ch = CHR '']''")
      case True
      obtain s' m' k' where q: "match_run (s, m) = Some (s', m')" "scan_core buffer xs ap n m0 k' j (s', m')" "sf_state s' = sf_state s"
        using match_run_core [OF ok core] by blast
      have "sf_step buffer ch (s, m) = Some (False, s', m')" using True q(1) step by (simp add: match_step_def)
      then show ?thesis using q r p ss_match by (intro fin [of False s' m' k' j]) simp_all
    next
      case False
      then obtain t where t: "match_step ch (s, m) = Some (t, m)" "sf_q t = sf_q s" "sf_ap t = sf_ap s" "sf_sarg t = sf_sarg s"
          "sf_state t \<in> {ss_match, ss_match_range}"
        using match_steps_set(1) [OF _ ss_match] by blast
      have "sf_step buffer ch (s, m) = Some (False, t, m)" using t(1) step by simp
      then show ?thesis using t r p scan_core_cong [OF core t(2-4)] by (intro fin [of False t m k j]) simp_all
    qed
  next
    case ss_match_range
    have p: "pending t = 0" if "sf_state t \<in> {ss_match, ss_match_range}" for t using that by (auto simp: pending_def)
    have step: "sf_step buffer ch (s, m) = map_option (Pair False) (match_range_step ch (s, m))"
      using ss_match_range by (simp add: sf_step_def)
    show ?thesis
    proof (cases "ch = CHR '']''")
      case True
      let ?s = "s\<lparr>sf_matchmap := set_mapbit (sf_matchmap s) (unat (c_char CHR ''-''))\<rparr>"
      have core': "scan_core buffer xs ap n m0 k j (?s, m)" by (rule scan_core_cong [OF core]) simp_all
      obtain s' m' k' where q: "match_run (?s, m) = Some (s', m')" "scan_core buffer xs ap n m0 k' j (s', m')" "sf_state s' = sf_state ?s"
        using match_run_core [OF ok core'] by blast
      have "sf_step buffer ch (s, m) = Some (False, s', m')" using True q(1) step by (simp add: match_range_step_def)
      then show ?thesis using q r p ss_match_range by (intro fin [of False s' m' k' j]) simp_all
    next
      case False
      then obtain t where t: "match_range_step ch (s, m) = Some (t, m)" "sf_q t = sf_q s" "sf_ap t = sf_ap s" "sf_sarg t = sf_sarg s"
          "sf_state t \<in> {ss_match, ss_match_range}"
        using match_steps_set(2) by blast
      have "sf_step buffer ch (s, m) = Some (False, t, m)" using t(1) step by simp
      then show ?thesis using t r p scan_core_cong [OF core t(2-4)] by (intro fin [of False t m k j]) simp_all
    qed
  qed
qed

definition percents :: "string \<Rightarrow> nat" where
  "percents fmt = length (filter (\<lambda>c. c = CHR ''%'') fmt)"

lemma sf_loop_core:
  assumes "input_ok buffer xs ap n m0" "scan_core buffer xs ap n m0 k j (s, m)" "j + pending s + percents fmt \<le> n"
  shows "\<exists>s' m' k' j'. sf_loop buffer fmt (s, m) = Some (s', m') \<and> scan_core buffer xs ap n m0 k' j' (s', m')"
  using assms
proof (induction buffer fmt "(s, m)" arbitrary: s m k j rule: sf_loop.induct)
  case (1 buffer s m)
  then show ?case by auto
next
  case (2 buffer ch p s m)
  show ?case
  proof (cases "ch = CHR 0x00 \<or> sf_bail s \<noteq> bail_none")
    case True
    then show ?thesis using 2(4) by auto
  next
    case False
    then have ch: "ch \<noteq> CHR 0x00" by blast
    have r: "j + pending s + (if ch = CHR ''%'' then 1 else 0) + percents p \<le> n" using 2(5) by (cases "ch = CHR ''%''") (simp_all add: percents_def)
    obtain again s' m' k' j' where q: "sf_step buffer ch (s, m) = Some (again, s', m')" "scan_core buffer xs ap n m0 k' j' (s', m')"
        "j' + pending s' + (if again \<and> ch = CHR ''%'' then 1 else 0) + percents p \<le> n"
      using sf_step_core [OF 2(3,4) ch r] by blast
    show ?thesis
    proof (cases again)
      case True
      have "j' + pending s' + percents (ch # p) \<le> n" using q(3) True by (cases "ch = CHR ''%''") (simp_all add: percents_def)
      from 2(1) [OF False q(1) refl refl True 2(3) q(2) this] show ?thesis using q(1) True False by simp
    next
      case no: False
      have "j' + pending s' + percents p \<le> n" using q(3) no by simp
      from 2(2) [OF False q(1) refl refl no 2(3) q(2) this] show ?thesis using q(1) no False by simp
    qed
  qed
qed

text \<open>
  C7. \<open>vsscanf\<close> always returns: for every format and every terminated input, when the blocks of the arguments
  (one for each \<open>%\<close> of the format, with room for the input and its NUL and for 64 bits) do not overlap the input,
  no loop runs for ever, and no byte outside of the blocks changes.
\<close>

theorem vsscanf_returns:
  assumes "c_string m buffer xs" "length xs < 2 ^ 32 - 1"
    and "span buffer (length xs + 1) \<inter> scan_area ap (percents fmt) (length xs) = {}"
  shows "\<exists>r m'. vsscanf buffer fmt ap m = Some (r, m') \<and>
    (\<forall>a. a \<notin> scan_area ap (percents fmt) (length xs) \<longrightarrow> m' a = m a)"
proof -
  have ok: "input_ok buffer xs ap (percents fmt) m" using assms by (simp add: input_ok_def)
  have "scan_core buffer xs ap (percents fmt) m 0 0 (sf_init buffer ap, m)" by (simp add: scan_core_def sf_init_def)
  then obtain s' m' k' j' where "sf_loop buffer fmt (sf_init buffer ap, m) = Some (s', m')"
      "scan_core buffer xs ap (percents fmt) m k' j' (s', m')"
    using sf_loop_core [OF ok, of 0 0 "sf_init buffer ap" m fmt] by (auto simp: pending_def sf_init_def)
  then show ?thesis by (auto simp: vsscanf_def dest: scan_coreD(1))
qed

lemma vsscanf_returns_witness:
  "\<exists>r m'. vsscanf 0x100 ''%3d%*s%[^a-]'' (\<lambda>i. 0x200) ((\<lambda>_. 0)(0x100 := 49, 0x101 := 50)) = Some (r, m') \<and> m' 0x102 = 0"
proof -
  let ?m = "(\<lambda>_. 0)(0x100 := 49, 0x101 := 50) :: mem"
  have "c_string ?m 0x100 [49, 50]" by simp
  moreover have "span 0x100 (length [49 :: u8, 50] + 1) \<inter> scan_area (\<lambda>i. 0x200) (percents ''%3d%*s%[^a-]'') (length [49 :: u8, 50]) = {}"
    "(0x102 :: u32) \<notin> scan_area (\<lambda>i. 0x200) (percents ''%3d%*s%[^a-]'') (length [49 :: u8, 50])"
    by (auto simp: scan_area_def span_iff)
  ultimately show ?thesis using vsscanf_returns [of ?m "0x100" "[49, 50]" "\<lambda>i. 0x200" "''%3d%*s%[^a-]''"] by fastforce
qed


section \<open>Sequences of formats\<close>

lemma sf_loop_bail: "sf_bail s \<noteq> bail_none \<Longrightarrow> sf_loop buffer p (s, m) = Some (s, m)"
  by (cases p) simp_all

lemma sf_loop_append:
  "CHR 0x00 \<notin> set p \<Longrightarrow> sf_loop buffer (p @ q) x = Option.bind (sf_loop buffer p x) (sf_loop buffer q)"
proof (induction buffer p x rule: sf_loop.induct)
  case (2 buffer ch p s m)
  have ch: "ch \<noteq> CHR 0x00" using 2(3) by auto
  show ?case
  proof (cases "sf_bail s = bail_none")
    case True
    show ?thesis
    proof (cases "sf_step buffer ch (s, m)")
      case (Some y)
      obtain again s' m' where y: "y = (again, s', m')" by (cases y)
      show ?thesis
      proof (cases again)
        case True
        then show ?thesis using 2(1) [OF _ Some y [symmetric] refl True 2(3)] Some y \<open>sf_bail s = bail_none\<close> ch by simp
      next
        case False
        then show ?thesis using 2(2) [OF _ Some y [symmetric] refl False] Some y \<open>sf_bail s = bail_none\<close> ch 2(3) by simp
      qed
    qed (use True ch in simp)
  qed (simp add: sf_loop_bail)
qed simp

section \<open>Sets of characters\<close>

text \<open>After the end of a \<open>%[\<close> sequence the state is not set back: the rest of the format only adds to the
  set, until another \<open>]\<close> follows.\<close>

lemma sf_loop_in_set:
  assumes "sf_state s = ss_match \<or> sf_state s = ss_match_range" "CHR '']'' \<notin> set p"
  shows "\<exists>s'. sf_loop buffer p (s, m) = Some (s', m) \<and> sf_bail s' = sf_bail s \<and> sf_converted s' = sf_converted s \<and>
    (sf_state s' = ss_match \<or> sf_state s' = ss_match_range)"
  using assms
proof (induction p arbitrary: s)
  case (Cons ch p)
  show ?case
  proof (cases "ch = CHR 0x00 \<or> sf_bail s \<noteq> bail_none")
    case True
    then show ?thesis using Cons.prems by auto
  next
    case False
    have "ch \<noteq> CHR '']''" using Cons.prems(2) by auto
    then have "\<exists>t. sf_step buffer ch (s, m) = Some (False, t, m) \<and> sf_bail t = sf_bail s \<and> sf_converted t = sf_converted s \<and>
        (sf_state t = ss_match \<or> sf_state t = ss_match_range)"
    proof (cases "sf_state s = ss_match")
      case True
      obtain t where "match_step ch (s, m) = Some (t, m)" "sf_state t \<in> {ss_match, ss_match_range}" "sf_bail t = sf_bail s"
          "sf_converted t = sf_converted s" using match_steps_set(1) [OF \<open>ch \<noteq> CHR '']''\<close> True] by blast
      then show ?thesis using True by (intro exI [of _ t]) (simp add: sf_step_def)
    next
      case no: False
      obtain t where "match_range_step ch (s, m) = Some (t, m)" "sf_state t \<in> {ss_match, ss_match_range}" "sf_bail t = sf_bail s"
          "sf_converted t = sf_converted s" using match_steps_set(2) [OF \<open>ch \<noteq> CHR '']''\<close>] by blast
      then show ?thesis using no Cons.prems(1) by (intro exI [of _ t]) (simp add: sf_step_def)
    qed
    then obtain t where "sf_step buffer ch (s, m) = Some (False, t, m)" "sf_bail t = sf_bail s" "sf_converted t = sf_converted s"
        "sf_state t = ss_match \<or> sf_state t = ss_match_range" by blast
    then show ?thesis using Cons.IH [of t] Cons.prems(2) False by auto
  qed
qed simp

lemma match_run_state: "match_run (s, m) = Some (s', m') \<Longrightarrow> sf_state s' = sf_state s"
  by (auto simp: match_run_def Let_def split: option.splits prod.splits if_split_asm)

lemma set_conversion_state:
  assumes "codes \<noteq> []" "hd codes \<noteq> CHR ''^''" "CHR '']'' \<notin> set (tl codes)" "CHR 0x00 \<notin> set codes"
    and "sf_loop buffer (''%['' @ codes @ '']'') (sf_init buffer ap, m) = Some (s', m')"
  shows "sf_state s' = ss_match \<or> sf_state s' = ss_match_range"
proof -
  obtain c cs where codes: "codes = c # cs" using assms(1) by (cases codes) auto
  have "\<exists>s0. sf_loop buffer (''%['') (sf_init buffer ap, m) = Some (s0, m) \<and> sf_state s0 = ss_match_init \<and> sf_bail s0 = bail_none"
    by (simp add: sf_init_def sf_step_def scan_modifier_def scan_conversion_def int_base_def is_dec_def va_int_def flag_def Let_def)
  then obtain s0 where s0: "sf_loop buffer (''%['') (sf_init buffer ap, m) = Some (s0, m)" "sf_state s0 = ss_match_init" "sf_bail s0 = bail_none"
    by blast
  have c: "sf_loop buffer [c] (s0, m) = Some (match_init_step c s0, m)"
    using s0(2,3) assms(4) by (auto simp: codes sf_step_def)
  have "sf_state (match_init_step c s0) = ss_match" "sf_bail (match_init_step c s0) = bail_none"
    using assms(2) s0(3) by (simp_all add: codes match_init_step_def)
  then obtain s1 where s1: "sf_loop buffer cs (match_init_step c s0, m) = Some (s1, m)" "sf_bail s1 = bail_none"
      "sf_state s1 = ss_match \<or> sf_state s1 = ss_match_range"
    using sf_loop_in_set [of "match_init_step c s0" cs buffer m] assms(3) by (auto simp: codes)
  have nz: "CHR 0x00 \<notin> set ''%[''" "CHR 0x00 \<notin> set [c]" "CHR 0x00 \<notin> set cs" using assms(4) by (auto simp: codes)
  have "sf_loop buffer (''%['' @ r) (sf_init buffer ap, m) = sf_loop buffer r (s0, m)" for r
    unfolding sf_loop_append [OF nz(1)] s0(1) by simp
  moreover have "sf_loop buffer ([c] @ r) (s0, m) = sf_loop buffer r (match_init_step c s0, m)" for r
    unfolding sf_loop_append [OF nz(2)] c by simp
  moreover have "sf_loop buffer (cs @ r) (match_init_step c s0, m) = sf_loop buffer r (s1, m)" for r
    unfolding sf_loop_append [OF nz(3)] s1(1) by simp
  moreover have "''%['' @ codes @ '']'' = ''%['' @ [c] @ cs @ '']''" by (simp add: codes)
  ultimately have "sf_loop buffer (''%['' @ codes @ '']'') (sf_init buffer ap, m) = sf_loop buffer ('']'') (s1, m)"
    by metis
  then have "sf_loop buffer ('']'') (s1, m) = Some (s', m')" using assms(5) by simp
  then show ?thesis
    using s1(2,3) by (auto simp: sf_step_def match_step_def match_range_step_def dest!: match_run_state split: option.splits)
qed

text \<open>
  C9. Nothing is converted after a set: whatever follows \<open>%[...]\<close> in the format, up to the next \<open>]\<close>,
  has no effect on the result and on the memory, so \<open>%[abc] %d\<close> reads no number.
\<close>

theorem set_conversion_ends_format:
  assumes "codes \<noteq> []" "hd codes \<noteq> CHR ''^''" "CHR '']'' \<notin> set (tl codes)" "CHR 0x00 \<notin> set codes" "CHR '']'' \<notin> set rest"
  shows "vsscanf buffer (''%['' @ codes @ '']'' @ rest) ap m = vsscanf buffer (''%['' @ codes @ '']'') ap m"
proof -
  let ?p = "''%['' @ codes @ '']''" and ?x = "(sf_init buffer ap, m)"
  have run: "sf_loop buffer (?p @ rest) ?x = Option.bind (sf_loop buffer ?p ?x) (sf_loop buffer rest)"
    using assms(4) by (intro sf_loop_append) simp
  show ?thesis
  proof (cases "sf_loop buffer ?p ?x")
    case (Some y)
    obtain s' m' where y: "y = (s', m')" by (cases y)
    obtain t where "sf_loop buffer rest (s', m') = Some (t, m')" "sf_bail t = sf_bail s'" "sf_converted t = sf_converted s'"
      using sf_loop_in_set [OF set_conversion_state [OF assms(1-4) Some [unfolded y]] assms(5)] by blast
    then show ?thesis using run Some y by (simp add: vsscanf_def)
  qed (use run in \<open>simp add: vsscanf_def\<close>)
qed

lemma set_conversion_ends_format_witness:
  "vsscanf 0x100 ''%[ab] %d'' (\<lambda>i. 0x200 + 16 * of_nat i) ((\<lambda>_. 0)(0x100 := 97, 0x101 := 32, 0x102 := 53)) =
   vsscanf 0x100 ''%[ab]'' (\<lambda>i. 0x200 + 16 * of_nat i) ((\<lambda>_. 0)(0x100 := 97, 0x101 := 32, 0x102 := 53))"
  using set_conversion_ends_format [of "''ab''" "'' %d''"] by simp

text \<open>A range \<open>x-y\<close> adds the characters from \<open>-\<close> up to the one before \<open>y\<close>.\<close>

lemma test_mapbit_bit: "test_mapbit b k \<longleftrightarrow> bit (b ! (k div 32)) (k mod 32)"
  unfolding test_mapbit_def bit_iff_odd_drop_bit by (simp only: and_one_eq even_iff_mod_2_eq_zero)

lemma test_set_mapbit:
  assumes "length b = 8" "i < 256"
  shows "test_mapbit (set_mapbit b i) k \<longleftrightarrow> i = k \<or> test_mapbit b k"
proof -
  have i: "i div 32 < length b" using assms by auto
  have key: "bit (w OR push_bit (i mod 32) 1) (k mod 32) \<longleftrightarrow> i mod 32 = k mod 32 \<or> bit w (k mod 32)" for w :: u32
    by (auto simp: bit_or_iff bit_exp_iff possible_bit_word)
  have e: "i = k \<longleftrightarrow> i div 32 = k div 32 \<and> i mod 32 = k mod 32" by (metis div_mult_mod_eq)
  show ?thesis
  proof (cases "i div 32 = k div 32")
    case True
    then show ?thesis unfolding e test_mapbit_bit set_mapbit_def using i key by (simp only: nth_list_update_eq simp_thms)
  next
    case False
    then show ?thesis unfolding e test_mapbit_bit set_mapbit_def by (simp only: nth_list_update_neq simp_thms not_False_eq_True)
  qed
qed

lemma length_set_mapbit [simp]: "length (set_mapbit b i) = length b"
  by (simp add: set_mapbit_def)

lemma test_fold_mapbit:
  assumes "length b = 8" "\<forall>i \<in> set is. i < 256"
  shows "test_mapbit (fold (\<lambda>i b. set_mapbit b i) is b) k \<longleftrightarrow> k \<in> set is \<or> test_mapbit b k"
  using assms
proof (induction "is" arbitrary: b)
  case (Cons i "is")
  then have "test_mapbit (fold (\<lambda>i b. set_mapbit b i) is (set_mapbit b i)) k \<longleftrightarrow> k \<in> set is \<or> test_mapbit (set_mapbit b i) k"
    by (intro Cons.IH) simp_all
  moreover have "test_mapbit (set_mapbit b i) k \<longleftrightarrow> i = k \<or> test_mapbit b k"
    using Cons.prems by (intro test_set_mapbit) simp_all
  ultimately show ?case by (simp only: fold_simps list.set insert_iff) blast
qed simp

lemma range_starts_at_minus:
  assumes "sf_state s = ss_match" "length (sf_matchmap s) = 8" "y \<noteq> CHR '']''"
  obtains s1 s2 where "sf_step buffer CHR ''-'' (s, m) = Some (False, s1, m)" "sf_step buffer y (s1, m) = Some (False, s2, m)"
    "\<And>k. test_mapbit (sf_matchmap s2) k \<longleftrightarrow> test_mapbit (sf_matchmap s) k \<or> 45 \<le> k \<and> k < of_char y"
proof -
  let ?s1 = "s\<lparr>sf_range_start := c_char CHR ''-'', sf_state := ss_match_range\<rparr>"
  let ?s2 = "?s1\<lparr>sf_matchmap := fold (\<lambda>i b. set_mapbit b i) [45..<of_char y] (sf_matchmap s), sf_state := ss_match\<rparr>"
  have "sf_step buffer CHR ''-'' (s, m) = Some (False, ?s1, m)" using assms(1) by (simp add: sf_step_def match_step_def)
  moreover have "sf_step buffer y (?s1, m) = Some (False, ?s2, m)"
    using assms(3) by (simp add: sf_step_def match_range_step_def c_char_unat)
  moreover have "test_mapbit (sf_matchmap ?s2) k \<longleftrightarrow> test_mapbit (sf_matchmap s) k \<or> 45 \<le> k \<and> k < of_char y" for k
    using test_fold_mapbit [OF assms(2), of "[45..<of_char y]" k] nat_of_char_less_256 [of y] by auto
  ultimately show thesis by (rule that)
qed

end
