(* ===== verification/Formats.thy ===== *)
theory Formats
  imports PrintScan ScanSafe
begin

text \<open>
  Formatted output and input together: what \<open>vsnprintf\<close> prints with a list of \<open>%d\<close> conversions,
  \<open>vsscanf\<close> reads back with the same format.
\<close>

definition int_formats :: "nat \<Rightarrow> string" where
  "int_formats k = concat (replicate k ''%d '')"

text \<open>The text of one number and the space behind it.\<close>

definition int_field :: "u32 \<Rightarrow> bytes" where
  "int_field w = int_text (scast w) FL_SIGNED 10 0 (- 1) @ [32]"

lemma text_loop_formats:
  "pf_state s = Vsnprintf.st_normal \<Longrightarrow>
    text_loop B m (int_formats k) s = Some (concat (map (\<lambda>i. int_field (pf_ap s i)) [0..<k]))"
proof (induction k arbitrary: s)
  case (Suc k)
  let ?s = "s\<lparr>pf_flags := 0, pf_width := 0, pf_prec := - 1, pf_state := Vsnprintf.st_normal, pf_rank := 0, pf_ap := \<lambda>i. pf_ap s (i + 1)\<rparr>"
  have "text_loop B m (int_formats (Suc k)) s = map_option (\<lambda>ts. int_field (pf_ap s 0) @ ts) (text_loop B m (int_formats k) ?s)"
    using Suc.prems
    by (simp add: int_formats_def text_step_def conversion_steps Let_def int_field_def c_char_def option.map_comp comp_def)
  also have "text_loop B m (int_formats k) ?s = Some (concat (map (\<lambda>i. int_field (pf_ap s (i + 1))) [0..<k]))"
    using Suc.IH [of ?s] Suc.prems by simp
  finally show ?case by (simp add: upt_conv_Cons map_Suc_upt [symmetric] comp_def del: upt_Suc)
qed (simp add: int_formats_def)

lemma int_field_length: "length (int_field w) \<le> 66"
  by (rule signed_decimal_text [of "scast w"]) (simp add: int_field_def)

text \<open>The start of a field is no white space and no NUL.\<close>

lemma scan_field:
  assumes "bytes_at m q (int_field w)"
  shows "isspace (uint (m q)) = 0" "m q \<noteq> 0"
    "\<exists>l. length (int_field w) = Suc l \<and> l \<noteq> 0 \<and> m (q + of_nat l) = 32 \<and> strntoumax q 10 (- 1) m = (scast w, q + of_nat l)"
proof -
  obtain sign ds where t: "int_text (scast w) FL_SIGNED 10 0 (- 1) = sign @ ds" "ds \<noteq> []" "sign \<in> {[], [45]}"
    "\<forall>c \<in> set ds. is_digit 10 c" "length (sign @ ds) \<le> 65"
    and v: "(if sign = [45] then - of_nat (digits_value 10 ds) else of_nat (digits_value 10 ds)) = (scast w :: u64)"
    by (rule signed_decimal_text [of "scast w"])
  have b: "bytes_at m q ([] @ sign @ ds)" "m (q + of_nat (length (sign @ ds))) = 32"
    using assms by (simp_all add: int_field_def t(1) bytes_at_append ac_simps)
  obtain d dr where ds: "ds = d # dr" using t(2) by (cases ds) auto
  have d: "is_digit 10 d" using t(4) ds by simp
  have start: "m q = 45 \<or> m q = d" using b(1) t(3) ds by auto
  have "uint (45 :: u8) = 45" by simp
  then show "isspace (uint (m q)) = 0" using start digit_no_space(1) [OF d] ctype_classes(4) [of 45] by auto
  show "m q \<noteq> 0" using start digit_code(1) [OF d] by auto
  have "\<not> is_digit (int 10) (32 :: u8)" by (simp add: is_digit_def digitval_def)
  moreover have "unat (- 1 :: u32) = 4294967295" by (simp add: unsigned_minus_1_eq_mask mask_eq_exp_minus_1)
  ultimately have len: "length ([] @ sign @ ds) = unat (- 1 :: u32) \<or>
      length ([] @ sign @ ds) < unat (- 1 :: u32) \<and> \<not> is_digit (int 10) (m (q + of_nat (length ([] @ sign @ ds))))"
    using t(5) b(2) by simp
  have "strntoumax q (int 10) (- 1) m =
      (if sign = [45] then - of_nat (digits_value 10 ds) else of_nat (digits_value 10 ds), q + of_nat (length ([] @ sign @ ds)))"
    by (rule strntoumax_reads [OF b(1) _ _ t(2) _ _ _ len]) (use t(3,4) in auto)
  then have "strntoumax q 10 (- 1) m = (scast w, q + of_nat (length (sign @ ds)))" using v by simp
  moreover have "length (int_field w) = Suc (length (sign @ ds))" by (simp add: int_field_def t(1))
  moreover have "length (sign @ ds) \<noteq> 0" using t(2) by simp
  ultimately show "\<exists>l. length (int_field w) = Suc l \<and> l \<noteq> 0 \<and> m (q + of_nat l) = 32 \<and>
      strntoumax q 10 (- 1) m = (scast w, q + of_nat l)" using b(2) by blast
qed

text \<open>What \<open>%d\<close> stores.\<close>

lemma store_integer_int: "store_integer 0 p (scast w) m = store32 p w m"
proof -
  have "drop 4 (long_bytes (scast w)) = [hi8 (hi16 w), lo8 (hi16 w), hi8 (lo16 w), lo8 (lo16 w)]"
    by (simp add: long_bytes_def upt_rec hi8_def lo8_def hi16_def lo16_def) (intro conjI bit_word_eqI; auto simp: bit_simps)
  then show ?thesis by (simp add: store_integer_def store32_def store16_def add.assoc)
qed

text \<open>One conversion with the space behind it.\<close>

lemma sf_loop_field:
  assumes "sf_state s = ss_normal" "sf_bail s = bail_none" "sf_q s = q" "sf_ap s 0 = p"
    and field: "bytes_at m q (int_field w)" and disjoint: "span p 4 \<inter> span q (length (int_field w) + 1) = {}"
    and rest: "isspace (uint (m (q + of_nat (length (int_field w))))) = 0"
  shows "\<exists>s'. sf_loop buffer ''%d '' (s, m) = Some (s', store32 p w m) \<and> sf_state s' = ss_normal \<and> sf_bail s' = bail_none \<and>
    sf_q s' = q + of_nat (length (int_field w)) \<and> sf_ap s' = (\<lambda>i. sf_ap s (i + 1)) \<and> sf_converted s' = sf_converted s + 1"
proof -
  obtain l where l: "length (int_field w) = Suc l" "l \<noteq> 0" "m (q + of_nat l) = 32"
    "strntoumax q 10 (- 1) m = (scast w, q + of_nat l)" using scan_field(3) [OF field] by blast
  have l66: "l < 66" using int_field_length [of w] l(1) by simp
  then have ne: "of_nat l \<noteq> (0 :: u32)" using l(2) unat_of_nat_u32 [of l] by force
  have skip: "skipspace m q = Some q" using scan_field(1) [OF field] by (subst skipspace.simps) simp
  let ?m = "store32 p w m"
  have keep: "?m (q + of_nat i) = m (q + of_nat i)" if "i \<le> Suc l" for i
  proof -
    have "q + of_nat i \<in> span q (length (int_field w) + 1)" using that l66 l(1) by (simp add: in_span)
    then show ?thesis using disjoint by (intro store32_outside) auto
  qed
  have blank: "isspace 32 \<noteq> 0" using ctype_classes(4) [of 32] by simp
  have skip2: "skipspace ?m (q + of_nat l) = Some (q + of_nat (Suc l))"
  proof -
    have "uint (?m (q + of_nat l)) = 32" using keep [of l] l(3) by simp
    then have "skipspace ?m (q + of_nat l) = skipspace ?m (q + of_nat (Suc l))"
      using blank by (subst skipspace.simps) (simp only: advance if_True simp_thms)
    also have "\<dots> = Some (q + of_nat (Suc l))"
      using rest keep [of "Suc l"] l(1) by (subst skipspace.simps) simp
    finally show ?thesis .
  qed
  let ?s1 = "s\<lparr>sf_flags := 0, sf_width := - 1, sf_state := ss_normal, sf_rank := 0, sf_q := q + of_nat l,
    sf_converted := sf_converted s + 1, sf_ap := \<lambda>i. sf_ap s (Suc i)\<rparr>"
  have conv: "sf_loop buffer ''%d'' (s, m) = Some (?s1, ?m)"
    using assms(1-4) skip scan_field(2) [OF field] l(4) ne
    by (simp add: sf_step_def is_dec_def scan_modifier_def scan_conversion_def int_base_def canonical_rank_def scan_int_def
        flag_def set_integer_def va_int_def store_integer_int Let_def)
  have "sf_loop buffer '' '' (?s1, ?m) = Some (?s1\<lparr>sf_q := q + of_nat (Suc l)\<rparr>, ?m)"
    using assms(2) skip2 blank by (simp add: sf_step_def c_char_def)
  then have "sf_loop buffer (''%d'' @ '' '') (s, m) = Some (?s1\<lparr>sf_q := q + of_nat (Suc l)\<rparr>, ?m)"
    by (subst sf_loop_append) (simp, simp only: conv bind.bind_lunit)
  then show ?thesis using assms(2) l(1) by simp
qed

text \<open>The arguments of a scan: the numbers with their blocks.\<close>

definition fields :: "u32 list \<Rightarrow> bytes" where
  "fields ws = concat (map int_field ws)"

lemma fields_length: "length (fields ws) \<le> 66 * length ws"
proof (induction ws)
  case (Cons w ws)
  then show ?case using int_field_length [of w] by (simp add: fields_def)
qed (simp add: fields_def)

lemma fields_start:
  assumes "bytes_at m q (fields ws @ [0])"
  shows "isspace (uint (m q)) = 0"
proof (cases ws)
  case Nil
  then show ?thesis using assms isspace_0 by (simp add: fields_def)
next
  case (Cons w ws)
  then have "bytes_at m q (int_field w)" using assms by (simp add: fields_def bytes_at_append)
  then show ?thesis by (rule scan_field(1))
qed

primrec store_all :: "(u32 \<times> u32) list \<Rightarrow> mem \<Rightarrow> mem" where
  "store_all [] m = m"
| "store_all (x # xs) m = store_all xs (store32 (fst x) (snd x) m)"

lemma span_shift:
  assumes "l + n < 2 ^ 32"
  shows "span (q + of_nat l) n \<subseteq> span q (l + n)"
proof
  fix x assume x: "x \<in> span (q + of_nat l) n"
  define i where "i = unat (x - (q + of_nat l))"
  have "x = q + of_nat (l + i)" by (simp add: i_def)
  moreover have "i < n" using x by (simp add: span_def i_def)
  ultimately show "x \<in> span q (l + n)" using assms in_span [of "l + i" q "l + n"] by simp
qed

lemma bytes_at_store32:
  assumes "span p 4 \<inter> span q (length bs) = {}" "bytes_at m q bs" "length bs < 2 ^ 32"
  shows "bytes_at (store32 p w m) q bs"
proof -
  have "store32 p w m (q + of_nat i) = m (q + of_nat i)" if "i < length bs" for i
    using assms(1) in_span [of i q "length bs"] that assms(3) by (intro store32_outside) auto
  then show ?thesis using assms(2) by (simp add: bytes_at_nth)
qed

lemma sf_loop_fields:
  assumes "sf_state s = ss_normal" "sf_bail s = bail_none" "sf_ap s = ap"
    and "bytes_at m (sf_q s) (fields ws @ [0])" "length ws \<le> 1000000"
    and "\<forall>i < length ws. span (ap i) 4 \<inter> span (sf_q s) (length (fields ws) + 1) = {}"
  shows "\<exists>s'. sf_loop buffer (int_formats (length ws)) (s, m) = Some (s', store_all (map (\<lambda>i. (ap i, ws ! i)) [0..<length ws]) m) \<and>
    sf_bail s' = bail_none \<and> sf_converted s' = sf_converted s + int (length ws)"
  using assms
proof (induction ws arbitrary: s m ap)
  case Nil
  then show ?case by (simp add: int_formats_def)
next
  case (Cons w ws)
  let ?q = "sf_q s" and ?l = "length (int_field w)" and ?m = "store32 (ap 0) w m"
  have fields: "fields (w # ws) = int_field w @ fields ws" by (simp add: fields_def)
  have at: "bytes_at m ?q (int_field w)" "bytes_at m (?q + of_nat ?l) (fields ws @ [0])"
    using Cons.prems(4) by (simp_all add: fields bytes_at_append)
  have small: "?l + length (fields ws) + 1 < 2 ^ 32"
    using int_field_length [of w] fields_length [of ws] Cons.prems(5) by simp
  have sub: "span (?q + of_nat ?l) (length (fields ws) + 1) \<subseteq> span ?q (length (fields (w # ws)) + 1)"
    using span_shift [of ?l "length (fields ws) + 1" ?q] small by (simp add: fields)
  have sub1: "span ?q (?l + 1) \<subseteq> span ?q (length (fields (w # ws)) + 1)" by (auto simp: span_def fields)
  have d: "span (ap i) 4 \<inter> span ?q (length (fields (w # ws)) + 1) = {}" if "i \<le> length ws" for i
    using Cons.prems(6) that by (simp add: less_Suc_eq_le)
  obtain s' where s': "sf_loop buffer ''%d '' (s, m) = Some (s', ?m)" "sf_state s' = ss_normal" "sf_bail s' = bail_none"
      "sf_q s' = ?q + of_nat ?l" "sf_ap s' = (\<lambda>i. ap (i + 1))" "sf_converted s' = sf_converted s + 1"
    using sf_loop_field [OF Cons.prems(1,2) refl _ at(1), of "ap 0" buffer] d [of 0] sub1 fields_start [OF at(2)] Cons.prems(3)
    by blast
  have "span (ap 0) 4 \<inter> span (sf_q s') (length (fields ws) + 1) = {}" using d [of 0] sub s'(4) by auto
  then have "bytes_at ?m (sf_q s') (fields ws @ [0])"
    using at(2) small unfolding s'(4) by (intro bytes_at_store32) simp_all
  moreover have "\<forall>i < length ws. span (ap (i + 1)) 4 \<inter> span (sf_q s') (length (fields ws) + 1) = {}"
  proof (intro allI impI)
    fix i assume "i < length ws"
    then show "span (ap (i + 1)) 4 \<inter> span (sf_q s') (length (fields ws) + 1) = {}"
      unfolding s'(4) using d [of "i + 1"] sub by auto
  qed
  ultimately obtain t where t: "sf_loop buffer (int_formats (length ws)) (s', ?m) =
      Some (t, store_all (map (\<lambda>i. (ap (i + 1), ws ! i)) [0..<length ws]) ?m)" "sf_bail t = bail_none"
      "sf_converted t = sf_converted s' + int (length ws)"
  proof -
    assume b: "bytes_at ?m (sf_q s') (fields ws @ [0])"
      and d': "\<forall>i < length ws. span (ap (i + 1)) 4 \<inter> span (sf_q s') (length (fields ws) + 1) = {}"
    have "length ws \<le> 1000000" using Cons.prems(5) by simp
    from Cons.IH [OF s'(2,3,5) b this d'] show ?thesis using that by blast
  qed
  have "int_formats (length (w # ws)) = ''%d '' @ int_formats (length ws)" by (simp add: int_formats_def)
  then have "sf_loop buffer (int_formats (length (w # ws))) (s, m) =
      Some (t, store_all (map (\<lambda>i. (ap i, (w # ws) ! i)) [0..<length (w # ws)]) m)"
  proof -
    assume "int_formats (length (w # ws)) = ''%d '' @ int_formats (length ws)"
    moreover have "sf_loop buffer (''%d '' @ int_formats (length ws)) (s, m) = sf_loop buffer (int_formats (length ws)) (s', ?m)"
      by (subst sf_loop_append) (simp, simp only: s'(1) bind.bind_lunit)
    moreover have "store_all (map (\<lambda>i. (ap i, (w # ws) ! i)) [0..<length (w # ws)]) m =
        store_all (map (\<lambda>i. (ap (i + 1), ws ! i)) [0..<length ws]) ?m"
      by (simp add: upt_conv_Cons map_Suc_upt [symmetric] comp_def del: upt_Suc)
    ultimately show ?thesis using t(1) by simp
  qed
  then show ?case using t s'(6) by simp
qed

text \<open>Blocks that do not overlap keep what was stored.\<close>

lemma load_store_all:
  assumes "i < length xs" "\<And>j. j < length xs \<Longrightarrow> j \<noteq> i \<Longrightarrow> span (fst (xs ! j)) 4 \<inter> span (fst (xs ! i)) 4 = {}"
  shows "load32 (store_all xs m) (fst (xs ! i)) = snd (xs ! i)"
proof -
  have other: "load32 (store_all ys m) a = load32 m a" if "\<And>y. y \<in> set ys \<Longrightarrow> span (fst y) 4 \<inter> span a 4 = {}" for ys m a
    using that
  proof (induction ys arbitrary: m)
    case (Cons y ys)
    have "span (fst y) 4 \<inter> span a 4 = {}" using Cons.prems by simp
    then have "load32 (store32 (fst y) (snd y) m) a = load32 m a" by (rule load32_store32_disjoint)
    then show ?case using Cons by simp
  qed simp
  show ?thesis
    using assms
  proof (induction xs arbitrary: i m)
    case (Cons x xs)
    show ?case
    proof (cases i)
      case 0
      have "span (fst y) 4 \<inter> span (fst x) 4 = {}" if y: "y \<in> set xs" for y
      proof -
        obtain j where "j < length xs" "xs ! j = y" using y by (auto simp: in_set_conv_nth)
        then show ?thesis using Cons.prems(2) [of "Suc j"] 0 by simp
      qed
      then have "load32 (store_all xs (store32 (fst x) (snd x) m)) (fst x) = load32 (store32 (fst x) (snd x) m) (fst x)"
        by (rule other)
      then show ?thesis unfolding 0 by (simp only: store_all.simps nth_Cons_0 load32_store32_same)
    next
      case (Suc k)
      have "span (fst (xs ! j)) 4 \<inter> span (fst (xs ! k)) 4 = {}" if "j < length xs" "j \<noteq> k" for j
        using Cons.prems(2) [of "Suc j"] that Suc by simp
      then show ?thesis using Cons.IH [of k] Cons.prems(1) Suc by simp
    qed
  qed simp
qed

text \<open>
  C6. A list of numbers survives printing and scanning: for every number \<open>k\<close> of \<open>%d\<close> conversions and all
  arguments, \<open>vsscanf\<close> reads back from the buffer what \<open>vsnprintf\<close> printed into it, reports \<open>k\<close> conversions and stores
  each argument in its block, when the text fits the buffer and the blocks overlap neither the buffer nor
  each other.
\<close>

theorem formats_roundtrip:
  assumes "66 * k < unat n" "k \<le> 1000000"
    and "\<forall>i < k. span (aq i) 4 \<inter> span buffer (unat n) = {}"
    and "\<forall>i < k. \<forall>j < k. i \<noteq> j \<longrightarrow> span (aq i) 4 \<inter> span (aq j) 4 = {}"
  shows "\<exists>r m1 m2. vsnprintf buffer n (int_formats k) ap m = Some (r, m1) \<and>
    vsscanf buffer (int_formats k) aq m1 = Some (int k, m2) \<and> (\<forall>i < k. load32 m2 (aq i) = ap i)"
proof -
  define ws where "ws = map ap [0..<k]"
  have k: "length ws = k" by (simp add: ws_def)
  have t: "printf_text (\<lambda>a. unat (a - buffer) < unat n) m (int_formats k) ap = Some (fields ws)"
    by (simp add: printf_text_def text_loop_formats pf_init_def fields_def ws_def comp_def)
  have len: "length (fields ws) < unat n" using fields_length [of ws] assms(1) k by simp
  have n: "unat n < 4294967296" using unat_u32_less [of n] by simp
  have "Suc (length (fields ws)) < 4294967296" by (rule le_less_trans [OF _ n]) (use len in simp)
  then have "length (fields ws) < 2 ^ 32 - 1" by simp
  from vsnprintf_text [OF t this] obtain m1 where m1: "vsnprintf buffer n (int_formats k) ap m = Some (of_nat (length (fields ws)), m1)"
    "m1 = (if n = 0 then m else (\<lambda>a. if unat (a - buffer) \<le> length (fields ws) \<and> unat (a - buffer) < unat n
      then (take (unat n - 1) (fields ws) @ [0]) ! unat (a - buffer) else m a))" by blast
  have "n \<noteq> 0" using len by auto
  have at: "bytes_at m1 buffer (fields ws @ [0])"
  proof -
    have "unat (of_nat i :: u32) = i" if "i \<le> length (fields ws)" for i
      using that len n by (intro unat_of_nat_u32) linarith
    then show ?thesis using len \<open>n \<noteq> 0\<close> by (auto simp: m1(2) bytes_at_nth less_Suc_eq_le)
  qed
  have "length (fields ws) + 1 \<le> unat n" using len by simp
  then have "span buffer (length (fields ws) + 1) \<subseteq> span buffer (unat n)" by (auto simp: span_def)
  then have d: "\<forall>i < length ws. span (aq i) 4 \<inter> span buffer (length (fields ws) + 1) = {}" using assms(3) k by blast
  have "sf_state (sf_init buffer aq) = ss_normal" "sf_bail (sf_init buffer aq) = bail_none" "sf_ap (sf_init buffer aq) = aq"
    "sf_q (sf_init buffer aq) = buffer" "sf_converted (sf_init buffer aq) = 0" by (simp_all add: sf_init_def)
  then obtain s' where "sf_loop buffer (int_formats k) (sf_init buffer aq, m1) =
      Some (s', store_all (map (\<lambda>i. (aq i, ws ! i)) [0..<k]) m1)" "sf_bail s' = bail_none" "sf_converted s' = int k"
    using sf_loop_fields [of "sf_init buffer aq" aq m1 ws buffer] at d assms(2) k by auto
  then have "vsscanf buffer (int_formats k) aq m1 = Some (int k, store_all (map (\<lambda>i. (aq i, ws ! i)) [0..<k]) m1)"
    by (simp add: vsscanf_def)
  moreover have "load32 (store_all (map (\<lambda>i. (aq i, ws ! i)) [0..<k]) m1) (aq i) = ap i" if "i < k" for i
    using load_store_all [of i "map (\<lambda>i. (aq i, ws ! i)) [0..<k]" m1] that assms(4) by (simp add: ws_def)
  ultimately show ?thesis using m1(1) by blast
qed

lemma formats_roundtrip_witness:
  "\<exists>r m1 m2. vsnprintf 0x1000 200 (int_formats 2) (\<lambda>i. if i = 0 then - 7 else 12) (\<lambda>_. 0) = Some (r, m1) \<and>
    vsscanf 0x1000 (int_formats 2) (\<lambda>i. 0x2000 + 4 * of_nat i) m1 = Some (2, m2) \<and> load32 m2 0x2000 = - 7 \<and> load32 m2 0x2004 = 12"
proof -
  have 1: "\<forall>i < 2. span (0x2000 + 4 * of_nat i) 4 \<inter> span 0x1000 (unat (200 :: u32)) = {}"
    by (auto simp: span_iff less_2_cases_iff)
  have 2: "\<forall>i < 2. \<forall>j < 2. i \<noteq> j \<longrightarrow> span (0x2000 + 4 * of_nat i) 4 \<inter> span (0x2000 + 4 * of_nat j) 4 = {}"
    by (auto simp: span_iff less_2_cases_iff)
  have "66 * 2 < unat (200 :: u32)" "(2 :: nat) \<le> 1000000" by simp_all
  from formats_roundtrip [OF this 1 2, of "\<lambda>i. if i = 0 then - 7 else 12" "\<lambda>_. 0"]
  obtain r m1 m2 where *: "vsnprintf 0x1000 200 (int_formats 2) (\<lambda>i. if i = 0 then - 7 else 12) (\<lambda>_. 0) = Some (r, m1)"
    "vsscanf 0x1000 (int_formats 2) (\<lambda>i. 0x2000 + 4 * of_nat i) m1 = Some (int 2, m2)"
    "\<forall>i < 2. load32 m2 (0x2000 + 4 * of_nat i) = (if i = 0 then - 7 else 12)" by blast
  have "load32 m2 0x2000 = - 7" "load32 m2 0x2004 = 12"
    using spec [OF *(3), of 0] spec [OF *(3), of 1] by simp_all
  then show ?thesis using *(1,2) by auto
qed

end
