(* ===== verification/ImageLoad.thy ===== *)
theory ImageLoad
  imports Browser Modplayer
begin

text \<open>
  The image mode of the demo, \<^verbatim>\<open>Apps/Demo/main.c\<close>: the file \<open>TEST.IMG\<close> is read sector by sector
  into the frame buffer, with another try after an error and a new start of the card after three.
\<close>

section \<open>The loader\<close>

record 'd loader =
  ld_file :: fileTYPE
  ld_fs :: "'d fatst"
  ld_scan :: scan
  ld_mem :: mem
  fbptr :: u32

text \<open>\<open>SDCardInit\<close>; the pattern is \<open>"*"\<close>.\<close>

definition star :: reader where
  "star i = (if i = 0 then 42 else 0)"

definition SDCardInit :: "'c bus \<Rightarrow> u16 \<Rightarrow> 'c spi loader \<Rightarrow> (bool \<times> 'c spi loader) option" where
  "SDCardInit x spispeed l =
     (case spi_init x spispeed (dev (ld_fs l)) of
        (False, d) \<Rightarrow> Some (False, l\<lparr>ld_fs := (ld_fs l)\<lparr>dev := d\<rparr>\<rparr>)
      | (True, d) \<Rightarrow>
          (let s = snd (FindDrive (spi_ops x) ((ld_fs l)\<lparr>dev := d\<rparr>));
               g = ChangeDirectory 0 (ld_scan l)
           in map_option (\<lambda>(_, g, s). (True, l\<lparr>ld_fs := s, ld_scan := g\<rparr>))
                (ScanDirectory (spi_ops x) SCAN_INIT star 0 g s)))"

text \<open>The loop; \<open>c\<close> counts the sectors, of which 2400 fill the frame buffer. The branch of a failed read
  starts the card and the file again when three tries are left, and keeps \<open>c\<close> and \<open>fbptr\<close>.\<close>

function load_sectors ::
  "'c bus \<Rightarrow> u16 \<Rightarrow> reader \<Rightarrow> int \<Rightarrow> nat \<Rightarrow> nat \<Rightarrow> 'c spi loader \<Rightarrow> 'c spi loader option" where
  "load_sectors x spispeed name imgsize c errorcount l =
     (if c \<le> (640 * 960 * 2 - 1) div 512 \<and> int c < imgsize then
        (case FileRead (spi_ops x) (ld_file l) (ld_fs l) of
           (Some b, s) \<Rightarrow>
             (case FileNextSector (spi_ops x) (ld_file l) s of (_, f, s) \<Rightarrow>
                load_sectors x spispeed name imgsize (c + 1) errorcount
                  (l\<lparr>ld_file := f, ld_fs := s, ld_mem := store_bytes (map Some b) (fbptr l) (ld_mem l), fbptr := fbptr l + 512\<rparr>))
         | (None, s) \<Rightarrow>
             (let l = l\<lparr>ld_fs := s\<rparr>
              in if errorcount \<le> 1 then Some l
                 else if errorcount - 1 = 3 then
                   (case SDCardInit x spispeed l of
                      None \<Rightarrow> None
                    | Some (False, l) \<Rightarrow> Some l
                    | Some (True, l) \<Rightarrow>
                        (case FileOpen (spi_ops x) (ld_file l) name (ld_fs l) of
                           None \<Rightarrow> None
                         | Some (False, f, s) \<Rightarrow> Some (l\<lparr>ld_file := f, ld_fs := s\<rparr>)
                         | Some (True, f, s) \<Rightarrow>
                             load_sectors x spispeed name imgsize c (errorcount - 1) (l\<lparr>ld_file := f, ld_fs := s\<rparr>)))
                 else load_sectors x spispeed name imgsize c (errorcount - 1) l))
      else Some l)"
  by pat_completeness auto
termination
  by (relation "measure (\<lambda>(x, spispeed, name, imgsize, c, errorcount, l). (2400 - c) + errorcount)") auto

declare load_sectors.simps [simp del]

text \<open>The case \<open>MAIN_LOAD\<close>; whether the file was found is the first component.\<close>

definition main_load :: "'c bus \<Rightarrow> u16 \<Rightarrow> reader \<Rightarrow> u32 \<Rightarrow> 'c spi loader \<Rightarrow> (bool \<times> 'c spi loader) option" where
  "main_load x spispeed name FrameBuffer l =
     (case FileOpen (spi_ops x) (ld_file l) name (ld_fs l) of
        None \<Rightarrow> None
      | Some (False, f, s) \<Rightarrow> Some (False, l\<lparr>ld_file := f, ld_fs := s\<rparr>)
      | Some (True, f, s) \<Rightarrow>
          (let l = l\<lparr>ld_file := f, ld_fs := s, fbptr := FrameBuffer\<rparr>;
               imgsize = sint (ucast (fsize f div 512) :: u16)
           in map_option (Pair True) (load_sectors x spispeed name imgsize 0 6 l)))"

section \<open>A card without errors\<close>

lemma store_bytes_append: "store_bytes (xs @ ys) p m = store_bytes ys (p + of_nat (length xs)) (store_bytes xs p m)"
  by (induction xs arbitrary: p m) (simp_all add: add.assoc)

text \<open>How many sectors are loaded.\<close>

definition sectors_shown :: "int \<Rightarrow> nat" where
  "sectors_shown imgsize = min 2400 (nat imgsize)"

lemma load_sectors_reads:
  assumes "mounted (spi_serves x img) img k (ld_fs l)" "at_sector img k (ld_fs l) (ld_file l) c"
    and "readable img k (ld_fs l) (ld_file l) c (sectors_shown imgsize)" "c \<le> sectors_shown imgsize"
  shows "\<exists>l'. load_sectors x spispeed name imgsize c errorcount l = Some l' \<and>
    ld_mem l' = store_bytes (map Some (file_bytes img k (ld_fs l) (ld_file l) (512 * c) (512 * sectors_shown imgsize)))
      (fbptr l) (ld_mem l) \<and> ld_scan l' = ld_scan l \<and> mounted (spi_serves x img) img k (ld_fs l')"
  using assms
proof (induction "sectors_shown imgsize - c" arbitrary: c l)
  case 0
  then have "\<not> (c \<le> (640 * 960 * 2 - 1) div 512 \<and> int c < imgsize)" by (auto simp: sectors_shown_def min_def split: if_splits)
  then show ?case using 0 by (subst load_sectors.simps) (auto simp: file_bytes_def)
next
  case (Suc d)
  have c: "c < sectors_shown imgsize" using Suc.hyps(2) by simp
  then have guard: "c \<le> (640 * 960 * 2 - 1) div 512 \<and> int c < imgsize" by (auto simp: sectors_shown_def)
  have "sectors_shown imgsize \<le> 2400" by (simp add: sectors_shown_def)
  then have "Suc c < 2 ^ 32" using c by simp
  let ?r = "\<lparr>ra_file = ld_file l, ra_size = 0, ra_ptr = 0, ra_buffer = []\<rparr>"
  have rd: "readable img k (ld_fs l) (ra_file ?r) c (Suc c)" using Suc.prems(3) c by (auto simp: readable_def)
  have at: "at_sector img k (ld_fs l) (ra_file ?r) c" using Suc.prems(2) by simp
  obtain b f' s' where step: "ra_sector (spi_ops x) ?r (ld_fs l) = (Some b, ?r\<lparr>ra_file := f'\<rparr>, s')"
    "file_sector img k (ld_fs l) (ra_file ?r) c = Some b" "length b = 512" "mounted (spi_serves x img) img k s'"
    "same_volume (ld_fs l) s'" "at_sector img k (ld_fs l) f' (Suc c)" "start_cluster f' = start_cluster (ra_file ?r)"
    by (rule spi.ra_sector_correct [OF Suc.prems(1) at rd \<open>Suc c < 2 ^ 32\<close>])
  note ref = same_volume_reference [OF step(5)] same_start_reference [OF step(7)]
  obtain s1 ok where s1: "FileRead (spi_ops x) (ld_file l) (ld_fs l) = (Some b, s1)"
    "FileNextSector (spi_ops x) (ld_file l) s1 = (ok, f', s')"
    using step(1) by (auto simp: ra_sector_def split: prod.splits)
  let ?l = "l\<lparr>ld_file := f', ld_fs := s', ld_mem := store_bytes (map Some b) (fbptr l) (ld_mem l), fbptr := fbptr l + 512\<rparr>"
  have "readable img k (ld_fs ?l) (ld_file ?l) (Suc c) (sectors_shown imgsize)"
  proof -
    have "readable img k (ld_fs l) (ld_file l) (Suc c) (sectors_shown imgsize)" using Suc.prems(3) by (auto simp: readable_def)
    then show ?thesis by (simp add: ref)
  qed
  then obtain l' where l': "load_sectors x spispeed name imgsize (Suc c) errorcount ?l = Some l'"
    "ld_mem l' = store_bytes (map Some (file_bytes img k (ld_fs ?l) (ld_file ?l) (512 * Suc c) (512 * sectors_shown imgsize)))
      (fbptr ?l) (ld_mem ?l)" "ld_scan l' = ld_scan ?l" "mounted (spi_serves x img) img k (ld_fs l')"
  proof -
    assume r: "readable img k (ld_fs ?l) (ld_file ?l) (Suc c) (sectors_shown imgsize)"
    have "d = sectors_shown imgsize - Suc c" using Suc.hyps(2) by simp
    moreover have "mounted (spi_serves x img) img k (ld_fs ?l)" using step(4) by simp
    moreover have "at_sector img k (ld_fs ?l) (ld_file ?l) (Suc c)" using step(6) by (simp add: ref)
    moreover have "Suc c \<le> sectors_shown imgsize" using c by simp
    ultimately show ?thesis using Suc.hyps(1) r that by blast
  qed
  have "file_bytes img k (ld_fs l) (ld_file l) (512 * c) (512 * Suc c) = b"
    using file_bytes_sector [OF step(2,3), of 0 512] step(3) by (simp add: add.commute)
  then have eq: "file_bytes img k (ld_fs l) (ld_file l) (512 * c) (512 * sectors_shown imgsize) =
      b @ file_bytes img k (ld_fs l) (ld_file l) (512 * Suc c) (512 * sectors_shown imgsize)"
    using file_bytes_append [of "512 * c" "512 * Suc c" "512 * sectors_shown imgsize" img k "ld_fs l" "ld_file l"] c by simp
  have "store_bytes (map Some (file_bytes img k (ld_fs l) (ld_file l) (512 * c) (512 * sectors_shown imgsize))) (fbptr l) (ld_mem l) =
      ld_mem l'"
    unfolding eq map_append store_bytes_append using l'(2) step(3) by (simp add: ref)
  moreover have "load_sectors x spispeed name imgsize c errorcount l = Some l'"
    using guard s1 l'(1) by (subst load_sectors.simps) simp
  ultimately show ?case using l'(3,4) by auto
qed

text \<open>A size of less than 16 MB is a positive number of sectors as a \<open>short\<close>.\<close>

lemma short_size:
  fixes n :: u32
  assumes "unat n < 2 ^ 24"
  shows "sint (ucast (n div 512) :: u16) = int (unat n div 512)"
proof -
  let ?w = "ucast (n div 512) :: u16"
  have "n div 512 < 32768" using assms by (simp add: word_less_nat_alt unat_div)
  then have "uint ?w = uint (n div 512)" "uint (n div 512) < 32768"
    by (simp_all add: uint_up_ucast word_less_def unsigned_ucast_eq take_bit_int_eq_self)
  moreover have "sint ?w = signed_take_bit 15 (uint ?w)" by (simp add: sint_uint)
  moreover have "signed_take_bit 15 (uint (n div 512)) = uint (n div 512)"
    using \<open>n div 512 < 32768\<close> by (intro signed_take_bit_int_eq_self) (simp_all add: word_less_def order_trans [of _ 0])
  ultimately have "sint ?w = uint (n div 512)" by simp
  then show ?thesis by (simp add: uint_div zdiv_int flip: uint_nat)
qed

section \<open>Properties\<close>

definition image_on_card :: "'c bus \<Rightarrow> image \<Rightarrow> nat \<Rightarrow> reader \<Rightarrow> 'c spi loader \<Rightarrow> fileTYPE \<Rightarrow> bool" where
  "image_on_card x img k name l f \<longleftrightarrow>
     mounted (spi_serves x img) img k (ld_fs l) \<and>
     (\<exists>slots e. root_slots img (ld_fs l) slots \<and> (\<forall>e \<in> set slots. img (fst e) \<noteq> None) \<and>
        find (slot_matches img (ld_fs l) name) slots = Some e \<and> f = file_of_slot img (ld_fs l) zero_file e) \<and>
     unat (fsize f) < 2 ^ 24 \<and> readable img k (ld_fs l) f 0 (min 2400 (unat (fsize f) div 512))"

text \<open>
  C8. The image mode shows the file: a file of less than 16 MB on the card is found and its whole
  sectors, up to the 2400 of the frame buffer, are stored from the start of the frame buffer on;
  the bytes after its last whole sector are not loaded, and no other byte of the memory changes.
\<close>

theorem image_is_shown:
  assumes "image_on_card x img k name l f"
  shows "\<exists>l'. main_load x spispeed name FrameBuffer l = Some (True, l') \<and>
    ld_mem l' = (\<lambda>a. if a \<in> span FrameBuffer (512 * min 2400 (unat (fsize f) div 512))
      then file_bytes img k (ld_fs l) f 0 (512 * min 2400 (unat (fsize f) div 512)) ! unat (a - FrameBuffer) else ld_mem l a)"
proof -
  obtain slots e where m: "mounted (spi_serves x img) img k (ld_fs l)" and slots: "root_slots img (ld_fs l) slots"
    "\<forall>e \<in> set slots. img (fst e) \<noteq> None" and e: "find (slot_matches img (ld_fs l) name) slots = Some e"
    and f: "f = file_of_slot img (ld_fs l) zero_file e" "unat (fsize f) < 2 ^ 24"
    and rd: "readable img k (ld_fs l) f 0 (min 2400 (unat (fsize f) div 512))"
    using assms by (auto simp: image_on_card_def)
  have serves: "spi_serves x img (dev (ld_fs l))" "cache_ok img (ld_fs l)" using m by (simp_all add: mounted_def)
  let ?g = "file_of_slot img (ld_fs l) (ld_file l) e"
  obtain v where v: "FileOpen (spi_ops x) (ld_file l) name (ld_fs l) = Some (True, ?g, v)"
    "scanned (ld_fs l) v" "spi_serves x img (dev v)" "cache_ok img v"
    using spi.FileOpen_correct [OF serves slots, of "ld_file l" name] e by auto
  have g: "fsize ?g = fsize f" "start_cluster ?g = start_cluster f" "fsector ?g = 0" "fcluster ?g = start_cluster f"
    using file_of_slot_fields [of img "ld_fs l" "ld_file l" e] file_of_slot_fields(1,2) [of img "ld_fs l" _ e zero_file]
    unfolding f(1) by simp_all
  have mount: "mounted (spi_serves x img) img k v" using m v(2-4) by (auto simp: mounted_def scanned_def)
  let ?n = "min 2400 (unat (fsize f) div 512)"
  define imgsize where "imgsize = sint (ucast (fsize ?g div 512) :: u16)"
  have "imgsize = int (unat (fsize f) div 512)" using f(2) g(1) by (simp add: imgsize_def short_size)
  then have shown: "sectors_shown imgsize = ?n" by (simp add: sectors_shown_def)
  let ?l = "l\<lparr>ld_file := ?g, ld_fs := v, fbptr := FrameBuffer\<rparr>"
  note ref = same_start_reference [OF g(2)] scanned_reference [OF v(2), of img k]
  have "at_sector img k (ld_fs ?l) (ld_file ?l) 0" using g(2-4) by (simp add: at_sector_def)
  moreover have "readable img k (ld_fs ?l) (ld_file ?l) 0 (sectors_shown imgsize)" using rd unfolding shown by (simp add: ref)
  ultimately obtain l' where l': "load_sectors x spispeed name imgsize 0 6 ?l = Some l'"
    "ld_mem l' = store_bytes (map Some (file_bytes img k v ?g 0 (512 * ?n))) FrameBuffer (ld_mem l)"
    using load_sectors_reads [of x img k ?l 0 imgsize spispeed name 6] mount by (auto simp: shown)
  have "main_load x spispeed name FrameBuffer l = Some (True, l')"
    using v(1) l'(1) by (simp add: main_load_def imgsize_def Let_def)
  moreover have eq: "file_bytes img k v ?g = file_bytes img k (ld_fs l) f" by (simp add: ref)
  moreover have "length (file_bytes img k (ld_fs l) f 0 (512 * ?n)) < 2 ^ 32" by simp
  ultimately show ?thesis
    using l'(2) store_bytes_span [of "file_bytes img k (ld_fs l) f 0 (512 * ?n)" FrameBuffer "ld_mem l"] by (simp add: eq)
qed

text \<open>A file of four whole sectors, all zero, and part of a fifth.\<close>

definition sample_loader :: "(bytes \<times> bytes) spi loader" where
  "sample_loader = \<lparr>ld_file = zero_file, ld_fs = sample_volume, ld_scan = browse_scan, ld_mem = (\<lambda>_. 2), fbptr = 0\<rparr>"

lemma image_is_shown_witness:
  "\<exists>l'. main_load (sample_bus module_image) 0 (\<lambda>i. 2) 0x1000 sample_loader = Some (True, l') \<and>
    ld_mem l' 0x1000 = 0 \<and> ld_mem l' 0x17FF = 0 \<and> ld_mem l' 0x1800 = 2"
proof -
  have n: "unat (fsize module_file) = 2108" by (simp add: module_slot(2))
  have "readable module_image 0 sample_volume module_file 0 4" using module_on_card(5) by (auto simp: readable_def)
  then have "image_on_card (sample_bus module_image) module_image 0 (\<lambda>i. 2) sample_loader module_file"
    using module_on_card(1-4) n by (auto simp: image_on_card_def sample_loader_def module_file_def)
  from image_is_shown [OF this, of 0 "0x1000"] obtain l' where
    "main_load (sample_bus module_image) 0 (\<lambda>i. 2) 0x1000 sample_loader = Some (True, l')"
    "ld_mem l' = (\<lambda>a. if a \<in> span 0x1000 2048
      then file_bytes module_image 0 (ld_fs sample_loader) module_file 0 2048 ! unat (a - 0x1000) else ld_mem sample_loader a)"
    unfolding n by (auto simp: min_def cong del: if_weak_cong)
  then show ?thesis by (auto simp: sample_loader_def span_def module_bytes)
qed

end
