(* ===== verification/Console.thy ===== *)
theory Console
  imports Strnto Vsnprintf "HOL-Library.Signed_Division"
begin

text \<open>
  The reduced \<open>printf\<close> of the boot code, \<^verbatim>\<open>Firmware_Common/small_printf.c\<close>, without
  \<open>PRINTF_HEX_ONLY\<close>. The format, its static buffers and the table of digits are in memory; what is
  sent to the serial port is a list of bytes. A loop without a bound is a partial function.
\<close>

section \<open>Numbers\<close>

text \<open>The addresses of \<open>vpfbuf[64]\<close>, of \<open>temp[80]\<close> and of the literal \<open>digits\<close>.\<close>

record statics =
  sp_vpfbuf :: u32
  sp_temp :: u32
  sp_digits :: u32

partial_function (option) cvt_loop :: "u32 \<Rightarrow> int \<Rightarrow> int \<Rightarrow> u32 \<Rightarrow> mem \<Rightarrow> (u32 \<times> mem) option" where
  [code]: "cvt_loop digits radix val cp m =
     (if val \<noteq> 0 then
        cvt_loop digits radix (val sdiv radix) (cp + 1) (m(cp := m (digits + word_of_int (val smod radix))))
      else Some (cp, m))"

function cvt_copy :: "u32 \<Rightarrow> u32 \<Rightarrow> u32 \<Rightarrow> nat \<Rightarrow> mem \<Rightarrow> u32 \<times> nat \<times> mem" where
  "cvt_copy temp cp buf n m =
     (if cp \<noteq> temp then cvt_copy temp (cp - 1) (buf + 1) (n + 1) (m(buf := m (cp - 1))) else (buf, n, m))"
  by auto
termination
  by (relation "measure (\<lambda>(temp, cp, buf, n, m). unat (cp - temp))")
    (auto simp: diff_right_commute [of _ 1] intro!: measure_unat)

declare cvt_copy.simps [simp del]

text \<open>\<open>_cvt\<close>: what is sent, the length and the memory. The negation wraps.\<close>

definition cvt :: "statics \<Rightarrow> u32 \<Rightarrow> u32 \<Rightarrow> int \<Rightarrow> mem \<Rightarrow> (bytes \<times> nat \<times> mem) option" where
  "cvt st val buf radix m =
     (let (out, val) = (if sint val < 0 then ([45], - val) else ([], val))
      in case (if val = 0 then Some (sp_temp st + 1, m(sp_temp st := 48))
               else cvt_loop (sp_digits st) radix (sint val) (sp_temp st) m) of
           None \<Rightarrow> None
         | Some (cp, m) \<Rightarrow> (case cvt_copy (sp_temp st) cp buf 0 m of (buf, n, m) \<Rightarrow> Some (out, n, m(buf := 0))))"

section \<open>The loop over the format\<close>

text \<open>The variables of \<open>_vprintf\<close> that live from one character to the next; \<open>bp_c\<close> is \<open>c\<close>, which the
  conversions overwrite.\<close>

record bp =
  bp_c :: u32
  bp_cp :: u32
  bp_res :: int
  bp_nextfmt :: bool
  bp_ap :: va_list
  bp_out :: bytes
  bp_mem :: mem

definition bp_putchar :: "u32 \<Rightarrow> bp \<Rightarrow> bp" where
  "bp_putchar c s = s\<lparr>bp_out := bp_out s @ [ucast c]\<rparr>"

partial_function (option) bp_puts :: "u32 \<Rightarrow> bp \<Rightarrow> bp option" where
  [code]: "bp_puts msg s =
     (if bp_mem s msg \<noteq> 0 then bp_puts (msg + 1) (bp_putchar (scast (bp_mem s msg)) s) else Some s)"

text \<open>\<open>while (length-- > 0)\<close>.\<close>

primrec print_chars :: "nat \<Rightarrow> bp \<Rightarrow> bp" where
  "print_chars 0 s = s"
| "print_chars (Suc n) s =
     (let c = scast (bp_mem s (bp_cp s)); s = bp_putchar c (s\<lparr>bp_c := c, bp_cp := bp_cp s + 1\<rparr>)
      in print_chars n (s\<lparr>bp_res := bp_res s + 1\<rparr>))"

text \<open>The conversions; \<open>cp\<close> is not set back to \<open>vpfbuf\<close>, since the assignment stands behind a \<open>break\<close>.\<close>

definition bp_number :: "statics \<Rightarrow> int \<Rightarrow> bp \<Rightarrow> bp option" where
  "bp_number st radix s =
     (case va_int (bp_ap s) of (val, ap) \<Rightarrow>
        map_option (\<lambda>(out, n, m). print_chars n (s\<lparr>bp_ap := ap, bp_out := bp_out s @ out, bp_mem := m\<rparr>))
          (cvt st val (sp_vpfbuf st) radix (bp_mem s)))"

definition bp_conversion :: "statics \<Rightarrow> u32 \<Rightarrow> bp \<Rightarrow> bp option" where
  "bp_conversion st c s =
     (let s = s\<lparr>bp_nextfmt := False\<rparr>
      in if c = 100 then bp_number st 10 s
         else if c = 120 then bp_number st 16 s
         else if c = 115 then (case va_int (bp_ap s) of (p, ap) \<Rightarrow> bp_puts p (s\<lparr>bp_ap := ap, bp_cp := p\<rparr>))
         else if c = 108 then Some (s\<lparr>bp_nextfmt := True\<rparr>)
         else if c = 99 then
           (case va_int (bp_ap s) of (c, ap) \<Rightarrow>
              Some (bp_putchar c (s\<lparr>bp_ap := ap, bp_c := c, bp_res := bp_res s + 1\<rparr>)))
         else Some (bp_putchar c (bp_putchar 37 (s\<lparr>bp_res := bp_res s + 2\<rparr>))))"

definition bp_char :: "statics \<Rightarrow> u32 \<Rightarrow> bp \<Rightarrow> bp option" where
  "bp_char st c s =
     (let s = s\<lparr>bp_c := c\<rparr>
      in if bp_nextfmt s then bp_conversion st c s
         else if c = 37 then Some (s\<lparr>bp_nextfmt := True\<rparr>)
         else Some (bp_putchar c (s\<lparr>bp_res := bp_res s + 1\<rparr>)))"

text \<open>The bytes of one word of the format, the first in the highest position; the flag says that the
  function returns.\<close>

primrec bp_word :: "statics \<Rightarrow> nat \<Rightarrow> u32 \<Rightarrow> bp \<Rightarrow> (bool \<times> bp) option" where
  "bp_word st 0 cs s = Some (False, s)"
| "bp_word st (Suc i) cs s =
     (let c = drop_bit 24 cs AND 0xFF; cs = push_bit 8 cs
      in if c = 0 then Some (True, s\<lparr>bp_c := c\<rparr>)
         else Option.bind (bp_char st c s) (bp_word st i cs))"

text \<open>\<open>do ... while (c)\<close>; the result is \<open>None\<close> when the loop ends, since there is no \<open>return\<close> behind it.\<close>

partial_function (option) bp_loop :: "statics \<Rightarrow> u32 \<Rightarrow> bp \<Rightarrow> (int option \<times> bp) option" where
  [code]: "bp_loop st s2 s =
     (case bp_word st 4 (load32 (bp_mem s) s2) s of
        None \<Rightarrow> None
      | Some (returned, s) \<Rightarrow>
          if returned then Some (Some (bp_res s), s)
          else if bp_c s \<noteq> 0 then bp_loop st (s2 + 4) s else Some (None, s))"

definition bp_init :: "statics \<Rightarrow> u32 \<Rightarrow> va_list \<Rightarrow> mem \<Rightarrow> bp" where
  "bp_init st c ap m = \<lparr>bp_c = c, bp_cp = sp_vpfbuf st, bp_res = 0, bp_nextfmt = False, bp_ap = ap, bp_out = [], bp_mem = m\<rparr>"

text \<open>The first value of \<open>c\<close> is never read.\<close>

definition small_printf :: "statics \<Rightarrow> u32 \<Rightarrow> va_list \<Rightarrow> mem \<Rightarrow> (int option \<times> bytes \<times> mem) option" where
  "small_printf st fmt ap m =
     map_option (\<lambda>(r, s). (r, bp_out s, bp_mem s)) (bp_loop st fmt (bp_init st 0 ap m))"

section \<open>What a number means\<close>

definition hex_digits :: bytes where
  "hex_digits = [48, 49, 50, 51, 52, 53, 54, 55, 56, 57, 65, 66, 67, 68, 69, 70]"

text \<open>The digits of a value, least significant first.\<close>

fun radix_digits :: "nat \<Rightarrow> nat \<Rightarrow> bytes" where
  "radix_digits b v = (if v = 0 \<or> b < 2 then [] else hex_digits ! (v mod b) # radix_digits b (v div b))"

declare radix_digits.simps [simp del]

definition int_digits :: "nat \<Rightarrow> u32 \<Rightarrow> bytes" where
  "int_digits b w = (if w = 0 then [48] else rev (radix_digits b (nat \<bar>sint w\<bar>)))"

definition int_sign :: "u32 \<Rightarrow> bytes" where
  "int_sign w = (if sint w < 0 then [45] else [])"

lemma length_radix_digits: "v < b ^ k \<Longrightarrow> length (radix_digits b v) \<le> k"
proof (induction b v arbitrary: k rule: radix_digits.induct)
  case (1 b v)
  show ?case
  proof (cases "v = 0 \<or> b < 2")
    case False
    then obtain j where k: "k = Suc j" using "1.prems" by (cases k) auto
    then have "v div b < b ^ j" using "1.prems" False by (simp add: div_less_iff_less_mult mult.commute)
    then show ?thesis using "1.IH" [OF False] False k by (subst radix_digits.simps) simp
  qed (subst radix_digits.simps; simp)
qed

lemma hex_digits_nonzero: "i < 16 \<Longrightarrow> hex_digits ! i \<noteq> 0"
proof -
  assume "i < 16"
  then have "hex_digits ! i \<in> set hex_digits" by (intro nth_mem) (simp add: hex_digits_def)
  moreover have "0 \<notin> set hex_digits" by (simp add: hex_digits_def)
  ultimately show ?thesis by metis
qed

lemma radix_digits_nonzero: "b \<le> 16 \<Longrightarrow> c \<in> set (radix_digits b v) \<Longrightarrow> c \<noteq> 0"
proof (induction b v rule: radix_digits.induct)
  case (1 b v)
  have "radix_digits b v = []" if "v = 0 \<or> b < 2" using that by (subst radix_digits.simps) simp
  then have v: "\<not> (v = 0 \<or> b < 2)" using "1.prems"(2) by force
  moreover from this have "v mod b < 16" using "1.prems"(1) by (intro less_le_trans [OF mod_less_divisor]) auto
  moreover have "radix_digits b v = hex_digits ! (v mod b) # radix_digits b (v div b)"
    using v by (subst radix_digits.simps) simp
  ultimately show ?case using 1 hex_digits_nonzero [of "v mod b"] by auto
qed

lemma int_digits_facts:
  assumes "10 \<le> b" "b \<le> 16"
  shows "int_digits b w \<noteq> []" "length (int_digits b w) \<le> 10" "c \<in> set (int_digits b w) \<Longrightarrow> c \<noteq> 0"
proof -
  have "w \<noteq> 0 \<Longrightarrow> sint w \<noteq> 0" by (metis signed_0 signed_word_eqI)
  then show "int_digits b w \<noteq> []" using assms by (auto simp: int_digits_def radix_digits.simps)
  have "- (2 ^ 31) \<le> sint w" "sint w < 2 ^ 31" using sint_ge [of w] sint_lt [of w] by simp_all
  then have "nat \<bar>sint w\<bar> \<le> 2 ^ 31" by simp
  also have "(2 :: nat) ^ 31 < 10 ^ 10" by simp
  also have "(10 :: nat) ^ 10 \<le> b ^ 10" using assms(1) by (rule power_mono) simp
  finally show "length (int_digits b w) \<le> 10" using length_radix_digits by (simp add: int_digits_def)
  show "c \<noteq> 0" if "c \<in> set (int_digits b w)"
    using that radix_digits_nonzero [OF assms(2)] by (auto simp: int_digits_def split: if_splits)
qed

section \<open>The conversion\<close>

lemma put_span:
  assumes "length bs < 2 ^ 32"
  shows "put m p bs = (\<lambda>a. if a \<in> span p (length bs) then bs ! unat (a - p) else m a)"
  using assms
proof (induction bs arbitrary: p m)
  case (Cons b bs)
  then have IH: "put (m(p := b)) (p + 1) bs =
      (\<lambda>a. if a \<in> span (p + 1) (length bs) then bs ! unat (a - (p + 1)) else (m(p := b)) a)" by simp
  have "p \<notin> span (p + 1) (length bs)" using not_in_span_next [of "length bs" p] Cons.prems by simp
  then show ?case
    using IH by (auto simp: fun_eq_iff in_span_Suc unat_diff_Suc span_def)
qed simp

lemma put_bytes_at: "length bs < 2 ^ 32 \<Longrightarrow> bytes_at (put m p bs) p bs"
  by (auto simp: bytes_at_nth put_span in_span unat_of_nat_u32)

lemma bytes_at_outside:
  assumes "bytes_at m a xs" "\<And>i. i < length xs \<Longrightarrow> m' (a + of_nat i) = m (a + of_nat i)"
  shows "bytes_at m' a xs"
  using assms by (simp add: bytes_at_nth)

lemma quot_of_nat: "int v sdiv int b = int (v div b)" "int v smod int b = int (v mod b)"
  by (auto simp: signed_divide_int_def signed_modulo_int_def sgn_if zdiv_int zmod_int)

lemma cvt_loop_digits:
  assumes "bytes_at m D hex_digits" "2 \<le> b" "b \<le> 16"
    and "\<And>t. t < length (radix_digits b v) \<Longrightarrow> cp + of_nat t \<notin> span D 16"
  shows "cvt_loop D (int b) (int v) cp m = Some (cp + of_nat (length (radix_digits b v)), put m cp (radix_digits b v))"
  using assms
proof (induction b v arbitrary: cp m rule: radix_digits.induct)
  case (1 b v)
  show ?case
  proof (cases "v = 0")
    case True
    then show ?thesis by (subst cvt_loop.simps) (simp add: radix_digits.simps)
  next
    case False
    then have v: "\<not> (v = 0 \<or> b < 2)" using "1.prems"(2) by simp
    then have ds: "radix_digits b v = hex_digits ! (v mod b) # radix_digits b (v div b)" by (simp add: radix_digits.simps [of b v])
    have "v mod b < 16" using v "1.prems"(3) by (intro less_le_trans [OF mod_less_divisor]) auto
    then have digit: "m (D + of_nat (v mod b)) = hex_digits ! (v mod b)"
      using "1.prems"(1) by (simp add: bytes_at_nth hex_digits_def)
    have "cp \<notin> span D 16" using "1.prems"(4) [of 0] ds by simp
    then have "bytes_at (m(cp := c)) D hex_digits" for c
      using "1.prems"(1) in_span [of _ D 16] by (intro bytes_at_outside [OF "1.prems"(1)]) (auto simp: hex_digits_def)
    moreover have "cp + 1 + of_nat t \<notin> span D 16" if "t < length (radix_digits b (v div b))" for t
      using "1.prems"(4) [of "Suc t"] that ds by (simp add: add.assoc)
    ultimately have "cvt_loop D (int b) (int (v div b)) (cp + 1) (m(cp := hex_digits ! (v mod b))) =
        Some (cp + 1 + of_nat (length (radix_digits b (v div b))),
          put (m(cp := hex_digits ! (v mod b))) (cp + 1) (radix_digits b (v div b)))"
      using "1.IH" [OF v, of "m(cp := hex_digits ! (v mod b))" "cp + 1"] "1.prems"(2,3) by (simp add: fun_upd_def)
    then show ?thesis
      using False by (subst cvt_loop.simps) (simp add: quot_of_nat digit ds add.assoc)
  qed
qed

lemma cvt_copy_reverses:
  assumes "bytes_at m temp xs" "length xs < 2 ^ 32"
    and "\<And>i j. i < length xs \<Longrightarrow> j < length xs \<Longrightarrow> temp + of_nat i \<noteq> buf + of_nat j"
  shows "cvt_copy temp (temp + of_nat (length xs)) buf n m = (buf + of_nat (length xs), n + length xs, put m buf (rev xs))"
  using assms
proof (induction xs arbitrary: buf n m rule: rev_induct)
  case Nil
  then show ?case by (simp add: cvt_copy.simps)
next
  case (snoc x xs)
  have "(of_nat (Suc (length xs)) :: u32) \<noteq> 0"
  proof
    assume "(of_nat (Suc (length xs)) :: u32) = 0"
    then have "unat (of_nat (Suc (length xs)) :: u32) = 0" by (simp only: unat_0)
    then show False using snoc.prems(2) unat_of_nat_u32 [of "Suc (length xs)"] by simp
  qed
  then have ne: "temp + of_nat (length (xs @ [x])) \<noteq> temp" by simp
  have x: "m (temp + of_nat (length xs)) = x" "bytes_at m temp xs"
    using snoc.prems(1) by (simp_all add: bytes_at_append)
  have "bytes_at (m(buf := x)) temp xs"
    using x(2) snoc.prems(3) [of _ 0] by (intro bytes_at_outside [OF x(2)]) auto
  moreover have "temp + of_nat i \<noteq> buf + 1 + of_nat j" if "i < length xs" "j < length xs" for i j
    using snoc.prems(3) [of i "Suc j"] that by (simp add: add.assoc)
  ultimately have "cvt_copy temp (temp + of_nat (length xs)) (buf + 1) (n + 1) (m(buf := x)) =
      (buf + 1 + of_nat (length xs), n + 1 + length xs, put (m(buf := x)) (buf + 1) (rev xs))"
    using snoc.IH [of "m(buf := x)" "buf + 1" "n + 1"] snoc.prems(2) by (simp add: fun_upd_def)
  then show ?case
    using ne x(1) by (subst cvt_copy.simps) (simp add: algebra_simps)
qed

text \<open>The three objects do not overlap, and the table holds the digits.\<close>

definition statics_ok :: "statics \<Rightarrow> mem \<Rightarrow> bool" where
  "statics_ok st m \<longleftrightarrow> bytes_at m (sp_digits st) hex_digits \<and>
     span (sp_temp st) 80 \<inter> span (sp_vpfbuf st) 64 = {} \<and> span (sp_temp st) 80 \<inter> span (sp_digits st) 16 = {} \<and>
     span (sp_vpfbuf st) 64 \<inter> span (sp_digits st) 16 = {}"

lemma sint_bounds: "- (2 ^ 31) \<le> sint w" "sint w < 2 ^ 31" for w :: u32
  using sint_ge [of w] sint_lt [of w] by simp_all

lemma sint_minus_u32:
  fixes w :: u32
  assumes "sint w < 0" "sint w \<noteq> - (2 ^ 31)"
  shows "sint (- w) = - sint w"
proof -
  have "sint (- w) = signed_take_bit 31 (- sint w)" by (simp add: sint_word_ariths)
  also have "\<dots> = - sint w"
    using assms sint_bounds [of w] by (intro signed_take_bit_int_eq_self) simp_all
  finally show ?thesis .
qed

lemma cvt_correct:
  assumes "statics_ok st m" "10 \<le> b" "b \<le> 16" "sint w \<noteq> - (2 ^ 31)"
  obtains m' where "cvt st w (sp_vpfbuf st) (int b) m = Some (int_sign w, length (int_digits b w), m')"
    "bytes_at m' (sp_vpfbuf st) (int_digits b w @ [0])"
    "\<And>a. a \<notin> span (sp_temp st) 80 \<Longrightarrow> a \<notin> span (sp_vpfbuf st) (length (int_digits b w) + 1) \<Longrightarrow> m' a = m a"
proof -
  let ?T = "sp_temp st" and ?V = "sp_vpfbuf st" and ?D = "sp_digits st"
  let ?v = "if sint w < 0 then - w else w"
  define ds where "ds = rev (int_digits b w)"
  have ds: "length ds \<le> 10" using int_digits_facts(2) [OF assms(2,3), of w] by (simp add: ds_def)
  have v: "sint ?v = int (nat \<bar>sint w\<bar>)" "?v = 0 \<longleftrightarrow> w = 0" using sint_minus_u32 [OF _ assms(4)] by auto
  have temp: "?T + of_nat t \<in> span ?T 80" if "t < length ds" for t using that ds by (simp add: in_span)
  have start: "(if ?v = 0 then Some (?T + 1, m(?T := 48)) else cvt_loop ?D (int b) (sint ?v) ?T m) =
      Some (?T + of_nat (length ds), put m ?T ds)"
  proof (cases "w = 0")
    case True
    then show ?thesis by (simp add: ds_def int_digits_def)
  next
    case False
    then have "ds = radix_digits b (nat \<bar>sint w\<bar>)" by (simp add: ds_def int_digits_def)
    moreover have "bytes_at m ?D hex_digits" using assms(1) by (simp add: statics_ok_def)
    moreover have "?T + of_nat t \<notin> span ?D 16" if "t < length ds" for t
      using temp [OF that] assms(1) by (auto simp: statics_ok_def)
    ultimately show ?thesis
      using cvt_loop_digits [of m ?D b "nat \<bar>sint w\<bar>" ?T] assms(2,3) False v by simp
  qed
  have "bytes_at (put m ?T ds) ?T ds" by (rule put_bytes_at) (use ds in simp)
  moreover have "?T + of_nat i \<noteq> ?V + of_nat j" if "i < length ds" "j < length ds" for i j
  proof -
    have "?V + of_nat j \<in> span ?V 64" using that ds by (simp add: in_span)
    then show ?thesis using temp [OF that(1)] assms(1) by (auto simp: statics_ok_def)
  qed
  ultimately have copy: "cvt_copy ?T (?T + of_nat (length ds)) ?V 0 (put m ?T ds) =
      (?V + of_nat (length ds), length ds, put (put m ?T ds) ?V (rev ds))"
    using cvt_copy_reverses [of "put m ?T ds" ?T ds ?V 0] ds by simp
  let ?m = "put (put m ?T ds) ?V (rev ds)"
  let ?m' = "?m(?V + of_nat (length ds) := 0)"
  have sign: "(if sint w < 0 then ([45], - w) else ([], w)) = (int_sign w, ?v)" by (simp add: int_sign_def)
  have "cvt st w ?V (int b) m = Some (int_sign w, length (int_digits b w), ?m')"
    unfolding cvt_def Let_def sign prod.case start option.case copy by (simp add: ds_def)
  moreover have "bytes_at ?m' ?V (int_digits b w @ [0])"
  proof -
    have "bytes_at ?m ?V (rev ds)" by (rule put_bytes_at) (use ds in simp)
    moreover have "?V + of_nat i \<noteq> ?V + of_nat (length ds)" if "i < length ds" for i
    proof
      assume "?V + of_nat i = ?V + of_nat (length ds)"
      then have "unat (of_nat i :: u32) = unat (of_nat (length ds) :: u32)" by simp
      then show False using that ds by (simp add: unat_of_nat_u32)
    qed
    ultimately have "bytes_at ?m' ?V (rev ds)" using bytes_at_outside [of ?m ?V "rev ds" ?m'] by simp
    then show ?thesis by (simp add: bytes_at_append ds_def)
  qed
  moreover have "?m' a = m a" if "a \<notin> span ?T 80" "a \<notin> span ?V (length (int_digits b w) + 1)" for a
  proof -
    have n: "length ds = length (int_digits b w)" by (simp add: ds_def)
    have "?V + of_nat (length ds) \<in> span ?V (length ds + 1)" using ds by (simp add: in_span)
    then have last: "a \<noteq> ?V + of_nat (length ds)" using that(2) n by auto
    have "a \<notin> span ?V (length ds)" "a \<notin> span ?T (length ds)" using that n ds by (auto simp: span_def)
    then have "put m ?T ds a = m a" "?m a = put m ?T ds a"
      using put_span [of ds m ?T] put_span [of "rev ds" "put m ?T ds" ?V] ds by auto
    then show ?thesis using last by simp
  qed
  ultimately show thesis by (rule that)
qed

section \<open>The words of the format\<close>

text \<open>The same as \<open>bp_word\<close> on the list of the bytes of a word.\<close>

primrec bp_bytes :: "statics \<Rightarrow> bytes \<Rightarrow> bp \<Rightarrow> (bool \<times> bp) option" where
  "bp_bytes st [] s = Some (False, s)"
| "bp_bytes st (c # cs) s =
     (if c = 0 then Some (True, s\<lparr>bp_c := 0\<rparr>) else Option.bind (bp_char st (ucast c) s) (bp_bytes st cs))"

lemma word_of_bytes_bit:
  fixes b0 b1 b2 b3 :: u8
  defines "w \<equiv> word_cat (word_cat b0 b1 :: u16) (word_cat b2 b3 :: u16) :: u32"
  assumes "i < 8"
  shows "bit w i = bit b3 i" "bit w (i + 8) = bit b2 i" "bit w (i + 16) = bit b1 i" "bit w (i + 24) = bit b0 i"
  using assms(2) unfolding w_def by (simp_all add: bit_word_cat_iff)

lemma word_bytes:
  fixes b0 b1 b2 b3 :: u8
  defines "w \<equiv> word_cat (word_cat b0 b1 :: u16) (word_cat b2 b3 :: u16) :: u32"
  shows "drop_bit 24 w AND 0xFF = ucast b0" "drop_bit 24 (push_bit 8 w) AND 0xFF = ucast b1"
    "drop_bit 24 (push_bit 8 (push_bit 8 w)) AND 0xFF = ucast b2"
    "drop_bit 24 (push_bit 8 (push_bit 8 (push_bit 8 w))) AND 0xFF = ucast b3"
proof -
  have m: "0xFF = (mask 8 :: u32)" by (simp add: mask_eq_exp_minus_1)
  note bits = word_of_bytes_bit [of _ b0 b1 b2 b3, folded w_def]
  have eq: "x AND mask 8 = ucast b" if "\<And>i. i < 8 \<Longrightarrow> bit x i = bit b i" for x :: u32 and b :: u8
  proof (rule bit_word_eqI)
    show "bit (x AND mask 8) n = bit (ucast b :: u32) n" if "n < LENGTH(32)" for n
      using \<open>\<And>i. i < 8 \<Longrightarrow> bit x i = bit b i\<close> [of n] by (cases "n < 8") (simp_all add: bit_simps impossible_bit)
  qed
  show "drop_bit 24 w AND 0xFF = ucast b0" "drop_bit 24 (push_bit 8 w) AND 0xFF = ucast b1"
    "drop_bit 24 (push_bit 8 (push_bit 8 w)) AND 0xFF = ucast b2"
    "drop_bit 24 (push_bit 8 (push_bit 8 (push_bit 8 w))) AND 0xFF = ucast b3"
    unfolding m by (rule eq; simp add: bit_simps bits add.commute)+
qed

lemma byte_zero: "(ucast c :: u32) = 0 \<longleftrightarrow> c = 0" for c :: u8
proof
  assume "(ucast c :: u32) = 0"
  then have "(ucast (ucast c :: u32) :: u8) = ucast (0 :: u32)" by (rule arg_cong)
  then show "c = 0" by simp
qed simp

lemma bp_word_bytes: "bp_word st 4 (load32 m a) s = bp_bytes st [m a, m (a + 1), m (a + 2), m (a + 3)] s"
proof -
  have step: "bp_word st (Suc i) cs = bp_bytes st (c # bs)"
    if "drop_bit 24 cs AND 0xFF = ucast c" "bp_word st i (push_bit 8 cs) = bp_bytes st bs" for i cs c bs
    by (rule ext) (simp add: that byte_zero Let_def)
  have "bp_word st (Suc (Suc (Suc (Suc 0)))) (load32 m a) = bp_bytes st [m a, m (a + 1), m (a + 2), m (a + 3)]"
    unfolding load32_def by (intro step word_bytes) (simp add: fun_eq_iff)
  moreover have "Suc (Suc (Suc (Suc 0))) = 4" by simp
  ultimately show ?thesis by metis
qed

text \<open>A run over characters of the format in which no conversion overwrites \<open>c\<close> with 0 and the bytes in
  \<open>A\<close>, where the format is, keep their values.\<close>

primrec bp_safe :: "statics \<Rightarrow> u32 set \<Rightarrow> mem \<Rightarrow> bytes \<Rightarrow> bp \<Rightarrow> bp option" where
  "bp_safe st A m0 [] s = Some s"
| "bp_safe st A m0 (c # cs) s =
     Option.bind (bp_char st (ucast c) s)
       (\<lambda>s'. if bp_c s' \<noteq> 0 \<and> (\<forall>a \<in> A. bp_mem s' a = m0 a) then bp_safe st A m0 cs s' else None)"

lemma bp_safe_append: "bp_safe st A m0 (f @ g) s = Option.bind (bp_safe st A m0 f s) (bp_safe st A m0 g)"
  by (induction f arbitrary: s) (auto split: bind_splits)

lemma bp_bytes_safe:
  assumes "bp_safe st A m0 (cs @ rest) s = Some t" "0 \<notin> set cs" "\<forall>a \<in> A. bp_mem s a = m0 a"
  obtains s' where "bp_safe st A m0 rest s' = Some t" "\<forall>a \<in> A. bp_mem s' a = m0 a" "cs \<noteq> [] \<Longrightarrow> bp_c s' \<noteq> 0"
    "\<And>junk. bp_bytes st (cs @ 0 # junk) s = Some (True, s'\<lparr>bp_c := 0\<rparr>)" "bp_bytes st cs s = Some (False, s')"
proof -
  have "\<exists>s'. bp_safe st A m0 rest s' = Some t \<and> (\<forall>a \<in> A. bp_mem s' a = m0 a) \<and> (cs \<noteq> [] \<longrightarrow> bp_c s' \<noteq> 0) \<and>
    (\<forall>junk. bp_bytes st (cs @ 0 # junk) s = Some (True, s'\<lparr>bp_c := 0\<rparr>)) \<and> bp_bytes st cs s = Some (False, s')"
    using assms
  proof (induction cs arbitrary: s)
    case (Cons c cs)
    obtain s1 where s1: "bp_char st (ucast c) s = Some s1" "bp_c s1 \<noteq> 0" "\<forall>a \<in> A. bp_mem s1 a = m0 a"
      "bp_safe st A m0 (cs @ rest) s1 = Some t"
      using Cons.prems(1) by (auto split: bind_splits if_splits)
    obtain s' where "bp_safe st A m0 rest s' = Some t" "\<forall>a \<in> A. bp_mem s' a = m0 a" "cs \<noteq> [] \<longrightarrow> bp_c s' \<noteq> 0"
      "\<forall>junk. bp_bytes st (cs @ 0 # junk) s1 = Some (True, s'\<lparr>bp_c := 0\<rparr>)" "bp_bytes st cs s1 = Some (False, s')"
      using Cons.IH [OF s1(4) _ s1(3)] Cons.prems(2) by auto
    moreover have "cs = [] \<longrightarrow> s' = s1" using calculation(5) by auto
    ultimately show ?case using s1(1,2) Cons.prems(2) by (intro exI [of _ s']) auto
  qed simp
  then show thesis using that by blast
qed

lemma bp_loop_short:
  assumes "bp_safe st A m0 f s = Some t" "c_string m0 p f" "\<And>i. i \<le> length f \<Longrightarrow> p + of_nat i \<in> A"
    "\<forall>a \<in> A. bp_mem s a = m0 a" "length f < 4"
  shows "bp_loop st p s = Some (Some (bp_res t), t\<lparr>bp_c := 0\<rparr>)"
proof -
  have m: "bp_mem s (p + of_nat i) = (f @ [0]) ! i" if "i \<le> length f" for i
  proof -
    have "m0 (p + of_nat i) = (f @ [0]) ! i" using assms(2) that by (auto simp: c_string_nth nth_append)
    then show ?thesis using assms(3) [OF that] assms(4) by simp
  qed
  have "\<exists>junk. [bp_mem s p, bp_mem s (p + 1), bp_mem s (p + 2), bp_mem s (p + 3)] = f @ 0 # junk"
  proof -
    have "length f = 0 \<or> length f = 1 \<or> length f = 2 \<or> length f = 3" using assms(5) by linarith
    then show ?thesis
      using m [of 0] m [of 1] m [of 2] m [of 3] by (auto simp: length_Suc_conv numeral_eq_Suc)
  qed
  then obtain junk where word: "[bp_mem s p, bp_mem s (p + 1), bp_mem s (p + 2), bp_mem s (p + 3)] = f @ 0 # junk" by blast
  have run: "bp_safe st A m0 (f @ []) s = Some t" using assms(1) by simp
  have nz: "0 \<notin> set f" using assms(2) by (simp add: c_string_bytes_at)
  obtain s' where "bp_safe st A m0 [] s' = Some t" "bp_bytes st (f @ 0 # junk) s = Some (True, s'\<lparr>bp_c := 0\<rparr>)"
    by (rule bp_bytes_safe [OF run nz assms(4)]) blast
  then have "bp_word st 4 (load32 (bp_mem s) p) s = Some (True, t\<lparr>bp_c := 0\<rparr>)" unfolding bp_word_bytes word by simp
  then show ?thesis by (subst bp_loop.simps) simp
qed

fun by_words :: "bytes \<Rightarrow> nat" where
  "by_words (a # b # c # d # f) = Suc (by_words f)"
| "by_words f = 0"

lemma bp_loop_safe:
  assumes "bp_safe st A m0 f s = Some t" "c_string m0 p f" "\<And>i. i \<le> length f \<Longrightarrow> p + of_nat i \<in> A"
    "\<forall>a \<in> A. bp_mem s a = m0 a"
  shows "bp_loop st p s = Some (Some (bp_res t), t\<lparr>bp_c := 0\<rparr>)"
  using assms
proof (induction f arbitrary: p s rule: by_words.induct)
  case (1 a b c d f)
  have A: "p + of_nat i \<in> A" if "i \<le> 4" for i using "1.prems"(3) [of i] that by simp
  have m: "bp_mem s p = a" "bp_mem s (p + 1) = b" "bp_mem s (p + 2) = c" "bp_mem s (p + 3) = d"
    using A [of 0] A [of 1] A [of 2] A [of 3] "1.prems"(2,4) by (simp_all add: add.assoc)
  have nz: "0 \<notin> set [a, b, c, d]" using "1.prems"(2) by auto
  have run: "bp_safe st A m0 ([a, b, c, d] @ f) s = Some t" using "1.prems"(1) by simp
  obtain s' where s': "bp_safe st A m0 f s' = Some t" "\<forall>a \<in> A. bp_mem s' a = m0 a" "bp_c s' \<noteq> 0"
    "bp_bytes st [a, b, c, d] s = Some (False, s')"
    by (rule bp_bytes_safe [OF run nz "1.prems"(4)]) simp
  have "c_string m0 (p + 4) f" using "1.prems"(2) by (simp add: add.assoc)
  moreover have "p + 4 + of_nat i \<in> A" if "i \<le> length f" for i
    using "1.prems"(3) [of "i + 4"] that by (simp add: ac_simps)
  ultimately have "bp_loop st (p + 4) s' = Some (Some (bp_res t), t\<lparr>bp_c := 0\<rparr>)"
    using "1.IH" [OF s'(1)] s'(2) by blast
  moreover have "bp_word st 4 (load32 (bp_mem s) p) s = Some (False, s')"
    using s'(4) unfolding bp_word_bytes m .
  ultimately show ?case using s'(3) by (subst bp_loop.simps) simp
qed (auto intro!: bp_loop_short simp del: bp_safe.simps c_string.simps)

section \<open>Text and numbers\<close>

definition plain_text :: "bytes \<Rightarrow> bool" where
  "plain_text t \<longleftrightarrow> 0 \<notin> set t \<and> 37 \<notin> set t"

lemma ucast_char_neq:
  fixes c :: u8
  shows "(ucast c :: u32) = 37 \<longleftrightarrow> c = 37"
proof
  assume "(ucast c :: u32) = 37"
  then have "(ucast (ucast c :: u32) :: u8) = ucast (37 :: u32)" by (rule arg_cong)
  then show "c = 37" by simp
qed simp

lemma bp_safe_plain:
  assumes "plain_text cs" "\<not> bp_nextfmt s" "\<forall>a \<in> A. bp_mem s a = m0 a"
  obtains c where "bp_safe st A m0 cs s = Some (s\<lparr>bp_c := c, bp_out := bp_out s @ cs, bp_res := bp_res s + int (length cs)\<rparr>)"
proof -
  have "\<exists>c. bp_safe st A m0 cs s = Some (s\<lparr>bp_c := c, bp_out := bp_out s @ cs, bp_res := bp_res s + int (length cs)\<rparr>)"
    using assms
  proof (induction cs arbitrary: s)
    case Nil
    then show ?case by (intro exI [of _ "bp_c s"]) simp
  next
    case (Cons c cs)
    let ?s = "s\<lparr>bp_c := ucast c, bp_res := bp_res s + 1, bp_out := bp_out s @ [c]\<rparr>"
    have "bp_char st (ucast c) s = Some ?s"
      using Cons.prems(1,2) by (simp add: bp_char_def bp_putchar_def plain_text_def ucast_char_neq Let_def)
    moreover have "(ucast c :: u32) \<noteq> 0" using Cons.prems(1) by (auto simp: plain_text_def byte_zero)
    moreover obtain d where "bp_safe st A m0 cs ?s =
        Some (?s\<lparr>bp_c := d, bp_out := bp_out ?s @ cs, bp_res := bp_res ?s + int (length cs)\<rparr>)"
      using Cons.IH [of ?s] Cons.prems by (auto simp: plain_text_def)
    ultimately show ?case using Cons.prems(3) by (intro exI [of _ d]) simp
  qed
  then show thesis using that by blast
qed

lemma ucast_scast: "ucast (scast c :: u32) = c" for c :: u8
  by (rule bit_word_eqI) (simp add: bit_ucast_iff bit_signed_iff)

lemma scast_nonzero: "c \<noteq> 0 \<Longrightarrow> (scast c :: u32) \<noteq> 0" for c :: u8
proof
  assume "c \<noteq> 0" "(scast c :: u32) = 0"
  then have "ucast (scast c :: u32) = (0 :: u8)" by simp
  then show False using \<open>c \<noteq> 0\<close> by (simp add: ucast_scast)
qed

lemma print_chars_bytes:
  assumes "bytes_at (bp_mem s) (bp_cp s) xs"
  shows "print_chars (length xs) s =
    s\<lparr>bp_c := (if xs = [] then bp_c s else scast (last xs)), bp_cp := bp_cp s + of_nat (length xs),
      bp_res := bp_res s + int (length xs), bp_out := bp_out s @ xs\<rparr>"
  using assms
proof (induction xs arbitrary: s)
  case (Cons x xs)
  let ?s = "s\<lparr>bp_c := scast x, bp_cp := bp_cp s + 1, bp_out := bp_out s @ [x], bp_res := bp_res s + 1\<rparr>"
  have "print_chars (length (x # xs)) s = print_chars (length xs) ?s"
    using Cons.prems by (simp add: Let_def bp_putchar_def ucast_scast)
  also have "\<dots> = ?s\<lparr>bp_c := (if xs = [] then bp_c ?s else scast (last xs)), bp_cp := bp_cp ?s + of_nat (length xs),
      bp_res := bp_res ?s + int (length xs), bp_out := bp_out ?s @ xs\<rparr>"
    using Cons.prems by (intro Cons.IH) simp
  finally show ?case by (simp add: add.assoc)
qed simp

text \<open>The conversions of numbers by their character.\<close>

definition number_format :: "u8 \<Rightarrow> nat \<Rightarrow> bool" where
  "number_format c b \<longleftrightarrow> c = 100 \<and> b = 10 \<or> c = 120 \<and> b = 16"

lemma number_formatD: "number_format c b \<Longrightarrow> 10 \<le> b \<and> b \<le> 16 \<and> c \<noteq> 0"
  by (auto simp: number_format_def)

text \<open>What a conversion prints starts at \<open>cp\<close>, wherever that is.\<close>

lemma bp_safe_number:
  assumes "number_format k b" "statics_ok st (bp_mem s)" "\<not> bp_nextfmt s" "sint (bp_ap s 0) \<noteq> - (2 ^ 31)"
    and mem: "\<forall>a \<in> A. bp_mem s a = m0 a" "A \<inter> (span (sp_temp st) 80 \<union> span (sp_vpfbuf st) 64) = {}"
    and w: "w = bp_ap s 0" "ds = int_digits b w"
  obtains m' where "bytes_at m' (sp_vpfbuf st) (ds @ [0])"
    "\<And>a. a \<notin> span (sp_temp st) 80 \<Longrightarrow> a \<notin> span (sp_vpfbuf st) (length ds + 1) \<Longrightarrow> m' a = bp_mem s a"
    "\<And>xs. bytes_at m' (bp_cp s) xs \<Longrightarrow> length xs = length ds \<Longrightarrow> last xs \<noteq> 0 \<Longrightarrow>
      bp_safe st A m0 [37, k] s = Some (s\<lparr>bp_c := scast (last xs), bp_cp := bp_cp s + of_nat (length ds),
        bp_res := bp_res s + int (length ds), bp_ap := \<lambda>i. bp_ap s (i + 1), bp_out := bp_out s @ int_sign w @ xs, bp_mem := m'\<rparr>)"
    "\<And>xs. bytes_at m' (bp_cp s) xs \<Longrightarrow> length xs = length ds \<Longrightarrow>
      bp_char st (ucast k) (s\<lparr>bp_c := 37, bp_nextfmt := True\<rparr>) = Some (s\<lparr>bp_c := scast (last xs), bp_cp := bp_cp s + of_nat (length ds),
        bp_res := bp_res s + int (length ds), bp_ap := \<lambda>i. bp_ap s (i + 1), bp_out := bp_out s @ int_sign w @ xs, bp_mem := m'\<rparr>)"
proof -
  have k: "10 \<le> b" "b \<le> 16" "k \<noteq> 0" using number_formatD [OF assms(1)] by simp_all
  have ne: "sint w \<noteq> - (2 ^ 31)" using assms(4) w(1) by simp
  obtain m' where m': "cvt st w (sp_vpfbuf st) (int b) (bp_mem s) = Some (int_sign w, length ds, m')"
    "bytes_at m' (sp_vpfbuf st) (ds @ [0])"
    "\<And>a. a \<notin> span (sp_temp st) 80 \<Longrightarrow> a \<notin> span (sp_vpfbuf st) (length ds + 1) \<Longrightarrow> m' a = bp_mem s a"
    using cvt_correct [OF assms(2) k(1,2) ne] unfolding w(2) by metis
  let ?s = "\<lambda>xs. s\<lparr>bp_c := scast (last xs), bp_cp := bp_cp s + of_nat (length ds),
        bp_res := bp_res s + int (length ds), bp_ap := \<lambda>i. bp_ap s (i + 1), bp_out := bp_out s @ int_sign w @ xs, bp_mem := m'\<rparr>"
  have ds: "length ds \<le> 10" "ds \<noteq> []" using int_digits_facts(1,2) [OF k(1,2)] w(2) by simp_all
  let ?s1 = "s\<lparr>bp_c := 37, bp_nextfmt := True\<rparr>"
  have percent: "bp_char st (ucast (37 :: u8)) s = Some ?s1" using assms(3) by (simp add: bp_char_def Let_def)
  have number: "bp_char st (ucast k) ?s1 = Some (?s xs)" if "bytes_at m' (bp_cp s) xs" "length xs = length ds" for xs
  proof -
    let ?s2 = "s\<lparr>bp_c := ucast k, bp_nextfmt := False\<rparr>"
    have "bp_char st (ucast k) ?s1 = bp_number st (int b) ?s2"
      using assms(1) by (auto simp: bp_char_def bp_conversion_def number_format_def Let_def)
    also have "\<dots> = Some (print_chars (length xs)
        (?s2\<lparr>bp_ap := \<lambda>i. bp_ap s (i + 1), bp_out := bp_out s @ int_sign w, bp_mem := m'\<rparr>))"
      using m'(1) w(1) that(2) by (simp add: bp_number_def va_int_def)
    also have "\<dots> = Some (?s xs)"
      using that ds(2) assms(3) by (subst print_chars_bytes) auto
    finally show ?thesis .
  qed
  have "\<forall>a \<in> A. m' a = m0 a"
  proof
    fix a
    assume "a \<in> A"
    then have "a \<notin> span (sp_temp st) 80" "a \<notin> span (sp_vpfbuf st) (length ds + 1)" "bp_mem s a = m0 a"
      using mem ds(1) by (auto simp: span_def)
    then show "m' a = m0 a" using m'(3) by simp
  qed
  then have "bp_safe st A m0 [37, k] s = Some (?s xs)"
    if "bytes_at m' (bp_cp s) xs" "length xs = length ds" "last xs \<noteq> 0" for xs
    using percent number [OF that(1,2)] mem(1) scast_nonzero [OF that(3)] by simp
  then show thesis using that m'(2,3) number by blast
qed

lemma statics_ok_outside:
  assumes "statics_ok st m" "\<And>a. a \<notin> span (sp_temp st) 80 \<Longrightarrow> a \<notin> span (sp_vpfbuf st) 64 \<Longrightarrow> m' a = m a"
  shows "statics_ok st m'"
proof -
  have "m' (sp_digits st + of_nat i) = m (sp_digits st + of_nat i)" if "i < 16" for i
  proof -
    have "sp_digits st + of_nat i \<in> span (sp_digits st) 16" using that by (simp add: in_span)
    then show ?thesis using assms by (auto simp: statics_ok_def)
  qed
  then have "bytes_at m' (sp_digits st) hex_digits"
    using assms(1) bytes_at_outside [of m "sp_digits st" hex_digits m'] by (simp add: statics_ok_def hex_digits_def)
  then show ?thesis using assms(1) by (simp add: statics_ok_def)
qed

lemma hex_digit_value: "i < 16 \<Longrightarrow> digitval (sint (hex_digits ! i)) = int i"
  by (auto simp: hex_digits_def digitval_def less_Suc_eq numeral_eq_Suc [of "Num.Bit0 _"] numeral_eq_Suc [of "Num.Bit1 _"])

lemma radix_digits_value:
  assumes "2 \<le> b" "b \<le> 16"
  shows "digits_value b (rev (radix_digits b v)) = v"
  using assms
proof (induction b v rule: radix_digits.induct)
  case (1 b v)
  show ?case
  proof (cases "v = 0")
    case False
    then have v: "\<not> (v = 0 \<or> b < 2)" using "1.prems"(1) by simp
    then have "v mod b < 16" using "1.prems"(2) by (intro less_le_trans [OF mod_less_divisor]) auto
    then show ?thesis
      using v "1.IH" [OF v "1.prems"] by (subst radix_digits.simps) (simp add: digits_value_snoc hex_digit_value)
  qed (simp add: radix_digits.simps digits_value_def)
qed

lemma int_digits_value: "2 \<le> b \<Longrightarrow> b \<le> 16 \<Longrightarrow> digits_value b (int_digits b w) = nat \<bar>sint w\<bar>"
  by (simp add: int_digits_def radix_digits_value) (simp add: digits_value_def digitval_def)

section \<open>Properties\<close>

definition format_ok :: "statics \<Rightarrow> u32 \<Rightarrow> bytes \<Rightarrow> mem \<Rightarrow> bool" where
  "format_ok st fmt f m \<longleftrightarrow> statics_ok st m \<and> c_string m fmt f \<and> length f + 1 < 2 ^ 32 \<and>
     span fmt (length f + 1) \<inter> (span (sp_temp st) 80 \<union> span (sp_vpfbuf st) 64) = {}"

text \<open>
  C10. The console prints a number: a format of plain text around one \<open>%d\<close> or \<open>%x\<close> prints the text with the
  sign and the digits of the argument in its place, for every argument but the smallest; the result counts
  the characters without the sign.
\<close>

theorem small_printf_prints_number:
  assumes "format_ok st fmt (pre @ [37, k] @ post) m" "plain_text pre" "plain_text post" "number_format k b"
    and "sint (ap 0) \<noteq> - (2 ^ 31)"
  shows "\<exists>ds m'. small_printf st fmt ap m =
      Some (Some (int (length (pre @ ds @ post))), pre @ (if sint (ap 0) < 0 then [45] else []) @ ds @ post, m') \<and>
    ds \<noteq> [] \<and> digits_value b ds = nat \<bar>sint (ap 0)\<bar>"
proof -
  define A where "A = span fmt (length (pre @ [37, k] @ post) + 1)"
  define w where "w = ap 0"
  define ds where "ds = int_digits b w"
  have f: "statics_ok st m" "c_string m fmt (pre @ [37, k] @ post)"
    "A \<inter> (span (sp_temp st) 80 \<union> span (sp_vpfbuf st) 64) = {}" "length (pre @ [37, k] @ post) + 1 < 2 ^ 32"
    using assms(1) by (simp_all add: format_ok_def A_def)
  have b: "10 \<le> b" "b \<le> 16" using number_formatD [OF assms(4)] by simp_all
  note facts = int_digits_facts [OF b, where w = w, folded ds_def]
  let ?s0 = "bp_init st 0 ap m"
  obtain c1 where c1: "bp_safe st A m pre ?s0 =
      Some (?s0\<lparr>bp_c := c1, bp_out := bp_out ?s0 @ pre, bp_res := bp_res ?s0 + int (length pre)\<rparr>)"
    by (rule bp_safe_plain [OF assms(2), of ?s0 A m st]) (simp_all add: bp_init_def)
  define s1 where "s1 = ?s0\<lparr>bp_c := c1, bp_out := bp_out ?s0 @ pre, bp_res := bp_res ?s0 + int (length pre)\<rparr>"
  have s1: "\<not> bp_nextfmt s1" "bp_mem s1 = m" "bp_ap s1 = ap" "bp_cp s1 = sp_vpfbuf st" "bp_out s1 = pre"
    "bp_res s1 = int (length pre)" by (simp_all add: s1_def bp_init_def)
  obtain m' where m': "bytes_at m' (sp_vpfbuf st) (ds @ [0])"
    "\<And>a. a \<notin> span (sp_temp st) 80 \<Longrightarrow> a \<notin> span (sp_vpfbuf st) (length ds + 1) \<Longrightarrow> m' a = m a"
    and run: "\<And>xs. bytes_at m' (sp_vpfbuf st) xs \<Longrightarrow> length xs = length ds \<Longrightarrow> last xs \<noteq> 0 \<Longrightarrow>
      bp_safe st A m [37, k] s1 = Some (s1\<lparr>bp_c := scast (last xs), bp_cp := bp_cp s1 + of_nat (length ds),
        bp_res := bp_res s1 + int (length ds), bp_ap := \<lambda>i. bp_ap s1 (i + 1), bp_out := bp_out s1 @ int_sign w @ xs, bp_mem := m'\<rparr>)"
    by (rule bp_safe_number [OF assms(4), of st s1 A m w ds]) (use f s1 assms(5) in \<open>simp_all add: w_def ds_def\<close>)
  define s2 where "s2 = s1\<lparr>bp_c := scast (last ds), bp_cp := bp_cp s1 + of_nat (length ds),
        bp_res := bp_res s1 + int (length ds), bp_ap := \<lambda>i. bp_ap s1 (i + 1), bp_out := bp_out s1 @ int_sign w @ ds, bp_mem := m'\<rparr>"
  have s2: "bp_safe st A m [37, k] s1 = Some s2"
    unfolding s2_def using m'(1) facts(1) facts(3) [of "last ds"] by (intro run) (simp_all add: bytes_at_append)
  have A: "\<forall>a \<in> A. bp_mem s2 a = m a"
  proof
    fix a
    assume "a \<in> A"
    then have "a \<notin> span (sp_temp st) 80" "a \<notin> span (sp_vpfbuf st) (length ds + 1)"
      using f(3) facts(2) by (auto simp: span_def)
    then show "bp_mem s2 a = m a" using m'(2) by (simp add: s2_def)
  qed
  obtain c3 where "bp_safe st A m post s2 =
      Some (s2\<lparr>bp_c := c3, bp_out := bp_out s2 @ post, bp_res := bp_res s2 + int (length post)\<rparr>)"
    by (rule bp_safe_plain [OF assms(3), of s2 A m st]) (use A s1(1) in \<open>simp_all add: s2_def\<close>)
  then have "bp_safe st A m (pre @ [37, k] @ post) ?s0 =
      Some (s2\<lparr>bp_c := c3, bp_out := bp_out s2 @ post, bp_res := bp_res s2 + int (length post)\<rparr>)"
    using c1 s2 unfolding s1_def [symmetric] by (simp only: bp_safe_append bind.bind_lunit)
  moreover have "fmt + of_nat i \<in> A" if "i \<le> length (pre @ [37, k] @ post)" for i
    using that f(4) by (simp add: A_def in_span)
  ultimately have "bp_loop st fmt ?s0 = Some (Some (bp_res s2 + int (length post)),
      s2\<lparr>bp_c := 0, bp_out := bp_out s2 @ post, bp_res := bp_res s2 + int (length post)\<rparr>)"
    using bp_loop_safe [of st A m "pre @ [37, k] @ post" ?s0 _ fmt] f(2) by (simp add: bp_init_def)
  then have "small_printf st fmt ap m = Some (Some (int (length (pre @ ds @ post))), pre @ int_sign w @ ds @ post, m')"
    by (simp add: small_printf_def s2_def s1)
  then show ?thesis
    using facts(1) int_digits_value [of b w] b by (auto simp: int_sign_def w_def ds_def)
qed

text \<open>A memory with the table of digits and a format.\<close>

definition sample_statics :: statics where
  "sample_statics = \<lparr>sp_vpfbuf = 0x300, sp_temp = 0x200, sp_digits = 0x100\<rparr>"

definition sample_console :: "bytes \<Rightarrow> mem" where
  "sample_console f = put (put (\<lambda>_. 0) 0x100 hex_digits) 0x400 (f @ [0])"

lemma sample_console_ok:
  assumes "0 \<notin> set f" "length f < 256"
  shows "format_ok sample_statics 0x400 f (sample_console f)"
proof -
  have len: "length (f @ [0]) < 2 ^ 32" "length hex_digits < 2 ^ 32" using assms(2) by (simp_all add: hex_digits_def)
  have far: "span 0x100 16 \<inter> span 0x400 (length f + 1) = {}" by (rule span_disjoint) (use assms(2) in simp_all)
  have "c_string (sample_console f) 0x400 f"
    unfolding c_string_bytes_at sample_console_def using put_bytes_at [OF len(1)] assms(1) by simp
  moreover have "bytes_at (sample_console f) 0x100 hex_digits"
  proof -
    have "sample_console f (0x100 + of_nat i) = put (\<lambda>_. 0) 0x100 hex_digits (0x100 + of_nat i)" if "i < 16" for i
    proof -
      have "0x100 + of_nat i \<in> span 0x100 16" using that in_span [of i "0x100" 16] by simp
      then have "0x100 + of_nat i \<notin> span 0x400 (length (f @ [0]))" using far by auto
      then show ?thesis using put_span [OF len(1), of "put (\<lambda>_. 0) 0x100 hex_digits" "0x400"] by (simp add: sample_console_def)
    qed
    then show ?thesis
      using bytes_at_outside [OF put_bytes_at [OF len(2), of "\<lambda>_. 0" "0x100"], of "sample_console f"]
      by (simp add: hex_digits_def)
  qed
  moreover have "span 0x200 80 \<inter> span 0x300 64 = ({} :: u32 set)" "span 0x200 80 \<inter> span 0x100 16 = ({} :: u32 set)"
    "span 0x300 64 \<inter> span 0x100 16 = ({} :: u32 set)"
    "span 0x400 (length f + 1) \<inter> span 0x200 80 = {}" "span 0x400 (length f + 1) \<inter> span 0x300 64 = {}"
    using span_disjoint [of "0x200 :: u32" 80 "0x300" 64] span_disjoint [of "0x100 :: u32" 16 "0x200" 80]
      span_disjoint [of "0x100 :: u32" 16 "0x300" 64] span_disjoint [of "0x200 :: u32" 80 "0x400" "length f + 1"]
      span_disjoint [of "0x300 :: u32" 64 "0x400" "length f + 1"] assms(2) by (auto simp: Int_commute)
  ultimately show ?thesis
    using assms(2) by (simp add: format_ok_def statics_ok_def sample_statics_def Int_Un_distrib)
qed

lemma small_printf_prints_number_witness:
  "\<exists>ds m'. small_printf sample_statics 0x400 (\<lambda>_. - 42) (sample_console [78, 61, 37, 100, 10]) =
     Some (Some (int (length ds) + 3), [78, 61, 45] @ ds @ [10], m') \<and> digits_value 10 ds = 42"
proof -
  have "format_ok sample_statics 0x400 ([78, 61] @ [37, 100] @ [10]) (sample_console [78, 61, 37, 100, 10])"
    using sample_console_ok [of "[78, 61, 37, 100, 10]"] by simp
  moreover have "plain_text [78, 61]" "plain_text [10]" "number_format 100 10"
    by (simp_all add: plain_text_def number_format_def)
  ultimately obtain ds m' where "small_printf sample_statics 0x400 (\<lambda>_. - 42) (sample_console [78, 61, 37, 100, 10]) =
      Some (Some (int (length ([78, 61] @ ds @ [10]))), [78, 61] @ [45] @ ds @ [10], m')" "digits_value 10 ds = 42"
    using small_printf_prints_number [of sample_statics "0x400" "[78, 61]" 100 "[10]" "sample_console [78, 61, 37, 100, 10]" 10 "\<lambda>_. - 42"] by auto
  then show ?thesis by (intro exI [of _ ds] exI [of _ m']) simp
qed

text \<open>
  C11. A second number in a format prints what is behind the first: with \<open>%d %d\<close> and two numbers of the same
  length, the digits of the second are not printed, but a NUL and what the buffer held before.
\<close>

theorem second_number_is_stale:
  assumes "format_ok st fmt [37, 100, 32, 37, 100] m"
    and "sint (ap 0) \<noteq> - (2 ^ 31)" "sint (ap 1) \<noteq> - (2 ^ 31)" "length (int_digits 10 (ap 0)) = n" "length (int_digits 10 (ap 1)) = n"
  shows "\<exists>r m'. small_printf st fmt ap m = Some (Some r, int_sign (ap 0) @ int_digits 10 (ap 0) @ [32] @
    int_sign (ap 1) @ [0] @ map (\<lambda>i. m (sp_vpfbuf st + of_nat i)) [n + 1..<2 * n], m')"
proof -
  let ?f = "[37, 100, 32, 37, 100] :: bytes"
  define A where "A = span fmt (length ?f + 1)"
  define ds where "ds i = int_digits 10 (ap i)" for i
  have f: "statics_ok st m" "c_string m fmt ?f" "A \<inter> (span (sp_temp st) 80 \<union> span (sp_vpfbuf st) 64) = {}"
    using assms(1) by (simp_all add: format_ok_def A_def)
  have d: "number_format 100 10" by (simp add: number_format_def)
  have n: "length (ds 0) = n" "length (ds 1) = n" using assms(4,5) by (simp_all add: ds_def)
  have n10: "n \<le> 10" "n \<noteq> 0" "last (ds 0) \<noteq> 0"
    using int_digits_facts(1,2) [of 10 "ap 0"] int_digits_facts(3) [of 10 "last (ds 0)" "ap 0"] n(1) by (auto simp: ds_def)
  let ?s0 = "bp_init st 0 ap m"
  obtain m2 where m2: "bytes_at m2 (sp_vpfbuf st) (ds 0 @ [0])"
    "\<And>a. a \<notin> span (sp_temp st) 80 \<Longrightarrow> a \<notin> span (sp_vpfbuf st) (length (ds 0) + 1) \<Longrightarrow> m2 a = m a"
    and run2: "\<And>xs. bytes_at m2 (bp_cp ?s0) xs \<Longrightarrow> length xs = length (ds 0) \<Longrightarrow> last xs \<noteq> 0 \<Longrightarrow>
      bp_safe st A m [37, 100] ?s0 = Some (?s0\<lparr>bp_c := scast (last xs), bp_cp := bp_cp ?s0 + of_nat (length (ds 0)),
        bp_res := bp_res ?s0 + int (length (ds 0)), bp_ap := \<lambda>i. bp_ap ?s0 (i + 1),
        bp_out := bp_out ?s0 @ int_sign (ap 0) @ xs, bp_mem := m2\<rparr>)"
    by (rule bp_safe_number [OF d, of st ?s0 A m "ap 0" "ds 0"]) (use f assms(2) in \<open>simp_all add: bp_init_def ds_def\<close>)
  define s2 where "s2 = ?s0\<lparr>bp_c := scast (last (ds 0)), bp_cp := bp_cp ?s0 + of_nat (length (ds 0)),
        bp_res := bp_res ?s0 + int (length (ds 0)), bp_ap := \<lambda>i. bp_ap ?s0 (i + 1),
        bp_out := bp_out ?s0 @ int_sign (ap 0) @ ds 0, bp_mem := m2\<rparr>"
  have s2: "bp_safe st A m [37, 100] ?s0 = Some s2"
    unfolding s2_def using m2(1) n10(3) by (intro run2) (simp_all add: bytes_at_append bp_init_def)
  have A2: "\<forall>a \<in> A. m2 a = m a"
  proof
    fix a
    assume "a \<in> A"
    then have "a \<notin> span (sp_temp st) 80" "a \<notin> span (sp_vpfbuf st) (length (ds 0) + 1)"
      using f(3) n10(1) n by (auto simp: span_def)
    then show "m2 a = m a" by (rule m2(2))
  qed
  define s3 where "s3 = s2\<lparr>bp_c := 37, bp_res := bp_res s2 + 1, bp_out := bp_out s2 @ [32]\<rparr>"
  have "bp_safe st A m [32, 37] s2 = Some (s3\<lparr>bp_nextfmt := True\<rparr>)"
    using A2 by (simp add: bp_char_def bp_putchar_def Let_def s3_def s2_def bp_init_def)
  then have run: "bp_safe st A m ([37, 100, 32, 37] @ []) ?s0 = Some (s3\<lparr>bp_nextfmt := True\<rparr>)"
    using s2 bp_safe_append [of st A m "[37, 100]" "[32, 37]" ?s0] by simp
  obtain s' where "bp_safe st A m [] s' = Some (s3\<lparr>bp_nextfmt := True\<rparr>)" "bp_bytes st [37, 100, 32, 37] ?s0 = Some (False, s')"
    by (rule bp_bytes_safe [OF run]) (auto simp: bp_init_def)
  moreover have "m fmt = 37" "m (fmt + 1) = 100" "m (fmt + 2) = 32" "m (fmt + 3) = 37" "m (fmt + 4) = 100" "m (fmt + 5) = 0"
    using f(2) by (simp_all add: add.assoc)
  ultimately have word1: "bp_word st 4 (load32 (bp_mem ?s0) fmt) ?s0 = Some (False, s3\<lparr>bp_nextfmt := True\<rparr>)"
    and format: "m (fmt + 4) = 100" "m (fmt + 5) = 0"
    by (simp_all add: bp_word_bytes bp_init_def)
  have s3: "\<not> bp_nextfmt s3" "bp_ap s3 0 = ap 1" "bp_cp s3 = sp_vpfbuf st + of_nat n" "bp_mem s3 = m2"
    "bp_out s3 = int_sign (ap 0) @ ds 0 @ [32]" "bp_c s3 = 37"
    by (simp_all add: s3_def s2_def bp_init_def n)
  have "statics_ok st m2"
    by (rule statics_ok_outside [OF f(1)], rule m2(2)) (use n10(1) n in \<open>auto simp: span_def\<close>)
  obtain m3 where m3: "bytes_at m3 (sp_vpfbuf st) (ds 1 @ [0])"
    "\<And>a. a \<notin> span (sp_temp st) 80 \<Longrightarrow> a \<notin> span (sp_vpfbuf st) (length (ds 1) + 1) \<Longrightarrow> m3 a = m2 a"
    and run3: "\<And>xs. bytes_at m3 (bp_cp s3) xs \<Longrightarrow> length xs = length (ds 1) \<Longrightarrow>
      bp_char st (ucast (100 :: u8)) (s3\<lparr>bp_c := 37, bp_nextfmt := True\<rparr>) = Some (s3\<lparr>bp_c := scast (last xs), bp_cp := bp_cp s3 + of_nat (length (ds 1)),
        bp_res := bp_res s3 + int (length (ds 1)), bp_ap := \<lambda>i. bp_ap s3 (i + 1),
        bp_out := bp_out s3 @ int_sign (ap 1) @ xs, bp_mem := m3\<rparr>)"
    by (rule bp_safe_number [OF d, of st s3 A m2 "ap 1" "ds 1"]) (use \<open>statics_ok st m2\<close> f s3 assms(3) in \<open>simp_all add: ds_def\<close>)
  define xs where "xs = 0 # map (\<lambda>i. m (sp_vpfbuf st + of_nat i)) [n + 1..<2 * n]"
  have xs: "length xs = length (ds 1)" using n n10(2) by (simp add: xs_def)
  have "bytes_at m3 (sp_vpfbuf st + of_nat n) xs"
  proof -
    have "m3 (sp_vpfbuf st + of_nat n + of_nat j) = xs ! j" if "j < length xs" for j
    proof (cases j)
      case 0
      then show ?thesis using m3(1) n by (simp add: bytes_at_append xs_def)
    next
      case (Suc i)
      have e: "sp_vpfbuf st + of_nat n + of_nat j = sp_vpfbuf st + of_nat (n + j)" by simp
      have j: "n + j < 20" using that xs n n10(1) by simp
      then have "sp_vpfbuf st + of_nat (n + j) \<in> span (sp_vpfbuf st) 64" by (simp add: in_span del: of_nat_add)
      then have "sp_vpfbuf st + of_nat (n + j) \<notin> span (sp_temp st) 80" using f(1) by (auto simp: statics_ok_def)
      moreover have "sp_vpfbuf st + of_nat (n + j) \<notin> span (sp_vpfbuf st) (n + 1)"
        using j Suc in_span [of "n + j" "sp_vpfbuf st" "n + 1"] by simp
      ultimately have "m3 (sp_vpfbuf st + of_nat (n + j)) = m (sp_vpfbuf st + of_nat (n + j))"
        using m3(2) m2(2) n by simp
      moreover have "xs ! j = m (sp_vpfbuf st + of_nat (n + j))"
        using that Suc xs n by (simp add: xs_def add.commute add.left_commute)
      ultimately show ?thesis unfolding e by simp
    qed
    then show ?thesis by (simp add: bytes_at_nth)
  qed
  then have "bytes_at m3 (bp_cp s3) xs" by (simp add: s3(3))
  moreover have "s3\<lparr>bp_c := 37, bp_nextfmt := True\<rparr> = s3\<lparr>bp_nextfmt := True\<rparr>" using s3(6) by (cases s3) simp
  ultimately obtain s4 where s4: "bp_char st 100 (s3\<lparr>bp_nextfmt := True\<rparr>) = Some s4" "bp_out s4 = bp_out s3 @ int_sign (ap 1) @ xs"
    using run3 [OF _ xs] by simp
  have "fmt + 4 \<in> A" "fmt + 5 \<in> A" using in_span [of 4 fmt] in_span [of 5 fmt] by (simp_all add: A_def)
  then have "bp_word st 4 (load32 (bp_mem s3) (fmt + 4)) (s3\<lparr>bp_nextfmt := True\<rparr>) = Some (True, s4\<lparr>bp_c := 0\<rparr>)"
    using A2 format s4(1) by (simp add: bp_word_bytes s3 add.assoc)
  then have "bp_loop st fmt ?s0 = Some (Some (bp_res s4), s4\<lparr>bp_c := 0\<rparr>)"
    using word1 s3(6) by (subst bp_loop.simps, simp, subst bp_loop.simps, simp)
  then show ?thesis by (simp add: small_printf_def s4(2) s3(5) ds_def xs_def)
qed

lemma second_number_is_stale_witness:
  "\<exists>r m'. small_printf sample_statics 0x400 (\<lambda>i. if i = 0 then 12 else 34) (sample_console [37, 100, 32, 37, 100]) =
     Some (Some r, [49, 50, 32, 0, 0], m')"
proof -
  have ok: "format_ok sample_statics 0x400 [37, 100, 32, 37, 100] (sample_console [37, 100, 32, 37, 100])"
    by (rule sample_console_ok) simp_all
  have d: "int_digits 10 12 = [49, 50]" "int_digits 10 34 = [51, 52]"
    by (simp_all add: int_digits_def radix_digits.simps hex_digits_def)
  have "sample_console [37, 100, 32, 37, 100] 0x303 = 0"
    by (simp add: sample_console_def put_span hex_digits_def span_def del: put.simps)
  then show ?thesis
    using second_number_is_stale [OF ok, of "\<lambda>i. if i = 0 then 12 else 34" 2]
    by (simp add: d int_sign_def sample_statics_def upt_conv_Cons)
qed

end
