(* ===== verification/Stdio.thy ===== *)
theory Stdio
  imports Printf Cstring
begin

text \<open>
  The two functions of the C library over the others: \<open>printf\<close> of \<^verbatim>\<open>klibc/printf.c\<close> and \<open>getenv\<close> of
  \<^verbatim>\<open>klibc/getenv.c\<close>. What \<open>puts\<close> sends is a list of bytes; the environment is in memory.
\<close>

section \<open>printf\<close>

partial_function (option) puts_string :: "mem \<Rightarrow> u32 \<Rightarrow> bytes option" where
  [code]: "puts_string m msg =
     (if m msg \<noteq> 0 then Option.bind (puts_string m (msg + 1)) (\<lambda>out. Some (m msg # out)) else Some [])"

definition printf :: "u32 \<Rightarrow> string \<Rightarrow> va_list \<Rightarrow> mem \<Rightarrow> (u32 \<times> bytes \<times> mem) option" where
  "printf buf fmt ap m =
     (case vsnprintf buf 256 fmt ap m of
        None \<Rightarrow> None
      | Some (num, m) \<Rightarrow> map_option (\<lambda>out. (num, out, m)) (puts_string m buf))"

lemma puts_string_until_nul:
  "bytes_at m p (xs @ [0]) \<Longrightarrow> puts_string m p = Some (takeWhile (\<lambda>c. c \<noteq> 0) xs)"
  by (induction xs arbitrary: p; subst puts_string.simps) simp_all

section \<open>getenv\<close>

text \<open>The loop over the pointers from \<open>p\<close> on.\<close>

partial_function (option) getenv_loop :: "u32 \<Rightarrow> u32 \<Rightarrow> u32 \<Rightarrow> mem \<Rightarrow> u32 option" where
  [code]: "getenv_loop name len p m =
     (let q = load32 m p
      in if q \<noteq> 0 then
           if strncmp (\<lambda>i. m (name + of_nat i)) (\<lambda>i. m (q + of_nat i)) (unat len) = 0 \<and> m (q + len) = 61 then
             Some (q + (len + 1))
           else getenv_loop name len (p + 4) m
         else Some 0)"

definition getenv :: "u32 \<Rightarrow> u32 \<Rightarrow> mem \<Rightarrow> u32 option" where
  "getenv environ name m =
     (case strlen name m of
        None \<Rightarrow> None
      | Some len \<Rightarrow> if environ = 0 then Some 0 else getenv_loop name len environ m)"

text \<open>An environment of the variables \<open>es\<close>, each a string \<open>name=value\<close> with its address.\<close>

primrec environment :: "mem \<Rightarrow> u32 \<Rightarrow> (u32 \<times> bytes) list \<Rightarrow> bool" where
  "environment m p [] \<longleftrightarrow> load32 m p = 0"
| "environment m p (e # es) \<longleftrightarrow>
     load32 m p = fst e \<and> fst e \<noteq> 0 \<and> c_string m (fst e) (snd e) \<and> length (snd e) < 2 ^ 32 - 1 \<and> environment m (p + 4) es"

definition defines_name :: "bytes \<Rightarrow> bytes \<Rightarrow> bool" where
  "defines_name n e \<longleftrightarrow> take (length n + 1) e = n @ [61]"

lemma strncmp_string:
  assumes "c_string m a xs" "c_string m b ys" "length xs < 2 ^ 32"
  shows "strncmp (\<lambda>i. m (a + of_nat i)) (\<lambda>i. m (b + of_nat i)) (length xs) = 0 \<and> m (b + of_nat (length xs)) = 61 \<longleftrightarrow>
    defines_name xs ys"
proof -
  have x: "m (a + of_nat i) = xs ! i" "xs ! i \<noteq> 0" if "i < length xs" for i using assms(1) that by (simp_all add: c_string_nth)
  have y: "m (b + of_nat i) = (ys @ [0]) ! i" if "i \<le> length ys" for i
    using assms(2) that by (auto simp: c_string_nth nth_append)
  have "strncmp (\<lambda>i. m (a + of_nat i)) (\<lambda>i. m (b + of_nat i)) (length xs) = 0 \<longleftrightarrow>
      (\<forall>i < length xs. xs ! i = m (b + of_nat i))"
    using x by (auto simp: strncmp_0_iff)
  moreover have "(\<forall>i < length xs. xs ! i = m (b + of_nat i)) \<and> m (b + of_nat (length xs)) = 61 \<longleftrightarrow> defines_name xs ys"
  proof
    assume *: "(\<forall>i < length xs. xs ! i = m (b + of_nat i)) \<and> m (b + of_nat (length xs)) = 61"
    have "length xs < length ys"
    proof (rule ccontr)
      assume "\<not> length xs < length ys"
      then have "length ys \<le> length xs" by simp
      moreover have "m (b + of_nat (length ys)) = 0" using y [of "length ys"] by simp
      ultimately show False using * x by (cases "length ys = length xs") auto
    qed
    then show "defines_name xs ys"
      using * y by (auto simp: defines_name_def nth_append less_Suc_eq intro!: nth_equalityI)
  next
    assume *: "defines_name xs ys"
    then have len: "length xs < length ys" by (auto simp: defines_name_def dest: arg_cong [where f = length])
    have "ys ! i = (xs @ [61]) ! i" if "i \<le> length xs" for i
      using * that nth_take [of i "length xs + 1" ys] by (simp add: defines_name_def)
    then show "(\<forall>i < length xs. xs ! i = m (b + of_nat i)) \<and> m (b + of_nat (length xs)) = 61"
      using y len by (simp add: nth_append)
  qed
  ultimately show ?thesis by simp
qed

lemma c_string_drop: "c_string m a xs \<Longrightarrow> n \<le> length xs \<Longrightarrow> c_string m (a + of_nat n) (drop n xs)"
proof (induction n arbitrary: a xs)
  case (Suc n)
  then obtain x ys where "xs = x # ys" by (cases xs) auto
  then show ?case using Suc.IH [of "a + 1" ys] Suc.prems by (simp add: add.assoc)
qed simp

lemma getenv_loop_finds:
  assumes "environment m p es" "c_string m name xs" "length xs < 2 ^ 32"
  shows "\<exists>q. getenv_loop name (of_nat (length xs)) p m = Some q \<and>
    (case find (\<lambda>e. defines_name xs (snd e)) es of
       None \<Rightarrow> q = 0
     | Some e \<Rightarrow> q = fst e + of_nat (length xs + 1) \<and> c_string m q (drop (length xs + 1) (snd e)))"
  using assms(1)
proof (induction es arbitrary: p)
  case Nil
  then show ?case by (subst getenv_loop.simps) simp
next
  case (Cons e es)
  have n: "unat (of_nat (length xs) :: u32) = length xs" using assms(3) by (simp add: unat_of_nat_u32)
  have e: "load32 m p = fst e" "fst e \<noteq> 0" "c_string m (fst e) (snd e)" "environment m (p + 4) es" using Cons.prems by simp_all
  note match = strncmp_string [OF assms(2) e(3) assms(3)]
  show ?case
  proof (cases "defines_name xs (snd e)")
    case True
    then have "length xs + 1 \<le> length (snd e)" by (auto simp: defines_name_def dest: arg_cong [where f = length])
    from c_string_drop [OF e(3) this] show ?thesis
      using True match e(1,2) n by (subst getenv_loop.simps) (simp add: add.commute add.left_commute)
  next
    case False
    then show ?thesis using match e(1,2) n Cons.IH [OF e(4)] by (subst getenv_loop.simps) (auto simp: Let_def)
  qed
qed

section \<open>Properties\<close>

text \<open>
  \<open>printf\<close> sends the first 255 bytes of the text of its format, up to a NUL in it, and returns the
  length of the whole text.
\<close>

theorem printf_sends_text:
  assumes "printf_text (\<lambda>a. unat (a - buf) < 256) m fmt ap = Some xs" "length xs < 2 ^ 32 - 1"
  shows "\<exists>m'. printf buf fmt ap m = Some (of_nat (length xs), takeWhile (\<lambda>c. c \<noteq> 0) (take 255 xs), m')"
proof -
  have body: "printf_text (\<lambda>a. unat (a - buf) < unat (256 :: u32)) m fmt ap = Some xs" using assms(1) by simp
  define m' where "m' a = (if unat (a - buf) \<le> length xs \<and> unat (a - buf) < 256 then (take 255 xs @ [0]) ! unat (a - buf) else m a)" for a
  have v: "vsnprintf buf 256 fmt ap m = Some (of_nat (length xs), m')"
    using vsnprintf_text [OF body assms(2)] by (simp add: m'_def fun_eq_iff)
  have "bytes_at m' buf (take 255 xs @ [0])"
    by (auto simp: bytes_at_nth m'_def unat_of_nat_u32 min_def split: if_splits)
  from puts_string_until_nul [OF this] show ?thesis by (simp add: printf_def v)
qed

lemma printf_sends_text_witness:
  "\<exists>m'. printf 0x400 ''x=%d'' (\<lambda>_. - 7) (\<lambda>_. 0) = Some (4, [120, 61, 45, 55], m')"
proof -
  have number: "int_text (- 7) 0x40 10 0 (- 1) = [45, 55]" by (simp add: integer_texts num_digits.simps)
  have "printf_text (\<lambda>a. unat (a - 0x400) < 256) (\<lambda>_. 0) ''x=%d'' (\<lambda>_. - 7) = Some ([120, 61] @ int_text (- 7) 0x40 10 0 (- 1))"
    by (simp add: printf_text_def pf_init_def text_step_def conversion_steps Let_def c_char_def)
  then have "printf_text (\<lambda>a. unat (a - 0x400) < 256) (\<lambda>_. 0) ''x=%d'' (\<lambda>_. - 7) = Some [120, 61, 45, 55]"
    by (simp add: number)
  from printf_sends_text [OF this] show ?thesis by simp
qed

text \<open>
  \<open>getenv\<close> returns the value of the first variable with the name, or \<open>NULL\<close> when there is none.
\<close>

theorem getenv_finds_first:
  assumes "environ \<noteq> 0" "environment m environ es" "c_string m name xs" "length xs < 2 ^ 32"
  shows "\<exists>q. getenv environ name m = Some q \<and>
    (case find (\<lambda>e. defines_name xs (snd e)) es of
       None \<Rightarrow> q = 0
     | Some e \<Rightarrow> c_string m q (drop (length xs + 1) (snd e)))"
proof -
  obtain q where "getenv_loop name (of_nat (length xs)) environ m = Some q" "case find (\<lambda>e. defines_name xs (snd e)) es of
       None \<Rightarrow> q = 0
     | Some e \<Rightarrow> q = fst e + of_nat (length xs + 1) \<and> c_string m q (drop (length xs + 1) (snd e))"
    using getenv_loop_finds [OF assms(2-4)] by blast
  then show ?thesis using assms(1) strlen_c_string [OF assms(3)] by (auto simp: getenv_def split: option.splits)
qed

text \<open>The environment \<open>A=1\<close>, \<open>B=2\<close>.\<close>

definition sample_environ :: mem where
  "sample_environ = put (put (put (put (\<lambda>_. 0) 0x100 [0, 0, 2, 0, 0, 0, 2, 16]) 0x200 [65, 61, 49]) 0x210 [66, 61, 50]) 0x300 [66]"

lemma getenv_finds_first_witness: "\<exists>q. getenv 0x100 0x300 sample_environ = Some q \<and> c_string sample_environ q [50]"
proof -
  have "environment sample_environ 0x100 [(0x200, [65, 61, 49]), (0x210, [66, 61, 50])]" "c_string sample_environ 0x300 [66]"
    by (simp_all add: sample_environ_def load32_def word_cat_eq')
  from getenv_finds_first [OF _ this] show ?thesis by (simp add: defines_name_def)
qed

end
