(* ===== verification/RowDelay.thy ===== *)
theory RowDelay
  imports Song
begin

text \<open>
  The time a row of a song takes. The clock of the player are the globals that decide when it reads a
  row and which: every command but the jumps, the breaks, the loops and the speed leaves it alone, and
  the pattern delay EEx arms \<open>mt_PattDelTime\<close>. With this the ticks of a delayed row are counted.
\<close>

unbundle bit_operations_syntax

section \<open>The clock\<close>

text \<open>What the effects of a row keep: everything but \<open>mt_PattDelTime\<close>, which is the argument \<open>d\<close>, and,
  for the tone portamento (command 3), the parameter.\<close>

definition clock :: "player \<Rightarrow> u32 list" where
  "clock p = [mt_Enable p, mt_counter p, mt_speed p, mt_PatternPos p, mt_SongPos p, mt_PosJumpFlag p,
     mt_PBreakFlag p, mt_PBreakPos p, mt_PattDelTime2 p]"

definition on_time :: "pt_chn \<Rightarrow> player \<Rightarrow> u32 \<Rightarrow> voice result \<Rightarrow> bool" where
  "on_time ch p d r \<longleftrightarrow> (\<forall>ch' p'. r = Inr (ch', p') \<longrightarrow>
     n_cmd ch' = n_cmd ch \<and> (n_cmdlo ch' = n_cmdlo ch \<or> signed_drop_bit 8 (n_cmd ch) = 3) \<and>
     clock p' = clock p \<and> mt_PattDelTime p' = d)"

lemma on_time_Inr [simp]:
  "on_time ch p d (Inl e)"
  "on_time ch p d (Inr (ch', p')) \<longleftrightarrow> n_cmd ch' = n_cmd ch \<and>
     (n_cmdlo ch' = n_cmdlo ch \<or> signed_drop_bit 8 (n_cmd ch) = 3) \<and> clock p' = clock p \<and> mt_PattDelTime p' = d"
  by (simp_all add: on_time_def)

lemma on_time_and_then:
  assumes "on_time ch p d r"
    and "\<And>ch' p'. n_cmd ch' = n_cmd ch \<Longrightarrow> n_cmdlo ch' = n_cmdlo ch \<or> signed_drop_bit 8 (n_cmd ch) = 3 \<Longrightarrow>
      clock p' = clock p \<Longrightarrow> mt_PattDelTime p' = d \<Longrightarrow> on_time ch' p' d' (f (ch', p'))"
  shows "on_time ch p d' (and_then r f)"
proof (cases r)
  case (Inr x)
  obtain ch' p' where x: "r = Inr (ch', p')" using Inr by (cases x) simp
  then have 1: "n_cmd ch' = n_cmd ch" "n_cmdlo ch' = n_cmdlo ch \<or> signed_drop_bit 8 (n_cmd ch) = 3"
      "clock p' = clock p" "mt_PattDelTime p' = d"
    using assms(1) by simp_all
  have "on_time ch' p' d' (f (ch', p'))" by (rule assms(2) [OF 1])
  then show ?thesis
    unfolding x and_then_simps on_time_def 1(1,3) using 1(2) by metis
qed simp

lemma on_time_player:
  assumes "\<And>p'. r = Inr p' \<Longrightarrow> clock p' = clock p \<and> mt_PattDelTime p' = mt_PattDelTime p"
  shows "on_time ch p (mt_PattDelTime p) (and_then r (\<lambda>p. Inr (ch, p)))"
  using assms by (cases r) auto

lemma clock_simps [simp]:
  "clock (paula ws p) = clock p" "mt_PattDelTime (paula ws p) = mt_PattDelTime p"
  "clock (set_period x ch p) = clock p" "mt_PattDelTime (set_period x ch p) = mt_PattDelTime p"
  "clock (mt_LowMask_update h p) = clock p" "clock (ram_update g p) = clock p"
  "clock (mt_PattDelTime_update k p) = clock p"
  by (simp_all add: clock_def paula_def set_period_def)

lemma UpdateFunk_on_time: "on_time ch p (mt_PattDelTime p) (mt_UpdateFunk ch p)"
  by (simp add: mt_UpdateFunk_def Let_def)

lemma effects_on_time:
  "on_time ch p (mt_PattDelTime p) (Inr (mt_VolumeSlide ch p))"
  "on_time ch p (mt_PattDelTime p) (Inr (mt_VolumeChange ch p))"
  "on_time ch p (mt_PattDelTime p) (Inr (mt_VolumeFineUp ch p))"
  "on_time ch p (mt_PattDelTime p) (Inr (mt_VolumeFineDown ch p))"
  "on_time ch p (mt_PattDelTime p) (Inr (mt_NoteCut ch p))"
  "on_time ch p (mt_PattDelTime p) (Inr (ch, mt_NoteDelay ch p))"
  "on_time ch p (mt_PattDelTime p) (Inr (mt_PortaUp ch p))"
  "on_time ch p (mt_PattDelTime p) (Inr (mt_PortaDown ch p))"
  "on_time ch p (mt_PattDelTime p) (Inr (mt_FinePortaUp ch p))"
  "on_time ch p (mt_PattDelTime p) (Inr (mt_FinePortaDown ch p))"
  "on_time ch p (mt_PattDelTime p) (Inr (mt_SampleOffset ch, p))"
  "on_time ch p (mt_PattDelTime p) (Inr (mt_SetGlissControl ch, p))"
  "on_time ch p (mt_PattDelTime p) (Inr (mt_SetVibratoControl ch, p))"
  "on_time ch p (mt_PattDelTime p) (Inr (mt_SetFineTune ch, p))"
  "on_time ch p (mt_PattDelTime p) (Inr (mt_SetTremoloControl ch, p))"
  "on_time ch p (mt_PattDelTime p) (Inr (mt_Vibrato ch p))"
  "on_time ch p (mt_PattDelTime p) (Inr (mt_VibratoPlusVolSlide ch p))"
  "on_time ch p (mt_PattDelTime p) (Inr (mt_Tremolo ch p))"
  by (simp_all add: mt_VolumeSlide_def mt_VolumeChange_def mt_VolumeFineUp_def mt_VolumeFineDown_def
    mt_NoteCut_def mt_NoteDelay_def mt_PortaUp_def mt_PortaDown_def mt_FinePortaUp_def mt_FinePortaDown_def
    mt_SampleOffset_def mt_SetGlissControl_def mt_SetVibratoControl_def mt_SetFineTune_def mt_SetTremoloControl_def
    mt_Vibrato_def mt_UpdateVibrato_def mt_VibratoPlusVolSlide_def mt_Tremolo_def mt_UpdateTremolo_def
    set_volume_def Let_def)

lemma on_time_cong:
  "n_cmd ch = n_cmd c \<Longrightarrow> n_cmdlo ch = n_cmdlo c \<Longrightarrow> clock p = clock q \<Longrightarrow> on_time ch p d r = on_time c q d r"
  by (simp only: on_time_def)

lemma FunkIt_on_time: "on_time ch p (mt_PattDelTime p) (mt_FunkIt ch p)"
proof -
  let ?ch = "ch\<lparr>n_glissfunk := push_bit 4 (n_cmdlo ch) OR (n_glissfunk ch AND 0x0F)\<rparr>"
  have "on_time ch p (mt_PattDelTime p) (mt_UpdateFunk ?ch p)"
    using UpdateFunk_on_time [of ?ch p] on_time_cong [of ?ch ch p p] by simp
  then show ?thesis unfolding mt_FunkIt_def by (cases "mt_counter p = 0") simp_all
qed

lemma RetrigNote_on_time: "on_time ch p (mt_PattDelTime p) (and_then (mt_RetrigNote ch p) (\<lambda>p. Inr (ch, p)))"
  by (simp add: mt_RetrigNote_def)

lemma Arpeggio_on_time: "on_time ch p (mt_PattDelTime p) (and_then (mt_Arpeggio ch p) (\<lambda>p. Inr (ch, p)))"
proof (rule on_time_player)
  fix p' assume "mt_Arpeggio ch p = Inr p'"
  then show "clock p' = clock p \<and> mt_PattDelTime p' = mt_PattDelTime p"
    unfolding mt_Arpeggio_def Let_def and_then_def by (simp split: if_splits sum.splits option.splits) auto
qed

lemma UpdateTonePortamento_on_time: "on_time ch p (mt_PattDelTime p) (mt_UpdateTonePortamento ch p)"
  by (auto simp: mt_UpdateTonePortamento_def slide_to_wanted_def Let_def and_then_def split: sum.splits)


lemma TonePortamento_on_time:
  "signed_drop_bit 8 (n_cmd ch) = 3 \<Longrightarrow> on_time ch p (mt_PattDelTime p) (mt_TonePortamento ch p)"
  unfolding mt_TonePortamento_def
  by (auto simp: mt_UpdateTonePortamento_def slide_to_wanted_def Let_def and_then_def split: sum.splits)

lemma TonePlusVolSlide_on_time: "on_time ch p (mt_PattDelTime p) (mt_TonePlusVolSlide ch p)"
  unfolding mt_TonePlusVolSlide_def
proof (rule on_time_and_then [OF UpdateTonePortamento_on_time])
  fix ch' :: pt_chn and p' :: player assume "mt_PattDelTime p' = mt_PattDelTime p"
  then show "on_time ch' p' (mt_PattDelTime p) (case (ch', p') of (ch, p) \<Rightarrow> Inr (mt_VolumeSlide ch p))"
    using effects_on_time(1) [of ch' p'] by simp
qed

section \<open>Commands and rows\<close>

text \<open>The commands that do not touch the clock, and the pattern delay.\<close>

definition delay_cmd :: "u32 \<Rightarrow> u32 \<Rightarrow> u32 \<Rightarrow> bool" where
  "delay_cmd x c lo \<longleftrightarrow> c = 0xE \<and> drop_bit 4 lo = 0xE \<and> lo AND 0x0F = x"

definition keep_cmd :: "u32 \<Rightarrow> u32 \<Rightarrow> bool" where
  "keep_cmd c lo \<longleftrightarrow> c \<notin> {0xB, 0xD, 0xF} \<and> \<not> (c = 0xE \<and> drop_bit 4 lo \<in> {0x6, 0xE})"

definition ch_delays :: "u32 \<Rightarrow> pt_chn \<Rightarrow> bool" where
  "ch_delays x ch \<longleftrightarrow> delay_cmd x (signed_drop_bit 8 (n_cmd ch)) (n_cmdlo ch)"

definition ch_keeps :: "pt_chn \<Rightarrow> bool" where
  "ch_keeps ch \<longleftrightarrow> keep_cmd (signed_drop_bit 8 (n_cmd ch)) (n_cmdlo ch)"

lemmas ch_defs = ch_delays_def ch_keeps_def delay_cmd_def keep_cmd_def

definition armed :: "u32 \<Rightarrow> pt_chn \<Rightarrow> player \<Rightarrow> u32" where
  "armed x ch p = (if ch_delays x ch \<and> mt_counter p = 0 \<and> mt_PattDelTime2 p = 0 then x + 1 else mt_PattDelTime p)"

lemma E_Commands_on_time:
  assumes "signed_drop_bit 8 (n_cmd ch) = 0xE" "ch_delays x ch \<or> ch_keeps ch"
  shows "on_time ch p (armed x ch p) (mt_E_Commands ch p)"
proof (cases "drop_bit 4 (n_cmdlo ch) = 0xE")
  case True
  then have d: "n_cmdlo ch AND 0x0F = x" "ch_delays x ch" using assms by (auto simp: ch_defs)
  have "mt_E_Commands ch p = Inr (ch, mt_PatternDelay ch p)"
    by (simp add: mt_E_Commands_def True Let_def)
  then show ?thesis using d by (simp add: mt_PatternDelay_def armed_def)
next
  case False
  then have a: "armed x ch p = mt_PattDelTime p" "drop_bit 4 (n_cmdlo ch) \<noteq> 6"
    using assms by (auto simp: armed_def ch_defs)
  have id: "on_time ch p (mt_PattDelTime p) (Inr (ch, p))" by simp
  show ?thesis
    using False a effects_on_time [of ch p] FunkIt_on_time [of ch p] RetrigNote_on_time [of ch p] id
    unfolding mt_E_Commands_def Let_def by (simp del: on_time_Inr)
qed

lemma CheckMoreEfx_on_time:
  assumes "n_glissfunk ch < 16" "ch_delays x ch \<or> ch_keeps ch"
  shows "on_time ch p (armed x ch p) (mt_CheckMoreEfx ch p)"
proof (cases "signed_drop_bit 8 (n_cmd ch) = 0xE")
  case True
  then show ?thesis
    using E_Commands_on_time [OF True assms(2)]
    by (simp add: mt_CheckMoreEfx_def UpdateFunk_off [OF assms(1)] del: on_time_Inr)
next
  case False
  then have "armed x ch p = mt_PattDelTime p" "signed_drop_bit 8 (n_cmd ch) \<notin> {0xB, 0xD, 0xF}"
    using assms(2) by (auto simp: armed_def ch_defs)
  moreover have "on_time ch p (mt_PattDelTime p) (Inr (ch, set_period (n_period ch) ch p))" by simp
  ultimately show ?thesis
    using False effects_on_time [of ch p]
    unfolding mt_CheckMoreEfx_def UpdateFunk_off [OF assms(1)] and_then_simps prod.case Let_def
    by (simp del: on_time_Inr)
qed


lemma CheckEfx_on_time:
  assumes "n_glissfunk ch < 16" "ch_delays x ch \<or> ch_keeps ch"
  shows "on_time ch p (armed x ch p) (mt_CheckEfx ch p)"
proof (cases "signed_drop_bit 8 (n_cmd ch) = 0xE")
  case True
  then have "n_cmd ch \<noteq> 0" by auto
  then show ?thesis
    using E_Commands_on_time [OF True assms(2)] True
    by (simp add: mt_CheckEfx_def UpdateFunk_off [OF assms(1)] del: on_time_Inr)
next
  case False
  then have "armed x ch p = mt_PattDelTime p"
    using assms(2) by (auto simp: armed_def ch_defs)
  moreover have "on_time ch p (mt_PattDelTime p) (Inr (ch, set_period (n_period ch) ch p))" by simp
  moreover have "on_time ch p (mt_PattDelTime p) (Inr (mt_Tremolo ch (set_period (n_period ch) ch p)))"
    "on_time ch p (mt_PattDelTime p) (Inr (mt_VolumeSlide ch (set_period (n_period ch) ch p)))"
    using effects_on_time(1,18) [of ch "set_period (n_period ch) ch p"]
      on_time_cong [of ch ch "set_period (n_period ch) ch p" p] by (simp_all del: on_time_Inr)
  ultimately show ?thesis
    using False effects_on_time [of ch p] Arpeggio_on_time [of ch p] TonePortamento_on_time [of ch p]
      TonePlusVolSlide_on_time [of ch p]
    unfolding mt_CheckEfx_def UpdateFunk_off [OF assms(1)] and_then_simps prod.case Let_def
    by (simp del: on_time_Inr)
qed

lemma on_time_bind: "(\<And>y. r = Inr y \<Longrightarrow> on_time ch p d (f y)) \<Longrightarrow> on_time ch p d (and_then r f)"
  by (cases r) simp_all

text \<open>What decides about the clock: the command and the fields of \<^const>\<open>clock\<close>.\<close>

definition like :: "pt_chn \<Rightarrow> pt_chn \<Rightarrow> bool" where
  "like ch c \<longleftrightarrow> n_cmd ch = n_cmd c \<and> n_cmdlo ch = n_cmdlo c \<and> n_glissfunk ch = n_glissfunk c \<and> n_note ch = n_note c"

lemma like_on_time: "like ch c \<Longrightarrow> clock p = clock q \<Longrightarrow> on_time ch p d r = on_time c q d r"
  by (simp add: like_def on_time_def)

lemma like_armed:
  "like ch c \<Longrightarrow> clock p = clock q \<Longrightarrow> mt_PattDelTime p = mt_PattDelTime q \<Longrightarrow> armed x ch p = armed x c q"
  by (simp add: like_def armed_def ch_defs clock_def)

lemma like_commands: "like ch c \<Longrightarrow> ch_delays x ch = ch_delays x c" "like ch c \<Longrightarrow> ch_keeps ch = ch_keeps c"
  by (simp_all add: like_def ch_delays_def ch_keeps_def)

lemma CheckMoreEfx_like:
  assumes "n_glissfunk c < 16" "ch_delays x c \<or> ch_keeps c"
    and "like ch c" "clock p = clock q" "mt_PattDelTime p = mt_PattDelTime q"
  shows "on_time c q (armed x c q) (mt_CheckMoreEfx ch p)"
  using CheckMoreEfx_on_time [of ch x p] like_on_time [OF assms(3,4)] like_armed [OF assms(3-5)]
    like_commands [OF assms(3)] assms(1-3) by (simp add: like_def)

lemma SetPeriod_like:
  assumes "n_glissfunk c < 16" "ch_delays x c \<or> ch_keeps c"
    and "like ch c" "clock p = clock q" "mt_PattDelTime p = mt_PattDelTime q"
  shows "on_time c q (armed x c q) (mt_SetPeriod ch p)"
  unfolding mt_SetPeriod_def Let_def
  by (rule on_time_bind, rule on_time_bind)
    (use assms(3-5) in \<open>auto simp: like_def intro!: CheckMoreEfx_like [OF assms(1,2)]\<close>)

lemma SetTonePorta_like: "mt_SetTonePorta ch = Inr ch' \<Longrightarrow> like ch' ch"
  by (auto simp: mt_SetTonePorta_def Let_def like_def and_then_def split: sum.splits)

lemma set_sample_like:
  "set_sample k ch p = Inr (ch', p') \<Longrightarrow> like ch' ch \<and> clock p' = clock p \<and> mt_PattDelTime p' = mt_PattDelTime p"
  by (auto simp: set_sample_def Let_def like_def split: if_splits)

lemma play_rest_like:
  assumes "n_glissfunk c < 16" "ch_delays x c \<or> ch_keeps c"
    and "like ch c" "clock p = clock q" "mt_PattDelTime p = mt_PattDelTime q"
  shows "on_time c q (armed x c q) (if n_note ch = 0 then mt_CheckMoreEfx ch p
         else if n_cmd ch AND 0x0FF0 = 0x0E50 then mt_SetPeriod (mt_SetFineTune ch) p
         else if signed_drop_bit 8 (n_cmd ch) = 0x3 \<or> signed_drop_bit 8 (n_cmd ch) = 0x5
         then and_then (mt_SetTonePorta ch) (\<lambda>ch. mt_CheckMoreEfx ch p)
         else if signed_drop_bit 8 (n_cmd ch) = 0x9 then and_then (mt_CheckMoreEfx ch p) (\<lambda>(ch, p). mt_SetPeriod ch p)
         else mt_SetPeriod ch p)"
proof -
  note more = CheckMoreEfx_like [OF assms(1,2)] and per = SetPeriod_like [OF assms(1,2)]
  have "like (mt_SetFineTune ch) c" using assms(3) by (simp add: like_def mt_SetFineTune_def)
  note fine = per [OF this assms(4,5)]
  have porta: "on_time c q (armed x c q) (and_then (mt_SetTonePorta ch) (\<lambda>ch. mt_CheckMoreEfx ch p))"
  proof (rule on_time_bind)
    fix ch' assume "mt_SetTonePorta ch = Inr ch'"
    then have "like ch' c" using SetTonePorta_like assms(3) by (fastforce simp: like_def)
    then show "on_time c q (armed x c q) (mt_CheckMoreEfx ch' p)" using more assms(4,5) by blast
  qed
  have offset: "on_time c q (armed x c q) (and_then (mt_CheckMoreEfx ch p) (\<lambda>(ch, p). mt_SetPeriod ch p))"
    if "signed_drop_bit 8 (n_cmd ch) = 0x9"
  proof -
    have "n_glissfunk ch < 16" using assms(1,3) by (simp add: like_def)
    then have "mt_CheckMoreEfx ch p = Inr (mt_SampleOffset ch, p)"
      using that by (simp add: mt_CheckMoreEfx_def UpdateFunk_off)
    moreover have "like (mt_SampleOffset ch) c" using assms(3) by (simp add: like_def mt_SampleOffset_def Let_def)
    ultimately show ?thesis using per assms(4,5) by simp
  qed
  show ?thesis using more [OF assms(3-5)] per [OF assms(3-5)] fine porta offset by simp
qed

text \<open>The channel as the row sets it.\<close>

definition read_row :: "player \<Rightarrow> u32 \<Rightarrow> pt_chn \<Rightarrow> pt_chn" where
  "read_row p a ch = ch\<lparr>n_note := song_word p (1084 + a) AND 0x0FFF,
     n_cmd := push_bit 8 (song_byte p (1084 + a + 2) AND 0x0F) OR song_byte p (1084 + a + 3),
     n_cmdlo := song_byte p (1084 + a + 3)\<rparr>"

lemma PlayVoice_on_time:
  assumes "n_glissfunk ch < 16" "ch_delays x (read_row p a ch) \<or> ch_keeps (read_row p a ch)"
  shows "on_time (read_row p a ch) p (armed x (read_row p a ch) p) (mt_PlayVoice a ch p)"
proof -
  define p1 where "p1 = (if n_note ch = 0 then set_period (n_period ch) ch p else p)"
  have p1: "same_song p p1" "clock p1 = clock p" "mt_PattDelTime p1 = mt_PattDelTime p" by (simp_all add: p1_def)
  note r = same_song_reads [OF p1(1)]
  let ?c = "read_row p a ch"
  define sample where "sample = drop_bit 8 (song_word p (1084 + a) AND 0xF000) OR drop_bit 4 (song_byte p (1084 + a + 2))"
  have c: "n_glissfunk ?c < 16" using assms(1) by (simp add: read_row_def)
  let ?f = "\<lambda>(ch, p). if n_note ch = 0 then mt_CheckMoreEfx ch p
         else if n_cmd ch AND 0x0FF0 = 0x0E50 then mt_SetPeriod (mt_SetFineTune ch) p
         else if signed_drop_bit 8 (n_cmd ch) = 0x3 \<or> signed_drop_bit 8 (n_cmd ch) = 0x5
         then and_then (mt_SetTonePorta ch) (\<lambda>ch. mt_CheckMoreEfx ch p)
         else if signed_drop_bit 8 (n_cmd ch) = 0x9 then and_then (mt_CheckMoreEfx ch p) (\<lambda>(ch, p). mt_SetPeriod ch p)
         else mt_SetPeriod ch p"
  have eq: "mt_PlayVoice a ch p = and_then
      (if 1 \<le> sample \<and> sample \<le> 32 then set_sample (sample - 1) ?c p1 else Inr (?c, p1)) ?f"
    unfolding mt_PlayVoice_def p1_def [symmetric] r Let_def by (simp add: sample_def read_row_def)
  have "on_time ?c p (armed x ?c p) (?f y)"
    if y: "(if 1 \<le> sample \<and> sample \<le> 32 then set_sample (sample - 1) ?c p1 else Inr (?c, p1)) = Inr y" for y
  proof -
    obtain ch' p' where y': "y = (ch', p')" by (cases y)
    have "like ch' ?c \<and> clock p' = clock p \<and> mt_PattDelTime p' = mt_PattDelTime p"
      using y set_sample_like [of "sample - 1" ?c p1 ch' p'] p1(2,3)
      by (cases "1 \<le> sample \<and> sample \<le> 32") (auto simp: y' like_def)
    then show ?thesis
      unfolding y' prod.case using play_rest_like [OF c assms(2), of ch' p' p] by blast
  qed
  then show ?thesis unfolding eq by (rule on_time_bind)
qed


text \<open>The row that the next tick reads, and what its four cells do to the clock.\<close>

definition reads_row :: "player \<Rightarrow> bool" where
  "reads_row p \<longleftrightarrow> mt_Enable p = 1 \<and> mt_speed p \<le> mt_counter p + 1 \<and> mt_PattDelTime2 p = 0"

definition row_address :: "player \<Rightarrow> u32" where
  "row_address p = push_bit 10 (song_byte p (952 + mt_SongPos p)) + mt_PatternPos p"

definition row_delays :: "u32 \<Rightarrow> player \<Rightarrow> u32 \<Rightarrow> bool" where
  "row_delays x p a \<longleftrightarrow> delay_cmd x (song_byte p (1084 + a + 2) AND 0x0F) (song_byte p (1084 + a + 3))"

definition row_keeps :: "player \<Rightarrow> u32 \<Rightarrow> bool" where
  "row_keeps p a \<longleftrightarrow> keep_cmd (song_byte p (1084 + a + 2) AND 0x0F) (song_byte p (1084 + a + 3))"

lemma read_row_commands:
  "ch_delays x (read_row p a ch) = row_delays x p a" "ch_keeps (read_row p a ch) = row_keeps p a"
proof -
  have "song_byte p (1084 + a + 2) AND 0x0F < 16"
    by (rule le_less_trans [OF nibble]) simp
  then have "signed_drop_bit 8 (n_cmd (read_row p a ch)) = song_byte p (1084 + a + 2) AND 0x0F"
    unfolding read_row_def by (simp add: command_high del: push_bit_and)
  then show "ch_delays x (read_row p a ch) = row_delays x p a" "ch_keeps (read_row p a ch) = row_keeps p a"
    by (simp_all add: ch_delays_def ch_keeps_def row_delays_def row_keeps_def) (simp_all add: read_row_def)
qed

lemma row_delays_bound: "row_delays x p a \<Longrightarrow> x \<le> 15"
  using nibble [of "song_byte p (1084 + a + 3)"] by (simp add: row_delays_def delay_cmd_def)

lemma same_song_rows:
  "same_song p q \<Longrightarrow> row_delays x q a = row_delays x p a" "same_song p q \<Longrightarrow> row_keeps q a = row_keeps p a"
  by (simp_all add: row_delays_def row_keeps_def same_song_reads)

lemma voices_steps:
  assumes "voices f a chs p = Inr (chs', p')" "R 0 p"
    and "\<And>i q ch' q'. i < length chs \<Longrightarrow> R i q \<Longrightarrow> f (a + 4 * of_nat i) (chs ! i) q = Inr (ch', q') \<Longrightarrow> R (Suc i) q' \<and> S ch'"
  shows "R (length chs) p' \<and> list_all S chs'"
  using assms
proof (induction chs arbitrary: a p chs' R)
  case (Cons ch chs)
  obtain c q cs where q: "f a ch p = Inr (c, q)" "voices f (a + 4) chs q = Inr (cs, p')" "chs' = c # cs"
    using Cons.prems(1) by (auto simp: and_then_def split: sum.splits prod.splits)
  have 1: "R (Suc 0) q" "S c" using Cons.prems(3) [of 0 p c q] Cons.prems(2) q(1) by simp_all
  have "R (Suc (length chs)) p' \<and> list_all S cs"
  proof (rule Cons.IH [OF q(2), of "\<lambda>i. R (Suc i)"])
    fix i r ch' r' assume "i < length chs" "R (Suc i) r" "f (a + 4 + 4 * of_nat i) (chs ! i) r = Inr (ch', r')"
    then show "R (Suc (Suc i)) r' \<and> S ch'"
      using Cons.prems(3) [of "Suc i" r ch' r'] by (simp add: algebra_simps)
  qed (rule 1)
  then show ?case using 1(2) q(3) by simp
qed simp

text \<open>A pass over the channels without new commands keeps the clock, unless the counter is 0 and
  no delay runs.\<close>

lemma CheckEfx_pass:
  assumes "voices (\<lambda>_. mt_CheckEfx) 0 chs p = Inr (chs', p')" "list_all voice_ok chs"
    and "list_all (\<lambda>ch. ch_delays x ch \<or> ch_keeps ch) chs" "mt_counter p \<noteq> 0 \<or> mt_PattDelTime2 p \<noteq> 0"
  shows "clock p' = clock p" "mt_PattDelTime p' = mt_PattDelTime p"
    "list_all (\<lambda>ch. ch_delays x ch \<or> ch_keeps ch) chs'"
proof -
  have "(\<lambda>i q. clock q = clock p \<and> mt_PattDelTime q = mt_PattDelTime p) (length chs) p' \<and>
      list_all (\<lambda>ch. ch_delays x ch \<or> ch_keeps ch) chs'"
  proof (rule voices_steps [OF assms(1)])
    fix i q ch' q' assume i: "i < length chs" and q: "clock q = clock p \<and> mt_PattDelTime q = mt_PattDelTime p"
      and step: "mt_CheckEfx (chs ! i) q = Inr (ch', q')"
    let ?c = "chs ! i"
    have c: "n_glissfunk ?c < 16" "ch_delays x ?c \<or> ch_keeps ?c"
      using assms(2,3) i by (simp_all add: list_all_length voice_ok_def)
    have "mt_counter q \<noteq> 0 \<or> mt_PattDelTime2 q \<noteq> 0" using assms(4) q by (simp add: clock_def)
    then have "armed x ?c q = mt_PattDelTime q" by (auto simp: armed_def)
    then have r: "n_cmd ch' = n_cmd ?c" "n_cmdlo ch' = n_cmdlo ?c \<or> signed_drop_bit 8 (n_cmd ?c) = 3"
        "clock q' = clock q" "mt_PattDelTime q' = mt_PattDelTime q"
      using CheckEfx_on_time [OF c, of q] by (simp_all add: step)
    have "ch_delays x ch' \<or> ch_keeps ch'" using r(1,2) c(2) by (auto simp: ch_defs)
    then show "(clock q' = clock p \<and> mt_PattDelTime q' = mt_PattDelTime p) \<and> (ch_delays x ch' \<or> ch_keeps ch')"
      using r(3,4) q by simp
  qed simp
  then show "clock p' = clock p" "mt_PattDelTime p' = mt_PattDelTime p"
    "list_all (\<lambda>ch. ch_delays x ch \<or> ch_keeps ch) chs'" by simp_all
qed

text \<open>Reading a row in which a cell delays arms the delay.\<close>

lemma PlayVoice_pass:
  assumes "voices mt_PlayVoice a chs p = Inr (chs', p')" "list_all voice_ok chs" "place_ok p"
    and rows: "\<And>i. i < length chs \<Longrightarrow> row_ok p (a + 4 * of_nat i)"
      "\<And>i. i < length chs \<Longrightarrow> row_delays x p (a + 4 * of_nat i) \<or> row_keeps p (a + 4 * of_nat i)"
    and d: "\<exists>i < length chs. row_delays x p (a + 4 * of_nat i)"
    and p: "mt_counter p = 0" "mt_PattDelTime2 p = 0"
  shows "clock p' = clock p" "mt_PattDelTime p' = x + 1" "list_all (\<lambda>ch. ch_delays x ch \<or> ch_keeps ch) chs'"
proof -
  let ?R = "\<lambda>i q. clock q = clock p \<and> same_song p q \<and> place_ok q \<and>
    mt_PattDelTime q = (if \<exists>j < i. row_delays x p (a + 4 * of_nat j) then x + 1 else mt_PattDelTime p)"
  have "?R (length chs) p' \<and> list_all (\<lambda>ch. ch_delays x ch \<or> ch_keeps ch) chs'"
  proof (rule voices_steps [OF assms(1)])
    fix i q ch' q' assume i: "i < length chs" and q: "?R i q"
      and step: "mt_PlayVoice (a + 4 * of_nat i) (chs ! i) q = Inr (ch', q')"
    let ?ch = "chs ! i" and ?a = "a + 4 * of_nat i"
    let ?c = "read_row q ?a ?ch"
    have ok: "voice_ok ?ch" using assms(2) i by (simp add: list_all_length)
    then have g: "n_glissfunk ?ch < 16" by (simp add: voice_ok_def)
    have "row_delays x q ?a \<or> row_keeps q ?a" "row_ok q ?a"
      using rows(1) [OF i] rows(2) [OF i] q same_song_rows same_song_row_ok by blast+
    then have c: "ch_delays x ?c \<or> ch_keeps ?c" by (simp add: read_row_commands)
    have "safe q (mt_PlayVoice ?a ?ch q)" using ok q \<open>row_ok q ?a\<close> by (intro PlayVoice_safe) simp_all
    then have s: "place_ok q'" "same_song q q'" by (simp_all add: step)
    have r: "n_cmd ch' = n_cmd ?c" "n_cmdlo ch' = n_cmdlo ?c \<or> signed_drop_bit 8 (n_cmd ?c) = 3"
        "clock q' = clock q" "mt_PattDelTime q' = armed x ?c q"
      using PlayVoice_on_time [OF g c] by (simp_all add: step)
    have "mt_counter q = 0" "mt_PattDelTime2 q = 0" using q p by (simp_all add: clock_def)
    moreover have "row_delays x q ?a = row_delays x p ?a" using q same_song_rows(1) by blast
    ultimately have "mt_PattDelTime q' = (if row_delays x p ?a then x + 1 else mt_PattDelTime q)"
      using r(4) by (simp add: armed_def read_row_commands)
    then have "mt_PattDelTime q' = (if \<exists>j < Suc i. row_delays x p (a + 4 * of_nat j) then x + 1 else mt_PattDelTime p)"
      using q by (auto simp: less_Suc_eq)
    moreover have "ch_delays x ch' \<or> ch_keeps ch'" using r(1,2) c by (auto simp: ch_defs)
    moreover have "clock q' = clock p" using r(3) q by simp
    moreover have "same_song p q'" by (rule same_song_trans [OF _ s(2)]) (use q in simp)
    ultimately show "?R (Suc i) q' \<and> (ch_delays x ch' \<or> ch_keeps ch')" using s(1) by simp
  qed (use assms(3) in simp)
  then show "clock p' = clock p" "mt_PattDelTime p' = x + 1"
    "list_all (\<lambda>ch. ch_delays x ch \<or> ch_keeps ch) chs'" using d by simp_all
qed

section \<open>Ticks of a delayed row\<close>

text \<open>The step to the next row while a delay runs, and when it starts.\<close>

lemma small_of_nat:
  assumes "m \<le> 16"
  shows "(of_nat m :: u32) = 1 \<longleftrightarrow> m = 1" "(of_nat m :: u32) = 0 \<longleftrightarrow> m = 0" "(of_nat m :: u32) \<le> 16"
  using assms by (auto simp: word_unat_eq_iff word_le_nat_alt unat_of_nat)

lemma dskip_delayed:
  assumes "mt_PattDelTime p = 0" "mt_PattDelTime2 p = c" "c \<noteq> 0" "c \<le> 16" "mt_PBreakFlag p = 0" "mt_PosJumpFlag p = 0"
    "mt_PatternPos p < 1008"
  shows "mt_dskip p = p\<lparr>mt_PatternPos := mt_PatternPos p + (if c = 1 then 16 else 0), mt_PattDelTime2 := c - 1\<rparr>"
proof -
  have c: "c < 0x80000000" "c - 1 < 0x80000000" using assms(3,4) by unat_arith+
  have "\<not> 1024 \<le> mt_PatternPos p + 16" "\<not> 1024 \<le> mt_PatternPos p" using assms(7) by unat_arith+
  then show ?thesis
    using assms small_positive [OF c(1)] small_positive [OF c(2)] by (simp add: mt_dskip_def Let_def)
qed

lemma dskip_first:
  assumes "mt_PattDelTime p = c" "c \<noteq> 0" "c \<le> 16" "mt_PBreakFlag p = 0" "mt_PosJumpFlag p = 0" "mt_PatternPos p < 1008"
  shows "mt_dskip p =
    p\<lparr>mt_PatternPos := mt_PatternPos p + (if c = 1 then 16 else 0), mt_PattDelTime := 0, mt_PattDelTime2 := c - 1\<rparr>"
proof -
  have c: "c < 0x80000000" "c - 1 < 0x80000000" using assms(2,3) by unat_arith+
  have "\<not> 1024 \<le> mt_PatternPos p + 16" "\<not> 1024 \<le> mt_PatternPos p" using assms(6) by unat_arith+
  then show ?thesis
    using assms small_positive [OF c(1)] small_positive [OF c(2)] by (simp add: mt_dskip_def Let_def)
qed

text \<open>The state of the player after \<open>q\<close> whole passes of the row and \<open>r\<close> further ticks, where a pass has
  \<open>s\<close> ticks and the row started at \<open>pos\<close> delays by \<open>x\<close>.\<close>

definition in_row :: "u32 \<Rightarrow> u32 \<Rightarrow> u32 \<Rightarrow> nat \<Rightarrow> nat \<Rightarrow> pt_chn list \<times> player \<Rightarrow> bool" where
  "in_row x s pos q r t \<longleftrightarrow> player_ok t \<and> list_all (\<lambda>ch. ch_delays x ch \<or> ch_keeps ch) (fst t) \<and>
     mt_Enable (snd t) = 1 \<and> mt_speed (snd t) = s \<and> mt_counter (snd t) = of_nat r \<and>
     mt_PosJumpFlag (snd t) = 0 \<and> mt_PBreakFlag (snd t) = 0 \<and> mt_PattDelTime (snd t) = 0 \<and>
     mt_PattDelTime2 (snd t) = of_nat (unat x - q) \<and>
     mt_PatternPos (snd t) = pos + (if q < unat x then 0 else 16)"

lemma first_pass:
  assumes ok: "player_ok (chs, p)" and row: "reads_row p"
    and p: "mt_PattDelTime p = 0" "mt_PBreakFlag p = 0" "mt_PosJumpFlag p = 0" "mt_PatternPos p < 1008"
    and rows: "\<forall>i < 4. row_delays x p (row_address p + 4 * of_nat i) \<or> row_keeps p (row_address p + 4 * of_nat i)"
    and d: "\<exists>i < 4. row_delays x p (row_address p + 4 * of_nat i)"
  shows "\<exists>t. mt_music (chs, p) = Inr t \<and> in_row x (mt_speed p) (mt_PatternPos p) 0 0 t"
proof -
  let ?p = "p\<lparr>mt_counter := 0\<rparr>"
  have s: "same_song p ?p" by (simp add: same_song_def)
  have en: "mt_Enable p = 1" "mt_speed p \<le> mt_counter p + 1" "mt_PattDelTime2 p = 0"
    using row by (simp_all add: reads_row_def)
  obtain chs' p' where t: "mt_music (chs, p) = Inr (chs', p')" "player_ok (chs', p')" using music_safe [OF ok] by blast
  have a: "push_bit 10 (song_byte ?p (952 + mt_SongPos ?p)) + mt_PatternPos ?p = row_address p"
    by (simp add: row_address_def same_song_reads [OF s])
  have m: "mt_music (chs, p) = and_then (voices mt_PlayVoice (row_address p) chs ?p) (\<lambda>(chs, p).
      Inr (chs, mt_dskip (paula (concat (map2 (\<lambda>i ch. set_loop i (n_loopstart ch) (n_replen ch)) [0, 1, 2, 3] chs)) p)))"
    unfolding a [symmetric] using en by (simp add: mt_music_def Let_def and_then_def split: sum.splits)
  obtain q where q: "voices mt_PlayVoice (row_address p) chs ?p = Inr (chs', q)"
    "p' = mt_dskip (paula (concat (map2 (\<lambda>i ch. set_loop i (n_loopstart ch) (n_replen ch)) [0, 1, 2, 3] chs')) q)"
    using t(1) unfolding m by (auto simp: and_then_def split: sum.splits)
  have v: "length chs = 4" "list_all voice_ok chs" "place_ok p" using ok by (simp_all add: player_ok_def)
  have pass: "clock q = clock ?p" "mt_PattDelTime q = x + 1" "list_all (\<lambda>ch. ch_delays x ch \<or> ch_keeps ch) chs'"
  proof -
    have "row_ok ?p (row_address p + 4 * of_nat i)" if "i < length chs" for i
      using song_rows [of chs p i] ok that v(1) by (simp add: same_song_row_ok [OF s] row_address_def)
    moreover have "place_ok ?p" using v(3) by (simp add: place_ok_def)
    ultimately show "clock q = clock ?p" "mt_PattDelTime q = x + 1" "list_all (\<lambda>ch. ch_delays x ch \<or> ch_keeps ch) chs'"
      using PlayVoice_pass [OF q(1) v(2), of x] rows d en(3) v(1) by (simp_all add: same_song_rows [OF s])
  qed
  have x: "x \<le> 15" using d row_delays_bound by blast
  then have u: "unat (x + 1) = unat x + 1" "unat x \<le> 15" by (simp_all add: unat_word_ariths word_le_nat_alt)
  have c: "x + 1 \<noteq> 0" "x + 1 \<le> 16" "x + 1 = 1 \<longleftrightarrow> unat x = 0"
    unfolding word_unat_eq_iff word_le_nat_alt u(1) using u(2) by simp_all
  have "p' = (paula (concat (map2 (\<lambda>i ch. set_loop i (n_loopstart ch) (n_replen ch)) [0, 1, 2, 3] chs')) q)
      \<lparr>mt_PatternPos := mt_PatternPos p + (if x + 1 = 1 then 16 else 0), mt_PattDelTime := 0, mt_PattDelTime2 := x\<rparr>"
    unfolding q(2) using dskip_first [of "paula (concat (map2 (\<lambda>i ch. set_loop i (n_loopstart ch) (n_replen ch)) [0, 1, 2, 3] chs')) q" "x + 1"]
      c(1,2) pass(1,2) p(2-4) by (simp add: clock_def paula_def)
  then have "in_row x (mt_speed p) (mt_PatternPos p) 0 0 (chs', p')"
    using t(2) pass en c(3) p by (simp add: in_row_def clock_def paula_def)
  then show ?thesis using t(1) by blast
qed

lemma next_tick:
  assumes t: "in_row x s pos q r (chs, p)" and s: "Suc r < unat s"
  shows "\<exists>t. mt_music (chs, p) = Inr t \<and> in_row x s pos q (Suc r) t"
proof -
  let ?p = "p\<lparr>mt_counter := mt_counter p + 1\<rparr>"
  have ok: "player_ok (chs, p)" "list_all (\<lambda>ch. ch_delays x ch \<or> ch_keeps ch) chs"
    and p: "mt_Enable p = 1" "mt_speed p = s" "mt_counter p = of_nat r" "mt_PosJumpFlag p = 0" "mt_PBreakFlag p = 0"
      "mt_PattDelTime p = 0" "mt_PattDelTime2 p = of_nat (unat x - q)" "mt_PatternPos p = pos + (if q < unat x then 0 else 16)"
    using t by (simp_all add: in_row_def)
  have "Suc r < 4294967296" using s unat_u32_less [of s] by linarith
  then have "unat (of_nat (Suc r) :: u32) = Suc r" by (rule unat_of_nat_u32)
  then have "of_nat (Suc r) \<noteq> (0 :: u32)" "\<not> s \<le> of_nat (Suc r)"
    using s by (auto simp: word_le_nat_alt simp del: of_nat_Suc)
  then have c: "of_nat r + 1 \<noteq> (0 :: u32)" "\<not> s \<le> of_nat r + 1" by (simp_all add: add.commute)
  obtain chs' p' where m: "mt_music (chs, p) = Inr (chs', p')" "player_ok (chs', p')" using music_safe [OF ok(1)] by blast
  have v: "list_all voice_ok chs" using ok(1) by (simp add: player_ok_def)
  have e: "mt_music (chs, p) = and_then (voices (\<lambda>_. mt_CheckEfx) 0 chs ?p) (\<lambda>(chs, p).
      Inr (chs, if mt_PosJumpFlag p = 1 then mt_nextPosition p else p))"
    using p(1-3) c(2) by (simp add: mt_music_def Let_def)
  obtain q' where q: "voices (\<lambda>_. mt_CheckEfx) 0 chs ?p = Inr (chs', q')"
    "p' = (if mt_PosJumpFlag q' = 1 then mt_nextPosition q' else q')"
    using m(1) unfolding e by (auto simp: and_then_def split: sum.splits)
  note pass = CheckEfx_pass [OF q(1) v ok(2)]
  have k: "clock q' = clock ?p" "mt_PattDelTime q' = 0" "list_all (\<lambda>ch. ch_delays x ch \<or> ch_keeps ch) chs'"
    using pass c(1) p(3,6) by simp_all
  then have "p' = q'" using q(2) p(4) by (simp add: clock_def)
  then have "in_row x s pos q (Suc r) (chs', p')"
    using m(2) k p by (simp add: in_row_def clock_def add.commute)
  then show ?thesis using m(1) by blast
qed

lemma next_pass:
  assumes t: "in_row x s pos q r (chs, p)" and s: "Suc r = unat s" and q: "q < unat x"
    and x: "x \<le> 15" and pos: "pos < 1008"
  shows "\<exists>t. mt_music (chs, p) = Inr t \<and> in_row x s pos (Suc q) 0 t"
proof -
  let ?p = "p\<lparr>mt_counter := 0\<rparr>"
  have ok: "player_ok (chs, p)" "list_all (\<lambda>ch. ch_delays x ch \<or> ch_keeps ch) chs"
    and p: "mt_Enable p = 1" "mt_speed p = s" "mt_counter p = of_nat r" "mt_PosJumpFlag p = 0" "mt_PBreakFlag p = 0"
      "mt_PattDelTime p = 0" "mt_PattDelTime2 p = of_nat (unat x - q)" "mt_PatternPos p = pos"
    using t q by (simp_all add: in_row_def)
  have "of_nat (Suc r) = s" unfolding s by simp
  then have c: "s \<le> of_nat r + 1" by (simp add: add.commute)
  have "unat x \<le> 15" using x by (simp add: word_le_nat_alt)
  then have "unat x - q \<le> 16" "unat x - q \<noteq> 0" "unat x - q = 1 \<longleftrightarrow> \<not> Suc q < unat x" using q by auto
  then have d: "(of_nat (unat x - q) :: u32) \<noteq> 0" "(of_nat (unat x - q) :: u32) \<le> 16"
    "(of_nat (unat x - q) :: u32) = 1 \<longleftrightarrow> \<not> Suc q < unat x"
    by (simp_all only: small_of_nat simp_thms)
  obtain chs' p' where m: "mt_music (chs, p) = Inr (chs', p')" "player_ok (chs', p')" using music_safe [OF ok(1)] by blast
  have v: "list_all voice_ok chs" using ok(1) by (simp add: player_ok_def)
  have e: "mt_music (chs, p) = and_then (voices (\<lambda>_. mt_CheckEfx) 0 chs ?p) (\<lambda>(chs, p). Inr (chs, mt_dskip p))"
    using p(1-3,7) c d(1) by (simp add: mt_music_def Let_def)
  obtain q' where q': "voices (\<lambda>_. mt_CheckEfx) 0 chs ?p = Inr (chs', q')" "p' = mt_dskip q'"
    using m(1) unfolding e by (auto simp: and_then_def split: sum.splits)
  have "mt_counter ?p \<noteq> 0 \<or> mt_PattDelTime2 ?p \<noteq> 0" using p(7) d(1) by simp
  note pass = CheckEfx_pass [OF q'(1) v ok(2) this]
  have "mt_dskip q' = q'\<lparr>mt_PatternPos := mt_PatternPos q' + (if (of_nat (unat x - q) :: u32) = 1 then 16 else 0),
      mt_PattDelTime2 := of_nat (unat x - q) - 1\<rparr>"
    by (rule dskip_delayed) (use pass(1,2) p d(1,2) pos in \<open>simp_all add: clock_def\<close>)
  moreover have "(of_nat (unat x - q) - 1 :: u32) = of_nat (unat x - Suc q)" using q by simp
  ultimately have "in_row x s pos (Suc q) 0 (chs', p')"
    using m(2) pass p d(3) q'(2) by (simp add: in_row_def clock_def)
  then show ?thesis using m(1) by blast
qed

lemma ticks_Suc: "ticks (Suc n) t = and_then (ticks n t) mt_music"
proof (induction n arbitrary: t)
  case 0
  then show ?case by (simp add: and_then_def split: sum.splits)
next
  case (Suc n)
  show ?case
  proof (cases "mt_music t")
    case (Inr u)
    then have "ticks (Suc (Suc n)) t = ticks (Suc n) u" by simp
    also have "\<dots> = and_then (ticks n u) mt_music" by (rule Suc)
    finally show ?thesis using Inr by simp
  qed simp
qed

lemma row_lasts:
  assumes ok: "player_ok (chs, p)" and row: "reads_row p" "0 < mt_speed p"
    and p: "mt_PattDelTime p = 0" "mt_PBreakFlag p = 0" "mt_PosJumpFlag p = 0" "mt_PatternPos p < 1008"
    and rows: "\<forall>i < 4. row_delays x p (row_address p + 4 * of_nat i) \<or> row_keeps p (row_address p + 4 * of_nat i)"
    and d: "\<exists>i < 4. row_delays x p (row_address p + 4 * of_nat i)"
    and n: "n < (unat x + 1) * unat (mt_speed p)"
  shows "\<exists>t. ticks (Suc n) (chs, p) = Inr t \<and>
    in_row x (mt_speed p) (mt_PatternPos p) (n div unat (mt_speed p)) (n mod unat (mt_speed p)) t"
  using n
proof (induction n)
  case 0
  obtain t where "mt_music (chs, p) = Inr t" "in_row x (mt_speed p) (mt_PatternPos p) 0 0 t"
    using first_pass [OF ok row(1) p rows d] by blast
  then show ?case by simp
next
  case (Suc n)
  let ?s = "mt_speed p" and ?k = "unat (mt_speed p)"
  have k: "0 < ?k" using row(2) by (simp add: word_less_nat_alt)
  have x: "x \<le> 15" using d row_delays_bound by blast
  from Suc obtain chs1 p1 where t: "ticks (Suc n) (chs, p) = Inr (chs1, p1)"
    "in_row x ?s (mt_PatternPos p) (n div ?k) (n mod ?k) (chs1, p1)" by fastforce
  have step: "ticks (Suc (Suc n)) (chs, p) = mt_music (chs1, p1)"
    using t(1) ticks_Suc [of "Suc n" "(chs, p)"] by simp
  show ?case
  proof (cases "Suc (n mod ?k) = ?k")
    case False
    then have "Suc (n mod ?k) < ?k" using k mod_less_divisor [of ?k n] by linarith
    moreover have "Suc n div ?k = n div ?k" "Suc n mod ?k = Suc (n mod ?k)"
      using False by (simp_all add: div_Suc mod_Suc)
    ultimately show ?thesis using next_tick [OF t(2)] step by simp
  next
    case True
    then have e: "Suc n div ?k = Suc (n div ?k)" "Suc n mod ?k = 0" by (simp_all add: div_Suc mod_Suc)
    have "Suc n div ?k < unat x + 1" using Suc.prems by (simp add: less_mult_imp_div_less)
    then have "n div ?k < unat x" using e(1) by simp
    then show ?thesis using next_pass [OF t(2) True _ x p(4)] step e by simp
  qed
qed


text \<open>The last tick of the row is the one before a row is read again.\<close>

lemma row_end:
  fixes s x :: u32
  assumes "0 < unat s" "k < (unat x + 1) * unat s" "x \<le> 15"
  shows "s \<le> of_nat (k mod unat s) + 1 \<and> of_nat (unat x - k div unat s) = (0 :: u32) \<longleftrightarrow> Suc k = (unat x + 1) * unat s"
proof -
  let ?q = "k div unat s" and ?r = "k mod unat s"
  have r: "?r < unat s" using assms(1) by simp
  have q: "?q \<le> unat x" using less_mult_imp_div_less [OF assms(2)] by simp
  have "Suc ?r \<le> unat s" using r by simp
  then have "unat (of_nat (Suc ?r) :: u32) = Suc ?r"
    using unat_u32_less [of s] by (intro unat_of_nat_u32) linarith
  then have 1: "s \<le> of_nat ?r + 1 \<longleftrightarrow> Suc ?r = unat s"
    using r by (auto simp: word_le_nat_alt add.commute simp del: of_nat_Suc simp flip: of_nat_Suc)
  have small: "unat x - ?q \<le> 16" using assms(3) by (simp add: word_le_nat_alt)
  have 2: "(of_nat (unat x - ?q) :: u32) = 0 \<longleftrightarrow> ?q = unat x"
    unfolding small_of_nat(2) [OF small] using q by auto
  have k: "k = ?q * unat s + ?r" by simp
  have "Suc k = (unat x + 1) * unat s \<longleftrightarrow> Suc ?r = unat s \<and> ?q = unat x"
  proof
    assume e: "Suc k = (unat x + 1) * unat s"
    have "?q = unat x"
    proof (rule ccontr)
      assume "?q \<noteq> unat x"
      then have "?q + 1 \<le> unat x" using q by simp
      then have "(?q + 1) * unat s \<le> unat x * unat s" by (rule mult_le_mono1)
      moreover have "(?q + 1) * unat s = ?q * unat s + unat s" "(unat x + 1) * unat s = unat x * unat s + unat s"
        by (simp_all add: algebra_simps)
      ultimately show False using e k r by linarith
    qed
    then show "Suc ?r = unat s \<and> ?q = unat x" using e k by (simp add: algebra_simps)
  next
    assume "Suc ?r = unat s \<and> ?q = unat x"
    then show "Suc k = (unat x + 1) * unat s" using k by (simp add: algebra_simps)
  qed
  then show ?thesis using 1 2 by blast
qed

section \<open>Properties\<close>

text \<open>
  C33. The pattern delay EEx makes its row last x + 1 times as long. Take any tick that reads a row in
  which some channel has the command EEx and no channel has a command that changes the timing in
  another way (jumps, breaks, loops, the speed and delays by another amount). Then the player stays at
  the row for x times its speed in ticks, is past it for one more pass, and reads the next row exactly
  after (x + 1) times the speed; in between it neither fails nor reads a row.
\<close>
theorem pattern_delay_repeats_row:
  assumes "player_ok (chs, p)" "reads_row p" "0 < mt_speed p"
    and "mt_PattDelTime p = 0" "mt_PBreakFlag p = 0" "mt_PosJumpFlag p = 0" "mt_PatternPos p < 1008"
    and "\<forall>i < 4. row_delays x p (row_address p + 4 * of_nat i) \<or> row_keeps p (row_address p + 4 * of_nat i)"
    and "\<exists>i < 4. row_delays x p (row_address p + 4 * of_nat i)"
    and "0 < n" "n \<le> (unat x + 1) * unat (mt_speed p)"
  shows "\<exists>chs' p'. ticks n (chs, p) = Inr (chs', p') \<and> player_ok (chs', p') \<and>
    mt_PatternPos p' = mt_PatternPos p + (if n \<le> unat x * unat (mt_speed p) then 0 else 16) \<and>
    (reads_row p' \<longleftrightarrow> n = (unat x + 1) * unat (mt_speed p))"
proof -
  obtain k where k: "n = Suc k" using assms(10) by (cases n) simp_all
  let ?s = "unat (mt_speed p)"
  have s: "0 < ?s" using assms(3) by (simp add: word_less_nat_alt)
  have "k < (unat x + 1) * ?s" using assms(11) k by simp
  then obtain chs' p' where t: "ticks n (chs, p) = Inr (chs', p')"
    "in_row x (mt_speed p) (mt_PatternPos p) (k div ?s) (k mod ?s) (chs', p')"
    using row_lasts [OF assms(1-9), of k] k by auto
  have e: "player_ok (chs', p')" "mt_PatternPos p' = mt_PatternPos p + (if k div ?s < unat x then 0 else 16)"
    "mt_Enable p' = 1" "mt_speed p' = mt_speed p" "mt_counter p' = of_nat (k mod ?s)"
    "mt_PattDelTime2 p' = of_nat (unat x - k div ?s)"
    using t(2) by (simp_all add: in_row_def)
  have "k div ?s < unat x \<longleftrightarrow> n \<le> unat x * ?s"
    using s k by (simp add: div_less_iff_less_mult Suc_le_eq)
  moreover have "reads_row p' \<longleftrightarrow> n = (unat x + 1) * ?s"
    using row_end [OF s \<open>k < (unat x + 1) * ?s\<close>] e(3-6) row_delays_bound assms(9) k by (auto simp: reads_row_def)
  ultimately show ?thesis using t(1) e(1,2) by auto
qed


text \<open>A song whose first row delays by 3 on its first channel.\<close>

definition delayed_song :: player where
  "delayed_song = sample_player\<lparr>mt_Enable := 1, mt_speed := 6, mt_counter := 5,
     ram := (\<lambda>_. 0)(1086 := 0x0E, 1087 := 0xE3)\<rparr>"

lemma delayed_byte: "song_byte delayed_song i = (if i = 1086 then 0x0E else if i = 1087 then 0xE3 else 0)"
  by (simp add: song_byte_def delayed_song_def sample_player_def)

lemma delayed_song_ok: "song_ok delayed_song"
proof -
  have row: "row_ok delayed_song a" if a: "a = 4 * z" for a z :: u32
  proof -
    have "unat a mod 4 = 0" by (simp add: a unat_word_ariths mod_mod_cancel)
    moreover have "unat (- 1 :: u32) = 4294967295" by (simp add: unsigned_minus_1_eq_mask mask_eq_exp_minus_1)
    ultimately have d: "a \<noteq> 1" "a \<noteq> 2" "a \<noteq> 3" "a \<noteq> - 1" by auto
    have e: "1084 + a = 1086 \<longleftrightarrow> a = 2" "1084 + a = 1087 \<longleftrightarrow> a = 3"
      "1084 + a + 1 = 1086 \<longleftrightarrow> a = 1" "1084 + a + 1 = 1087 \<longleftrightarrow> a = 2"
      "1084 + a + 2 = 1086 \<longleftrightarrow> a = 0" "1084 + a + 2 = 1087 \<longleftrightarrow> a = 1"
      "1084 + a + 3 = 1086 \<longleftrightarrow> a = - 1" "1084 + a + 3 = 1087 \<longleftrightarrow> a = 0"
      using add_left_cancel [of "1084 :: u32" a 2] add_left_cancel [of "1084 :: u32" a 3]
        add_left_cancel [of "1085 :: u32" a 1] add_left_cancel [of "1085 :: u32" a 2]
        add_left_cancel [of "1086 :: u32" a 0] add_left_cancel [of "1086 :: u32" a 1]
        add_left_cancel [of "1087 :: u32" a "- 1"] add_left_cancel [of "1087 :: u32" a 0]
      by (simp_all add: add.commute add.left_commute)
    have "song_byte delayed_song (1084 + a) = 0" "song_byte delayed_song (1084 + a + 1) = 0"
      "song_byte delayed_song (1084 + a + 2) = (if a = 0 then 0x0E else 0)"
      "song_byte delayed_song (1084 + a + 3) = (if a = 0 then 0xE3 else 0)"
      unfolding delayed_byte e using d by simp_all
    then show ?thesis by (simp add: row_ok_def song_word_def)
  qed
  have "song_byte delayed_song (952 + pos) = 0" if "pos < 128" for pos
  proof -
    have "unat (952 + pos) = 952 + unat pos" "unat pos < 128"
      using that by (simp_all add: unat_word_ariths word_less_nat_alt)
    then have "952 + pos \<noteq> 1086" "952 + pos \<noteq> 1087" by auto
    then show ?thesis by (simp add: delayed_byte)
  qed
  then show ?thesis
    unfolding song_ok_def using row [of _ "4 * of_nat r + of_nat i" for r i] by (simp add: algebra_simps)
qed

lemma pattern_delay_repeats_row_witness:
  "(\<exists>chs p. ticks 18 (initial_channels, delayed_song) = Inr (chs, p) \<and> mt_PatternPos p = 0 \<and> \<not> reads_row p) \<and>
   (\<exists>chs p. ticks 24 (initial_channels, delayed_song) = Inr (chs, p) \<and> mt_PatternPos p = 16 \<and> reads_row p)"
proof -
  have ok: "player_ok (initial_channels, delayed_song)"
    by (simp add: player_ok_def delayed_song_ok)
      (simp add: initial_channels_def initial_channel_def voice_ok_def command_ok_def place_ok_def delayed_song_def sample_player_def)
  have p: "reads_row delayed_song" "0 < mt_speed delayed_song" "mt_PattDelTime delayed_song = 0"
    "mt_PBreakFlag delayed_song = 0" "mt_PosJumpFlag delayed_song = 0" "mt_PatternPos delayed_song < 1008"
    "mt_PatternPos delayed_song = 0" "mt_speed delayed_song = 6"
    by (simp_all add: reads_row_def delayed_song_def sample_player_def)
  have a: "row_address delayed_song = 0"
    unfolding row_address_def delayed_byte by (simp add: delayed_song_def sample_player_def)
  have c: "row_delays 3 delayed_song 0" "row_keeps delayed_song 4" "row_keeps delayed_song 8" "row_keeps delayed_song 12"
    by (simp_all add: row_delays_def row_keeps_def delay_cmd_def keep_cmd_def delayed_byte)
  have "i = 0 \<or> i = 1 \<or> i = 2 \<or> i = 3" if "i < 4" for i :: nat using that by linarith
  then have r: "\<forall>i < 4. row_delays 3 delayed_song (row_address delayed_song + 4 * of_nat i) \<or>
      row_keeps delayed_song (row_address delayed_song + 4 * of_nat i)"
    unfolding a using c by fastforce
  have d: "\<exists>i < 4. row_delays 3 delayed_song (row_address delayed_song + 4 * of_nat i)"
    unfolding a by (rule exI [of _ 0]) (simp add: c(1))
  show ?thesis
    using pattern_delay_repeats_row [OF ok p(1-6) r d, of 18] pattern_delay_repeats_row [OF ok p(1-6) r d, of 24] p(7,8)
    by auto
qed

end
