(* ===== verification/Spec2Isabelle.thy ===== *)
theory Spec2Isabelle
  imports Browser Heap Keyboard TextBuffer Devices Modplayer Demo Memcheck Formats ImageLoad Console Stdio RowDelay
begin

text \<open>
  A verification development for the firmware of TG68_MiniSOC, a system-on-chip around a 68000
  processor with an SD card, PS/2 ports, a text overlay, a frame buffer, a serial port and four
  sound channels. The C code of \<^verbatim>\<open>Firmware_Common\<close> is the library of every program of
  the repository; the programs are under \<^verbatim>\<open>Apps\<close>.

  \<^bold>\<open>Conventions.\<close> The target is big-endian with \<open>int\<close>, \<open>long\<close> and pointers of 32 bits,
  \<open>short\<close> of 16 and signed \<open>char\<close> of 8 (theory \<open>Prelude\<close>: the types \<open>u8\<close>, \<open>u16\<close>, \<open>u32\<close>, \<open>u64\<close>
  and the loads and stores of byte buffers). Machine integers are words, so every wrap-around of
  the code is in the model; a C variable that only counts or indexes within known bounds is a
  \<open>nat\<close> or \<open>int\<close>. Global variables are the fields of one record per source file, passed and
  returned. A function that may not return is a \<open>partial_function (option)\<close> and \<open>None\<close> is its not
  returning; a loop with a bound of the code is structural recursion or \<open>function\<close> with a measure,
  so no fuel has been chosen anywhere. Reads and writes outside of an array are values of their
  own (\<open>None\<close>, an error, or a list of stray writes). Console output is left out unless it is the
  subject (\<open>printf\<close>).

  \<^bold>\<open>Disk.\<close> \<^verbatim>\<open>fat.c\<close> calls the two sector functions of \<^verbatim>\<open>spi.c\<close>; \<^verbatim>\<open>rafile.c\<close>
  calls \<^verbatim>\<open>fat.c\<close>.
  \<^item> \<open>BlockDev\<close> is the interface between the first two: the record \<open>sd_ops\<close> of the operations
    and the locale \<open>block_device\<close> of the laws of a driver that serves an image.
  \<^item> \<open>Spi\<close> models \<^verbatim>\<open>spi.c\<close> and \<^verbatim>\<open>spi_readsector.s\<close> byte by byte over a bus, which is
    a parameter (the card and the wires). The coinductive predicate \<open>serving\<close> states the documented
    answers of a card, and the locale is interpreted on the driver over such a bus.
    \<open>SampleCard\<close> is a concrete bus for the witnesses.
  \<^item> \<open>Swap\<close> models \<^verbatim>\<open>swap.c\<close>; \<open>Fat\<close> the globals of \<^verbatim>\<open>fat.c\<close> (record \<open>fatst\<close>), the open file
    (\<open>fileTYPE\<close>) and \<open>FindDrive\<close>; \<open>FatChain\<close> the functions on the cluster chain with its reference
    \<open>chain_link\<close>, which reads the table on the card instead of the one-sector buffer; \<open>Volume\<close>
    states its lemmas for the driver: the buffer is transparent, \<open>FileSeek\<close> follows the chain.
  \<^item> \<open>FatDir\<close> models \<open>FileOpen\<close>, \<open>FileCreate\<close>, \<open>UpdateEntry\<close>; the directory is specified as the list
    of its slots. Its lemmas \<open>create_at_correct\<close> and \<open>UpdateEntry_correct\<close> state what the last two
    write with a driver that writes. That of \<^verbatim>\<open>spi.c\<close> does not (\<open>sd_write_sector\<close> is a stub that
    returns 0): \<open>FatCreate\<close> follows \<open>FileCreate\<close> over a directory to its first empty slot and through the
    search of the table, whatever the writes return, and \<open>Directory\<close> states for that driver what
    \<open>FileOpen\<close> finds, what \<open>FileCreate\<close> returns and leaves in the buffered table, and what
    \<open>UpdateEntry\<close> leaves in the buffered sector.
  \<^item> \<open>FatScan\<close> models \<open>ScanDirectory\<close> with its window of eight entries, the permutation
    \<open>sort_table\<close> and the long names; \<open>Browser\<close> shows that the first scan displays the first eight of
    the stably sorted entries and that a scan in any mode returns and keeps the window well formed,
    unless a long name would be stored outside of its buffer. In \<open>lfn_entry\<close> such a store is \<open>None\<close>.
  \<^item> \<open>RaFile\<close> models \<^verbatim>\<open>rafile.c\<close>; \<open>RaVolume\<close> shows that reads return the bytes of the file, and the
    two faults of the code (short reads inside of a sector, the unit of \<open>RASeek\<close>).

  \<^bold>\<open>C library\<close> (\<^verbatim>\<open>Firmware_Common/klibc\<close>).
  \<^item> \<open>Cmem\<close> and \<open>Cstring\<close>: memory and string functions on the 32 bit memory and on byte readers.
  \<^item> \<open>Chain\<close>, \<open>Malloc\<close>, \<open>Heap\<close>: the allocator on its two circular lists of headers (each field of a
    header a function from addresses, which is right as long as headers do not overlap; the one split
    that lays a header over another is written out in \<open>malloc_from_block\<close>), the abstraction to a list of
    blocks, first fit, disjointness of all blocks in use in every history of calls, and \<open>zalloc\<close>, \<open>calloc\<close>, \<open>realloc\<close> with the memory.
  \<^item> \<open>Ctype\<close>, \<open>Strnto\<close>: the character table, and \<open>strntoumax\<close>.
  \<^item> \<open>Vsnprintf\<close> models \<^verbatim>\<open>vsnprintf.c\<close> as the loop of the code over the format; \<open>Printf\<close> gives the
    text a format means without buffers or addresses and shows that the code stores a prefix of it.
    Widths and precisions beyond the range of \<open>int\<close> are undefined in C and exact integers here.
  \<^item> \<open>Vsscanf\<close> models \<^verbatim>\<open>vsscanf.c\<close> as the loop of the code over the format with its states;
    \<open>ScanSafe\<close> shows that it returns and writes only to the blocks of its arguments, and what goes wrong
    after a set. \<open>PrintScan\<close> and \<open>Formats\<close> compose printing and parsing to round trips.
  \<^item> \<open>Stdio\<close> models \<^verbatim>\<open>printf.c\<close> and \<^verbatim>\<open>getenv.c\<close>; \<open>Console\<close> models \<^verbatim>\<open>small_printf.c\<close>, the reduced
    \<open>printf\<close> of the boot messages, and shows what it prints for one number and for a second one.

  \<^bold>\<open>System calls and programs.\<close>
  \<^item> \<open>Syscalls\<close> models \<^verbatim>\<open>syscalls.c\<close>: the descriptors over the heap, \<open>RaFile\<close> and the serial port, with
    the lemmas on the life of a descriptor.
  \<^item> \<open>Modplayer\<close> models \<^verbatim>\<open>Apps/Modplayer/main.c\<close>; the root theory carries a module from the card
    through \<open>LoadFile\<close> and the heap to the player.
  \<^item> \<open>Demo\<close> models the interrupt handlers of \<^verbatim>\<open>Apps/Demo/main.c\<close> over \<open>Ps2\<close>, \<open>Keyboard\<close> and
    \<open>TextBuffer\<close>; the root theory states what is on the screen (text and sprite) after a sequence of frames. Bytes that
    arrive while the handler runs are left for the next frame. \<open>ImageLoad\<close> models its image mode.
  \<^item> \<open>Memcheck\<close> models the memory tests of \<^verbatim>\<open>SanityCheck/Firmware/main.c\<close> and of the demo over a
    memory that is a parameter, and shows that working memory passes and a stuck bit is reported.

  \<^bold>\<open>Devices.\<close>
  \<^item> \<open>Ps2\<close> models the ring buffers and the interrupt handler of \<^verbatim>\<open>ps2.c\<close>; the values of the
    hardware registers are inputs. The locale \<open>bounded_queue\<close> is interpreted on the receiving and on
    the sending side; the properties hold for every interleaving of interrupts and calls.
  \<^item> \<open>Keyboard\<close> models \<^verbatim>\<open>keyboard.c\<close> over these buffers, with the writes outside of the key
    table recorded; the bytes that arrive while \<open>HandlePS2RawCodes\<close> runs are left for its next call.
  \<^item> \<open>TextBuffer\<close> models \<^verbatim>\<open>textbuffer.c\<close> and shows that it implements a list of lines.
  \<^item> \<open>Devices\<close> models \<^verbatim>\<open>vga.c\<close>, \<^verbatim>\<open>uart.c\<close> and the table of \<^verbatim>\<open>interrupts.c\<close>.

  \<^bold>\<open>ProTracker player\<close> (\<^verbatim>\<open>Apps/Modplayer/replay.c\<close>).
  \<^item> \<open>Replay\<close> models every effect, the rows, the samples and the timer tick over a module in memory,
    with the writes to the sound channels and the timer as a list; \<open>Song\<close> shows that a well-formed
    module plays for ever without a read outside of a table, what the pattern loop does, and the
    effects that go wrong. \<open>RowDelay\<close> separates the commands that touch the clock of the player from
    those that do not, and counts the ticks of a row with a pattern delay.

  \<^bold>\<open>Not modelled.\<close> \<^verbatim>\<open>Apps/JPEG/jpeg-6b\<close> is the vendored library of the Independent JPEG Group
  and \<^verbatim>\<open>junixio.c\<close>, \<^verbatim>\<open>stubs.c\<close> and \<^verbatim>\<open>main.c\<close> beside it are glue; \<^verbatim>\<open>dhry_1.c\<close>,
  \<^verbatim>\<open>dhry_2.c\<close> are the Dhrystone benchmark. \<^verbatim>\<open>Apps/Demo/fat.c\<close> is a copy of
  \<^verbatim>\<open>Firmware_Common/fat.c\<close> that differs in the types of the results, of which all fit, and in messages;
  the copies of \<^verbatim>\<open>uart.c\<close> and \<^verbatim>\<open>textbuffer.c\<close> beside some programs are left out as well. \<^verbatim>\<open>romgen.c\<close> runs on the
  host. Of \<^verbatim>\<open>syscalls.c\<close> the functions
  without a state (\<open>isatty\<close>, \<open>ftruncate\<close>, \<open>_sbrk\<close>, \<open>exit\<close>) and the conversions that nothing calls. The
  main loop of the demo that maps keys to modes and the programs \<^verbatim>\<open>Screenmodes\<close>, \<^verbatim>\<open>Rectangles\<close>,
  \<^verbatim>\<open>SoundCheck\<close>, \<^verbatim>\<open>Filesystem\<close> and \<^verbatim>\<open>HelloWorld\<close> are sequences of calls of the library. The hardware
  (\<^verbatim>\<open>RTL\<close>) is the environment: its documented behaviour is a hypothesis or an input. In the player the
  installation of the interrupt handler and the endless loop of \<open>ptBuddyPlay\<close> are left out.
\<close>

section \<open>From the card to the sound\<close>

text \<open>
  C1. A module on the card is played: when the file can be loaded and its bytes are a well-formed
  module, the player's \<open>main\<close> starts it, and however many timer ticks follow, the player reads inside of its
  tables, divides by nothing that is zero, and keeps its position inside of the song.
\<close>
theorem module_on_card_plays:
  assumes "can_load x img k name s f q" "module_ok (file_bytes img k (fs s) f 0 (unat (fsize f)))"
  shows "\<exists>s' p0. modplayer_main (spi_ops x) name p s = Some (Inr (Some (Inr p0), s')) \<and>
    (\<forall>n. \<exists>chs' p'. ticks n (initial_channels, p0) = Inr (chs', p') \<and> player_ok (chs', p'))"
proof -
  let ?bs = "file_bytes img k (fs s) f 0 (unat (fsize f))"
  obtain s' where load: "LoadFile (spi_ops x) name s = Some (Inr (q, s'))"
    and mem: "memory s' = (\<lambda>a. if a \<in> span q (unat (fsize f)) then ?bs ! unat (a - q) else memory s a)"
    using can_load_loads [OF assms(1)] by blast
  have "q \<noteq> 0" using assms(1) by (simp add: can_load_def)
  moreover obtain p0 where start: "ptBuddyPlay q 0 (p\<lparr>ram := memory s'\<rparr>) = Inr p0"
    and p0: "ram p0 = memory s'" "mt_SongDataPtr p0 = q"
    by (rule ptBuddyPlay_starts [of q 0 "p\<lparr>ram := memory s'\<rparr>"]) simp
  ultimately have "modplayer_main (spi_ops x) name p s = Some (Inr (Some (Inr p0), s'))"
    using load by (simp add: modplayer_main_def)
  moreover have "song_ok p0"
    using loaded_song_ok [OF assms(2), of q p0] p0 mem by simp
  ultimately show ?thesis using started_song_plays [OF start] by blast
qed

lemma module_on_card_plays_witness:
  "\<exists>s' p0. modplayer_main (spi_ops (sample_bus module_image)) 0 sample_player sample_sys = Some (Inr (Some (Inr p0), s')) \<and>
    (\<exists>chs' p'. ticks 5000 (initial_channels, p0) = Inr (chs', p') \<and> player_ok (chs', p'))"
proof -
  have b: "file_bytes module_image 0 (fs sample_sys) module_file 0 (unat (fsize module_file)) = replicate 2108 0"
    by (simp add: module_bytes module_slot(2) sample_sys_def)
  have "module_ok (replicate 2108 0)"
    using empty_module_ok [of 2108] by simp
  then show ?thesis
    using module_on_card_plays [OF module_can_load, of sample_player] unfolding b by blast
qed

section \<open>From the ports to the screen\<close>

text \<open>
  C2. The demo shows what is typed and pointed at: however the PS/2 interrupts deliver the bytes, as
  long as at most 31 arrive at each port during a frame and every frame ends with whole packets of
  the mouse, after any number of frames the pointer is where the movements of all packets, each
  clipped to the screen, have taken it, the position registers of the sprite that shows it hold its
  coordinates (from the first frame on), and the text screen shows all characters typed, in order.
\<close>
theorem demo_shows_input:
  assumes "ps2_ok s" "textbuffer_ok tb" "mousemode d = 0" "on_screen d"
    and "unread (mousebuffer s) = []" "unread (kbbuffer s) = []"
    and "list_all2 (\<lambda>f ps. arrived Mouse (fst f) = concat (map packet_bytes ps)) frames pss"
    and "\<forall>f \<in> set frames. \<forall>p. length (arrived p (fst f)) \<le> 31"
    and "keys_text (concat (map (\<lambda>f. arrived port.Keyboard (fst f)) frames)) kb = Inr (t, False, kb')"
  shows "\<exists>s' tb' d'. demo_run frames (s, kb, tb, d) = Some (Inr (s', kb', tb', d')) \<and>
    on_screen d' \<and> pointer d' = fold move (concat pss) (pointer d) \<and>
    (sint (sp0xpos d'), sint (sp0ypos d')) =
      (if frames = [] then (sint (sp0xpos d), sint (sp0ypos d)) else pointer d') \<and>
    textbuffer_ok tb' \<and> screen_of tb' = fold put_char t (screen_of tb)"
  by (rule demo_run_shows_input [OF assms])

lemma demo_shows_input_witness:
  "\<exists>s' kb' tb' d'. demo_run [([(0x081C, 0x0818), (0x0832, 0x08FE), (0, 0x0805)], [])]
      (keyboard_sends [], sample_keyboard, sample_textbuffer, sample_demo) = Some (Inr (s', kb', tb', d')) \<and>
    pointer d' = (318, 235) \<and> sint (sp0xpos d') = 318 \<and> sint (sp0ypos d') = 235 \<and>
    screen_of tb' = fold put_char [97, 98] (screen_of sample_textbuffer)"
proof -
  let ?frames = "[([(0x081C, 0x0818), (0x0832, 0x08FE), (0, 0x0805)], [])] :: ((u16 \<times> u16) list \<times> irqs list) list"
  have s: "ps2_ok (keyboard_sends [])" "unread (mousebuffer (keyboard_sends [])) = []" "unread (kbbuffer (keyboard_sends [])) = []"
    by code_simp+
  have d: "mousemode sample_demo = 0" "on_screen sample_demo" "pointer sample_demo = (320, 240)"
    by (simp_all add: sample_demo_def on_screen_def pointer_def)
  have f: "list_all2 (\<lambda>f ps. arrived Mouse (fst f) = concat (map packet_bytes ps)) ?frames [[(0x18, 0xFE, 5)]]"
    "arrived port.Keyboard (fst (hd ?frames)) = [0x1C, 0x32]" "arrived Mouse (fst (hd ?frames)) = [0x18, 0xFE, 5]"
    by (simp_all add: arrived_def received_def port_reg_def packet_bytes_def)
  have n: "\<forall>f \<in> set ?frames. \<forall>p. length (arrived p (fst f)) \<le> 31"
    by (auto intro: order_trans [OF arrived_length])
  have k: "\<exists>kb'. keys_text (concat (map (\<lambda>f. arrived port.Keyboard (fst f)) ?frames)) sample_keyboard = Inr ([97, 98], False, kb')"
    using f(2) by (simp add: handle_code_def key_char_def sample_keyboard_def kblookup_def Let_def)
  then obtain kb' where "keys_text (concat (map (\<lambda>f. arrived port.Keyboard (fst f)) ?frames)) sample_keyboard = Inr ([97, 98], False, kb')"
    by blast
  from demo_shows_input [OF s(1) sample_textbuffer_ok d(1,2) s(2,3) f(1) n this]
  show ?thesis by (auto simp: d(3) move_def delta_def)
qed

end
